(* ===== verification/Prelude.thy ===== *)
theory Prelude
  imports Main "HOL-Library.Word" "HOL-Library.Monad_Syntax" "HOL-Library.Signed_Division"
begin

text \<open>
  What every component shares: the machine types of the sources, bounds-checked memory
  blocks (an out-of-bounds access of C is the value None), C's integer conversions and
  truncating division on int, and the lemma collections \<open>mem_simps\<close> (memory blocks) and
  \<open>conv_simps\<close> (integer conversions).
\<close>

unbundle bit_operations_syntax

section \<open>Lemma collections\<close>

named_theorems mem_simps \<open>reads and writes of a memory block that are in range\<close>
named_theorems conv_simps \<open>integer conversions of values that already fit\<close>

section \<open>Machine types\<close>

type_synonym byte = "8 word"
type_synonym u16 = "16 word"
type_synonym u32 = "32 word"
type_synonym u64 = "64 word"

section \<open>Memory blocks\<close>

text \<open>
  A block of memory is a list, a pointer into it an offset. Each access checks the bounds,
  and an access outside the block, which is undefined behaviour in C, is None.
\<close>

definition mem_get :: "'a list \<Rightarrow> nat \<Rightarrow> 'a option" where
  "mem_get buf i = (if i < length buf then Some (buf ! i) else None)"

definition mem_set :: "'a list \<Rightarrow> nat \<Rightarrow> 'a \<Rightarrow> 'a list option" where
  "mem_set buf i x = (if i < length buf then Some (buf[i := x]) else None)"

definition mem_read :: "'a list \<Rightarrow> nat \<Rightarrow> nat \<Rightarrow> 'a list option" where
  "mem_read buf off n = (if off + n \<le> length buf then Some (take n (drop off buf)) else None)"

definition mem_write :: "'a list \<Rightarrow> nat \<Rightarrow> 'a list \<Rightarrow> 'a list option" where
  "mem_write buf off xs =
     (if off + length xs \<le> length buf
      then Some (take off buf @ xs @ drop (off + length xs) buf) else None)"

lemma mem_get_in [mem_simps]: "i < length buf \<Longrightarrow> mem_get buf i = Some (buf ! i)"
  by (simp add: mem_get_def)

lemma mem_get_Cons_0 [simp]: "mem_get (x # xs) 0 = Some x"
  by (simp add: mem_get_def)

lemma mem_set_in [mem_simps]: "i < length buf \<Longrightarrow> mem_set buf i x = Some (buf[i := x])"
  by (simp add: mem_set_def)

lemma mem_read_in [mem_simps]:
  "off + n \<le> length buf \<Longrightarrow> mem_read buf off n = Some (take n (drop off buf))"
  by (simp add: mem_read_def)

lemma mem_read_all [simp]: "mem_read xs 0 (length xs) = Some xs"
  by (simp add: mem_read_def)

lemma mem_write_in [mem_simps]:
  "off + length xs \<le> length buf
    \<Longrightarrow> mem_write buf off xs = Some (take off buf @ xs @ drop (off + length xs) buf)"
  by (simp add: mem_write_def)

lemma mem_write_out [mem_simps]:
  "length buf < off + length xs \<Longrightarrow> mem_write buf off xs = None"
  by (simp add: mem_write_def)

lemma mem_write_length: "mem_write buf off xs = Some buf' \<Longrightarrow> length buf' = length buf"
  by (auto simp: mem_write_def split: if_splits)

lemma mem_write_Some:
  "mem_write buf off xs = Some buf' \<longleftrightarrow>
     off + length xs \<le> length buf \<and> buf' = take off buf @ xs @ drop (off + length xs) buf"
  by (auto simp: mem_write_def)

lemma mem_write_take:
  "mem_write buf off xs = Some buf' \<Longrightarrow> take (off + length xs) buf' = take off buf @ xs"
  by (auto simp: mem_write_def split: if_splits)

section \<open>C integer conversions on int\<close>

text \<open>
  A value of a C integer type is an int in the type's range; an assignment to a narrower
  type reduces it. Signed conversion is two's complement.
\<close>

definition to_u8 :: "int \<Rightarrow> int" where "to_u8 x = x mod 256"
definition to_u16 :: "int \<Rightarrow> int" where "to_u16 x = x mod 65536"
definition to_u32 :: "int \<Rightarrow> int" where "to_u32 x = x mod 4294967296"
definition to_s16 :: "int \<Rightarrow> int" where "to_s16 x = (x + 32768) mod 65536 - 32768"
definition to_s32 :: "int \<Rightarrow> int" where
  "to_s32 x = (x + 2147483648) mod 4294967296 - 2147483648"

definition is_s16 :: "int \<Rightarrow> bool" where "is_s16 x \<longleftrightarrow> -32768 \<le> x \<and> x \<le> 32767"
definition is_s32 :: "int \<Rightarrow> bool" where
  "is_s32 x \<longleftrightarrow> -2147483648 \<le> x \<and> x \<le> 2147483647"

lemma to_u8_id [conv_simps]: "0 \<le> x \<Longrightarrow> x < 256 \<Longrightarrow> to_u8 x = x"
  by (simp add: to_u8_def)

lemma to_u16_id [conv_simps]: "0 \<le> x \<Longrightarrow> x < 65536 \<Longrightarrow> to_u16 x = x"
  by (simp add: to_u16_def)

lemma to_u32_id [conv_simps]: "0 \<le> x \<Longrightarrow> x < 4294967296 \<Longrightarrow> to_u32 x = x"
  by (simp add: to_u32_def)

lemma to_s16_id [conv_simps]: "-32768 \<le> x \<Longrightarrow> x \<le> 32767 \<Longrightarrow> to_s16 x = x"
  by (simp add: to_s16_def)

lemma to_s32_id [conv_simps]: "-2147483648 \<le> x \<Longrightarrow> x \<le> 2147483647 \<Longrightarrow> to_s32 x = x"
  by (simp add: to_s32_def)

lemma to_u8_range: "0 \<le> to_u8 x \<and> to_u8 x < 256"
  by (simp add: to_u8_def)

lemma to_u16_range: "0 \<le> to_u16 x \<and> to_u16 x < 65536"
  by (simp add: to_u16_def)

lemma to_s16_range: "is_s16 (to_s16 x)"
  unfolding is_s16_def to_s16_def
  using pos_mod_bound [of 65536 "x + 32768"] pos_mod_sign [of 65536 "x + 32768"] by linarith

lemma to_s32_range: "is_s32 (to_s32 x)"
  unfolding is_s32_def to_s32_def
  using pos_mod_bound [of 4294967296 "x + 2147483648"]
    pos_mod_sign [of 4294967296 "x + 2147483648"] by linarith

text \<open>A length stored in 16 bits.\<close>

definition nat16 :: "nat \<Rightarrow> nat" where "nat16 n = nat (to_u16 (int n))"

lemma nat16_mod [simp]: "nat16 n = n mod 65536"
  by (simp add: nat16_def to_u16_def nat_mod_distrib)

section \<open>Truncating division\<close>

text \<open>C's \<open>/\<close> on signed integers truncates towards zero; it is \<open>sdiv\<close> of the library.\<close>

lemma sdiv_pos: "0 \<le> a \<Longrightarrow> 0 < b \<Longrightarrow> a sdiv b = a div b" for a b :: int
  by (cases "a = 0") (auto simp: signed_divide_int_def sgn_if zero_less_mult_iff)

lemma sdiv_neg: "a < 0 \<Longrightarrow> 0 < b \<Longrightarrow> a sdiv b = - ((- a) div b)" for a b :: int
  by (auto simp: signed_divide_int_def sgn_if mult_less_0_iff)

lemma sdiv_mono: "a \<le> a' \<Longrightarrow> 0 < b \<Longrightarrow> a sdiv b \<le> a' sdiv b" for a a' b :: int
proof (cases "0 \<le> a")
  case True
  assume "a \<le> a'" "0 < b"
  with True show ?thesis by (simp add: sdiv_pos zdiv_mono1)
next
  case False
  assume *: "a \<le> a'" "0 < b"
  show ?thesis
  proof (cases "0 \<le> a'")
    case True
    with False * have "a sdiv b \<le> 0" by (simp add: sdiv_neg pos_imp_zdiv_nonneg_iff)
    also have "0 \<le> a' sdiv b" using True * by (simp add: sdiv_pos pos_imp_zdiv_nonneg_iff)
    finally show ?thesis .
  next
    case False': False
    with False * show ?thesis by (simp add: sdiv_neg zdiv_mono1)
  qed
qed

section \<open>Bytes\<close>

lemma byte_bound [simp]: "unat (x :: byte) < 256"
  using unsigned_less [of x] by simp

lemma byte_le_255 [simp]: "unat (x :: byte) \<le> 255"
  using byte_bound [of x] by linarith

lemma unat_of_nat_byte [simp]: "n < 256 \<Longrightarrow> unat (of_nat n :: byte) = n"
  by (simp add: unat_of_nat)

lemma byte_less_nat: "(x :: byte) < y \<longleftrightarrow> unat x < unat y"
  by (rule word_less_nat_alt)

lemma byte_le_nat: "(x :: byte) \<le> y \<longleftrightarrow> unat x \<le> unat y"
  by (rule word_le_nat_alt)

lemma unat_add_byte: "unat (x :: byte) + unat y < 256 \<Longrightarrow> unat (x + y) = unat x + unat y"
  by (simp add: unat_word_ariths)

lemma unat_sub_byte: "y \<le> x \<Longrightarrow> unat ((x :: byte) - y) = unat x - unat y"
  by (simp add: unat_sub)

lemma unat_add_below: "unat (x :: byte) + unat y < unat (z :: byte) \<Longrightarrow> unat (x + y) = unat x + unat y"
  using byte_bound [of z] unat_add_byte [of x y] by linarith

lemma byte_of_unat: "unat (x :: byte) = n \<Longrightarrow> x = of_nat n"
  by auto

section \<open>Running a machine over a list of inputs\<close>

text \<open>
  A component with state is a step \<open>'s \<Rightarrow> 'i \<Rightarrow> ('s \<times> 'o) option\<close>; None is undefined
  behaviour. \<open>run_steps\<close> runs it over a list of inputs and collects the outputs, \<open>run_ok\<close>
  says that each input meets the step's precondition in the state it arrives in.
\<close>

fun run_steps :: "('s \<Rightarrow> 'i \<Rightarrow> ('s \<times> 'o) option) \<Rightarrow> 's \<Rightarrow> 'i list \<Rightarrow> ('s \<times> 'o list) option" where
  "run_steps step s [] = Some (s, [])"
| "run_steps step s (i # is) =
     do {
       (s1, out) \<leftarrow> step s i;
       (s2, outs) \<leftarrow> run_steps step s1 is;
       Some (s2, out # outs)
     }"

fun run_ok :: "('s \<Rightarrow> 'i \<Rightarrow> bool) \<Rightarrow> ('s \<Rightarrow> 'i \<Rightarrow> ('s \<times> 'o) option) \<Rightarrow> 's \<Rightarrow> 'i list \<Rightarrow> bool" where
  "run_ok ok step s [] = True"
| "run_ok ok step s (i # is) =
     (ok s i \<and> (case step s i of None \<Rightarrow> True | Some (s1, out) \<Rightarrow> run_ok ok step s1 is))"

text \<open>The contract of a component whose steps keep an invariant and never fail when guarded.\<close>

locale guarded_machine =
  fixes step :: "'s \<Rightarrow> 'i \<Rightarrow> ('s \<times> 'o) option"
    and inv :: "'s \<Rightarrow> bool"
    and ok :: "'s \<Rightarrow> 'i \<Rightarrow> bool"
  assumes step_safe: "inv s \<Longrightarrow> ok s i \<Longrightarrow> \<exists>s' out. step s i = Some (s', out) \<and> inv s'"
begin

lemma run_safe:
  "inv s \<Longrightarrow> run_ok ok step s is
    \<Longrightarrow> \<exists>s' outs. run_steps step s is = Some (s', outs) \<and> inv s' \<and> length outs = length is"
proof (induction "is" arbitrary: s)
  case (Cons i "is")
  then obtain s1 out where step: "step s i = Some (s1, out)" "inv s1"
    using step_safe by force
  with Cons obtain s2 outs where "run_steps step s1 is = Some (s2, outs)" "inv s2"
    "length outs = length is" by force
  with step show ?case by simp
qed simp

end

end
