(* ===== verification/Comm_Protocol.thy ===== *)
theory Comm_Protocol
  imports Prelude
begin

text \<open>
  The framing protocol between the intercom host and its microcontroller,
  \<open>comm_protocol_parser_c\<close> of Arduino/comm_prot_parser.h (the copy in
  intercom/serial/comm_prot_parser.h is identical): the incremental parser \<open>post_data\<close>, the
  two encoders \<open>create_packet\<close>, the accessors, and the heap block behind the parser as a
  bounds-checked memory block. A None result is an access outside a block.
\<close>

section \<open>Data\<close>

datatype cp_result = NEED_MORE | PACKET_READY | ERROR_GENERAL | ERROR_CSUM | ERROR_PSIZE | ERROR_SIZE

fun cp_code :: "cp_result \<Rightarrow> int" where
  "cp_code NEED_MORE = 0"
| "cp_code PACKET_READY = 1"
| "cp_code ERROR_GENERAL = -1"
| "cp_code ERROR_CSUM = -2"
| "cp_code ERROR_PSIZE = -3"
| "cp_code ERROR_SIZE = -4"

definition CP_PREFIX_SIZE :: byte where "CP_PREFIX_SIZE = 2"

record cp_prefix =
  prefix_a :: byte
  prefix_b :: byte

definition prefix_data :: "cp_prefix \<Rightarrow> byte \<Rightarrow> byte" where
  "prefix_data pre i = (if i = 0 then prefix_a pre else prefix_b pre)"

record cp_parser =
  m_prefix :: cp_prefix
  m_max_cmd_size :: byte
  m_buffer :: "byte list"
  m_buffer_pos :: byte
  m_state :: byte
  m_payload_size :: byte

section \<open>Operations\<close>

definition reset :: "cp_parser \<Rightarrow> cp_parser" where
  "reset p = p\<lparr>m_buffer_pos := 0, m_state := 0, m_payload_size := 0\<rparr>"

text \<open>The constructor; \<open>block\<close> is what \<open>malloc(m_max_cmd_size)\<close> returns.\<close>

definition new_parser :: "cp_prefix \<Rightarrow> byte \<Rightarrow> byte list \<Rightarrow> cp_parser" where
  "new_parser pre max_cmd_size block =
     (reset \<lparr>m_prefix = pre, m_max_cmd_size = max_cmd_size, m_buffer = [],
       m_buffer_pos = 0, m_state = 0, m_payload_size = 0\<rparr>)\<lparr>m_buffer := block\<rparr>"

definition get_expected_data_size :: "cp_parser \<Rightarrow> byte" where
  "get_expected_data_size p =
     (if m_state p \<le> CP_PREFIX_SIZE then 1 else m_payload_size p - m_buffer_pos p)"

text \<open>The xor checksum: \<open>size\<close> bytes are read, and reading past the block is None.\<close>

fun csum_loop :: "byte list \<Rightarrow> nat \<Rightarrow> byte \<Rightarrow> byte option" where
  "csum_loop ds 0 result = Some result"
| "csum_loop [] (Suc n) result = None"
| "csum_loop (d # ds) (Suc n) result = csum_loop ds n (result XOR d)"

definition csum :: "byte list \<Rightarrow> byte \<Rightarrow> byte \<Rightarrow> byte option" where
  "csum data sz extra = csum_loop data (unat sz) extra"

definition get_packet_size :: "cp_parser \<Rightarrow> byte" where
  "get_packet_size p = (if m_state p = CP_PREFIX_SIZE + 2 then m_payload_size p - 1 else 0)"

definition get_packet :: "cp_parser \<Rightarrow> byte list \<Rightarrow> byte \<Rightarrow> (byte list \<times> byte) option" where
  "get_packet p data max_size =
     (let sz = get_packet_size p in
      if sz \<le> max_size \<and> 0 < max_size then
        do {
          xs \<leftarrow> mem_read (m_buffer p) 0 (unat sz);
          data' \<leftarrow> mem_write data 0 xs;
          Some (data', sz)
        }
      else Some (data, 0))"

text \<open>
  The body of \<open>post_data\<close> for each state, from the result the size check left. The block
  after the size check has no \<open>else\<close> in the source, so it runs whatever the check said.
\<close>

definition post_prefix ::
    "cp_parser \<Rightarrow> byte list \<Rightarrow> cp_result \<Rightarrow> (cp_parser \<times> cp_result) option" where
  "post_prefix p data r =
     do {
       d \<leftarrow> mem_get data 0;
       Some (if d = prefix_data (m_prefix p) (m_state p)
             then (p\<lparr>m_state := m_state p + 1\<rparr>, r) else (p, ERROR_GENERAL))
     }"

definition post_size ::
    "cp_parser \<Rightarrow> byte list \<Rightarrow> cp_result \<Rightarrow> (cp_parser \<times> cp_result) option" where
  "post_size p data r =
     do {
       d \<leftarrow> mem_get data 0;
       Some (p\<lparr>m_payload_size := d, m_state := m_state p + 1\<rparr>, if d = 0 then ERROR_PSIZE else r)
     }"

definition post_payload ::
    "cp_parser \<Rightarrow> byte list \<Rightarrow> byte \<Rightarrow> cp_result \<Rightarrow> (cp_parser \<times> cp_result) option" where
  "post_payload p data sz r =
     do {
       xs \<leftarrow> mem_read data 0 (unat sz);
       buf \<leftarrow> mem_write (m_buffer p) (unat (m_buffer_pos p)) xs;
       let pos = m_buffer_pos p + sz;
       let p1 = p\<lparr>m_buffer := buf, m_buffer_pos := pos\<rparr>;
       if m_payload_size p \<le> pos then
         do {
           c \<leftarrow> csum buf (m_payload_size p - 1) (m_payload_size p);
           last_byte \<leftarrow> (if m_payload_size p = 0 then None
                         else mem_get buf (unat (m_payload_size p) - 1));
           Some (if c = last_byte then (p1\<lparr>m_state := m_state p + 1\<rparr>, PACKET_READY)
                 else (p1, ERROR_CSUM))
         }
       else Some (p1, r)
     }"

definition post_data ::
    "cp_parser \<Rightarrow> byte list \<Rightarrow> byte \<Rightarrow> (cp_parser \<times> cp_result) option" where
  "post_data p data sz =
     (let r0 = (if get_expected_data_size p < sz \<or> m_max_cmd_size p < m_buffer_pos p
                then ERROR_SIZE else NEED_MORE) in
      do {
        (p', r) \<leftarrow>
          (if m_state p < CP_PREFIX_SIZE then post_prefix p data r0
           else if m_state p = CP_PREFIX_SIZE then post_size p data r0
           else if m_state p = CP_PREFIX_SIZE + 1 then post_payload p data sz r0
           else Some (p, ERROR_GENERAL));
        Some (if cp_code r < 0 then reset p' else p', r)
      })"

definition get_packet_extra :: byte where
  "get_packet_extra = CP_PREFIX_SIZE + 2"

text \<open>
  The two encoders write into the caller's \<open>buffer\<close> and return the number of bytes; the
  comparison with \<open>max_size\<close> is C's, on int after promotion.
\<close>

definition create_packet_cmd ::
    "cp_parser \<Rightarrow> byte list \<Rightarrow> byte \<Rightarrow> byte \<Rightarrow> byte list \<Rightarrow> byte \<Rightarrow> (byte list \<times> byte) option" where
  "create_packet_cmd p buffer max_size command data data_size =
     (if unat data_size + 1 + unat get_packet_extra \<le> unat max_size then
        do {
          b1 \<leftarrow> mem_write buffer 0 [prefix_a (m_prefix p), prefix_b (m_prefix p)];
          b2 \<leftarrow> mem_set b1 2 (data_size + 2);
          b3 \<leftarrow> mem_set b2 3 command;
          b4 \<leftarrow> (if 0 < data_size then
                   do { xs \<leftarrow> mem_read data 0 (unat data_size); mem_write b3 4 xs }
                 else Some b3);
          c \<leftarrow> csum (drop 2 b4) (data_size + 2) 0;
          b5 \<leftarrow> mem_set b4 (4 + unat data_size) c;
          Some (b5, data_size + get_packet_extra + 1)
        }
      else Some (buffer, 0))"

definition create_packet_raw ::
    "cp_parser \<Rightarrow> byte list \<Rightarrow> byte \<Rightarrow> byte list \<Rightarrow> byte \<Rightarrow> (byte list \<times> byte) option" where
  "create_packet_raw p buffer max_size data data_size =
     (if unat data_size + unat get_packet_extra \<le> unat max_size then
        do {
          b1 \<leftarrow> mem_write buffer 0 [prefix_a (m_prefix p), prefix_b (m_prefix p)];
          b2 \<leftarrow> mem_set b1 2 (data_size + 1);
          xs \<leftarrow> mem_read data 0 (unat data_size);
          b3 \<leftarrow> mem_write b2 3 xs;
          c \<leftarrow> csum (drop 2 b3) (data_size + 1) 0;
          b4 \<leftarrow> mem_set b3 (3 + unat data_size) c;
          Some (b4, data_size + get_packet_extra)
        }
      else Some (buffer, 0))"

text \<open>
  Posting a sequence of reads, each of at most 255 bytes, as the reader threads do; the
  results are collected in order.
\<close>

definition post_chunk :: "cp_parser \<Rightarrow> byte list \<Rightarrow> (cp_parser \<times> cp_result) option" where
  "post_chunk p c = post_data p c (of_nat (length c))"

definition post_all :: "cp_parser \<Rightarrow> byte list list \<Rightarrow> (cp_parser \<times> cp_result list) option" where
  "post_all = run_steps post_chunk"

lemma post_all_simps [simp]:
  "post_all p [] = Some (p, [])"
  "post_all p (c # cs) =
     do {
       (p1, r) \<leftarrow> post_data p c (of_nat (length c));
       (p2, rs) \<leftarrow> post_all p1 cs;
       Some (p2, r # rs)
     }"
  by (simp_all add: post_all_def post_chunk_def)

section \<open>The checksum\<close>

lemma csum_loop_fold: "n \<le> length ds \<Longrightarrow> csum_loop ds n r = Some (foldl (XOR) r (take n ds))"
  by (induction ds n r rule: csum_loop.induct) auto

lemma csum_loop_out: "length ds < n \<Longrightarrow> csum_loop ds n r = None"
  by (induction ds n r rule: csum_loop.induct) auto

lemma csum_fold [mem_simps]:
  "unat sz \<le> length ds \<Longrightarrow> csum ds sz r = Some (foldl (XOR) r (take (unat sz) ds))"
  by (simp add: csum_def csum_loop_fold)

lemma foldl_xor_start: "foldl (XOR) (r :: byte) xs = r XOR foldl (XOR) 0 xs"
proof (induction xs rule: rev_induct)
  case (snoc x xs)
  then show ?case by (simp add: xor.assoc)
qed simp

lemma xor_cancel: "a XOR (x :: byte) XOR b = a XOR y XOR b \<longleftrightarrow> x = y"
proof
  assume eq: "a XOR x XOR b = a XOR y XOR b"
  have "x = a XOR (a XOR x XOR b) XOR b" for x :: byte
    by (simp add: ac_simps)
  then show "x = y" using eq by metis
qed simp

lemma foldl_xor_update:
  assumes "i < length xs" and "xs ! i \<noteq> x"
  shows "foldl (XOR) (r :: byte) (xs[i := x]) \<noteq> foldl (XOR) r xs"
proof -
  have split: "foldl (XOR) r ys
      = foldl (XOR) r (take i ys) XOR ys ! i XOR foldl (XOR) 0 (drop (Suc i) ys)"
    if "i < length ys" for ys
  proof -
    have "foldl (XOR) r ys = foldl (XOR) r (take i ys @ ys ! i # drop (Suc i) ys)"
      using id_take_nth_drop [OF that] by simp
    then show ?thesis
      using foldl_xor_start [of "foldl (XOR) r (take i ys) XOR ys ! i" "drop (Suc i) ys"]
      by (simp add: xor.assoc)
  qed
  from assms(1) have len: "i < length (xs[i := x])" by simp
  show ?thesis
    unfolding split [OF len] split [OF assms(1)]
    using assms by (simp add: xor_cancel)
qed

section \<open>Resetting\<close>

lemma reset_fields [simp]:
  "m_buffer_pos (reset p) = 0" "m_state (reset p) = 0" "m_payload_size (reset p) = 0"
  "m_buffer (reset p) = m_buffer p" "m_max_cmd_size (reset p) = m_max_cmd_size p"
  "m_prefix (reset p) = m_prefix p"
  by (simp_all add: reset_def)

text \<open>A parser between packets.\<close>

definition cp_idle :: "cp_parser \<Rightarrow> bool" where
  "cp_idle p \<longleftrightarrow> m_state p = 0 \<and> m_buffer_pos p = 0 \<and> m_payload_size p = 0"

definition cp_block_ok :: "cp_parser \<Rightarrow> bool" where
  "cp_block_ok p \<longleftrightarrow> length (m_buffer p) = unat (m_max_cmd_size p)"

lemma cp_idle_reset [simp]: "cp_idle (reset p)"
  by (simp add: cp_idle_def)

lemma cp_block_ok_reset [simp]: "cp_block_ok (reset p) = cp_block_ok p"
  by (simp add: cp_block_ok_def)

lemma cp_code_neg: "cp_code r < 0 \<longleftrightarrow> r \<noteq> NEED_MORE \<and> r \<noteq> PACKET_READY"
  by (cases r) auto

section \<open>One call of \<open>post_data\<close>\<close>

lemmas post_defs = post_data_def post_prefix_def post_size_def post_payload_def
  CP_PREFIX_SIZE_def get_expected_data_size_def

lemma post_data_prefix0:
  "cp_idle p \<Longrightarrow> post_data p [prefix_a (m_prefix p)] 1 = Some (p\<lparr>m_state := 1\<rparr>, NEED_MORE)"
  by (simp add: post_defs cp_idle_def prefix_data_def)

lemma post_data_prefix1:
  "m_state p = 1 \<Longrightarrow> m_buffer_pos p = 0
    \<Longrightarrow> post_data p [prefix_b (m_prefix p)] 1 = Some (p\<lparr>m_state := 2\<rparr>, NEED_MORE)"
  by (simp add: post_defs prefix_data_def)

lemma post_data_length:
  "m_state p = 2 \<Longrightarrow> m_buffer_pos p = 0 \<Longrightarrow> n \<noteq> 0
    \<Longrightarrow> post_data p [n] 1 = Some (p\<lparr>m_payload_size := n, m_state := 3\<rparr>, NEED_MORE)"
  by (simp add: post_defs)

lemma post_data_payload:
  assumes st: "m_state p = 3" and blk: "cp_block_ok p"
    and dnL: "length dn < unat (m_payload_size p)"
    and fits: "length dn + length c \<le> unat (m_payload_size p)"
    and pay: "m_payload_size p \<le> m_max_cmd_size p"
    and pos: "m_buffer_pos p = of_nat (length dn)"
    and dn: "take (length dn) (m_buffer p) = dn"
  defines "b \<equiv> dn @ c @ drop (length dn + length c) (m_buffer p)"
  shows "post_data p c (of_nat (length c)) =
    Some (if length dn + length c < unat (m_payload_size p)
      then (p\<lparr>m_buffer := b, m_buffer_pos := of_nat (length dn + length c)\<rparr>, NEED_MORE)
      else if foldl (XOR) (m_payload_size p) (take (unat (m_payload_size p) - 1) b)
                = b ! (unat (m_payload_size p) - 1)
      then (p\<lparr>m_buffer := b, m_buffer_pos := of_nat (length dn + length c), m_state := 4\<rparr>,
            PACKET_READY)
      else (reset (p\<lparr>m_buffer := b\<rparr>), ERROR_CSUM))"
proof -
  let ?n = "length c" and ?d = "length dn" and ?L = "unat (m_payload_size p)"
  have L: "?L \<le> length (m_buffer p)" using blk pay by (simp add: cp_block_ok_def byte_le_nat)
  have small: "?d + ?n < 256" "?d < 256" "?n < 256"
    using fits byte_bound [of "m_payload_size p"] by linarith+
  have len_b: "length b = length (m_buffer p)" unfolding b_def using fits L by simp
  have w: "mem_write (m_buffer p) ?d c = Some b"
    using fits L dn by (simp add: mem_write_def b_def)
  have L0: "0 < ?L" using dnL by simp
  then have nz: "m_payload_size p \<noteq> 0" by auto
  have L1: "unat (m_payload_size p - 1) = ?L - 1"
    using L0 by (simp add: unat_sub_byte byte_le_nat)
  have exp: "\<not> m_payload_size p - of_nat ?d < of_nat ?n"
  proof -
    have "unat (m_payload_size p - of_nat ?d) = ?L - ?d"
      using fits small by (subst unat_sub_byte) (auto simp: byte_le_nat)
    then show ?thesis using fits small by (simp add: byte_less_nat)
  qed
  have posmax: "\<not> m_max_cmd_size p < of_nat ?d"
    using fits pay small by (simp add: byte_less_nat byte_le_nat)
  have pos': "of_nat ?d + of_nat ?n = (of_nat (?d + ?n) :: byte)" by simp
  have cmp: "m_payload_size p \<le> of_nat (?d + ?n) \<longleftrightarrow> \<not> ?d + ?n < ?L"
    using small by (auto simp: byte_le_nat simp del: of_nat_add)
  have cs: "csum b (m_payload_size p - 1) (m_payload_size p)
      = Some (foldl (XOR) (m_payload_size p) (take (?L - 1) b))"
    using L len_b by (simp add: csum_fold L1)
  have lastb: "mem_get b (?L - 1) = Some (b ! (?L - 1))"
    using L L0 len_b by (simp add: mem_simps)
  have body: "post_payload p c (of_nat ?n) NEED_MORE =
    Some (if ?d + ?n < ?L then (p\<lparr>m_buffer := b, m_buffer_pos := of_nat (?d + ?n)\<rparr>, NEED_MORE)
      else if foldl (XOR) (m_payload_size p) (take (?L - 1) b) = b ! (?L - 1)
      then (p\<lparr>m_buffer := b, m_buffer_pos := of_nat (?d + ?n), m_state := 4\<rparr>, PACKET_READY)
      else (p\<lparr>m_buffer := b, m_buffer_pos := of_nat (?d + ?n)\<rparr>, ERROR_CSUM))"
    using small cmp unfolding post_payload_def pos pos'
    by (auto simp: w cs lastb nz st Let_def simp del: of_nat_add One_nat_def)
  show ?thesis
    unfolding post_data_def
    using exp posmax
    by (simp add: st pos body CP_PREFIX_SIZE_def get_expected_data_size_def reset_def
        del: of_nat_add)
qed

section \<open>A packet on the wire\<close>

text \<open>The bytes of a packet with the given body, as both encoders lay it out.\<close>

definition frame_length :: "byte list \<Rightarrow> byte" where
  "frame_length body = of_nat (length body + 1)"

definition frame_tail :: "byte list \<Rightarrow> byte list" where
  "frame_tail body = body @ [foldl (XOR) (frame_length body) body]"

definition frame :: "cp_prefix \<Rightarrow> byte list \<Rightarrow> byte list" where
  "frame pre body = [prefix_a pre, prefix_b pre, frame_length body] @ frame_tail body"

lemma length_frame [simp]: "length (frame pre body) = length body + 4"
  by (simp add: frame_def frame_tail_def)

lemma create_packet_cmd_frame:
  assumes n: "length data = unat n" and room: "unat n + 5 \<le> unat max_size"
    and buf: "unat max_size \<le> length buffer"
  shows "create_packet_cmd p buffer max_size cmd data n =
    Some (frame (m_prefix p) (cmd # data) @ drop (unat n + 5) buffer, n + 5)"
proof -
  let ?pre = "m_prefix p" and ?N = "unat n" and ?ck = "foldl (XOR) (n + 2) (cmd # data)"
  have small: "?N + 5 < 256" using room byte_bound [of max_size] by linarith
  have len: "frame_length (cmd # data) = n + 2"
    using n by (simp add: frame_length_def)
  have n2: "unat (n + 2) = ?N + 2" using small by (simp add: unat_add_byte)
  have "Suc (Suc (Suc (Suc (Suc ?N)))) \<le> length buffer" using room buf by linarith
  then obtain x0 x1 x2 x3 y xs
    where buffer: "buffer = x0 # x1 # x2 # x3 # y # xs" and xs: "?N \<le> length xs"
    by (auto simp: Suc_le_length_iff)
  let ?rest = "y # xs"
  let ?hdr = "[prefix_a ?pre, prefix_b ?pre, n + 2, cmd]"
  have b4: "(if 0 < n then do { xs \<leftarrow> mem_read data 0 ?N; mem_write (?hdr @ ?rest) 4 xs }
      else Some (?hdr @ ?rest)) = Some (?hdr @ data @ drop ?N ?rest)"
    using n xs by (auto simp: mem_read_def mem_write_def eval_nat_numeral word_neq_0_conv [symmetric])
  have split: "drop ?N ?rest = ?rest ! ?N # drop (Suc ?N) ?rest"
    using xs Cons_nth_drop_Suc [of ?N ?rest] by simp
  have cs: "csum ((n + 2) # cmd # data @ drop ?N ?rest) (n + 2) 0 = Some ?ck"
    using n n2 by (simp add: csum_fold)
  have b1: "mem_write buffer 0 [prefix_a ?pre, prefix_b ?pre]
      = Some (prefix_a ?pre # prefix_b ?pre # x2 # x3 # ?rest)"
    by (simp add: buffer mem_write_def)
  have b2: "mem_set (prefix_a ?pre # prefix_b ?pre # x2 # x3 # ?rest) 2 (n + 2)
      = Some (prefix_a ?pre # prefix_b ?pre # (n + 2) # x3 # ?rest)"
    by (simp add: mem_set_def)
  have b3: "mem_set (prefix_a ?pre # prefix_b ?pre # (n + 2) # x3 # ?rest) 3 cmd
      = Some (?hdr @ ?rest)"
    by (simp add: mem_set_def)
  have b5: "mem_set (?hdr @ data @ drop ?N ?rest) (4 + ?N) ?ck
      = Some (?hdr @ data @ ?ck # drop (Suc ?N) ?rest)"
    using n by (simp add: mem_set_def split list_update_append eval_nat_numeral)
  have c: "csum (drop 2 (?hdr @ data @ drop ?N ?rest)) (n + 2) 0 = Some ?ck"
    using cs by simp
  have "unat n + 1 + unat get_packet_extra \<le> unat max_size"
    using room by (simp add: get_packet_extra_def CP_PREFIX_SIZE_def)
  then have "create_packet_cmd p buffer max_size cmd data n =
    Some (?hdr @ data @ ?ck # drop (Suc ?N) ?rest, n + get_packet_extra + 1)"
    unfolding create_packet_cmd_def
    by (simp only: if_True b1 b2 b3 b4 c b5 bind.bind_lunit)
  also have "\<dots> = Some (frame ?pre (cmd # data) @ drop (?N + 5) buffer, n + 5)"
    by (simp add: frame_def frame_tail_def len buffer get_packet_extra_def CP_PREFIX_SIZE_def
        eval_nat_numeral)
  finally show ?thesis .
qed

section \<open>Parsing a packet\<close>

text \<open>
  Posting the payload in any cut into non-empty reads ends in PACKET\_READY when the checksum
  holds, in ERROR\_CSUM and an idle parser when it does not.
\<close>

lemma post_all_payload:
  assumes "m_state p = 3" "cp_block_ok p" "bytes = dn @ concat chunks"
    "length dn < length bytes" "\<forall>c\<in>set chunks. c \<noteq> []"
    "unat (m_payload_size p) = length bytes" "m_payload_size p \<le> m_max_cmd_size p"
    "m_buffer_pos p = of_nat (length dn)" "take (length dn) (m_buffer p) = dn"
  shows "\<exists>p'. post_all p chunks = Some (p', replicate (length chunks - 1) NEED_MORE @
      [if foldl (XOR) (m_payload_size p) (butlast bytes) = last bytes
       then PACKET_READY else ERROR_CSUM]) \<and> cp_block_ok p' \<and>
    (if foldl (XOR) (m_payload_size p) (butlast bytes) = last bytes
     then m_state p' = 4 \<and> m_payload_size p' = m_payload_size p
       \<and> take (length bytes) (m_buffer p') = bytes
     else cp_idle p')"
  using assms
proof (induction chunks arbitrary: p dn)
  case Nil
  then show ?case by simp
next
  case (Cons c cs)
  let ?b = "dn @ c @ drop (length dn + length c) (m_buffer p)"
  let ?p = "p\<lparr>m_buffer := ?b, m_buffer_pos := of_nat (length dn + length c)\<rparr>"
  have fits: "length dn + length c \<le> unat (m_payload_size p)"
    using Cons.prems by simp
  have L: "length bytes \<le> length (m_buffer p)"
    using Cons.prems by (simp add: cp_block_ok_def byte_le_nat)
  note step = post_data_payload [OF Cons.prems(1,2) _ fits Cons.prems(7-9)]
  have blk: "cp_block_ok ?p"
    using Cons.prems L fits by (simp add: cp_block_ok_def)
  show ?case
  proof (cases "length dn + length c < length bytes")
    case True
    have "cs \<noteq> []" using True Cons.prems by auto
    then have len: "Suc (length cs - 1) = length cs" by (cases cs) auto
    have "\<exists>p'. post_all ?p cs = Some (p', replicate (length cs - 1) NEED_MORE @
        [if foldl (XOR) (m_payload_size ?p) (butlast bytes) = last bytes
         then PACKET_READY else ERROR_CSUM]) \<and> cp_block_ok p' \<and>
      (if foldl (XOR) (m_payload_size ?p) (butlast bytes) = last bytes
       then m_state p' = 4 \<and> m_payload_size p' = m_payload_size ?p
         \<and> take (length bytes) (m_buffer p') = bytes
       else cp_idle p')"
      using Cons.prems True blk by (intro Cons.IH [where dn = "dn @ c"]) auto
    moreover have "post_data p c (of_nat (length c)) = Some (?p, NEED_MORE)"
      using step Cons.prems True by simp
    ultimately show ?thesis
      using len by (auto simp: replicate_app_Cons_same simp flip: replicate_Suc)
  next
    case False
    then have all: "length dn + length c = length bytes" using fits Cons.prems by simp
    then have cs: "cs = []" and bytes: "bytes = dn @ c"
      using Cons.prems by (auto simp: neq_Nil_conv)
    have "c \<noteq> []" using Cons.prems by simp
    then have "take (length bytes - 1) ?b = butlast bytes" and "?b ! (length bytes - 1) = last bytes"
      by (auto simp: bytes butlast_conv_take nth_append last_conv_nth)
    then have "post_data p c (of_nat (length c)) =
      Some (if foldl (XOR) (m_payload_size p) (butlast bytes) = last bytes
        then (?p\<lparr>m_state := 4\<rparr>, PACKET_READY)
        else (reset (p\<lparr>m_buffer := ?b\<rparr>), ERROR_CSUM))"
      using step Cons.prems(4,6) all by simp
    moreover have "take (length bytes) ?b = bytes"
      by (simp add: bytes)
    ultimately show ?thesis
      using blk by (simp add: cs cp_block_ok_def)
  qed
qed

lemma post_all_header:
  assumes idle: "cp_idle p" and n: "n \<noteq> 0"
  shows "post_all p ([prefix_a (m_prefix p)] # [prefix_b (m_prefix p)] # [n] # chunks) =
    map_option (apsnd (\<lambda>rs. [NEED_MORE, NEED_MORE, NEED_MORE] @ rs))
      (post_all (p\<lparr>m_payload_size := n, m_state := 3\<rparr>) chunks)"
proof -
  have "post_data (p\<lparr>m_state := Suc_1\<rparr>) [prefix_b (m_prefix p)] 1 =
      Some (p\<lparr>m_state := 2\<rparr>, NEED_MORE)" if "Suc_1 = 1" for Suc_1
    using idle that post_data_prefix1 [of "p\<lparr>m_state := 1\<rparr>"] by (simp add: cp_idle_def)
  moreover have "post_data (p\<lparr>m_state := 2\<rparr>) [n] 1 =
      Some (p\<lparr>m_payload_size := n, m_state := 3\<rparr>, NEED_MORE)"
    using idle n post_data_length [of "p\<lparr>m_state := 2\<rparr>" n] by (simp add: cp_idle_def)
  ultimately show ?thesis
    using post_data_prefix0 [OF idle]
    by (cases "post_all (p\<lparr>m_payload_size := n, m_state := 3\<rparr>) chunks") auto
qed
section \<open>Well-formedness\<close>

definition cp_wf :: "cp_parser \<Rightarrow> bool" where
  "cp_wf p \<longleftrightarrow> cp_block_ok p \<and> m_state p \<le> 4 \<and>
     (m_state p \<le> 2 \<longrightarrow> m_buffer_pos p = 0) \<and>
     (m_state p = 3 \<longrightarrow> m_buffer_pos p < m_payload_size p \<and> m_payload_size p \<le> m_max_cmd_size p) \<and>
     (m_state p = 4 \<longrightarrow> 0 < m_payload_size p \<and> m_payload_size p \<le> m_max_cmd_size p)"

lemma cp_wf_idle: "cp_idle p \<Longrightarrow> cp_block_ok p \<Longrightarrow> cp_wf p"
  by (simp add: cp_wf_def cp_idle_def)

lemma cp_state_cases:
  assumes "m_state p \<le> 4"
  obtains "m_state p = 0" | "m_state p = 1" | "m_state p = 2" | "m_state p = 3" | "m_state p = 4"
proof -
  have "unat (m_state p) \<le> 4" using assms by (simp add: byte_le_nat)
  then consider "unat (m_state p) = 0" | "unat (m_state p) = 1" | "unat (m_state p) = 2"
    | "unat (m_state p) = 3" | "unat (m_state p) = 4" by linarith
  then show ?thesis
    by cases (use that byte_of_unat [of "m_state p"] in \<open>force\<close>)+
qed

lemma post_data_safe:
  assumes wf: "cp_wf p" and d: "data \<noteq> []" and sz: "unat sz \<le> length data"
    and len: "m_state p = 2 \<Longrightarrow> hd data \<le> m_max_cmd_size p"
    and exp: "m_state p = 3 \<Longrightarrow> sz \<le> get_expected_data_size p"
  shows "\<exists>p' r. post_data p data sz = Some (p', r) \<and> cp_wf p'"
proof -
  obtain x xs where data: "data = x # xs" using d by (cases data) auto
  from wf have "m_state p \<le> 4" by (simp add: cp_wf_def)
  then show ?thesis
  proof (cases rule: cp_state_cases)
    case 4
    let ?c = "take (unat sz) data" and ?dn = "take (unat (m_buffer_pos p)) (m_buffer p)"
    from wf 4 have w: "cp_block_ok p" "m_buffer_pos p < m_payload_size p"
        "m_payload_size p \<le> m_max_cmd_size p" by (auto simp: cp_wf_def)
    have lens: "length ?c = unat sz" "length ?dn = unat (m_buffer_pos p)"
      using sz w by (auto simp: cp_block_ok_def byte_le_nat byte_less_nat)
    have fits: "unat (m_buffer_pos p) + unat sz \<le> unat (m_payload_size p)"
      using exp [OF 4] 4 w(2)
      by (simp add: get_expected_data_size_def CP_PREFIX_SIZE_def byte_le_nat byte_less_nat unat_sub)
    have "post_data p data sz = post_data p ?c (of_nat (length ?c))"
      using 4 lens sz by (simp add: post_defs mem_read_def)
    also have "\<exists>p' r. \<dots> = Some (p', r) \<and> cp_wf p'"
      using post_data_payload [OF 4 w(1), of ?dn ?c] w lens fits 4
      by (auto simp: cp_wf_def cp_block_ok_def byte_less_nat byte_le_nat unat_add_below)
    finally show ?thesis .
  qed (use wf len data in \<open>auto simp: post_defs cp_wf_def cp_block_ok_def word_gt_0\<close>)
qed

section \<open>The parser as a guarded machine\<close>

text \<open>
  What the reader threads guarantee of each read: it is not empty, a length byte fits the
  block, and a payload read asks for no more than \<open>get_expected_data_size\<close>.
\<close>

definition chunk_ok :: "cp_parser \<Rightarrow> byte list \<Rightarrow> bool" where
  "chunk_ok p c \<longleftrightarrow> c \<noteq> [] \<and> length c < 256 \<and>
     (m_state p = 2 \<longrightarrow> hd c \<le> m_max_cmd_size p) \<and>
     (m_state p = 3 \<longrightarrow> of_nat (length c) \<le> get_expected_data_size p)"

interpretation cp: guarded_machine post_chunk cp_wf chunk_ok
proof unfold_locales
  fix p c
  assume "cp_wf p" "chunk_ok p c"
  then show "\<exists>p' r. post_chunk p c = Some (p', r) \<and> cp_wf p'"
    unfolding post_chunk_def by (intro post_data_safe) (auto simp: chunk_ok_def)
qed

lemma post_all_oversized:
  assumes "m_state p = 3" "cp_block_ok p" "m_max_cmd_size p < m_payload_size p"
    and "unat (m_buffer_pos p) \<le> unat (m_max_cmd_size p)"
    and "unat (m_buffer_pos p) + length xs = unat (m_max_cmd_size p) + 1"
  shows "post_all p (map (\<lambda>x. [x]) xs) = None"
  using assms
proof (induction xs arbitrary: p)
  case Nil
  then show ?case by simp
next
  case (Cons x xs)
  note pre = Cons.prems
  show ?case
  proof (cases "m_buffer_pos p < m_max_cmd_size p")
    case True
    let ?p = "p\<lparr>m_buffer := (m_buffer p)[unat (m_buffer_pos p) := x],
      m_buffer_pos := m_buffer_pos p + 1\<rparr>"
    have "unat (m_buffer_pos p) + unat (1 :: byte) < unat (m_payload_size p)"
      using pre(3) True by (simp add: byte_less_nat)
    then have pos: "unat (m_buffer_pos p + 1) = unat (m_buffer_pos p) + 1"
      using unat_add_below by fastforce
    have "unat (m_payload_size p - m_buffer_pos p) = unat (m_payload_size p) - unat (m_buffer_pos p)"
      using True pre(3) by (intro unat_sub_byte) (simp add: byte_less_nat byte_le_nat)
    then have "post_data p [x] 1 = Some (?p, NEED_MORE)"
      using pre True pos
      by (auto simp: post_defs cp_block_ok_def byte_less_nat byte_le_nat mem_read_def mem_write_def
          upd_conv_take_nth_drop)
    moreover have "post_all ?p (map (\<lambda>x. [x]) xs) = None"
      using pre True pos by (intro Cons.IH) (auto simp: cp_block_ok_def byte_less_nat)
    ultimately show ?thesis by simp
  next
    case False
    then have "unat (m_buffer_pos p) = length (m_buffer p)"
      using pre by (simp add: cp_block_ok_def byte_less_nat)
    then have "post_data p [x] 1 = None"
      using pre by (simp add: post_defs mem_read_def mem_write_def)
    then show ?thesis by simp
  qed
qed

lemma replicate_header:
  "chunks \<noteq> [] \<Longrightarrow> x # replicate (length chunks - Suc 0) x = replicate (length chunks) x"
  by (cases chunks) simp_all

section \<open>Properties\<close>

text \<open>
  C1: a packet built by \<open>create_packet\<close> is read back by any idle parser with the same prefix
  whose block holds it, however the payload is cut into reads: each read but the last asks for
  more, the last reports PACKET\_READY, and \<open>get_packet\<close> returns the command and its data.
\<close>

theorem packet_roundtrip:
  assumes n: "length data = unat n" and room: "unat n + 5 \<le> unat max_size"
    and buf: "unat max_size \<le> length buffer"
    and idle: "cp_idle p" "cp_block_ok p" "m_prefix p = m_prefix q"
    and fits: "unat n + 2 \<le> unat (m_max_cmd_size p)"
    and cut: "\<forall>c\<in>set chunks. c \<noteq> []" "concat chunks = take (unat n + 2) (drop 3 (fst (the
      (create_packet_cmd q buffer max_size cmd data n))))"
    and out: "unat n + 1 \<le> unat cap" "unat cap \<le> length out"
  shows "\<exists>buffer' p'. create_packet_cmd q buffer max_size cmd data n = Some (buffer', n + 5)
    \<and> post_all p ([buffer' ! 0] # [buffer' ! 1] # [buffer' ! 2] # chunks)
        = Some (p', replicate (length chunks + 2) NEED_MORE @ [PACKET_READY])
    \<and> get_packet p' out cap = Some (cmd # data @ drop (unat n + 1) out, n + 1)"
proof -
  let ?body = "cmd # data" and ?buf = "frame (m_prefix q) (cmd # data) @ drop (unat n + 5) buffer"
  note made = create_packet_cmd_frame [OF n room buf, of q cmd]
  have small: "unat n + 5 < 256" using room byte_bound [of max_size] by linarith
  have len': "frame_length ?body = n + 2" using n by (simp add: frame_length_def)
  have len: "unat (frame_length ?body) = unat n + 2"
    unfolding len' using small by (subst unat_add_byte) simp_all
  have bytes: "concat chunks = frame_tail ?body"
    using cut(2) n by (simp add: made frame_def frame_tail_def)
  let ?p = "p\<lparr>m_payload_size := n + 2, m_state := 3\<rparr>"
  have "foldl (XOR) (frame_length ?body) (butlast (frame_tail ?body)) = last (frame_tail ?body)"
    by (simp add: frame_tail_def)
  then obtain p' where run: "post_all ?p chunks
      = Some (p', replicate (length chunks - 1) NEED_MORE @ [PACKET_READY])"
    and p': "m_state p' = 4" "m_payload_size p' = n + 2" "cp_block_ok p'"
      "take (unat n + 2) (m_buffer p') = frame_tail ?body"
    using post_all_payload [of ?p "frame_tail ?body" "[]" chunks] idle fits cut(1) bytes len len' n
    by (auto simp: cp_block_ok_def cp_idle_def byte_le_nat frame_tail_def)
  have "chunks \<noteq> []" using bytes by (auto simp: frame_tail_def)
  note rep = replicate_header [OF this, of NEED_MORE]
  have "m_prefix q = m_prefix p" using idle by simp
  moreover have "n + 2 \<noteq> 0" using len len' by auto
  ultimately have full: "post_all p ([?buf ! 0] # [?buf ! 1] # [?buf ! 2] # chunks)
      = Some (p', replicate (length chunks + 2) NEED_MORE @ [PACKET_READY])"
    using post_all_header [OF idle(1), of "n + 2" chunks] run len'
    by (simp add: frame_def rep del: post_all_simps)
  have sz: "get_packet_size p' = n + 1"
    using p' by (simp add: get_packet_size_def CP_PREFIX_SIZE_def)
  have szn: "unat (n + 1) = unat n + 1" using small by (simp add: unat_add_byte)
  have "unat n + 2 \<le> length (m_buffer p')"
    using arg_cong [OF p'(4), of length] n by (simp add: frame_tail_def)
  moreover have "take (unat n + 1) (m_buffer p') = ?body"
    using arg_cong [OF p'(4), of "take (unat n + 1)"] n by (simp add: frame_tail_def min_def)
  ultimately have "get_packet p' out cap = Some (?body @ drop (unat n + 1) out, n + 1)"
    using out szn n by (simp add: get_packet_def sz Let_def byte_le_nat byte_less_nat mem_read_def mem_write_def)
  with full made show ?thesis by auto
qed

theorem packet_roundtrip_witness:
  "\<exists>buffer' p'. create_packet_cmd (new_parser \<lparr>prefix_a = 0x55, prefix_b = 0xBB\<rparr> 64 [])
      (replicate 36 0) 36 5 [7, 9] 2 = Some (buffer', 2 + 5)
    \<and> post_all (new_parser \<lparr>prefix_a = 0x55, prefix_b = 0xBB\<rparr> 64 (replicate 64 0))
        ([buffer' ! 0] # [buffer' ! 1] # [buffer' ! 2] # [[5], [7, 9], [15]])
        = Some (p', replicate (length [[5], [7, 9], [15 :: byte]] + 2) NEED_MORE @ [PACKET_READY])
    \<and> get_packet p' (replicate 36 0) 36 = Some (5 # [7, 9] @ drop (unat (2 :: byte) + 1) (replicate 36 0), 2 + 1)"
  by (rule packet_roundtrip)
    (simp_all add: new_parser_def cp_idle_def cp_block_ok_def create_packet_cmd_frame frame_def
      frame_tail_def frame_length_def)

text \<open>
  C3: in any sequence of reads that respects \<open>chunk_ok\<close>, \<open>post_data\<close> is defined on every read,
  that is it stays inside its heap block, and the parser is well-formed after each one.
\<close>

theorem post_all_safe:
  assumes "cp_wf p" and "run_ok chunk_ok post_chunk p chunks"
  shows "\<exists>p' rs. post_all p chunks = Some (p', rs) \<and> cp_wf p' \<and> length rs = length chunks"
  unfolding post_all_def using assms by (rule cp.run_safe)

theorem post_all_safe_witness:
  "\<exists>p' rs. post_all (new_parser \<lparr>prefix_a = 0xAA, prefix_b = 0xBB\<rparr> 4 [0, 0, 0, 0])
      [[0xAA], [0xBB], [3], [1, 2]] = Some (p', rs) \<and> cp_wf p'
      \<and> length rs = length [[0xAA], [0xBB], [3], [1, 2 :: byte]]"
  by (rule post_all_safe)
    (simp_all add: new_parser_def cp_wf_def cp_block_ok_def chunk_ok_def post_chunk_def
      post_defs prefix_data_def mem_read_def mem_write_def)

text \<open>
  C7: the length byte is not checked against \<open>m_max_cmd_size\<close>. After a header that declares
  more than the block holds, reads of one byte each, never more than
  \<open>get_expected_data_size\<close> asks for, write past the end of the heap block.
\<close>

theorem oversized_packet_overflows:
  assumes idle: "cp_idle p" "cp_block_ok p" and big: "m_max_cmd_size p < n"
    and xs: "length xs = unat (m_max_cmd_size p) + 1"
  shows "post_all p ([prefix_a (m_prefix p)] # [prefix_b (m_prefix p)] # [n]
           # map (\<lambda>x. [x]) xs) = None"
proof -
  have "n \<noteq> 0" using big by auto
  moreover have "post_all (p\<lparr>m_payload_size := n, m_state := 3\<rparr>) (map (\<lambda>x. [x]) xs) = None"
    using assms by (intro post_all_oversized) (auto simp: cp_idle_def cp_block_ok_def)
  ultimately show ?thesis using post_all_header [OF idle(1)] by simp
qed

theorem oversized_packet_overflows_witness:
  "post_all (new_parser \<lparr>prefix_a = 0xAA, prefix_b = 0xBB\<rparr> 2 [0, 0])
     ([0xAA] # [0xBB] # [200] # map (\<lambda>x. [x]) [1, 2, 3]) = None"
  using oversized_packet_overflows
    [of "new_parser \<lparr>prefix_a = 0xAA, prefix_b = 0xBB\<rparr> 2 [0, 0]" 200 "[1, 2, 3]"]
  by (simp add: new_parser_def cp_idle_def cp_block_ok_def)

text \<open>
  C8: changing any one byte after the length byte of a packet, be it of the command, the data
  or the checksum, makes the parser answer ERROR\_CSUM to the last read and return to idle.
\<close>

theorem corrupted_packet_rejected:
  assumes idle: "cp_idle p" "cp_block_ok p" and body: "body \<noteq> []"
    and fits: "length body + 1 \<le> unat (m_max_cmd_size p)"
    and i: "i < length (frame_tail body)" "frame_tail body ! i \<noteq> x"
    and cut: "\<forall>c\<in>set chunks. c \<noteq> []" "concat chunks = (frame_tail body)[i := x]"
  shows "\<exists>p'. post_all p ([prefix_a (m_prefix p)] # [prefix_b (m_prefix p)]
      # [frame_length body] # chunks)
        = Some (p', replicate (length chunks + 2) NEED_MORE @ [ERROR_CSUM]) \<and> cp_idle p'"
proof -
  let ?L = "frame_length body" and ?bytes = "(frame_tail body)[i := x]"
  have small: "length body + 1 < 256"
    using fits byte_bound [of "m_max_cmd_size p"] by linarith
  have L: "unat ?L = length body + 1" using small unfolding frame_length_def by (rule unat_of_nat_byte)
  have bad: "foldl (XOR) ?L (butlast ?bytes) \<noteq> last ?bytes"
  proof (cases "i < length body")
    case True
    then have "?bytes = body[i := x] @ [foldl (XOR) ?L body]"
      by (simp add: frame_tail_def list_update_append)
    moreover have "body ! i \<noteq> x" using i True by (simp add: frame_tail_def nth_append)
    ultimately show ?thesis using foldl_xor_update [OF True, of x ?L] by simp
  next
    case False
    then have "i = length body" using i by (simp add: frame_tail_def)
    then show ?thesis using i by (simp add: frame_tail_def list_update_append nth_append)
  qed
  let ?p = "p\<lparr>m_payload_size := ?L, m_state := 3\<rparr>"
  obtain p' where run: "post_all ?p chunks
      = Some (p', replicate (length chunks - 1) NEED_MORE @ [ERROR_CSUM])" and idle': "cp_idle p'"
    using post_all_payload [of ?p ?bytes "[]" chunks] idle fits cut L bad body
    by (auto simp: cp_block_ok_def cp_idle_def byte_le_nat frame_tail_def)
  have "concat chunks \<noteq> []" using cut by (simp add: frame_tail_def)
  then have "chunks \<noteq> []" by auto
  note rep = replicate_header [OF this, of NEED_MORE]
  have "?L \<noteq> 0" using L by auto
  with run idle' show ?thesis
    using post_all_header [OF idle(1), of ?L chunks]
    by (auto simp: rep simp del: post_all_simps)
qed

theorem corrupted_packet_rejected_witness:
  "\<exists>p'. post_all (new_parser \<lparr>prefix_a = 0x55, prefix_b = 0xBB\<rparr> 8 (replicate 8 0))
      ([0x55] # [0xBB] # [3] # [[2, 0], [0]])
      = Some (p', replicate (length [[2, 0], [0 :: byte]] + 2) NEED_MORE @ [ERROR_CSUM]) \<and> cp_idle p'"
  using corrupted_packet_rejected
    [of "new_parser \<lparr>prefix_a = 0x55, prefix_b = 0xBB\<rparr> 8 (replicate 8 0)" "[2, 1]" 1 0
      "[[2, 0], [0]]"]
  by (simp add: new_parser_def cp_idle_def cp_block_ok_def frame_tail_def frame_length_def
      del: post_all_simps)

end
