(* ===== verification/Message_Queue.thy ===== *)
theory Message_Queue
  imports Prelude
begin

text \<open>
  The queues and events of intercom/pjs_utils.h and intercom/pjs_messages_queue.h:
  \<open>pjs_event\<close> with its deadline arithmetic and wait loop, \<open>pjs_callback_class\<close>,
  \<open>pjs_list\<close> and \<open>pjs_intercom_message_queue\<close>, the bounded-queue interface their clients
  rely on, and the interleavings of a producer with a waiting consumer.
\<close>

section \<open>Events\<close>

record pjs_event =
  m_triggered :: bool

definition new_event :: pjs_event where
  "new_event = \<lparr>m_triggered = False\<rparr>"

definition event_signal :: "pjs_event \<Rightarrow> pjs_event" where
  "event_signal e = e\<lparr>m_triggered := True\<rparr>"

text \<open>
  \<open>wait(timeout)\<close> first turns a relative timeout in milliseconds into an absolute time. The
  arithmetic is on unsigned long of \<open>w\<close> bits (32 on the ARMv7 boards, 64 on aarch64); C's
  \<open>%\<close> and \<open>/\<close> on the signed timeout truncate.
\<close>

definition ulong :: "nat \<Rightarrow> int \<Rightarrow> int" where
  "ulong w x = x mod 2 ^ w"

definition slong :: "nat \<Rightarrow> int \<Rightarrow> int" where
  "slong w x = (x + 2 ^ (w - 1)) mod 2 ^ w - 2 ^ (w - 1)"

definition abs_deadline :: "nat \<Rightarrow> int \<Rightarrow> int \<Rightarrow> int \<Rightarrow> int \<times> int" where
  "abs_deadline w now_sec now_usec timeout =
     (let nsec = ulong w (ulong w (now_usec + ulong w (1000 * ulong w (timeout smod 1000))) * 1000);
          sec = slong w (now_sec + timeout sdiv 1000 + nsec div 1000000000)
      in (sec, nsec mod 1000000000))"

text \<open>
  The loop of \<open>wait(timeout)\<close>. Each entry of \<open>wakes\<close> is one return of
  \<open>pthread_cond_timedwait\<close>: its error code and the value \<open>m_triggered\<close> has then, since other
  threads run while the mutex is released. Running out of entries is "still waiting".
\<close>

datatype wait_result = StillWaiting | Aborted | Waited pjs_event int

definition ETIMEDOUT :: int where "ETIMEDOUT = 110"
definition EINVAL :: int where "EINVAL = 22"

fun wait_loop :: "pjs_event \<Rightarrow> (int \<times> bool) list \<Rightarrow> int \<Rightarrow> wait_result" where
  "wait_loop e wakes err =
     (if m_triggered e then Waited (if err = 0 then e\<lparr>m_triggered := False\<rparr> else e) err
      else case wakes of [] \<Rightarrow> StillWaiting
        | (err', trig) # ws \<Rightarrow>
            let e' = e\<lparr>m_triggered := trig\<rparr> in
            if err' = 0 \<or> err' = ETIMEDOUT
            then Waited (if err' = 0 then e'\<lparr>m_triggered := False\<rparr> else e') err'
            else if err' = EINVAL then Aborted
            else wait_loop e' ws err')"

declare wait_loop.simps [simp del]

definition event_wait :: "pjs_event \<Rightarrow> (int \<times> bool) list \<Rightarrow> wait_result" where
  "event_wait e wakes = wait_loop e wakes 0"

text \<open>\<open>wait()\<close> without a timeout: each entry is \<open>m_triggered\<close> after one wake-up.\<close>

fun event_wait_forever :: "pjs_event \<Rightarrow> bool list \<Rightarrow> pjs_event option" where
  "event_wait_forever e wakes =
     (if m_triggered e then Some (e\<lparr>m_triggered := False\<rparr>)
      else case wakes of [] \<Rightarrow> None
        | trig # ws \<Rightarrow> event_wait_forever (e\<lparr>m_triggered := trig\<rparr>) ws)"

declare event_wait_forever.simps [simp del]

section \<open>Callbacks\<close>

definition add_callback :: "'t list \<Rightarrow> 't \<Rightarrow> 't list" where
  "add_callback cbs cbt = cbs @ [cbt]"

definition remove_callback :: "'t list \<Rightarrow> 't \<Rightarrow> 't list" where
  "remove_callback cbs cbt = removeAll cbt cbs"

text \<open>
  \<open>fire_callbacks\<close> runs \<open>on_callback_fire\<close> and then \<open>on_callback\<close> on each registered callback
  in order; both are virtual, so they are state transformers given as arguments.
\<close>

definition fire_callbacks ::
    "('u \<Rightarrow> 's \<Rightarrow> 's) \<Rightarrow> ('t \<Rightarrow> 'u \<Rightarrow> 's \<Rightarrow> 's) \<Rightarrow> 't list \<Rightarrow> 'u \<Rightarrow> 's \<Rightarrow> 's" where
  "fire_callbacks on_fire on_callback cbs user_data s =
     foldl (\<lambda>s cbt. on_callback cbt user_data s) (on_fire user_data s) cbs"

section \<open>The list\<close>

record 'a pjs_list =
  m_max_elements :: nat
  m_list :: "'a list"
  m_event :: pjs_event

definition new_list :: "nat \<Rightarrow> 'a pjs_list" where
  "new_list max_elements = \<lparr>m_max_elements = max_elements, m_list = [], m_event = new_event\<rparr>"

text \<open>The loop that makes room: \<open>while (m_list.size() >= m_max_elements) pop_front()\<close>.\<close>

fun make_room :: "nat \<Rightarrow> 'a list \<Rightarrow> 'a list option" where
  "make_room mx [] = (if mx \<le> 0 then None else Some [])"
| "make_room mx (x # xs) = (if mx \<le> length (x # xs) then make_room mx xs else Some (x # xs))"

definition push :: "'a pjs_list \<Rightarrow> 'a \<Rightarrow> bool \<Rightarrow> 'a pjs_list option" where
  "push q v at_front =
     do {
       xs \<leftarrow> (if m_max_elements q \<noteq> 0 then make_room (m_max_elements q) (m_list q)
              else Some (m_list q));
       Some (q\<lparr>m_list := if at_front then v # xs else xs @ [v], m_event := event_signal (m_event q)\<rparr>)
     }"

text \<open>\<open>pop(T *v)\<close>; \<open>dest\<close> says whether the pointer is non-null.\<close>

definition pop :: "'a pjs_list \<Rightarrow> bool \<Rightarrow> 'a pjs_list \<times> 'a option" where
  "pop q dest =
     (if dest then
        (case m_list q of [] \<Rightarrow> (q, None) | x # xs \<Rightarrow> (q\<lparr>m_list := xs\<rparr>, Some x))
      else (q, None))"

definition list_empty :: "'a pjs_list \<Rightarrow> bool" where
  "list_empty q = (m_list q = [])"

definition cancel_wait :: "'a pjs_list \<Rightarrow> 'a pjs_list" where
  "cancel_wait q = q\<lparr>m_event := event_signal (m_event q)\<rparr>"

definition list_wait :: "'a pjs_list \<Rightarrow> (int \<times> bool) list \<Rightarrow> wait_result" where
  "list_wait q wakes =
     (if list_empty q then event_wait (m_event q) wakes else Waited (m_event q) 0)"

definition list_clear :: "'a pjs_list \<Rightarrow> 'a pjs_list" where
  "list_clear q = q\<lparr>m_list := []\<rparr>"

section \<open>Messages\<close>

record intercom_message =
  message :: nat
  param1 :: int
  param2 :: int

definition clear_intercom_message :: intercom_message where
  "clear_intercom_message = \<lparr>message = 0, param1 = 0, param2 = 0\<rparr>"

definition get_message ::
    "intercom_message pjs_list \<Rightarrow> intercom_message pjs_list \<times> intercom_message option" where
  "get_message q = pop q True"

section \<open>The bounded-queue interface\<close>

text \<open>
  What the intercom's message producers and the scripts rely on: elements leave in the order
  they came, and a full queue drops its oldest element for a new one.
\<close>

locale bounded_queue =
  fixes enq :: "'a \<Rightarrow> 'q \<Rightarrow> 'q"
    and deq :: "'q \<Rightarrow> 'q \<times> 'a option"
    and elems :: "'q \<Rightarrow> 'a list"
    and cap :: "'q \<Rightarrow> nat"
  assumes elems_enq: "elems (enq x q) =
      (if cap q = 0 then elems q else drop (Suc (length (elems q)) - cap q) (elems q)) @ [x]"
    and cap_enq [simp]: "cap (enq x q) = cap q"
    and deq_empty: "elems q = [] \<Longrightarrow> deq q = (q, None)"
    and deq_elems: "elems q = y # ys \<Longrightarrow> \<exists>q'. deq q = (q', Some y) \<and> elems q' = ys \<and> cap q' = cap q"
begin

lemma elems_enq_all:
  assumes "cap q \<noteq> 0" and "length (elems q) \<le> cap q"
  shows "elems (fold enq xs q) = drop (length (elems q) + length xs - cap q) (elems q @ xs)"
proof (induction xs rule: rev_induct)
  case Nil
  then show ?case using assms by simp
next
  case (snoc x xs)
  have cap: "cap (fold enq ys q) = cap q" for ys
    by (induction ys arbitrary: q) auto
  let ?n = "length (elems q) + length xs" and ?all = "elems q @ xs"
  have enq: "elems (fold enq (xs @ [x]) q)
      = drop (Suc (length (drop (?n - cap q) ?all)) - cap q) (drop (?n - cap q) ?all) @ [x]"
    using assms by (simp add: elems_enq cap snoc del: drop_append length_drop)
  show ?case
  proof (cases "?n < cap q")
    case True
    then show ?thesis using enq by simp
  next
    case False
    then have "Suc (length (drop (?n - cap q) ?all)) - cap q = 1" using assms by simp
    then have "elems (fold enq (xs @ [x]) q) = drop (1 + (?n - cap q)) ?all @ [x]"
      unfolding enq by (simp only: drop_drop)
    also have "1 + (?n - cap q) = ?n + 1 - cap q" using False by simp
    finally show ?thesis using assms by simp
  qed
qed

lemma length_enq: "cap q \<noteq> 0 \<Longrightarrow> length (elems (enq x q)) = min (Suc (length (elems q))) (cap q)"
  by (simp add: elems_enq)

end

section \<open>The list implements the interface\<close>

lemma make_room_drop: "0 < mx \<Longrightarrow> make_room mx xs = Some (drop (Suc (length xs) - mx) xs)"
proof (induction xs)
  case (Cons x xs)
  then show ?case by (cases "mx \<le> length (x # xs)") (simp_all add: Suc_diff_le)
qed simp

lemma push_Some:
  "push q v at_front = Some (q\<lparr>m_list :=
      (let xs = (if m_max_elements q = 0 then m_list q
                 else drop (Suc (length (m_list q)) - m_max_elements q) (m_list q))
       in if at_front then v # xs else xs @ [v]), m_event := event_signal (m_event q)\<rparr>)"
  by (simp add: push_def make_room_drop Let_def)

text \<open>\<open>push(v)\<close> with its default argument; it always returns.\<close>

definition push_back :: "'a \<Rightarrow> 'a pjs_list \<Rightarrow> 'a pjs_list" where
  "push_back v q = (case push q v False of Some q' \<Rightarrow> q' | None \<Rightarrow> q)"

lemma push_back_fields:
  "m_list (push_back v q) = (if m_max_elements q = 0 then m_list q
      else drop (Suc (length (m_list q)) - m_max_elements q) (m_list q)) @ [v]"
  "m_max_elements (push_back v q) = m_max_elements q"
  "m_event (push_back v q) = event_signal (m_event q)"
  by (simp_all add: push_back_def push_Some)

interpretation mq: bounded_queue push_back "\<lambda>q. pop q True" m_list m_max_elements
  by unfold_locales (auto simp: push_back_fields pop_def)

section \<open>Producer and consumer\<close>

text \<open>
  One consumer that waits and pops, any number of producers. Every operation holds the list's
  mutex, but \<open>wait\<close> releases it between its emptiness test and the wait on the event, so a
  push can come in between. The consumer is Running or Blocked in the event's wait.
\<close>

datatype consumer = Running | Blocked

record 'a queue_sys =
  queue :: "'a pjs_list"
  consumer :: consumer

inductive queue_step :: "'a queue_sys \<Rightarrow> 'a queue_sys \<Rightarrow> bool" where
  produce: "push (queue s) v at_front = Some q' \<Longrightarrow> queue_step s (s\<lparr>queue := q'\<rparr>)"
| cancel: "queue_step s (s\<lparr>queue := cancel_wait (queue s)\<rparr>)"
| clear: "queue_step s (s\<lparr>queue := list_clear (queue s)\<rparr>)"
| consume: "consumer s = Running \<Longrightarrow> queue_step s (s\<lparr>queue := fst (pop (queue s) True)\<rparr>)"
| check: "consumer s = Running \<Longrightarrow> list_empty (queue s) \<Longrightarrow> queue_step s (s\<lparr>consumer := Blocked\<rparr>)"
| wake: "consumer s = Blocked \<Longrightarrow> m_triggered (m_event (queue s)) \<Longrightarrow>
    queue_step s (s\<lparr>consumer := Running,
      queue := (queue s)\<lparr>m_event := (m_event (queue s))\<lparr>m_triggered := False\<rparr>\<rparr>\<rparr>)"
| timeout: "consumer s = Blocked \<Longrightarrow> queue_step s (s\<lparr>consumer := Running\<rparr>)"

inductive_cases queue_step_cases: "queue_step s t"

inductive queue_reachable :: "nat \<Rightarrow> 'a queue_sys \<Rightarrow> bool" for mx where
  start: "queue_reachable mx \<lparr>queue = new_list mx, consumer = Running\<rparr>"
| step: "queue_reachable mx s \<Longrightarrow> queue_step s t \<Longrightarrow> queue_reachable mx t"

definition queue_inv :: "nat \<Rightarrow> 'a queue_sys \<Rightarrow> bool" where
  "queue_inv mx s \<longleftrightarrow> m_max_elements (queue s) = mx \<and>
     (mx \<noteq> 0 \<longrightarrow> length (m_list (queue s)) \<le> mx) \<and>
     (consumer s = Blocked \<longrightarrow> m_list (queue s) \<noteq> [] \<longrightarrow> m_triggered (m_event (queue s)))"

lemma queue_step_inv: "queue_step s t \<Longrightarrow> queue_inv mx s \<Longrightarrow> queue_inv mx t"
proof (induction rule: queue_step.induct)
  case (produce s v at_front q')
  then show ?case
    by (cases at_front) (auto simp: queue_inv_def push_Some event_signal_def Let_def)
qed (auto simp: queue_inv_def cancel_wait_def list_clear_def list_empty_def event_signal_def
    pop_def split: list.splits)

lemma queue_reachable_inv: "queue_reachable mx s \<Longrightarrow> queue_inv mx s"
proof (induction rule: queue_reachable.induct)
  case start
  show ?case by (simp add: queue_inv_def new_list_def)
next
  case (step s t)
  then show ?case by (blast intro: queue_step_inv)
qed

section \<open>The deadline\<close>

lemma abs_deadline_nsec:
  assumes "32 \<le> w" "0 \<le> timeout" "0 \<le> now_usec" "now_usec < 1000000"
  shows "ulong w (ulong w (now_usec + ulong w (1000 * ulong w (timeout smod 1000))) * 1000)
    = (now_usec + 1000 * (timeout mod 1000)) * 1000"
proof -
  have big: "(2 :: int) ^ 32 \<le> 2 ^ w" using assms(1) by (rule power_increasing) simp
  have smod: "timeout smod 1000 = timeout mod 1000"
    using assms(2) by (simp add: signed_modulo_int_def sdiv_pos minus_div_mult_eq_mod
        signed_divide_int_def sgn_if)
  have m: "0 \<le> timeout mod 1000" "timeout mod 1000 < 1000" by simp_all
  have id: "ulong w x = x" if "0 \<le> x" "x < 2 ^ 32" for x
    using that big by (simp add: ulong_def)
  have 1: "ulong w (timeout mod 1000) = timeout mod 1000" using m by (intro id) auto
  have 2: "ulong w (1000 * (timeout mod 1000)) = 1000 * (timeout mod 1000)"
    using m by (intro id) auto
  have 3: "ulong w (now_usec + 1000 * (timeout mod 1000)) = now_usec + 1000 * (timeout mod 1000)"
    using m assms by (intro id) auto
  have 4: "ulong w ((now_usec + 1000 * (timeout mod 1000)) * 1000)
      = (now_usec + 1000 * (timeout mod 1000)) * 1000"
    using m assms by (intro id) auto
  show ?thesis unfolding smod 1 2 3 4 by (rule refl)
qed

lemma deadline_sum:
  "d * 1000000000 + m = n \<Longrightarrow> n = u * 1000 + r * 1000000 \<Longrightarrow> t * 1000 + r = ms
    \<Longrightarrow> (s + t + d) * 1000000000 + m = s * 1000000000 + u * 1000 + ms * 1000000"
  for d :: int
  by presburger

lemma slong_id: "0 < w \<Longrightarrow> 0 \<le> x \<Longrightarrow> x < 2 ^ (w - 1) \<Longrightarrow> slong w x = x"
  using power_Suc [of "2 :: int" "w - 1"] by (simp add: slong_def)

section \<open>Waiting\<close>

lemma event_wait_signalled: "event_wait (event_signal e) wakes = Waited (e\<lparr>m_triggered := False\<rparr>) 0"
  by (simp add: event_wait_def event_signal_def wait_loop.simps [of "e\<lparr>m_triggered := True\<rparr>"])


section \<open>Properties\<close>

text \<open>
  C9: a queue of \<open>mx\<close> elements that receives the messages \<open>xs\<close> holds exactly the last \<open>mx\<close> of
  what it held and received, oldest first.
\<close>

theorem push_keeps_latest:
  assumes "m_max_elements q \<noteq> 0" and "length (m_list q) \<le> m_max_elements q"
  shows "m_list (fold push_back xs q)
    = drop (length (m_list q) + length xs - m_max_elements q) (m_list q @ xs)"
  using assms by (rule mq.elems_enq_all)

theorem push_keeps_latest_witness:
  "m_list (fold push_back [3, 4, 5] \<lparr>m_max_elements = 3, m_list = [1 :: nat, 2], m_event = new_event\<rparr>)
    = [3, 4, 5]"
  using push_keeps_latest [of "\<lparr>m_max_elements = 3, m_list = [1 :: nat, 2], m_event = new_event\<rparr>"
      "[3, 4, 5]"]
  by simp

text \<open>
  C18: no wake-up is lost. In every state the producers and the consumer can reach, a consumer
  that is blocked while the queue holds a message has its event triggered, so it can wake, and
  the queue never exceeds its bound.
\<close>

theorem no_lost_wakeup:
  assumes "queue_reachable mx s"
  shows "(consumer s = Blocked \<longrightarrow> m_list (queue s) \<noteq> [] \<longrightarrow> m_triggered (m_event (queue s)))
    \<and> (mx \<noteq> 0 \<longrightarrow> length (m_list (queue s)) \<le> mx)"
  using queue_reachable_inv [OF assms] by (simp add: queue_inv_def)

theorem no_lost_wakeup_witness:
  "\<exists>s :: nat queue_sys. queue_reachable 2 s \<and> consumer s = Blocked \<and> m_list (queue s) = [7]
     \<and> m_triggered (m_event (queue s))"
proof -
  let ?s0 = "\<lparr>queue = new_list 2, consumer = Running\<rparr> :: nat queue_sys"
  let ?s1 = "?s0\<lparr>consumer := Blocked\<rparr>"
  let ?s2 = "?s1\<lparr>queue := push_back 7 (queue ?s1)\<rparr>"
  have "queue_step ?s0 ?s1" by (rule queue_step.check) (simp_all add: list_empty_def new_list_def)
  moreover have "queue_step ?s1 ?s2"
    by (rule queue_step.produce [where v = 7 and at_front = False])
      (simp add: push_back_def push_Some)
  ultimately have reach: "queue_reachable 2 ?s2"
    by (blast intro: queue_reachable.intros)
  have "m_list (queue ?s2) = [7]" by (simp add: push_back_fields new_list_def)
  with reach no_lost_wakeup [OF reach] show ?thesis by (intro exI [of _ ?s2]) simp
qed

text \<open>
  On a full queue the urgent message that \<open>push(m, true)\<close> puts in front is the first one
  dropped: the next ordinary \<open>push\<close> discards it unread.
\<close>

theorem urgent_message_evicted:
  assumes "m_max_elements q \<noteq> 0" and "length (m_list q) = m_max_elements q"
    and "push q urgent True = Some q1" and "push q1 v False = Some q2"
  shows "m_list q1 = urgent # tl (m_list q) \<and> m_list q2 = tl (m_list q) @ [v]"
  using assms by (auto simp: push_Some Let_def drop_Suc)

theorem urgent_message_evicted_witness:
  "\<exists>q1 q2. push \<lparr>m_max_elements = 2, m_list = [1 :: nat, 2], m_event = new_event\<rparr> 0 True = Some q1
     \<and> push q1 3 False = Some q2 \<and> m_list q1 = [0, 2] \<and> m_list q2 = [2, 3]"
proof -
  let ?q = "\<lparr>m_max_elements = 2, m_list = [1 :: nat, 2], m_event = new_event\<rparr>"
  obtain q1 where q1: "push ?q 0 True = Some q1" by (simp add: push_Some)
  obtain q2 where q2: "push q1 3 False = Some q2" by (simp add: push_Some)
  from urgent_message_evicted [OF _ _ q1 q2] q1 q2 show ?thesis by auto
qed

text \<open>
  For every non-negative timeout whose deadline a long still holds, the absolute deadline is
  normalised and is exactly the current time plus the timeout, with 32-bit and wider longs alike.
\<close>

theorem deadline_exact:
  assumes "32 \<le> w" "0 \<le> timeout" "0 \<le> now_usec" "now_usec < 1000000"
    and "0 \<le> now_sec" "now_sec + timeout div 1000 + 1 < 2 ^ (w - 1)"
  shows "0 \<le> snd (abs_deadline w now_sec now_usec timeout)
    \<and> snd (abs_deadline w now_sec now_usec timeout) < 1000000000
    \<and> fst (abs_deadline w now_sec now_usec timeout) * 1000000000
        + snd (abs_deadline w now_sec now_usec timeout)
      = now_sec * 1000000000 + now_usec * 1000 + timeout * 1000000"
proof -
  let ?n = "(now_usec + 1000 * (timeout mod 1000)) * 1000"
  have div: "timeout sdiv 1000 = timeout div 1000" using assms(2) by (simp add: sdiv_pos)
  have n: "0 \<le> ?n" "?n < 2000000000" using assms pos_mod_bound [of 1000 timeout] by auto
  then have "?n div 1000000000 \<le> 1" by linarith
  then have "slong w (now_sec + timeout div 1000 + ?n div 1000000000)
      = now_sec + timeout div 1000 + ?n div 1000000000"
    using assms n by (intro slong_id) (auto simp: pos_imp_zdiv_nonneg_iff intro: order.strict_trans1)
  then have eq: "abs_deadline w now_sec now_usec timeout
      = (now_sec + timeout div 1000 + ?n div 1000000000, ?n mod 1000000000)"
    unfolding abs_deadline_def abs_deadline_nsec [OF assms(1-4)] div by (simp add: Let_def)
  have "(now_sec + timeout div 1000 + ?n div 1000000000) * 1000000000 + ?n mod 1000000000
      = now_sec * 1000000000 + now_usec * 1000 + timeout * 1000000"
    by (rule deadline_sum [OF div_mult_mod_eq _ div_mult_mod_eq]) simp
  then show ?thesis unfolding eq by simp
qed

theorem deadline_exact_witness:
  "fst (abs_deadline 32 5 999999 2500) * 1000000000 + snd (abs_deadline 32 5 999999 2500)
    = 5 * 1000000000 + 999999 * 1000 + 2500 * 1000000"
  using deadline_exact [of 32 2500 999999 5] by simp


end
