(* ===== verification/Gain_Control.thy ===== *)
theory Gain_Control
  imports Prelude
begin

text \<open>
  The automatic gain control of intercom/pjs_gaincontrol.h (class \<open>pjs_agc\<close>). Samples and
  gains are ints in the range of their C type; a gain is a 16.16 fixed-point number. A signed
  overflow, a division by zero and an index outside \<open>f_levels\<close> are the value None. Right
  shifts of signed values are arithmetic shifts.
\<close>

section \<open>State\<close>

definition PJS_RVOL_COUNT :: nat where "PJS_RVOL_COUNT = 25"
definition PJS_AGC_ONE_CONST :: int where "PJS_AGC_ONE_CONST = 65536"

text \<open>The truncated fixed-point constants 0.05, 0.96 (16 bits) and 1.1, 0.95, 0.90 (10 bits).\<close>

definition agc_step_const :: int where "agc_step_const = 3276"
definition agc_096_const :: int where "agc_096_const = 62914"
definition agc_110_const :: int where "agc_110_const = 1126"
definition agc_095_const :: int where "agc_095_const = 972"
definition agc_090_const :: int where "agc_090_const = 921"

record agc =
  f_gain :: int
  f_max_gain :: int
  f_min_gain :: int
  f_RVolsAGC :: "int list"
  f_RVolsAGCPos :: nat
  f_averagePower :: int
  f_revAveragePower :: int
  f_targetLevel :: int
  f_expectedMaxLevel :: int
  f_name :: string

text \<open>Signed 32-bit arithmetic that must not overflow, and division.\<close>

definition s32 :: "int \<Rightarrow> int option" where
  "s32 x = (if is_s32 x then Some x else None)"

definition s32_div :: "int \<Rightarrow> int \<Rightarrow> int option" where
  "s32_div a b = (if b = 0 then None else s32 (a sdiv b))"

definition asr :: "int \<Rightarrow> nat \<Rightarrow> int" where
  "asr x n = x div 2 ^ n"

definition new_agc :: "string \<Rightarrow> int \<Rightarrow> int \<Rightarrow> int \<Rightarrow> int \<Rightarrow> agc option" where
  "new_agc name max_gain min_gain expectedMaxLevel targetLevel =
     do {
       maxg \<leftarrow> s32 (max_gain * 65536);
       ming \<leftarrow> s32_div PJS_AGC_ONE_CONST min_gain;
       Some \<lparr>f_gain = PJS_AGC_ONE_CONST, f_max_gain = maxg, f_min_gain = ming,
         f_RVolsAGC = replicate PJS_RVOL_COUNT 0, f_RVolsAGCPos = 0,
         f_averagePower = 0, f_revAveragePower = 0,
         f_targetLevel = targetLevel, f_expectedMaxLevel = expectedMaxLevel, f_name = name\<rparr>
     }"

section \<open>Level measurements\<close>

definition calcPowerLevel :: "int list \<Rightarrow> int option" where
  "calcPowerLevel data =
     (if data = [] then None
      else Some (to_s16 (foldl (\<lambda>r x. to_u32 (r + abs x)) 0 data div int (length data))))"

definition calcMaxLevel :: "int list \<Rightarrow> int" where
  "calcMaxLevel data = foldl (\<lambda>r x. let v = to_s16 (abs x) in if v > r then v else r) 0 data"

text \<open>\<open>f_levels\<close>, an array of 32768 counters of type \<open>pj_uint16_t\<close>.\<close>

definition levels_inc :: "(int \<Rightarrow> int) \<Rightarrow> int \<Rightarrow> (int \<Rightarrow> int) option" where
  "levels_inc f v = (if 0 \<le> v \<and> v < 32768 then Some (f(v := to_u16 (f v + 1))) else None)"

text \<open>The first loop of \<open>process\<close>: the maximum, the sum and the histogram of the frame.\<close>

fun agc_scan :: "int list \<Rightarrow> int \<times> int \<times> (int \<Rightarrow> int) \<Rightarrow> (int \<times> int \<times> (int \<Rightarrow> int)) option" where
  "agc_scan [] acc = Some acc"
| "agc_scan (x # xs) (maxLevel, tmpu32, levels) =
     do {
       let v = to_s16 (abs x);
       levels' \<leftarrow> levels_inc levels v;
       agc_scan xs (if v > maxLevel then v else maxLevel, to_u32 (tmpu32 + v), levels')
     }"

definition agc_power :: "agc \<Rightarrow> int \<Rightarrow> nat \<Rightarrow> int option" where
  "agc_power a tmpu32 size' =
     (if size' = 0 then None
      else do {
        p \<leftarrow> s32 (to_s32 (tmpu32 div int size') * f_targetLevel a);
        q \<leftarrow> s32_div p (f_expectedMaxLevel a);
        Some (to_s16 (min 32767 q))
      })"

text \<open>
  The second loop, from counter 32767 downwards: the mean of the loudest samples, as soon as
  there are more than \<open>l\<close> of them. \<open>n\<close> counters are left; no result means the loop ran off
  the end and \<open>*level\<close> stays 0.
\<close>

fun level_loop :: "nat \<Rightarrow> (int \<Rightarrow> int) \<Rightarrow> int \<Rightarrow> int \<Rightarrow> int \<Rightarrow> int option" where
  "level_loop 0 f l c s = Some 0"
| "level_loop (Suc i) f l c s =
     do {
       c' \<leftarrow> s32 (c + f (int i));
       prod \<leftarrow> s32 (int i * f (int i));
       s' \<leftarrow> s32 (s + prod);
       if c' > l then map_option to_u16 (s32_div s' c') else level_loop i f l c' s'
     }"

definition agc_level :: "(int \<Rightarrow> int) \<Rightarrow> nat \<Rightarrow> int option" where
  "agc_level levels size' = level_loop 32768 levels (asr (int size') 4) 0 0"

section \<open>The gain\<close>

text \<open>The interpolation loop of \<open>gain\<close> and of \<open>process\<close>.\<close>

definition scale_sample :: "int \<Rightarrow> int \<Rightarrow> int \<Rightarrow> int \<Rightarrow> int option" where
  "scale_sample x old_gain i ginc =
     do {
       inc \<leftarrow> s32 (i * ginc);
       g \<leftarrow> s32 (old_gain + inc);
       p \<leftarrow> s32 (x * g);
       Some (to_s16 (asr p 16))
     }"

fun gain_loop :: "int \<Rightarrow> int \<Rightarrow> int \<Rightarrow> int list \<Rightarrow> int list option" where
  "gain_loop old_gain ginc i [] = Some []"
| "gain_loop old_gain ginc i (x # xs) =
     do {
       y \<leftarrow> scale_sample x old_gain i ginc;
       ys \<leftarrow> gain_loop old_gain ginc (i + 1) xs;
       Some (y # ys)
     }"

definition gain :: "int \<Rightarrow> int \<Rightarrow> int list \<Rightarrow> int list option" where
  "gain new_gain old_gain data =
     do {
       diff \<leftarrow> s32 (new_gain - old_gain);
       ginc \<leftarrow> s32_div diff (int (length data) - 1);
       gain_loop old_gain ginc 0 data
     }"

definition agc_DIV :: "int \<Rightarrow> int \<Rightarrow> int option" where
  "agc_DIV a b = do { x \<leftarrow> s32 (a * 65536); s32_div x b }"

text \<open>Which of no change, up, down and down to one the frame asks for.\<close>

datatype agc_action = NoChange | Up | Down | DownToOne

definition agc_decide :: "bool \<Rightarrow> int \<Rightarrow> int \<Rightarrow> agc \<Rightarrow> agc \<times> agc_action" where
  "agc_decide handsfree rev_power maxLevel a =
     (if maxLevel < 700 then (a, NoChange)
      else if rev_power > 0 then
        (let a = (if f_averagePower a < 1 then a\<lparr>f_averagePower := 1\<rparr> else a);
             ratio = f_revAveragePower a sdiv f_averagePower a
         in (a, if handsfree \<and> rev_power \<ge> 500 then Down
                else if ratio > 10 then Down
                else if ratio > 5 then DownToOne
                else if ratio > 2 then NoChange
                else Up))
      else (a, Up))"

definition agc_update_averages :: "int \<Rightarrow> int \<Rightarrow> agc \<Rightarrow> agc" where
  "agc_update_averages powerLevel rev_power a =
     a\<lparr>f_averagePower := to_s16 (asr (f_averagePower a * 972 + 52 * powerLevel) 10),
       f_revAveragePower :=
         (if rev_power > 0 then to_s16 (asr (f_revAveragePower a * 972 + 52 * rev_power) 10) else 0)\<rparr>"

definition agc_max_gain :: "agc \<Rightarrow> int \<Rightarrow> int option" where
  "agc_max_gain a bufMaxLevel =
     do {
       t \<leftarrow> s32 (f_targetLevel a * 65536);
       g \<leftarrow> s32_div t bufMaxLevel;
       Some (if g < PJS_AGC_ONE_CONST then PJS_AGC_ONE_CONST else g)
     }"

definition agc_move :: "agc_action \<Rightarrow> int \<Rightarrow> int \<Rightarrow> int option" where
  "agc_move action maxGain g =
     (case action of
        NoChange \<Rightarrow> Some g
      | Up \<Rightarrow> do {
          p \<leftarrow> s32 (g * agc_110_const);
          if maxGain > asr p 10 then
            (if g > agc_096_const then s32 (g + agc_step_const) else Some PJS_AGC_ONE_CONST)
          else Some g
        }
      | Down \<Rightarrow> s32 (g - agc_step_const)
      | DownToOne \<Rightarrow> do {
          g \<leftarrow> (if g > PJS_AGC_ONE_CONST then s32 (g - agc_step_const) else Some g);
          Some (if g < PJS_AGC_ONE_CONST then PJS_AGC_ONE_CONST else g)
        })"

definition agc_limit :: "agc \<Rightarrow> int \<Rightarrow> int \<Rightarrow> int option" where
  "agc_limit a maxGain g =
     do {
       p \<leftarrow> s32 (g * agc_095_const);
       g \<leftarrow> (if maxGain < asr p 10 then map_option (\<lambda>x. asr x 10) (s32 (maxGain * agc_090_const))
             else Some g);
       let g = (if maxGain < g then maxGain else g);
       Some (if g < f_min_gain a then f_min_gain a
             else if g > f_max_gain a then f_max_gain a else g)
     }"

text \<open>
  What \<open>process\<close> does once the recent maximum is positive; \<open>prev_gain\<close> is the gain on entry,
  and the result holds the scaled frame.
\<close>

definition agc_adapt ::
    "agc \<Rightarrow> bool \<Rightarrow> int \<Rightarrow> int \<Rightarrow> int \<Rightarrow> int \<Rightarrow> int list \<Rightarrow> (agc \<times> int list) option" where
  "agc_adapt a handsfree rev_power powerLevel maxLevel bufMaxLevel data =
     do {
       let (a, action) = agc_decide handsfree rev_power maxLevel
                           (agc_update_averages powerLevel rev_power a);
       maxGain \<leftarrow> agc_max_gain a bufMaxLevel;
       let prev_gain = (if maxGain < f_gain a then maxGain else f_gain a);
       moved \<leftarrow> agc_move action maxGain (f_gain a);
       g \<leftarrow> agc_limit a maxGain moved;
       let a = a\<lparr>f_gain := g\<rparr>;
       if g \<noteq> PJS_AGC_ONE_CONST
       then do { data' \<leftarrow> gain g prev_gain data; Some (a, data') }
       else Some (a, data)
     }"

text \<open>The frame's maximum enters the ring of the last 25 maxima.\<close>

definition agc_remember :: "agc \<Rightarrow> int \<Rightarrow> agc option" where
  "agc_remember a maxLevel =
     do {
       vols \<leftarrow> mem_set (f_RVolsAGC a) (f_RVolsAGCPos a) maxLevel;
       let pos = f_RVolsAGCPos a + 1;
       Some (a\<lparr>f_RVolsAGC := vols, f_RVolsAGCPos := (if pos \<ge> PJS_RVOL_COUNT then 0 else pos)\<rparr>)
     }"

text \<open>\<open>process\<close>: the new state, the frame, the returned power, and \<open>*level\<close> when asked for.\<close>

record agc_output =
  out_data :: "int list"
  out_power :: int
  out_level :: "int option"

definition process_frame ::
    "agc \<Rightarrow> int list \<Rightarrow> int \<Rightarrow> bool \<Rightarrow> bool \<Rightarrow> (agc \<times> agc_output) option" where
  "process_frame a data rev_power want_level handsfree =
     do {
       (maxLevel, tmpu32, levels) \<leftarrow> agc_scan data (0, 0, \<lambda>_. 0);
       powerLevel \<leftarrow> agc_power a tmpu32 (length data);
       level \<leftarrow> (if want_level then map_option Some (agc_level levels (length data)) else Some None);
       a \<leftarrow> agc_remember a maxLevel;
       let bufMaxLevel = foldl (\<lambda>m v. if m < v then v else m) 0 (f_RVolsAGC a);
       (a, data') \<leftarrow> (if bufMaxLevel > 0
                      then agc_adapt a handsfree rev_power powerLevel maxLevel bufMaxLevel data
                      else Some (a, data));
       Some (a, \<lparr>out_data = data', out_power = powerLevel, out_level = level\<rparr>)
     }"

section \<open>Measurements stay in range\<close>

lemma s32_in [conv_simps]: "is_s32 x \<Longrightarrow> s32 x = Some x"
  by (simp add: s32_def)

lemma s32_nonneg: "0 \<le> x \<Longrightarrow> x \<le> 2147483647 \<Longrightarrow> s32 x = Some x"
  by (simp add: s32_def is_s32_def)

lemma s32_div_pos: "0 \<le> a \<Longrightarrow> a \<le> 2147483647 \<Longrightarrow> 0 < b \<Longrightarrow> s32_div a b = Some (a div b)"
  using zdiv_mono2 [of a 1 b] pos_imp_zdiv_nonneg_iff [of b a]
  by (simp add: s32_div_def sdiv_pos s32_nonneg)

lemma sdiv_abs_le: "0 < b \<Longrightarrow> \<bar>a sdiv b\<bar> \<le> \<bar>a\<bar>" for a b :: int
  using zdiv_mono2 [of "\<bar>a\<bar>" 1 b]
  by (cases "0 \<le> a") (auto simp: sdiv_pos sdiv_neg pos_imp_zdiv_nonneg_iff)

lemma s32_div_any: "is_s32 a \<Longrightarrow> a \<noteq> -2147483648 \<Longrightarrow> 0 < b \<Longrightarrow> s32_div a b = Some (a sdiv b)"
  using sdiv_abs_le [of b a] by (auto simp: s32_div_def s32_def is_s32_def)

definition hist_total :: "(int \<Rightarrow> int) \<Rightarrow> nat \<Rightarrow> int" where
  "hist_total f n = (\<Sum>i<n. f (int i))"

definition hist_ok :: "int \<Rightarrow> (int \<Rightarrow> int) \<Rightarrow> bool" where
  "hist_ok m f \<longleftrightarrow> (\<forall>i. 0 \<le> f i \<and> (m < i \<longrightarrow> f i = 0))"

lemma hist_total_Suc: "hist_total f (Suc n) = hist_total f n + f (int n)"
  by (simp add: hist_total_def)

lemma hist_total_upd:
  "0 \<le> v \<Longrightarrow> v < int n \<Longrightarrow> hist_total (f(v := f v + 1)) n = hist_total f n + 1"
proof (induction n)
  case (Suc n)
  show ?case
  proof (cases "v < int n")
    case True
    with Suc show ?thesis by (simp add: hist_total_Suc)
  next
    case False
    with Suc.prems have v: "v = int n" by simp
    have "hist_total (f(int n := f (int n) + 1)) n = hist_total f n"
      by (simp add: hist_total_def)
    with v show ?thesis by (simp add: hist_total_Suc del: fun_upd_apply) simp
  qed
qed (simp add: hist_total_def)

lemma hist_le_total:
  assumes "hist_ok m f" "0 \<le> v" "v < int n" shows "f v \<le> hist_total f n"
proof -
  have "f (int (nat v)) \<le> (\<Sum>i<n. f (int i))"
    using assms by (intro member_le_sum) (auto simp: hist_ok_def)
  with assms show ?thesis by (simp add: hist_total_def)
qed

definition sample_ok :: "int \<Rightarrow> bool" where
  "sample_ok x \<longleftrightarrow> -32767 \<le> x \<and> x \<le> 32767"

lemma agc_scan_ok:
  assumes "\<forall>x \<in> set xs. sample_ok x" "0 \<le> m" "m \<le> 32767" "0 \<le> t"
    "t + 32767 * int (length xs) < 4294967296" "hist_ok m f"
    "hist_total f 32768 + int (length xs) \<le> 65535"
  shows "\<exists>m' t' f'. agc_scan xs (m, t, f) = Some (m', t', f') \<and> m \<le> m' \<and> m' \<in> insert m (abs ` set xs) \<and> m' \<le> 32767
    \<and> (\<forall>x \<in> set xs. \<bar>x\<bar> \<le> m') \<and> 0 \<le> t' \<and> t' \<le> t + 32767 * int (length xs)
    \<and> hist_ok m' f' \<and> hist_total f' 32768 = hist_total f 32768 + int (length xs)"
  using assms
proof (induction xs arbitrary: m t f)
  case Nil
  then show ?case by simp
next
  case (Cons x xs)
  let ?v = "\<bar>x\<bar>" and ?m = "max m \<bar>x\<bar>" and ?f = "f(\<bar>x\<bar> := f \<bar>x\<bar> + 1)"
  have x: "0 \<le> ?v" "?v \<le> 32767" using Cons.prems(1) by (auto simp: sample_ok_def)
  then have v: "to_s16 ?v = ?v" by (simp add: conv_simps)
  have tot: "hist_total f 32768 + 1 + int (length xs) \<le> 65535" using Cons.prems(7) by simp
  have le: "f ?v \<le> hist_total f 32768" using x by (intro hist_le_total [OF Cons.prems(6)]) auto
  have nn: "0 \<le> f ?v" using Cons.prems(6) by (simp add: hist_ok_def)
  have inc: "levels_inc f ?v = Some ?f"
    using x le tot nn by (simp add: levels_inc_def conv_simps)
  have t: "to_u32 (t + ?v) = t + ?v" using x Cons.prems by (intro to_u32_id) auto
  have h: "hist_ok ?m ?f" using Cons.prems(6) nn by (auto simp: hist_ok_def)
  have ht: "hist_total ?f 32768 = hist_total f 32768 + 1" using x by (intro hist_total_upd) auto
  have "\<exists>m' t' f'. agc_scan xs (?m, t + ?v, ?f) = Some (m', t', f') \<and> ?m \<le> m'
    \<and> m' \<in> insert ?m (abs ` set xs) \<and> m' \<le> 32767 \<and> (\<forall>x \<in> set xs. \<bar>x\<bar> \<le> m') \<and> 0 \<le> t' \<and> t' \<le> t + ?v + 32767 * int (length xs)
    \<and> hist_ok m' f' \<and> hist_total f' 32768 = hist_total ?f 32768 + int (length xs)"
    using Cons.prems x h ht by (intro Cons.IH) (auto simp del: fun_upd_apply)
  then obtain m' t' f' where r: "agc_scan xs (?m, t + ?v, ?f) = Some (m', t', f')" "?m \<le> m'" "m' \<in> insert ?m (abs ` set xs)"
    "m' \<le> 32767" "\<forall>x \<in> set xs. \<bar>x\<bar> \<le> m'" "0 \<le> t'" "t' \<le> t + ?v + 32767 * int (length xs)"
    "hist_ok m' f'" "hist_total f' 32768 = hist_total ?f 32768 + int (length xs)" by blast
  have "agc_scan (x # xs) (m, t, f) = Some (m', t', f')"
    using r(1) by (cases "m < ?v") (simp_all add: v inc t max_def)
  moreover have "m' \<in> insert m (abs ` set (x # xs))" using r(3) by (cases "m \<le> ?v") (auto simp: max_def)
  moreover have "\<forall>y \<in> set (x # xs). \<bar>y\<bar> \<le> m'" using r(2,5) by auto
  moreover have "m \<le> m'" using r(2) by simp
  moreover have "t' \<le> t + 32767 * int (length (x # xs))" using r(7) x(2) by simp
  moreover have "hist_total f' 32768 = hist_total f 32768 + int (length (x # xs))"
    using r(9) ht by simp
  ultimately show ?case using r(4,6,8) by blast
qed

lemma agc_power_ok:
  assumes "0 \<le> t" "t \<le> 32767 * int n" "0 < n" "0 < f_targetLevel a" "f_targetLevel a \<le> 32767"
    "0 < f_expectedMaxLevel a"
  shows "\<exists>p. agc_power a t n = Some p \<and> 0 \<le> p \<and> p \<le> 32767"
proof -
  have d: "t div int n \<le> 32767" using assms(2,3) zdiv_mono1 [of t "32767 * int n" "int n"] by simp
  have d0: "0 \<le> t div int n" using assms by (simp add: pos_imp_zdiv_nonneg_iff)
  have "(t div int n) * f_targetLevel a \<le> 32767 * 32767"
    using d d0 assms by (intro mult_mono) auto
  moreover have "to_s32 (t div int n) = t div int n" using d d0 by (intro to_s32_id) auto
  moreover define y where "y = (t div int n) * f_targetLevel a"
  ultimately have y: "0 \<le> y" "y \<le> 2147483647" "to_s32 (t div int n) * f_targetLevel a = y"
    using d0 assms by auto
  have "0 \<le> y div f_expectedMaxLevel a" using y assms by (simp add: pos_imp_zdiv_nonneg_iff)
  then show ?thesis
    using assms y by (simp add: agc_power_def s32_nonneg s32_div_pos min_def conv_simps)
qed

lemma level_loop_ok:
  assumes "n \<le> 32768" "hist_ok m f" "0 \<le> c" "c + hist_total f n \<le> 65535" "0 \<le> s" "s \<le> m * c"
    "0 \<le> m" "m \<le> 32767" "0 \<le> l"
  shows "\<exists>v. level_loop n f l c s = Some v \<and> 0 \<le> v \<and> v \<le> m"
  using assms
proof (induction n arbitrary: c s)
  case (Suc i)
  let ?k = "f (int i)"
  have k: "0 \<le> ?k" "m < int i \<longrightarrow> ?k = 0" using Suc.prems(2) by (auto simp: hist_ok_def)
  have tot: "0 \<le> hist_total f i" using Suc.prems(2) by (auto simp: hist_total_def hist_ok_def intro: sum_nonneg)
  have c: "c + ?k + hist_total f i \<le> 65535" using Suc.prems by (simp add: hist_total_Suc)
  have ik: "int i * ?k \<le> m * ?k" using k by (cases "m < int i") (auto intro: mult_right_mono)
  have ik0: "0 \<le> int i * ?k" using k by simp
  have s: "s + int i * ?k \<le> m * (c + ?k)" using Suc.prems ik by (simp add: distrib_left)
  have "m * (c + ?k) \<le> 32767 * 65535" using Suc.prems c k tot by (intro mult_mono) auto
  with s have big: "s + int i * ?k \<le> 2147385345" by simp
  have steps: "s32 (c + ?k) = Some (c + ?k)" "s32 (int i * ?k) = Some (int i * ?k)"
    "s32 (s + int i * ?k) = Some (s + int i * ?k)"
    using Suc.prems(3,5) k(1) c tot big ik0
    by (simp_all add: s32_nonneg add_increasing)
  show ?case
  proof (cases "c + ?k > l")
    case True
    have q: "(s + int i * ?k) div (c + ?k) \<le> m"
      using s True Suc.prems zdiv_mono1 [of "s + int i * ?k" "m * (c + ?k)" "c + ?k"] by simp
    have "0 \<le> (s + int i * ?k) div (c + ?k)"
      using True Suc.prems ik0 by (simp add: pos_imp_zdiv_nonneg_iff)
    with q True Suc.prems ik0 big show ?thesis
      by (simp add: steps s32_div_pos conv_simps)
  next
    case False
    have "\<exists>v. level_loop i f l (c + ?k) (s + int i * ?k) = Some v \<and> 0 \<le> v \<and> v \<le> m"
      using Suc.prems c k s ik0 by (intro Suc.IH) auto
    then show ?thesis using False by (simp add: steps)
  qed
qed simp

lemma agc_level_ok:
  assumes "hist_ok m f" "0 \<le> m" "m \<le> 32767" "hist_total f 32768 \<le> 65535"
  shows "\<exists>v. agc_level f n = Some v \<and> 0 \<le> v \<and> v \<le> m"
  unfolding agc_level_def using assms
  by (intro level_loop_ok) (auto simp: asr_def)

section \<open>The gain stays between its limits\<close>

lemma interp_bounds:
  fixes a b i n :: int
  assumes "0 < n" "0 \<le> i" "i \<le> n"
  shows "min a b \<le> a + i * ((b - a) sdiv n) \<and> a + i * ((b - a) sdiv n) \<le> max a b"
    and "\<bar>i * ((b - a) sdiv n)\<bar> \<le> \<bar>b - a\<bar>"
proof -
  have mono: "0 \<le> i * (d div n) \<and> i * (d div n) \<le> d" if "0 \<le> d" for d
  proof -
    have q: "0 \<le> d div n" using that assms by (simp add: pos_imp_zdiv_nonneg_iff)
    have "i * (d div n) \<le> n * (d div n)" using q assms by (intro mult_right_mono)
    also have "\<dots> \<le> d" using pos_mod_sign [of n d] assms by (simp add: mult_div_mod_eq [symmetric]
          minus_mod_eq_mult_div [symmetric])
    finally show ?thesis using q assms by simp
  qed
  show "min a b \<le> a + i * ((b - a) sdiv n) \<and> a + i * ((b - a) sdiv n) \<le> max a b"
    and "\<bar>i * ((b - a) sdiv n)\<bar> \<le> \<bar>b - a\<bar>"
    using mono [of "b - a"] mono [of "a - b"] assms(1)
    by (cases "a \<le> b"; simp add: sdiv_pos sdiv_neg min_def max_def)+
qed

text \<open>A sample \<open>x\<close> and the scaled sample \<open>y\<close>: the level stays below \<open>K\<close> or below what it was.\<close>

definition not_louder :: "int \<Rightarrow> int \<Rightarrow> int \<Rightarrow> bool" where
  "not_louder K x y \<longleftrightarrow> \<bar>y\<bar> \<le> max K \<bar>x\<bar>"

lemma abs_div_shift: "\<bar>p\<bar> \<le> K * 65536 \<Longrightarrow> \<bar>p div 65536\<bar> \<le> K" for p K :: int
  using zdiv_mono1 [of p "K * 65536" 65536] zdiv_mono1 [of "- K * 65536" p 65536]
  by (simp add: abs_le_iff)

lemma scale_sample_ok:
  assumes g: "g = old + i * ginc" "is_s32 (i * ginc)" "0 \<le> g" "is_s32 g"
    and K: "\<bar>x\<bar> * g \<le> max K \<bar>x\<bar> * 65536" and "sample_ok x" "K \<le> 32767"
  shows "\<exists>y. scale_sample x old i ginc = Some y \<and> not_louder K x y \<and> sample_ok y"
proof -
  have m: "0 \<le> max K \<bar>x\<bar>" "max K \<bar>x\<bar> \<le> 32767" using assms by (auto simp: sample_ok_def)
  have p: "\<bar>x * g\<bar> \<le> max K \<bar>x\<bar> * 65536" using K g(3) by (simp add: abs_mult)
  then have "is_s32 (x * g)" using m by (auto simp: is_s32_def abs_le_iff)
  moreover have y: "\<bar>x * g div 65536\<bar> \<le> max K \<bar>x\<bar>" using p by (rule abs_div_shift)
  moreover have "to_s16 (x * g div 65536) = x * g div 65536"
    using y m by (intro to_s16_id) (auto simp: abs_le_iff)
  ultimately show ?thesis
    using g m by (auto simp: scale_sample_def asr_def s32_in not_louder_def sample_ok_def abs_le_iff)
qed

definition sample_gain_ok :: "int \<Rightarrow> int \<Rightarrow> int \<Rightarrow> bool" where
  "sample_gain_ok K G x \<longleftrightarrow> sample_ok x \<and> \<bar>x\<bar> * G \<le> max K \<bar>x\<bar> * 65536"

lemma gain_loop_ok:
  assumes "\<And>j. i \<le> j \<Longrightarrow> j < i + int (length xs) \<Longrightarrow>
      is_s32 (j * ginc) \<and> 0 \<le> old + j * ginc \<and> old + j * ginc \<le> G"
    and "\<forall>x \<in> set xs. sample_gain_ok K G x" "G \<le> 2147483647" "K \<le> 32767"
  shows "\<exists>ys. gain_loop old ginc i xs = Some ys \<and> list_all2 (not_louder K) xs ys
    \<and> (\<forall>y \<in> set ys. sample_ok y)"
  using assms
proof (induction xs arbitrary: i)
  case (Cons x xs)
  let ?g = "old + i * ginc"
  have g: "is_s32 (i * ginc)" "0 \<le> ?g" "?g \<le> G" using Cons.prems(1) [of i] by auto
  have "\<bar>x\<bar> * ?g \<le> \<bar>x\<bar> * G" using g by (intro mult_left_mono) auto
  also have "\<dots> \<le> max K \<bar>x\<bar> * 65536" using Cons.prems(2) by (simp add: sample_gain_ok_def)
  finally have xg: "\<bar>x\<bar> * ?g \<le> max K \<bar>x\<bar> * 65536" .
  have "is_s32 ?g" using g Cons.prems(3) by (simp add: is_s32_def)
  then obtain y where y: "scale_sample x old i ginc = Some y" "not_louder K x y" "sample_ok y"
    using scale_sample_ok [OF refl g(1,2) _ xg _ Cons.prems(4)] Cons.prems(2)
    by (auto simp: sample_gain_ok_def)
  have "\<exists>ys. gain_loop old ginc (i + 1) xs = Some ys \<and> list_all2 (not_louder K) xs ys
    \<and> (\<forall>y \<in> set ys. sample_ok y)"
    using Cons.prems by (intro Cons.IH) auto
  with y show ?case by auto
qed simp

lemma gain_ok:
  assumes "2 \<le> length xs" "length xs \<le> 65535" "0 \<le> new" "new \<le> G" "0 \<le> old" "old \<le> G"
    "\<forall>x \<in> set xs. sample_gain_ok K G x" "G \<le> 2147483647" "K \<le> 32767"
  shows "\<exists>ys. gain new old xs = Some ys \<and> list_all2 (not_louder K) xs ys
    \<and> (\<forall>y \<in> set ys. sample_ok y)"
proof -
  let ?n = "int (length xs) - 1" and ?d = "new - old"
  have n: "0 < ?n" using assms by simp
  have d: "is_s32 ?d" "?d \<noteq> -2147483648" using assms by (auto simp: is_s32_def)
  have div: "s32 ?d = Some ?d" "s32_div ?d ?n = Some (?d sdiv ?n)"
    using d n by (simp_all add: s32_in s32_div_any)
  have "is_s32 (j * (?d sdiv ?n)) \<and> 0 \<le> old + j * (?d sdiv ?n) \<and> old + j * (?d sdiv ?n) \<le> G"
    if "0 \<le> j" "j < 0 + int (length xs)" for j
    using interp_bounds [of ?n j old new] n that assms d by (auto simp: is_s32_def abs_le_iff)
  then have "\<exists>ys. gain_loop old (?d sdiv ?n) 0 xs = Some ys \<and> list_all2 (not_louder K) xs ys
    \<and> (\<forall>y \<in> set ys. sample_ok y)"
    using assms by (intro gain_loop_ok) auto
  then show ?thesis by (simp add: gain_def div)
qed

section \<open>Choosing the gain\<close>

text \<open>The configuration and the state between two frames; 29 is the largest \<open>max_gain\<close> whose products fit.\<close>

definition agc_inv :: "agc \<Rightarrow> bool" where
  "agc_inv a \<longleftrightarrow>
     0 \<le> f_min_gain a \<and> f_min_gain a \<le> 65536 \<and> 65536 \<le> f_max_gain a \<and> f_max_gain a \<le> 29 * 65536 \<and>
     f_min_gain a \<le> f_gain a \<and> f_gain a \<le> f_max_gain a \<and>
     length (f_RVolsAGC a) = PJS_RVOL_COUNT \<and> f_RVolsAGCPos a < PJS_RVOL_COUNT \<and>
     (\<forall>v \<in> set (f_RVolsAGC a). v \<le> 32767) \<and>
     0 < f_targetLevel a \<and> f_targetLevel a \<le> 32767 \<and>
     0 < f_expectedMaxLevel a \<and> f_expectedMaxLevel a \<le> 32767"

lemma new_agc_inv:
  "1 \<le> max_gain \<Longrightarrow> max_gain \<le> 29 \<Longrightarrow> 1 \<le> min_gain \<Longrightarrow>
   0 < expected \<Longrightarrow> expected \<le> 32767 \<Longrightarrow> 0 < target \<Longrightarrow> target \<le> 32767 \<Longrightarrow>
   \<exists>a. new_agc name max_gain min_gain expected target = Some a \<and> agc_inv a \<and>
     f_max_gain a = max_gain * 65536 \<and> f_min_gain a = 65536 div min_gain \<and> f_gain a = 65536"
  using zdiv_mono2 [of 65536 1 min_gain]
  by (auto simp: new_agc_def s32_nonneg s32_div_pos agc_inv_def PJS_AGC_ONE_CONST_def
      pos_imp_zdiv_nonneg_iff PJS_RVOL_COUNT_def)

lemma foldl_max: "foldl (\<lambda>m v. if m < v then v else m) (m :: int) vs = fold max vs m"
  by (induction vs arbitrary: m) (simp_all add: max_def)

lemma fold_max_ge: "m \<le> fold max vs m" "v \<in> set vs \<Longrightarrow> v \<le> fold max vs m" for m :: int
  using Max.set_eq_fold [of m vs] by (auto simp flip: Max.set_eq_fold)

lemma fold_max_le: "m \<le> b \<Longrightarrow> \<forall>v \<in> set vs. v \<le> b \<Longrightarrow> fold max vs m \<le> b" for m b :: int
  by (induction vs arbitrary: m) auto

lemma agc_max_gain_ok:
  assumes "agc_inv a" "0 < b" "b \<le> 32767"
  shows "\<exists>G. agc_max_gain a b = Some G \<and> 65536 \<le> G \<and> G \<le> 32767 * 65536 \<and>
    (\<forall>x. sample_ok x \<and> \<bar>x\<bar> \<le> b \<longrightarrow> sample_gain_ok (f_targetLevel a) G x)"
proof -
  let ?t = "f_targetLevel a" and ?G = "max 65536 (f_targetLevel a * 65536 div b)"
  have t: "0 < ?t" "?t \<le> 32767" using assms by (auto simp: agc_inv_def)
  have q: "0 \<le> ?t * 65536 div b" using t assms by (simp add: pos_imp_zdiv_nonneg_iff)
  have q': "?t * 65536 div b \<le> 32767 * 65536" using t assms zdiv_mono2 [of "?t * 65536" 1 b] by simp
  have "agc_max_gain a b = Some ?G"
    using t assms by (simp add: agc_max_gain_def s32_nonneg s32_div_pos PJS_AGC_ONE_CONST_def max_def)
  moreover have "\<bar>x\<bar> * ?G \<le> max ?t \<bar>x\<bar> * 65536" if "\<bar>x\<bar> \<le> b" for x
  proof (cases "65536 \<le> ?t * 65536 div b")
    case True
    have "\<bar>x\<bar> * (?t * 65536 div b) \<le> b * (?t * 65536 div b)" using that q by (intro mult_right_mono)
    also have "\<dots> \<le> ?t * 65536" using assms(2) pos_mod_sign [of b "?t * 65536"]
      by (simp add: minus_mod_eq_mult_div [symmetric])
    also have "\<dots> \<le> max ?t \<bar>x\<bar> * 65536" by simp
    finally show ?thesis using True by (simp add: max_def)
  qed (simp add: max_def)
  ultimately show ?thesis using q' by (auto simp: sample_gain_ok_def)
qed

lemma asr_le_div: "asr x 10 = x div 1024"
  by (simp add: asr_def)

lemma agc_move_ok:
  assumes "0 \<le> g" "g \<le> 29 * 65536"
  shows "\<exists>g'. agc_move action G g = Some g' \<and> - 3276 \<le> g' \<and> g' \<le> 29 * 65536 + 3276"
  using assms
  by (cases action)
    (auto simp: agc_move_def s32_def is_s32_def agc_110_const_def agc_096_const_def
      agc_step_const_def PJS_AGC_ONE_CONST_def)

lemma agc_limit_ok:
  assumes "agc_inv a" "65536 \<le> G" "- 3276 \<le> g" "g \<le> 29 * 65536 + 3276"
  shows "\<exists>g'. agc_limit a G g = Some g' \<and> f_min_gain a \<le> g' \<and> g' \<le> f_max_gain a \<and> g' \<le> G"
proof -
  have p: "s32 (g * 972) = Some (g * 972)" using assms by (simp add: s32_def is_s32_def)
  have m: "s32 (G * 921) = Some (G * 921)" if "G < g * 972 div 1024"
    using that assms by (simp add: s32_def is_s32_def)
  have b: "f_min_gain a \<le> 65536" "65536 \<le> f_max_gain a" using assms(1) by (auto simp: agc_inv_def)
  have "G * 921 div 1024 \<le> G" using assms(2) by linarith
  then show ?thesis
    using b assms(2) m
    by (cases "G < g * 972 div 1024")
      (auto simp: agc_limit_def agc_095_const_def agc_090_const_def p asr_le_div Let_def)
qed

lemma agc_decide_fields [simp]:
  "f_gain (fst (agc_decide h r m a)) = f_gain a"
  "f_max_gain (fst (agc_decide h r m a)) = f_max_gain a"
  "f_min_gain (fst (agc_decide h r m a)) = f_min_gain a"
  "f_RVolsAGC (fst (agc_decide h r m a)) = f_RVolsAGC a"
  "f_RVolsAGCPos (fst (agc_decide h r m a)) = f_RVolsAGCPos a"
  "f_targetLevel (fst (agc_decide h r m a)) = f_targetLevel a"
  "f_expectedMaxLevel (fst (agc_decide h r m a)) = f_expectedMaxLevel a"
  by (simp_all add: agc_decide_def Let_def)

lemma agc_update_averages_fields [simp]:
  "f_gain (agc_update_averages p r a) = f_gain a"
  "f_max_gain (agc_update_averages p r a) = f_max_gain a"
  "f_min_gain (agc_update_averages p r a) = f_min_gain a"
  "f_RVolsAGC (agc_update_averages p r a) = f_RVolsAGC a"
  "f_RVolsAGCPos (agc_update_averages p r a) = f_RVolsAGCPos a"
  "f_targetLevel (agc_update_averages p r a) = f_targetLevel a"
  "f_expectedMaxLevel (agc_update_averages p r a) = f_expectedMaxLevel a"
  by (simp_all add: agc_update_averages_def)

definition frame_ok :: "int list \<Rightarrow> bool" where
  "frame_ok data \<longleftrightarrow> 2 \<le> length data \<and> length data \<le> 65535 \<and> (\<forall>x \<in> set data. sample_ok x)"

lemma frame_ok_code [code]:
  "frame_ok data \<longleftrightarrow> 2 \<le> length data \<and> int (length data) \<le> 65535 \<and> (\<forall>x \<in> set data. sample_ok x)"
  by (auto simp: frame_ok_def)

lemma not_louder_refl: "list_all2 (not_louder K) xs xs"
  by (rule list_all2_refl) (simp add: not_louder_def)

lemma agc_adapt_ok:
  assumes inv: "agc_inv a" and data: "frame_ok data" "\<forall>x \<in> set data. \<bar>x\<bar> \<le> b" "0 < b" "b \<le> 32767"
  shows "\<exists>a' data'. agc_adapt a h r p m b data = Some (a', data') \<and> agc_inv a' \<and>
    list_all2 (not_louder (f_targetLevel a)) data data' \<and> (\<forall>y \<in> set data'. sample_ok y) \<and>
    f_targetLevel a' = f_targetLevel a"
proof -
  obtain a1 action where d: "agc_decide h r m (agc_update_averages p r a) = (a1, action)" by fastforce
  have a1: "agc_inv a1" "f_gain a1 = f_gain a" "f_targetLevel a1 = f_targetLevel a"
    using inv agc_decide_fields [of h r m "agc_update_averages p r a"] by (auto simp: d agc_inv_def)
  have g0: "0 \<le> f_gain a" "f_gain a \<le> 29 * 65536" using inv by (auto simp: agc_inv_def)
  obtain G where G: "agc_max_gain a1 b = Some G" "65536 \<le> G" "G \<le> 32767 * 65536"
    "\<forall>x. sample_ok x \<and> \<bar>x\<bar> \<le> b \<longrightarrow> sample_gain_ok (f_targetLevel a) G x"
    using agc_max_gain_ok [OF a1(1) data(3,4)] a1(3) by auto
  obtain g1 where g1: "agc_move action G (f_gain a) = Some g1" "- 3276 \<le> g1" "g1 \<le> 29 * 65536 + 3276"
    using agc_move_ok [OF g0] by blast
  obtain g where g: "agc_limit a1 G g1 = Some g" "f_min_gain a1 \<le> g" "g \<le> f_max_gain a1" "g \<le> G"
    using agc_limit_ok [OF a1(1) G(2) g1(2,3)] by blast
  define prev where "prev = (if G < f_gain a then G else f_gain a)"
  then have prev: "0 \<le> prev" "prev \<le> G" using G(2) g0 by auto
  have "\<forall>x \<in> set data. sample_gain_ok (f_targetLevel a) G x" using G(4) data by (auto simp: frame_ok_def)
  moreover have "0 \<le> g" using g(2) a1(1) by (simp add: agc_inv_def)
  moreover have "f_targetLevel a \<le> 32767" using inv by (simp add: agc_inv_def)
  ultimately obtain ys where ys: "gain g prev data = Some ys"
    "list_all2 (not_louder (f_targetLevel a)) data ys" "\<forall>y \<in> set ys. sample_ok y"
    using gain_ok [of data g G prev "f_targetLevel a"] data(1) g(4) G(3) prev
    by (auto simp: frame_ok_def)
  have "agc_inv (a1\<lparr>f_gain := g\<rparr>)" using a1(1) g by (simp add: agc_inv_def)
  then show ?thesis
    using d G(1) g1(1) g(1) ys a1 data(1) not_louder_refl
    by (auto simp: agc_adapt_def frame_ok_def prev_def Let_def)
qed

lemma agc_remember_ok:
  assumes "agc_inv a" "m \<le> 32767"
  shows "\<exists>a1. agc_remember a m = Some a1 \<and> agc_inv a1 \<and> m \<in> set (f_RVolsAGC a1) \<and>
    f_targetLevel a1 = f_targetLevel a"
proof -
  have pos: "f_RVolsAGCPos a < length (f_RVolsAGC a)" using assms by (simp add: agc_inv_def)
  have "\<forall>v \<in> set ((f_RVolsAGC a)[f_RVolsAGCPos a := m]). v \<le> 32767"
    using assms set_update_subset_insert [of "f_RVolsAGC a" "f_RVolsAGCPos a" m]
    by (auto simp: agc_inv_def)
  with assms(1) pos set_update_memI [OF pos, of m] show ?thesis
    by (auto simp: agc_remember_def mem_simps agc_inv_def PJS_RVOL_COUNT_def Let_def)
qed

lemma process_frame_ok:
  assumes inv: "agc_inv a" and data: "frame_ok data"
  shows "\<exists>a' out. process_frame a data rev_power want handsfree = Some (a', out) \<and> agc_inv a' \<and>
    list_all2 (not_louder (f_targetLevel a)) data (out_data out) \<and> frame_ok (out_data out) \<and>
    0 \<le> out_power out \<and> out_power out \<le> 32767 \<and>
    (want \<longrightarrow> (\<exists>v m. out_level out = Some v \<and> 0 \<le> v \<and> v \<le> m \<and> m \<in> insert 0 (abs ` set data)))"
proof -
  obtain m t f where scan: "agc_scan data (0, 0, \<lambda>_. 0) = Some (m, t, f)" "0 \<le> m" "m \<le> 32767"
    "\<forall>x \<in> set data. \<bar>x\<bar> \<le> m" "0 \<le> t" "t \<le> 32767 * int (length data)" "hist_ok m f"
    "hist_total f 32768 = int (length data)" "m \<in> insert 0 (abs ` set data)"
    using agc_scan_ok [of data 0 0 "\<lambda>_. 0"] data by (auto simp: frame_ok_def hist_ok_def hist_total_def)
  have len: "0 < length data" "length data \<le> 65535" using data by (auto simp: frame_ok_def)
  obtain p where p: "agc_power a t (length data) = Some p" "0 \<le> p" "p \<le> 32767"
    using agc_power_ok [OF scan(5,6) len(1)] inv by (auto simp: agc_inv_def)
  obtain v where v: "agc_level f (length data) = Some v" "0 \<le> v" "v \<le> m"
    using agc_level_ok [OF scan(7,2,3)] scan(8) len by auto
  obtain a1 where a1: "agc_remember a m = Some a1" "agc_inv a1" "m \<in> set (f_RVolsAGC a1)"
    "f_targetLevel a1 = f_targetLevel a"
    using agc_remember_ok [OF inv scan(3)] by blast
  define b where "b = fold max (f_RVolsAGC a1) 0"
  have b: "m \<le> b" "b \<le> 32767"
    using a1(2,3) by (auto simp: b_def agc_inv_def intro: fold_max_ge fold_max_le)
  have "\<exists>a' data'. (if b > 0 then agc_adapt a1 handsfree rev_power p m b data else Some (a1, data))
      = Some (a', data') \<and> agc_inv a' \<and> list_all2 (not_louder (f_targetLevel a)) data data' \<and>
        (\<forall>y \<in> set data'. sample_ok y)"
  proof (cases "b > 0")
    case True
    have "\<forall>x \<in> set data. \<bar>x\<bar> \<le> b" using scan(4) b(1) by force
    with agc_adapt_ok [OF a1(2) data this True b(2), of handsfree rev_power p m] True a1(4)
    show ?thesis by auto
  next
    case False
    with a1(2) data show ?thesis by (simp add: not_louder_refl frame_ok_def)
  qed
  then obtain a' data' where a': "(if b > 0 then agc_adapt a1 handsfree rev_power p m b data
        else Some (a1, data)) = Some (a', data')" "agc_inv a'"
      "list_all2 (not_louder (f_targetLevel a)) data data'" "\<forall>y \<in> set data'. sample_ok y" by blast
  have "process_frame a data rev_power want handsfree
      = Some (a', \<lparr>out_data = data', out_power = p, out_level = (if want then Some v else None)\<rparr>)"
    using a'(1)
    by (simp add: process_frame_def scan(1) p(1) v(1) a1(1) foldl_max b_def [symmetric] split: if_splits)
  moreover have "frame_ok data'"
    using a'(3,4) data list_all2_lengthD [of _ data data'] by (auto simp: frame_ok_def)
  ultimately show ?thesis using a' p v scan(9) by auto
qed

section \<open>Sequences of frames\<close>

type_synonym agc_input = "int list \<times> int \<times> bool \<times> bool"

definition process_input :: "agc \<Rightarrow> agc_input \<Rightarrow> (agc \<times> agc_output) option" where
  "process_input a i = (case i of (data, rev_power, want, handsfree) \<Rightarrow>
     process_frame a data rev_power want handsfree)"

definition input_ok :: "agc \<Rightarrow> agc_input \<Rightarrow> bool" where
  "input_ok a i \<longleftrightarrow> frame_ok (fst i)"

interpretation gc: guarded_machine process_input agc_inv input_ok
proof
  fix a and i :: agc_input
  assume *: "agc_inv a" "input_ok a i"
  obtain data r w h where i: "i = (data, r, w, h)" by (rule prod_cases4)
  with * have "frame_ok data" by (simp add: input_ok_def)
  from process_frame_ok [OF *(1) this, of r w h]
  show "\<exists>a' out. process_input a i = Some (a', out) \<and> agc_inv a'"
    unfolding process_input_def i by auto
qed

lemma run_ok_frames: "\<forall>i \<in> set is. frame_ok (fst i) \<Longrightarrow> run_ok input_ok process_input a is"
  by (induction "is" arbitrary: a) (auto simp: input_ok_def split: option.splits)

lemma agc_scan_min_sample: "-32768 \<in> set xs \<Longrightarrow> agc_scan xs acc = None"
proof (induction xs arbitrary: acc)
  case (Cons x xs)
  obtain m t f where acc: "acc = (m, t, f)" by (cases acc) auto
  show ?case
  proof (cases "x = -32768")
    case True
    then show ?thesis by (simp add: acc to_s16_def levels_inc_def)
  next
    case False
    with Cons show ?thesis by (auto simp: acc Let_def bind_eq_None_conv)
  qed
qed simp

section \<open>Properties\<close>

text \<open>
  C23: a gain control built with limits from 1 to 29 processes any sequence of frames of 2 to 65535
  samples above -32768 without overflow, division by zero or an access outside its arrays, and
  its gain stays between the configured limits throughout.
\<close>

theorem agc_never_fails:
  assumes "1 \<le> max_gain" "max_gain \<le> 29" "1 \<le> min_gain" "0 < expected" "expected \<le> 32767"
    "0 < target" "target \<le> 32767" and "\<forall>i \<in> set is. frame_ok (fst i)"
  shows "\<exists>a a' outs. new_agc name max_gain min_gain expected target = Some a
    \<and> run_steps process_input a is = Some (a', outs) \<and> agc_inv a' \<and> length outs = length is"
proof -
  obtain a where a: "new_agc name max_gain min_gain expected target = Some a" "agc_inv a"
    using new_agc_inv [OF assms(1-7)] by blast
  with gc.run_safe [OF a(2) run_ok_frames [OF assms(8)]] show ?thesis by blast
qed

theorem agc_never_fails_witness:
  "\<exists>a a' outs. new_agc ''tx'' 10 4 10000 8000 = Some a
    \<and> run_steps process_input a [([100, -20000], 0, True, False), ([5, 6, -7], 900, False, True)]
      = Some (a', outs) \<and> agc_inv a' \<and> length outs = 2"
  using agc_never_fails [of 10 4 10000 8000
      "[([100, -20000], 0, True, False), ([5, 6, -7], 900, False, True)]" "''tx''"]
  by (simp add: frame_ok_def sample_ok_def numeral_2_eq_2)



text \<open>
  A frame that holds the sample -32768 makes \<open>process\<close> index \<open>f_levels\<close> with -32768, because
  its absolute value does not fit in 16 bits.
\<close>

theorem agc_min_sample_out_of_bounds:
  assumes "-32768 \<in> set data"
  shows "process_frame a data rev_power want handsfree = None"
  using assms by (simp add: process_frame_def agc_scan_min_sample)

theorem agc_min_sample_out_of_bounds_witness:
  "\<exists>a. new_agc ''tx'' 10 4 10000 8000 = Some a \<and> process_frame a [1, -32768, 2] 0 False False = None"
  using new_agc_inv [of 10 4 10000 8000 "''tx''"] agc_min_sample_out_of_bounds [of "[1, -32768, 2]"]
  by auto

end
