(* ===== verification/Led_Script.thy ===== *)
theory Led_Script
  imports Prelude
begin

text \<open>
  The LED controller of the microcontroller firmware: Arduino/led_controller.h (the script
  interpreter of \<open>ledController_c\<close>) and Arduino/dynamic_delay.h. Positions, sizes and values
  are bytes and \<open>millis()\<close> is a 32-bit word, as in the source. What \<open>analogWrite\<close> receives is
  recorded, newest first; reading a script outside its data is a fault.
\<close>

section \<open>Data\<close>

record ledScript =
  script_size :: byte
  script_id :: byte
  script_data :: "byte list"

record ledScripts =
  scripts_count :: byte
  scripts :: "ledScript list"

datatype ledModes = LM_OFF | LM_ON | LM_SCRIPT

definition LCSC_OFF :: byte where "LCSC_OFF = 0"
definition LCSC_ON :: byte where "LCSC_ON = 1"
definition LCSC_WAIT :: byte where "LCSC_WAIT = 2"
definition LCSC_SET :: byte where "LCSC_SET = 3"
definition LCSC_FADE :: byte where "LCSC_FADE = 4"
definition LCSC_GOTO :: byte where "LCSC_GOTO = 5"

lemmas lcsc_defs = LCSC_OFF_def LCSC_ON_def LCSC_WAIT_def LCSC_SET_def LCSC_FADE_def LCSC_GOTO_def

definition LCS_TIME_MS :: "u16 \<Rightarrow> byte list" where
  "LCS_TIME_MS t = [ucast t AND 255, ucast (drop_bit 8 t)]"

definition LCS_GETTIME_MS :: "byte \<Rightarrow> byte \<Rightarrow> u16" where
  "LCS_GETTIME_MS a b = (ucast a AND 255) OR push_bit 8 (ucast b)"

definition LCV_OFF :: byte where "LCV_OFF = 0"
definition LCV_ON :: byte where "LCV_ON = 255"

record led =
  m_mode :: ledModes
  m_scripts :: "ledScripts option"
  m_currentScript :: "ledScript option"
  m_currentScriptPos :: byte
  m_scriptTimer :: u32
  m_startValue :: byte
  m_lastValue :: byte
  written :: "byte list"

definition setValue :: "byte \<Rightarrow> led \<Rightarrow> led" where
  "setValue v s = s\<lparr>m_lastValue := v, written := v # written s\<rparr>"

text \<open>The members the constructor leaves unset are arguments.\<close>

definition new_led :: "ledScripts option \<Rightarrow> byte \<Rightarrow> u32 \<Rightarrow> byte \<Rightarrow> led" where
  "new_led scrs pos timer start =
     setValue LCV_OFF \<lparr>m_mode = LM_OFF, m_scripts = scrs, m_currentScript = None,
       m_currentScriptPos = pos, m_scriptTimer = timer, m_startValue = start,
       m_lastValue = 0, written = []\<rparr>"

definition setON :: "led \<Rightarrow> led" where
  "setON s = setValue LCV_ON (if m_mode s \<noteq> LM_ON then s\<lparr>m_mode := LM_ON\<rparr> else s)"

definition setOFF :: "led \<Rightarrow> led" where
  "setOFF s = setValue LCV_OFF (if m_mode s \<noteq> LM_OFF then s\<lparr>m_mode := LM_OFF\<rparr> else s)"

text \<open>\<open>runScript\<close>: the last script with the id wins.\<close>

fun find_script :: "nat \<Rightarrow> nat \<Rightarrow> ledScript list \<Rightarrow> byte \<Rightarrow> ledScript option \<Rightarrow> ledScript option option" where
  "find_script 0 i xs id' cur = Some cur"
| "find_script (Suc n) i xs id' cur =
     do {
       scr \<leftarrow> mem_get xs i;
       find_script n (Suc i) xs id' (if script_id scr = id' then Some scr else cur)
     }"

definition runScript :: "byte \<Rightarrow> led \<Rightarrow> led option" where
  "runScript id' s =
     do {
       cur \<leftarrow> (case m_scripts s of None \<Rightarrow> Some None
               | Some scrs \<Rightarrow> find_script (unat (scripts_count scrs)) 0 (scripts scrs) id' None);
       Some (s\<lparr>m_mode := LM_SCRIPT, m_currentScript := cur, m_currentScriptPos := 0, m_scriptTimer := 0\<rparr>)
     }"

definition getCmdSize :: "byte \<Rightarrow> byte" where
  "getCmdSize cmd =
     (if cmd = LCSC_OFF \<or> cmd = LCSC_ON then 1
      else if cmd = LCSC_SET \<or> cmd = LCSC_GOTO then 2
      else if cmd = LCSC_WAIT then 3
      else if cmd = LCSC_FADE then 4
      else 0)"

section \<open>One command\<close>

definition fade_value :: "int \<Rightarrow> int \<Rightarrow> int \<Rightarrow> int \<Rightarrow> int" where
  "fade_value start value elapsed time =
     (let nv = to_s16 (start + ((value - start) * to_s32 elapsed) sdiv time)
      in if nv < 0 then 0 else if nv > 255 then 255 else nv)"

text \<open>The timer part of WAIT and FADE: not started, over, or running for some milliseconds.\<close>

definition timer_over :: "u32 \<Rightarrow> u32 \<Rightarrow> u16 \<Rightarrow> bool" where
  "timer_over timer now time \<longleftrightarrow> timer > now \<or> unat (now - timer) \<ge> unat time"

text \<open>
  The switch of \<open>run\<close>; \<open>now\<close> is what \<open>millis()\<close> returns in this command. The number is
  \<open>cont\<close>: bit 0 advances the position, bit 1 ends the pass.
\<close>

definition exec_cmd :: "u32 \<Rightarrow> byte \<Rightarrow> byte list \<Rightarrow> led \<Rightarrow> (led \<times> nat) option" where
  "exec_cmd now cmd data s =
     (let pos = unat (m_currentScriptPos s) in
      if cmd = LCSC_OFF then Some (setValue LCV_OFF s, 3)
      else if cmd = LCSC_ON then Some (setValue LCV_ON s, 3)
      else if cmd = LCSC_SET then do { v \<leftarrow> mem_get data (pos + 1); Some (setValue v s, 3) }
      else if cmd = LCSC_GOTO then
        do { p \<leftarrow> mem_get data (pos + 1); Some (s\<lparr>m_currentScriptPos := p\<rparr>, 0) }
      else if cmd = LCSC_WAIT then
        do {
          lo \<leftarrow> mem_get data (pos + 1);
          hi \<leftarrow> mem_get data (pos + 2);
          if m_scriptTimer s = 0 then Some (s\<lparr>m_scriptTimer := now\<rparr>, 2)
          else if timer_over (m_scriptTimer s) now (LCS_GETTIME_MS lo hi)
          then Some (s\<lparr>m_scriptTimer := 0\<rparr>, 1)
          else Some (s, 2)
        }
      else if cmd = LCSC_FADE then
        do {
          lo \<leftarrow> mem_get data (pos + 2);
          hi \<leftarrow> mem_get data (pos + 3);
          if m_scriptTimer s = 0
          then Some (s\<lparr>m_scriptTimer := now, m_startValue := m_lastValue s\<rparr>, 2)
          else do {
            v \<leftarrow> mem_get data (pos + 1);
            if timer_over (m_scriptTimer s) now (LCS_GETTIME_MS lo hi)
            then Some ((setValue v s)\<lparr>m_scriptTimer := 0\<rparr>, 1)
            else Some (setValue (of_int (fade_value (int (unat (m_startValue s))) (int (unat v))
                   (int (unat (now - m_scriptTimer s))) (int (unat (LCS_GETTIME_MS lo hi))))) s, 2)
          }
        }
      else Some (s, 3))"

section \<open>One pass of \<open>run\<close>\<close>

datatype iteration = Continue led | Break led | Fault

definition script_iteration :: "u32 \<Rightarrow> ledScript \<Rightarrow> led \<Rightarrow> iteration" where
  "script_iteration now scr s =
     (let pos = m_currentScriptPos s; sz = script_size scr in
      if pos < sz then
        (case mem_get (script_data scr) (unat pos) of
           None \<Rightarrow> Fault
         | Some cmd \<Rightarrow>
             (let cmd_size = getCmdSize cmd in
              if cmd_size > 0 \<and> unat pos + unat cmd_size \<le> unat sz then
                (case exec_cmd now cmd (script_data scr) s of
                   None \<Rightarrow> Fault
                 | Some (s1, cont) \<Rightarrow>
                     if odd cont then
                       (let p = m_currentScriptPos s1 + cmd_size
                        in Continue (s1\<lparr>m_currentScriptPos := (if p \<ge> sz then 0 else p)\<rparr>))
                     else if odd (cont div 2) then Break s1
                     else Continue s1)
              else Break (setValue LCV_OFF (s\<lparr>m_currentScriptPos := 0, m_mode := LM_OFF\<rparr>))))
      else Break (s\<lparr>m_currentScriptPos := 0\<rparr>))"

text \<open>
  The inner \<open>while(TRUE)\<close>, which runs under the mutex. \<open>clock k\<close> is the reading of \<open>millis()\<close>
  in iteration \<open>k\<close>; with \<open>fuel\<close> iterations it may still be looping.
\<close>

datatype pass = Finished led | Faulted | Looping

fun script_pass :: "nat \<Rightarrow> (nat \<Rightarrow> u32) \<Rightarrow> nat \<Rightarrow> ledScript \<Rightarrow> led \<Rightarrow> pass" where
  "script_pass 0 clock k scr s = Looping"
| "script_pass (Suc fuel) clock k scr s =
     (case script_iteration (clock k) scr s of
        Fault \<Rightarrow> Faulted
      | Break s1 \<Rightarrow> Finished s1
      | Continue s1 \<Rightarrow> script_pass fuel clock (Suc k) scr s1)"

text \<open>One round of the outer loop of \<open>run\<close>, without its delay.\<close>

definition run_round :: "nat \<Rightarrow> (nat \<Rightarrow> u32) \<Rightarrow> led \<Rightarrow> pass" where
  "run_round fuel clock s =
     (if m_mode s = LM_SCRIPT then
        (case m_currentScript s of
           None \<Rightarrow> Finished s
         | Some scr \<Rightarrow> script_pass fuel clock 0 scr s)
      else Finished s)"

section \<open>The delay between rounds\<close>

record dynamicDelay =
  m_lastTime :: u32

definition delay_start :: "u32 \<Rightarrow> dynamicDelay \<Rightarrow> dynamicDelay" where
  "delay_start now d = d\<lparr>m_lastTime := now\<rparr>"

text \<open>
  \<open>delay(ms)\<close>: how long it sleeps (0 is a yield), given the reading of \<open>millis()\<close> on entry, and
  the state after it, given the reading at the end.
\<close>

definition delay_sleep :: "u16 \<Rightarrow> u32 \<Rightarrow> dynamicDelay \<Rightarrow> u16" where
  "delay_sleep ms now d =
     (if m_lastTime d \<noteq> 0 \<and> m_lastTime d \<le> now then
        (let diff = now - m_lastTime d in if diff \<ge> ucast ms then 0 else ms - ucast diff)
      else ms)"

definition delay_end :: "u32 \<Rightarrow> dynamicDelay \<Rightarrow> dynamicDelay" where
  "delay_end now d = d\<lparr>m_lastTime := now\<rparr>"

section \<open>The scripts of the ESP32 board\<close>

definition BTN_LED_MAX :: byte where "BTN_LED_MAX = 255"
definition BTN_LED_MIN :: byte where "BTN_LED_MIN = 0"

definition LED_SCRIPT :: "byte list \<Rightarrow> byte \<Rightarrow> ledScript" where
  "LED_SCRIPT data id' = \<lparr>script_size = of_nat (length data), script_id = id', script_data = data\<rparr>"

definition btnLedScript_ID01 :: "byte list" where
  "btnLedScript_ID01 = [LCSC_OFF, LCSC_WAIT] @ LCS_TIME_MS 100 @ [LCSC_FADE, BTN_LED_MAX]
     @ LCS_TIME_MS 500 @ [LCSC_WAIT] @ LCS_TIME_MS 100 @ [LCSC_FADE, BTN_LED_MIN]
     @ LCS_TIME_MS 500 @ [LCSC_GOTO, 4]"

definition btnLedScript_ID02 :: "byte list" where
  "btnLedScript_ID02 = [LCSC_FADE, BTN_LED_MAX div 3] @ LCS_TIME_MS 1500
     @ [LCSC_FADE, BTN_LED_MAX] @ LCS_TIME_MS 1500"

definition btnLedScripts :: ledScripts where
  "btnLedScripts = \<lparr>scripts_count = 2,
     scripts = [LED_SCRIPT btnLedScript_ID01 1, LED_SCRIPT btnLedScript_ID02 2]\<rparr>"

section \<open>Static flow of a script\<close>

text \<open>
  Where a script goes without looking at the clock: the pass ends here, a command waits here, or
  control moves on.
\<close>

datatype flow = Ends | Waits | Moves byte

definition static_step :: "ledScript \<Rightarrow> byte \<Rightarrow> flow" where
  "static_step scr pos =
     (if pos < script_size scr then
        (case mem_get (script_data scr) (unat pos) of
           None \<Rightarrow> Ends
         | Some cmd \<Rightarrow>
             if getCmdSize cmd > 0 \<and> unat pos + unat (getCmdSize cmd) \<le> unat (script_size scr) then
               (if cmd = LCSC_WAIT \<or> cmd = LCSC_FADE then Waits
                else if cmd = LCSC_GOTO then Moves (script_data scr ! (unat pos + 1))
                else Moves (let p = pos + getCmdSize cmd in if p \<ge> script_size scr then 0 else p))
             else Ends)
      else Ends)"

text \<open>From \<open>pos\<close> the script meets its end or a waiting command within \<open>n\<close> moves.\<close>

fun yields_within :: "nat \<Rightarrow> ledScript \<Rightarrow> byte \<Rightarrow> bool" where
  "yields_within n scr pos =
     (case static_step scr pos of
        Moves p \<Rightarrow> (case n of 0 \<Rightarrow> False | Suc m \<Rightarrow> yields_within m scr p)
      | _ \<Rightarrow> True)"

declare yields_within.simps [simp del]

definition always_yields :: "nat \<Rightarrow> ledScript \<Rightarrow> bool" where
  "always_yields n scr =
     list_all (\<lambda>i. yields_within n scr (of_nat i)) [0..<unat (script_size scr)]"

lemma always_yieldsD: "always_yields n scr \<Longrightarrow> yields_within n scr pos"
proof (cases "pos < script_size scr")
  case True
  assume "always_yields n scr"
  with True have "yields_within n scr (of_nat (unat pos))"
    unfolding always_yields_def list_all_iff by (auto simp: byte_less_nat simp del: of_nat_unat)
  then show ?thesis by simp
qed (simp add: yields_within.simps static_step_def)

definition script_ok :: "ledScript \<Rightarrow> bool" where
  "script_ok scr \<longleftrightarrow> unat (script_size scr) \<le> length (script_data scr)"

lemma getCmdSize_cases:
  assumes "getCmdSize cmd > 0"
  obtains "cmd = LCSC_OFF" | "cmd = LCSC_ON" | "cmd = LCSC_SET" | "cmd = LCSC_GOTO"
    | "cmd = LCSC_WAIT" | "cmd = LCSC_FADE"
  using assms by (auto simp: getCmdSize_def split: if_splits)

lemma setValue_fields [simp]:
  "m_currentScriptPos (setValue v s) = m_currentScriptPos s"
  "m_scriptTimer (setValue v s) = m_scriptTimer s"
  "m_mode (setValue v s) = m_mode s"
  by (simp_all add: setValue_def)

lemma exec_cmd_some:
  assumes "getCmdSize cmd > 0" "unat (m_currentScriptPos s) + unat (getCmdSize cmd) \<le> length data"
  shows "\<exists>s' cont. exec_cmd now cmd data s = Some (s', cont)"
  using assms
  by (elim getCmdSize_cases) (auto simp: exec_cmd_def getCmdSize_def lcsc_defs mem_simps Let_def)

lemma iteration_ends:
  assumes "script_ok scr" "static_step scr (m_currentScriptPos s) = Ends"
  shows "\<exists>s'. script_iteration now scr s = Break s'"
  using assms
  by (auto simp: static_step_def script_iteration_def script_ok_def mem_get_def byte_less_nat Let_def
      split: if_splits option.splits)

lemma iteration_moves:
  assumes "script_ok scr" "static_step scr (m_currentScriptPos s) = Moves p"
  shows "\<exists>s'. script_iteration now scr s = Continue s' \<and> m_currentScriptPos s' = p
    \<and> m_scriptTimer s' = m_scriptTimer s"
proof -
  let ?pos = "m_currentScriptPos s" and ?data = "script_data scr"
  let ?cmd = "?data ! unat ?pos"
  have in1: "?pos < script_size scr" "unat ?pos < length ?data"
    using assms by (auto simp: static_step_def mem_get_def script_ok_def byte_less_nat split: if_splits)
  then have valid: "getCmdSize ?cmd > 0"
      "unat ?pos + unat (getCmdSize ?cmd) \<le> unat (script_size scr)"
      "?cmd \<noteq> LCSC_WAIT" "?cmd \<noteq> LCSC_FADE"
    using assms by (auto simp: static_step_def mem_simps split: if_splits)
  from valid(1) show ?thesis
    using in1 valid assms
    by (cases rule: getCmdSize_cases)
      (auto simp: static_step_def script_iteration_def exec_cmd_def mem_simps script_ok_def
        getCmdSize_def lcsc_defs Let_def)
qed

lemma iteration_waits:
  assumes "script_ok scr" "static_step scr (m_currentScriptPos s) = Waits"
  shows "(\<exists>s'. script_iteration now scr s = Break s') \<or>
    m_scriptTimer s \<noteq> 0 \<and> (\<exists>s'. script_iteration now scr s = Continue s' \<and> m_scriptTimer s' = 0)"
proof -
  let ?pos = "m_currentScriptPos s" and ?data = "script_data scr"
  let ?cmd = "?data ! unat ?pos"
  have in1: "?pos < script_size scr" "unat ?pos < length ?data"
    using assms by (auto simp: static_step_def mem_get_def script_ok_def byte_less_nat split: if_splits)
  then have valid: "getCmdSize ?cmd > 0"
      "unat ?pos + unat (getCmdSize ?cmd) \<le> unat (script_size scr)"
      "?cmd = LCSC_WAIT \<or> ?cmd = LCSC_FADE"
    using assms by (auto simp: static_step_def mem_simps split: if_splits)
  from valid(3) show ?thesis
    using in1 valid assms(1)
    by (elim disjE)
      (auto simp: script_iteration_def exec_cmd_def mem_simps script_ok_def
        getCmdSize_def lcsc_defs Let_def)
qed

lemma pass_from_idle_timer:
  assumes "script_ok scr" "yields_within n scr (m_currentScriptPos s)" "m_scriptTimer s = 0" "n < fuel"
  shows "\<exists>s'. script_pass fuel clock k scr s = Finished s'"
  using assms
proof (induction fuel arbitrary: n k s)
  case (Suc fuel)
  show ?case
  proof (cases "static_step scr (m_currentScriptPos s)")
    case Ends
    with iteration_ends [OF Suc.prems(1), of s "clock k"] show ?thesis by auto
  next
    case Waits
    with iteration_waits [OF Suc.prems(1), of s "clock k"] Suc.prems(3) show ?thesis by auto
  next
    case (Moves p)
    with iteration_moves [OF Suc.prems(1), of s p "clock k"] obtain s' where
      s': "script_iteration (clock k) scr s = Continue s'" "m_currentScriptPos s' = p"
      "m_scriptTimer s' = 0" using Suc.prems(3) by auto
    from Moves Suc.prems(2) obtain m where m: "n = Suc m" "yields_within m scr p"
      by (subst (asm) yields_within.simps) (auto split: nat.splits)
    then show ?thesis using Suc.IH [OF Suc.prems(1), of m s' "Suc k"] s' Suc.prems(4) by simp
  qed
qed simp

lemma pass_finishes:
  assumes "script_ok scr" "\<And>p. yields_within N scr p" "yields_within n scr (m_currentScriptPos s)"
    "n + N + 1 < fuel"
  shows "\<exists>s'. script_pass fuel clock k scr s = Finished s'"
  using assms
proof (induction fuel arbitrary: n k s)
  case (Suc fuel)
  show ?case
  proof (cases "static_step scr (m_currentScriptPos s)")
    case Ends
    with iteration_ends [OF Suc.prems(1), of s "clock k"] show ?thesis by auto
  next
    case Waits
    then consider (brk) s' where "script_iteration (clock k) scr s = Break s'"
      | (cont) s' where "script_iteration (clock k) scr s = Continue s'" "m_scriptTimer s' = 0"
      using iteration_waits [OF Suc.prems(1), of s "clock k"] by auto
    then show ?thesis
    proof cases
      case cont
      then show ?thesis
        using pass_from_idle_timer [OF Suc.prems(1) Suc.prems(2) cont(2), of fuel clock "Suc k"]
          Suc.prems(4) by simp
    qed simp
  next
    case (Moves p)
    with iteration_moves [OF Suc.prems(1), of s p "clock k"] obtain s' where
      s': "script_iteration (clock k) scr s = Continue s'" "m_currentScriptPos s' = p" by auto
    from Moves Suc.prems(3) obtain m where m: "n = Suc m" "yields_within m scr p"
      by (subst (asm) yields_within.simps) (auto split: nat.splits)
    then show ?thesis using Suc.IH [OF Suc.prems(1,2), of m s' "Suc k"] s' Suc.prems(4) by simp
  qed
qed simp

lemma pass_loops:
  assumes "script_ok scr" "\<And>n. \<not> yields_within n scr (m_currentScriptPos s)"
  shows "script_pass fuel clock k scr s = Looping"
  using assms
proof (induction fuel arbitrary: k s)
  case (Suc fuel)
  from Suc.prems(2) [of 0] obtain p where p: "static_step scr (m_currentScriptPos s) = Moves p"
    by (cases "static_step scr (m_currentScriptPos s)") (auto simp: yields_within.simps)
  with iteration_moves [OF Suc.prems(1), of s p "clock k"] obtain s' where
    s': "script_iteration (clock k) scr s = Continue s'" "m_currentScriptPos s' = p" by auto
  have "\<not> yields_within n scr (m_currentScriptPos s')" for n
    using Suc.prems(2) [of "Suc n"] p s'(2)
    by (simp add: yields_within.simps [of "Suc n" scr "m_currentScriptPos s"])
  from Suc.IH [OF Suc.prems(1) this] s'(1) show ?case by simp
qed simp

section \<open>Fading\<close>

lemma fade_steps:
  fixes d e t :: int
  assumes "0 \<le> d" "0 \<le> e" "e < t" shows "0 \<le> d * e div t" "d * e div t \<le> d"
proof -
  show "0 \<le> d * e div t" using assms by (simp add: pos_imp_zdiv_nonneg_iff)
  have "d * e \<le> d * t" using assms by (intro mult_left_mono) auto
  then show "d * e div t \<le> d" using zdiv_mono1 [of "d * e" "d * t" t] assms by simp
qed

lemma fade_value_eq:
  assumes "0 \<le> start" "start \<le> 255" "0 \<le> value" "value \<le> 255" "0 \<le> e" "e < t" "t \<le> 65535"
  shows "fade_value start value e t
    = (if start \<le> value then start + (value - start) * e div t else start - (start - value) * e div t)"
proof -
  have e: "to_s32 e = e" using assms by (intro to_s32_id) auto
  show ?thesis
  proof (cases "start \<le> value")
    case True
    with assms fade_steps [of "value - start" e t] show ?thesis
      by (simp add: fade_value_def e sdiv_pos conv_simps Let_def)
  next
    case False
    have "(value - start) * e sdiv t = - ((start - value) * e div t)"
    proof (cases "e = 0")
      case True
      with assms show ?thesis by (simp add: sdiv_pos)
    next
      case e0: False
      with assms False have "(value - start) * e < 0" by (simp add: mult_neg_pos)
      moreover have "- ((value - start) * e) = (start - value) * e" by (simp add: algebra_simps)
      ultimately show ?thesis using assms by (simp add: sdiv_neg)
    qed
    with False assms fade_steps [of "start - value" e t] show ?thesis
      by (simp add: fade_value_def e conv_simps Let_def)
  qed
qed

lemma fade_mono_div: "0 \<le> d \<Longrightarrow> e \<le> e' \<Longrightarrow> 0 < t \<Longrightarrow> d * e div t \<le> d * e' div t" for d e e' t :: int
  by (intro zdiv_mono1 mult_left_mono)

section \<open>Properties\<close>

text \<open>
  C26: if every position of the current script reaches a WAIT, a FADE or its end within \<open>N\<close> moves,
  a round of \<open>run\<close> finishes within \<open>2 * N + 2\<close> iterations of its inner loop, whatever the clock
  reads and wherever the script stands, and never reads outside the script; so the mutex is
  released.
\<close>

theorem script_round_returns:
  assumes "m_currentScript s = Some scr" "script_ok scr" "always_yields N scr" "2 * N + 1 < fuel"
  shows "\<exists>s'. run_round fuel clock s = Finished s'"
proof -
  have y: "\<And>p. yields_within N scr p" using assms(3) by (rule always_yieldsD)
  from pass_finishes [OF assms(2) y y, where s = s and fuel = fuel] assms show ?thesis
    by (simp add: run_round_def)
qed

theorem script_round_returns_witness:
  "\<forall>pos clock. \<exists>s'. run_round 64 clock ((new_led (Some btnLedScripts) pos 0 0)
      \<lparr>m_mode := LM_SCRIPT, m_currentScript := Some (LED_SCRIPT btnLedScript_ID01 1)\<rparr>) = Finished s'"
proof (intro allI)
  fix pos clock
  have "always_yields 17 (LED_SCRIPT btnLedScript_ID01 1)" by code_simp
  moreover have "script_ok (LED_SCRIPT btnLedScript_ID01 1)" by code_simp
  ultimately show "\<exists>s'. run_round 64 clock ((new_led (Some btnLedScripts) pos 0 0)
      \<lparr>m_mode := LM_SCRIPT, m_currentScript := Some (LED_SCRIPT btnLedScript_ID01 1)\<rparr>) = Finished s'"
    by (intro script_round_returns [of _ "LED_SCRIPT btnLedScript_ID01 1" 17]) simp_all
qed

text \<open>
  A script that can run on without ever meeting a WAIT, a FADE or its end keeps the inner loop
  busy for ever: no number of iterations finishes the round, and the mutex that \<open>setON\<close>,
  \<open>setOFF\<close> and \<open>runScript\<close> need stays locked.
\<close>

theorem script_round_hangs:
  assumes "m_mode s = LM_SCRIPT" "m_currentScript s = Some scr" "script_ok scr"
    and "\<And>n. \<not> yields_within n scr (m_currentScriptPos s)"
  shows "run_round fuel clock s = Looping"
  using pass_loops [OF assms(3,4)] assms(1,2) by (simp add: run_round_def)

lemma blink_never_yields: "\<not> yields_within n (LED_SCRIPT [LCSC_ON, LCSC_OFF] 7) (if b then 1 else 0)"
proof (induction n arbitrary: b)
  case (Suc n)
  show ?case using Suc [of "\<not> b"]
    by (cases b) (auto simp: yields_within.simps [of "Suc n"] static_step_def LED_SCRIPT_def
        getCmdSize_def lcsc_defs mem_get_def byte_le_nat)
qed (auto simp: yields_within.simps static_step_def LED_SCRIPT_def getCmdSize_def lcsc_defs mem_get_def)

theorem script_round_hangs_witness:
  "\<forall>fuel clock. run_round fuel clock
     \<lparr>m_mode = LM_SCRIPT, m_scripts = None, m_currentScript = Some (LED_SCRIPT [LCSC_ON, LCSC_OFF] 7),
      m_currentScriptPos = 0, m_scriptTimer = 0, m_startValue = 0, m_lastValue = 0, written = []\<rparr>
    = Looping"
proof -
  have "script_ok (LED_SCRIPT [LCSC_ON, LCSC_OFF] 7)" by code_simp
  with blink_never_yields [of _ False] show ?thesis
    by (intro allI script_round_hangs [where scr = "LED_SCRIPT [LCSC_ON, LCSC_OFF] 7"]) auto
qed

text \<open>
  The value FADE writes lies between the start value and the target and moves monotonically
  from one to the other as time passes, so the clamp to a byte never bites.
\<close>

theorem fade_monotone:
  assumes "0 \<le> start" "start \<le> 255" "0 \<le> value" "value \<le> 255"
    and "0 \<le> e" "e \<le> e'" "e' < t" "t \<le> 65535"
  shows "min start value \<le> fade_value start value e t \<and> fade_value start value e t \<le> max start value
    \<and> (start \<le> value \<longrightarrow> fade_value start value e t \<le> fade_value start value e' t)
    \<and> (value \<le> start \<longrightarrow> fade_value start value e' t \<le> fade_value start value e t)
    \<and> fade_value start value 0 t = start"
  using fade_value_eq [OF assms(1-4), of e t] fade_value_eq [OF assms(1-4), of e' t]
    fade_value_eq [OF assms(1-4), of 0 t] assms
    fade_steps [of "value - start" e t] fade_steps [of "start - value" e t]
    fade_mono_div [of "value - start" e e' t] fade_mono_div [of "start - value" e e' t]
  by (auto simp: min_def max_def)

theorem fade_monotone_witness:
  "fade_value 0 255 100 500 \<le> fade_value 0 255 250 500 \<and> fade_value 0 255 0 500 = 0"
  using fade_monotone [of 0 255 100 250 500] by simp

end
