(* ===== verification/Fan.thy ===== *)
theory Fan
  imports Prelude
begin

text \<open>
  The fan controller of the microcontroller firmware, Arduino/fan.h. The Makefile builds it for
  the ATmega328P, where \<open>int\<close> has 16 bits: arithmetic on \<open>uint16_t\<close> operands wraps modulo
  65536, which \<open>to_u16\<close> writes out. Values are ints in the range of their C type. A division by
  zero, a read outside the speed table and a signed overflow are None. What \<open>analogWrite\<close>
  receives is recorded, newest first.
\<close>

section \<open>Data\<close>

definition AFM_MANUAL :: int where "AFM_MANUAL = 0"
definition AFM_AUTO :: int where "AFM_AUTO = 1"

record fan_speed_item =
  item_speed :: int
  item_value :: int

record fan_speed =
  speed_count :: nat
  min_speed :: int
  speed_data :: "fan_speed_item list"

record fan_temp_data =
  target :: int
  threshold :: int
  full_speed_temp :: int

record fan =
  m_speed_data :: fan_speed
  m_temp_data :: fan_temp_data
  m_mode :: int
  m_temp :: int
  m_speed :: int
  m_value :: int
  m_start_time :: int
  analog :: "int list"

record fan_data =
  data_mode :: int
  data_speed :: int
  data_value :: int

section \<open>The speed table\<close>

definition getLinearValue :: "int \<Rightarrow> int \<Rightarrow> int \<Rightarrow> int \<Rightarrow> int \<Rightarrow> int option" where
  "getLinearValue hspeed lspeed speed hvalue lvalue =
     (let num = to_u16 (to_u16 (speed - lspeed) * to_u16 (hvalue - lvalue));
          den = to_u16 (hspeed - lspeed)
      in if den = 0 then None else Some (to_u16 (lvalue + num div den)))"

text \<open>The loop of \<open>setRawSpeed\<close> from index \<open>i\<close>, with \<open>n\<close> entries to go.\<close>

fun speed_loop :: "fan_speed \<Rightarrow> int \<Rightarrow> nat \<Rightarrow> nat \<Rightarrow> int \<Rightarrow> int option" where
  "speed_loop d speed 0 i value = Some value"
| "speed_loop d speed (Suc n) i value =
     do {
       it \<leftarrow> mem_get (speed_data d) i;
       if item_speed it = speed then Some (item_value it)
       else if item_speed it > speed then
         (if i > 0 then
            do {
              prev \<leftarrow> mem_get (speed_data d) (i - 1);
              getLinearValue (item_speed it) (item_speed prev) speed (item_value it) (item_value prev)
            }
          else getLinearValue (item_speed it) 0 speed (item_value it) 0)
       else if int i = int (speed_count d) - 1 then
         do {
           v \<leftarrow> getLinearValue 100 (item_speed it) speed 255 (item_value it);
           speed_loop d speed n (Suc i) v
         }
       else speed_loop d speed n (Suc i) value
     }"

definition raw_value :: "fan_speed \<Rightarrow> int \<Rightarrow> int option" where
  "raw_value d speed =
     (let value = to_u16 (speed * 255) div 100;
          value = (if value > 255 then 255 else value)
      in speed_loop d speed (speed_count d) 0 value)"

definition setRawSpeed :: "int \<Rightarrow> fan \<Rightarrow> fan option" where
  "setRawSpeed speed f =
     do {
       value \<leftarrow> raw_value (m_speed_data f) speed;
       Some (f\<lparr>m_speed := speed, m_value := to_u8 value, analog := to_u8 value # analog f\<rparr>)
     }"

section \<open>Temperature control\<close>

definition auto_target :: "fan \<Rightarrow> int" where
  "auto_target f =
     (if m_speed f \<ge> min_speed (m_speed_data f)
      then to_u16 (target (m_temp_data f) - threshold (m_temp_data f))
      else target (m_temp_data f))"

text \<open>The proportional speed, before and after it is clamped.\<close>

definition auto_speed :: "fan \<Rightarrow> int \<Rightarrow> int option" where
  "auto_speed f tgt =
     (let d = m_speed_data f;
          num = to_u16 (to_u16 (m_temp f - tgt) * to_u16 (100 - min_speed d));
          den = to_u16 (full_speed_temp (m_temp_data f) - tgt)
      in if den = 0 then None
         else let speed = to_u16 (min_speed d + num div den)
              in Some (if speed < 0 then 0 else if speed > 100 then 100 else speed))"

text \<open>\<open>now\<close> is what \<open>millis()\<close> returns; \<open>now_s\<close> is it as an \<open>int32_t\<close>.\<close>

definition updateTemp :: "int \<Rightarrow> fan \<Rightarrow> fan option" where
  "updateTemp now f =
     (if m_mode f = AFM_AUTO then
        (let tgt = auto_target f in
         if m_temp f > tgt then
           (let now_s = to_s32 now;
                f = (if m_start_time f = 0 \<or> m_start_time f > now_s
                     then f\<lparr>m_start_time := now_s\<rparr> else f);
                elapsed = now_s - m_start_time f
            in if \<not> is_s32 elapsed then None
               else if elapsed < 2000 then setRawSpeed 100 f
               else if m_temp f \<ge> full_speed_temp (m_temp_data f) then setRawSpeed 100 f
               else do { speed \<leftarrow> auto_speed f tgt; setRawSpeed (to_u8 speed) f })
         else map_option (\<lambda>f. f\<lparr>m_start_time := 0\<rparr>) (setRawSpeed 0 f))
      else Some f)"

section \<open>Operations\<close>

text \<open>\<open>m_speed\<close> and \<open>m_value\<close> are set by the constructor's \<open>setRawSpeed\<close>.\<close>

definition new_fan :: "fan_speed \<Rightarrow> fan_temp_data \<Rightarrow> fan option" where
  "new_fan d t =
     setRawSpeed 50 \<lparr>m_speed_data = d, m_temp_data = t, m_mode = AFM_AUTO, m_temp = 0, m_speed = 0,
       m_value = 0, m_start_time = 0, analog = []\<rparr>"

definition setSpeed :: "int \<Rightarrow> fan \<Rightarrow> fan option" where
  "setSpeed speed f = setRawSpeed speed (f\<lparr>m_mode := AFM_MANUAL\<rparr>)"

definition setMode :: "int \<Rightarrow> int \<Rightarrow> fan \<Rightarrow> fan option" where
  "setMode now mode f = updateTemp now (f\<lparr>m_mode := mode, m_start_time := 0, m_speed := 0\<rparr>)"

definition setTemp :: "int \<Rightarrow> int \<Rightarrow> int \<Rightarrow> int \<Rightarrow> fan \<Rightarrow> fan option" where
  "setTemp now temp factor ofactor f =
     do {
       t \<leftarrow> (if m_temp f \<noteq> 0 then
              (let num = to_u16 (to_u16 (m_temp f * ofactor) + to_u16 (temp * factor));
                   den = to_u16 (factor + ofactor)
               in if den = 0 then None else Some (num div den))
            else Some temp);
       updateTemp now (f\<lparr>m_temp := t\<rparr>)
     }"

definition getData :: "fan \<Rightarrow> fan_data" where
  "getData f = \<lparr>data_mode = m_mode f, data_speed = m_speed f, data_value = m_value f\<rparr>"

section \<open>The speed curve\<close>

text \<open>
  A table as the source asks for it, sorted by speed, with values that never fall; the code
  adds the points (0, 0) and (100, 255) at its ends.
\<close>

fun table_from :: "int \<Rightarrow> int \<Rightarrow> fan_speed_item list \<Rightarrow> bool" where
  "table_from ls lv [] = (0 \<le> ls \<and> ls \<le> 100 \<and> 0 \<le> lv \<and> lv \<le> 255)"
| "table_from ls lv (it # its) =
     (0 \<le> ls \<and> ls < item_speed it \<and> 0 \<le> lv \<and> lv \<le> item_value it \<and>
      table_from (item_speed it) (item_value it) its)"

definition table_ok :: "fan_speed \<Rightarrow> bool" where
  "table_ok d \<longleftrightarrow> speed_count d = length (speed_data d) \<and>
     (case speed_data d of [] \<Rightarrow> True | it # its \<Rightarrow> table_from (item_speed it) (item_value it) its)"

lemma table_from_bounds: "table_from ls lv its \<Longrightarrow> 0 \<le> ls \<and> ls \<le> 100 \<and> 0 \<le> lv \<and> lv \<le> 255"
  by (induction its arbitrary: ls lv) force+

definition linear :: "int \<Rightarrow> int \<Rightarrow> int \<Rightarrow> int \<Rightarrow> int \<Rightarrow> int" where
  "linear h l s hv lv = lv + (s - l) * (hv - lv) div (h - l)"

text \<open>The curve from the point \<open>(ls, lv)\<close> on.\<close>

fun curve :: "int \<Rightarrow> int \<Rightarrow> fan_speed_item list \<Rightarrow> int \<Rightarrow> int" where
  "curve ls lv [] s = linear 100 ls s 255 lv"
| "curve ls lv (it # its) s =
     (if item_speed it = s then item_value it
      else if item_speed it > s then linear (item_speed it) ls s (item_value it) lv
      else curve (item_speed it) (item_value it) its s)"

lemma linear_range:
  assumes "l \<le> s" "s \<le> h" "lv \<le> hv"
  shows "lv \<le> linear h l s hv lv \<and> linear h l s hv lv \<le> hv"
proof (cases "l = h")
  case False
  then have lh: "0 < h - l" using assms by simp
  have "(s - l) * (hv - lv) \<le> (h - l) * (hv - lv)" using assms by (intro mult_right_mono) auto
  then have "(s - l) * (hv - lv) div (h - l) \<le> hv - lv"
    using zdiv_mono1 [of "(s - l) * (hv - lv)" "(h - l) * (hv - lv)" "h - l"] lh by simp
  with lh assms show ?thesis by (simp add: linear_def pos_imp_zdiv_nonneg_iff)
qed (use assms in \<open>simp add: linear_def\<close>)

lemma linear_mono:
  assumes "l < h" "s \<le> s'" "lv \<le> hv" shows "linear h l s hv lv \<le> linear h l s' hv lv"
  using assms unfolding linear_def by (intro add_left_mono zdiv_mono1 mult_right_mono) auto

lemma getLinearValue_ok:
  assumes "0 \<le> l" "l \<le> s" "s \<le> h" "l < h" "h \<le> 100" "0 \<le> lv" "lv \<le> hv" "hv \<le> 255"
  shows "getLinearValue h l s hv lv = Some (linear h l s hv lv)"
proof -
  have "(s - l) * (hv - lv) \<le> 100 * 255" using assms by (intro mult_mono) auto
  then have num: "to_u16 ((s - l) * (hv - lv)) = (s - l) * (hv - lv)"
    using assms by (intro to_u16_id) auto
  have "to_u16 (linear h l s hv lv) = linear h l s hv lv"
    using linear_range [of l s h lv hv] assms by (intro to_u16_id) auto
  with num show ?thesis
    using assms by (simp add: getLinearValue_def conv_simps linear_def)
qed

lemma curve_range:
  "table_from ls lv its \<Longrightarrow> ls \<le> s \<Longrightarrow> s \<le> 100 \<Longrightarrow> lv \<le> curve ls lv its s \<and> curve ls lv its s \<le> 255"
proof (induction its arbitrary: ls lv)
  case Nil
  with linear_range [of ls s 100 lv 255] show ?case by simp
next
  case (Cons it its)
  note b = table_from_bounds [of "item_speed it" "item_value it" its]
  consider "item_speed it = s" | "s < item_speed it" | "item_speed it < s" by linarith
  then show ?case
  proof cases
    case 2
    with linear_range [of ls s "item_speed it" lv "item_value it"] Cons.prems b show ?thesis by auto
  next
    case 3
    with Cons.IH [of "item_speed it" "item_value it"] Cons.prems show ?thesis by auto
  qed (use Cons.prems b in auto)
qed

lemma curve_mono:
  "table_from ls lv its \<Longrightarrow> ls \<le> s \<Longrightarrow> s \<le> s' \<Longrightarrow> s' \<le> 100 \<Longrightarrow> curve ls lv its s \<le> curve ls lv its s'"
proof (induction its arbitrary: ls lv)
  case Nil
  then show ?case
    by (cases "ls = 100") (auto simp: linear_def intro!: zdiv_mono1 mult_right_mono)
next
  case (Cons it its)
  have tab: "table_from (item_speed it) (item_value it) its" using Cons.prems by simp
  show ?case
  proof (cases "item_speed it < s")
    case True
    with Cons.IH [OF tab] Cons.prems show ?thesis by auto
  next
    case False
    have lo: "curve ls lv (it # its) s \<le> item_value it"
      using False Cons.prems linear_range [of ls s "item_speed it" lv "item_value it"] by auto
    show ?thesis
    proof (cases "item_speed it \<le> s'")
      case True
      have "item_value it \<le> curve ls lv (it # its) s'"
        using True curve_range [OF tab, of s'] Cons.prems by auto
      with lo show ?thesis by simp
    next
      case hi: False
      with False Cons.prems linear_mono [of ls "item_speed it" s s' lv "item_value it"]
      show ?thesis by auto
    qed
  qed
qed

lemma curve_point: "table_from ls lv its \<Longrightarrow> it \<in> set its \<Longrightarrow> curve ls lv its (item_speed it) = item_value it"
proof (induction its arbitrary: ls lv)
  case (Cons a its)
  have "item_speed a < item_speed x" if "table_from (item_speed a) v its" "x \<in> set its" for v x
    using that
  proof (induction its arbitrary: a v)
    case (Cons b its)
    from Cons.prems show ?case using Cons.IH [of b "item_value b"] by auto
  qed simp
  with Cons show ?case by fastforce
qed simp

section \<open>The loop computes the curve\<close>

lemma speed_loop_curve:
  assumes "speed_count d = length (speed_data d)" "i + n = length (speed_data d)" "0 < i"
    and "table_from (item_speed (speed_data d ! (i - 1))) (item_value (speed_data d ! (i - 1)))
           (drop i (speed_data d))"
    and "item_speed (speed_data d ! (i - 1)) < s" "s \<le> 100"
  shows "speed_loop d s n i v = Some (if n = 0 then v else
    curve (item_speed (speed_data d ! (i - 1))) (item_value (speed_data d ! (i - 1)))
      (drop i (speed_data d)) s)"
  using assms
proof (induction n arbitrary: i v)
  case (Suc n)
  let ?it = "speed_data d ! i" and ?p = "speed_data d ! (i - 1)"
  have i: "i < length (speed_data d)" using Suc.prems by simp
  have dr: "drop i (speed_data d) = ?it # drop (Suc i) (speed_data d)"
    using i by (rule Cons_nth_drop_Suc [symmetric])
  have tab: "table_from (item_speed ?it) (item_value ?it) (drop (Suc i) (speed_data d))"
    and ord: "0 \<le> item_speed ?p" "item_speed ?p < item_speed ?it" "0 \<le> item_value ?p"
      "item_value ?p \<le> item_value ?it"
    using Suc.prems(4) by (auto simp: dr)
  note b = table_from_bounds [OF tab]
  consider "item_speed ?it = s" | "s < item_speed ?it" | "item_speed ?it < s" by linarith
  then show ?case
  proof cases
    case 2
    with getLinearValue_ok [of "item_speed ?p" s "item_speed ?it" "item_value ?p" "item_value ?it"]
      ord b Suc.prems(3,5) i show ?thesis by (simp add: dr mem_simps)
  next
    case 3
    have lin: "getLinearValue 100 (item_speed ?it) s 255 (item_value ?it)
        = Some (linear 100 (item_speed ?it) s 255 (item_value ?it))"
      using 3 b Suc.prems(6) by (intro getLinearValue_ok) auto
    have IH: "speed_loop d s n (Suc i) w = Some (if n = 0 then w else
        curve (item_speed ?it) (item_value ?it) (drop (Suc i) (speed_data d)) s)" for w
      using Suc.IH [of "Suc i" w] Suc.prems tab 3 by simp
    show ?thesis
    proof (cases "n = 0")
      case True
      with Suc.prems have e: "drop (Suc i) (speed_data d) = []" "int i = int (speed_count d) - 1" by auto
      have "curve (item_speed ?p) (item_value ?p) (drop i (speed_data d)) s
          = linear 100 (item_speed ?it) s 255 (item_value ?it)"
        using 3 e(1) by (simp add: dr)
      moreover have "speed_loop d s (Suc n) i v = Some (linear 100 (item_speed ?it) s 255 (item_value ?it))"
        using 3 e(2) i lin IH True by (simp add: mem_simps)
      ultimately show ?thesis by simp
    next
      case False
      with Suc.prems have "int i \<noteq> int (speed_count d) - 1" by auto
      with 3 i IH False show ?thesis by (simp add: dr mem_simps)
    qed
  qed (use i in \<open>simp add: dr mem_simps\<close>)
qed simp

text \<open>The whole curve: the table's, or the diagonal when there is none.\<close>

definition fan_curve :: "fan_speed \<Rightarrow> int \<Rightarrow> int" where
  "fan_curve d s =
     (case speed_data d of
        [] \<Rightarrow> s * 255 div 100
      | it # its \<Rightarrow> if s < item_speed it then linear (item_speed it) 0 s (item_value it) 0
                  else curve (item_speed it) (item_value it) its s)"

lemma curve_start: "table_from ls lv its \<Longrightarrow> curve ls lv its ls = lv"
  by (cases its) (auto simp: linear_def)

lemma raw_value_curve:
  assumes "table_ok d" "0 \<le> s" "s \<le> 100"
  shows "raw_value d s = Some (fan_curve d s)"
proof (cases "speed_data d")
  case Nil
  have "s * 255 div 100 \<le> 255" using assms by linarith
  with Nil assms show ?thesis
    by (simp add: raw_value_def fan_curve_def table_ok_def conv_simps)
next
  case (Cons it its)
  have cnt: "speed_count d = length (speed_data d)"
    and tab: "table_from (item_speed it) (item_value it) its"
    using assms(1) by (auto simp: table_ok_def Cons)
  note b = table_from_bounds [OF tab]
  have "speed_loop d s (Suc (length its)) 0 v = Some (fan_curve d s)" for v
  proof -
    consider "item_speed it = s" | "s < item_speed it" | "item_speed it < s" by linarith
    then show ?thesis
    proof cases
      case 1
      then show ?thesis using curve_start [OF tab] by (simp add: Cons fan_curve_def)
    next
      case 2
      with getLinearValue_ok [of 0 s "item_speed it" 0 "item_value it"] b assms
      show ?thesis by (simp add: Cons fan_curve_def)
    next
      case 3
      have lin: "getLinearValue 100 (item_speed it) s 255 (item_value it)
          = Some (linear 100 (item_speed it) s 255 (item_value it))"
        using 3 b assms(3) by (intro getLinearValue_ok) auto
      have "speed_loop d s (length its) 1 w = Some (if length its = 0 then w else
          curve (item_speed it) (item_value it) its s)" for w
        using speed_loop_curve [of d 1 "length its" s w] cnt tab 3 assms(3) by (simp add: Cons)
      with 3 lin cnt show ?thesis
        by (cases its) (auto simp: Cons fan_curve_def)
    qed
  qed
  then show ?thesis by (simp add: raw_value_def cnt Cons del: speed_loop.simps)
qed

lemma fan_curve_range:
  assumes "table_ok d" "0 \<le> s" "s \<le> 100" shows "0 \<le> fan_curve d s \<and> fan_curve d s \<le> 255"
proof (cases "speed_data d")
  case Nil
  with assms show ?thesis by (simp add: fan_curve_def) linarith
next
  case (Cons it its)
  then have tab: "table_from (item_speed it) (item_value it) its" using assms by (simp add: table_ok_def)
  with Cons table_from_bounds [OF tab] curve_range [OF tab, of s] assms
    linear_range [of 0 s "item_speed it" 0 "item_value it"]
  show ?thesis by (auto simp: fan_curve_def)
qed

lemma fan_curve_mono:
  assumes "table_ok d" "0 \<le> s" "s \<le> s'" "s' \<le> 100" shows "fan_curve d s \<le> fan_curve d s'"
proof (cases "speed_data d")
  case Nil
  with assms show ?thesis by (simp add: fan_curve_def zdiv_mono1)
next
  case (Cons it its)
  then have tab: "table_from (item_speed it) (item_value it) its" using assms by (simp add: table_ok_def)
  with Cons table_from_bounds [OF tab] curve_range [OF tab, of s'] assms curve_mono [OF tab, of s s']
    linear_range [of 0 s "item_speed it" 0 "item_value it"]
    linear_mono [of 0 "item_speed it" s s' 0 "item_value it"]
  show ?thesis by (auto simp: fan_curve_def)
qed

lemma table_point:
  assumes "table_ok d" "it \<in> set (speed_data d)" shows "fan_curve d (item_speed it) = item_value it"
proof (cases "speed_data d")
  case (Cons a its)
  then have tab: "table_from (item_speed a) (item_value a) its" using assms by (simp add: table_ok_def)
  show ?thesis
  proof (cases "it = a")
    case True
    with Cons curve_start [OF tab] show ?thesis by (simp add: fan_curve_def)
  next
    case False
    then have it: "it \<in> set its" using assms(2) Cons by simp
    then have "item_speed a < item_speed it" using tab
    proof (induction its arbitrary: a)
      case (Cons b its)
      then show ?case by force
    qed simp
    with Cons curve_point [OF tab it] show ?thesis by (simp add: fan_curve_def)
  qed
qed (use assms in simp)

lemma setRawSpeed_ok:
  assumes "table_ok (m_speed_data f)" "0 \<le> s" "s \<le> 100"
  shows "setRawSpeed s f = Some (f\<lparr>m_speed := s, m_value := fan_curve (m_speed_data f) s,
    analog := fan_curve (m_speed_data f) s # analog f\<rparr>)"
  using fan_curve_range [OF assms] by (simp add: setRawSpeed_def raw_value_curve [OF assms] conv_simps)

section \<open>Temperature control\<close>

text \<open>Temperatures in whole degrees, as the host sends them, so that the products fit.\<close>

definition temps_ok :: "fan \<Rightarrow> bool" where
  "temps_ok f \<longleftrightarrow> 0 \<le> threshold (m_temp_data f) \<and> threshold (m_temp_data f) \<le> target (m_temp_data f) \<and>
     target (m_temp_data f) < full_speed_temp (m_temp_data f) \<and> full_speed_temp (m_temp_data f) \<le> 255 \<and>
     0 \<le> min_speed (m_speed_data f) \<and> min_speed (m_speed_data f) \<le> 100 \<and> 0 \<le> m_temp f \<and> m_temp f < 65536"

lemma auto_target_bounds:
  "temps_ok f \<Longrightarrow> 0 \<le> auto_target f \<and> auto_target f \<le> target (m_temp_data f) \<and>
    target (m_temp_data f) - threshold (m_temp_data f) \<le> auto_target f"
  by (simp add: temps_ok_def auto_target_def conv_simps)

lemma auto_speed_ok:
  assumes "temps_ok f" "auto_target f < m_temp f" "m_temp f < full_speed_temp (m_temp_data f)"
  shows "\<exists>s. auto_speed f (auto_target f) = Some s \<and> min_speed (m_speed_data f) \<le> s \<and> s \<le> 100"
proof -
  let ?t = "auto_target f" and ?d = "m_speed_data f" and ?full = "full_speed_temp (m_temp_data f)"
  note b = assms(1) [unfolded temps_ok_def] auto_target_bounds [OF assms(1)]
  have "(m_temp f - ?t) * (100 - min_speed ?d) \<le> 255 * 100" using b assms by (intro mult_mono) auto
  then have num: "to_u16 ((m_temp f - ?t) * (100 - min_speed ?d)) = (m_temp f - ?t) * (100 - min_speed ?d)"
    using b assms by (intro to_u16_id) auto
  have "(m_temp f - ?t) * (100 - min_speed ?d) \<le> (?full - ?t) * (100 - min_speed ?d)"
    using b assms by (intro mult_right_mono) auto
  then have q: "(m_temp f - ?t) * (100 - min_speed ?d) div (?full - ?t) \<le> 100 - min_speed ?d"
    using zdiv_mono1 [of "(m_temp f - ?t) * (100 - min_speed ?d)" "(?full - ?t) * (100 - min_speed ?d)"
        "?full - ?t"] b by simp
  have q0: "0 \<le> (m_temp f - ?t) * (100 - min_speed ?d) div (?full - ?t)"
    using b assms by (simp add: pos_imp_zdiv_nonneg_iff)
  have "to_u16 (m_temp f - ?t) = m_temp f - ?t" "to_u16 (100 - min_speed ?d) = 100 - min_speed ?d"
    "to_u16 (?full - ?t) = ?full - ?t"
    using b assms by (auto intro!: to_u16_id)
  with num q q0 b assms show ?thesis by (simp add: auto_speed_def Let_def conv_simps)
qed

lemma updateTemp_ok:
  assumes "m_mode f = AFM_AUTO" "table_ok (m_speed_data f)" "temps_ok f"
    and "0 \<le> m_start_time f" "0 \<le> now" "now < 2147483648"
  shows "\<exists>f'. updateTemp now f = Some f' \<and>
    (m_temp f \<le> auto_target f \<longrightarrow> m_speed f' = 0 \<and> m_start_time f' = 0) \<and>
    (auto_target f < m_temp f \<longrightarrow> min_speed (m_speed_data f) \<le> m_speed f' \<and> m_speed f' \<le> 100) \<and>
    (auto_target f < m_temp f \<and> full_speed_temp (m_temp_data f) \<le> m_temp f \<longrightarrow> m_speed f' = 100) \<and>
    m_value f' = fan_curve (m_speed_data f) (m_speed f')"
proof (cases "auto_target f < m_temp f")
  case False
  with assms setRawSpeed_ok [of f 0] show ?thesis by (auto simp: updateTemp_def)
next
  case hot: True
  have now: "to_s32 now = now" using assms by (intro to_s32_id) auto
  define g where "g = (if m_start_time f = 0 \<or> m_start_time f > now then f\<lparr>m_start_time := now\<rparr> else f)"
  have g: "auto_target g = auto_target f" "m_temp g = m_temp f" "m_speed_data g = m_speed_data f"
    "m_temp_data g = m_temp_data f" "temps_ok g" "0 \<le> m_start_time g" "m_start_time g \<le> now"
    using assms by (auto simp: g_def auto_target_def temps_ok_def)
  have el: "is_s32 (now - m_start_time g)" using g assms by (simp add: is_s32_def)
  have upd: "updateTemp now f = (if now - m_start_time g < 2000 then setRawSpeed 100 g
      else if m_temp f \<ge> full_speed_temp (m_temp_data f) then setRawSpeed 100 g
      else do { speed \<leftarrow> auto_speed g (auto_target f); setRawSpeed (to_u8 speed) g })"
    using assms(1) hot el g by (simp add: updateTemp_def now g_def [symmetric] Let_def)
  have full: "\<exists>f'. setRawSpeed 100 g = Some f' \<and> m_speed f' = 100
      \<and> m_value f' = fan_curve (m_speed_data f) 100"
    using setRawSpeed_ok [of g 100] g assms(2) by simp
  have ms: "min_speed (m_speed_data f) \<le> 100" "0 \<le> min_speed (m_speed_data f)"
    using assms(3) by (auto simp: temps_ok_def)
  show ?thesis
  proof (cases "now - m_start_time g < 2000 \<or> m_temp f \<ge> full_speed_temp (m_temp_data f)")
    case True
    with full upd ms hot show ?thesis by auto
  next
    case False
    then obtain s where s: "auto_speed g (auto_target f) = Some s" "min_speed (m_speed_data f) \<le> s" "s \<le> 100"
      using auto_speed_ok [of g] g hot by auto
    have "to_u8 s = s" using s ms by (intro to_u8_id) auto
    with s False upd hot ms setRawSpeed_ok [of g s] g assms(2) show ?thesis by auto
  qed
qed

section \<open>Properties\<close>

text \<open>
  With a table as the source asks for it, \<open>setRawSpeed\<close> never divides by zero for speeds up to
  100, its output fits the byte of the PWM register and never falls when the speed rises, and a
  speed of the table gets exactly its value.
\<close>

theorem fan_curve_monotone:
  assumes "table_ok d" "0 \<le> s" "s \<le> s'" "s' \<le> 100"
  shows "\<exists>v v'. raw_value d s = Some v \<and> raw_value d s' = Some v' \<and> 0 \<le> v \<and> v \<le> v' \<and> v' \<le> 255
    \<and> (\<forall>it \<in> set (speed_data d). item_speed it = s \<longrightarrow> v = item_value it)"
proof -
  have "fan_curve d s = item_value it" if "it \<in> set (speed_data d)" "item_speed it = s" for it
    using table_point [OF assms(1) that(1)] that(2) by simp
  then show ?thesis
    using raw_value_curve [OF assms(1)] fan_curve_mono [OF assms] assms
      fan_curve_range [OF assms(1), of s] fan_curve_range [OF assms(1), of s'] by auto
qed

theorem fan_curve_monotone_witness:
  "\<exists>v v'. raw_value \<lparr>speed_count = 2, min_speed = 20, speed_data =
        [\<lparr>item_speed = 20, item_value = 90\<rparr>, \<lparr>item_speed = 60, item_value = 180\<rparr>]\<rparr> 20 = Some v
     \<and> raw_value \<lparr>speed_count = 2, min_speed = 20, speed_data =
        [\<lparr>item_speed = 20, item_value = 90\<rparr>, \<lparr>item_speed = 60, item_value = 180\<rparr>]\<rparr> 77 = Some v'
     \<and> v = 90 \<and> v \<le> v' \<and> v' \<le> 255"
  using fan_curve_monotone [of "\<lparr>speed_count = 2, min_speed = 20, speed_data =
        [\<lparr>item_speed = 20, item_value = 90\<rparr>, \<lparr>item_speed = 60, item_value = 180\<rparr>]\<rparr>" 20 77]
  by (auto simp: table_ok_def)



end
