(* ===== verification/Md32.thy ===== *)
theory Md32
  imports Prelude
begin

text \<open>
  intercom/crypto/md32_common.h: the buffering and padding that every 32-bit digest shares, in
  its big-endian configuration, over a block function that is a parameter, as the macros
  \<open>HASH_BLOCK_DATA_ORDER\<close> and \<open>HASH_MAKE_STRING\<close> are in the source. The context's \<open>data\<close> array
  is its 64 bytes; an access outside a buffer is None.
\<close>

section \<open>Words and bytes\<close>

definition ROTATE :: "u32 \<Rightarrow> nat \<Rightarrow> u32" where
  "ROTATE a n = push_bit n a OR drop_bit (32 - n) (a AND 0xffffffff)"

text \<open>\<open>HOST_c2l\<close> reads four bytes, \<open>HOST_l2c\<close> writes four.\<close>

definition HOST_c2l :: "byte list \<Rightarrow> nat \<Rightarrow> u32 option" where
  "HOST_c2l data off =
     do {
       b0 \<leftarrow> mem_get data off;
       b1 \<leftarrow> mem_get data (off + 1);
       b2 \<leftarrow> mem_get data (off + 2);
       b3 \<leftarrow> mem_get data (off + 3);
       Some (push_bit 24 (ucast b0) OR push_bit 16 (ucast b1) OR push_bit 8 (ucast b2) OR ucast b3)
     }"

definition HOST_l2c :: "u32 \<Rightarrow> byte list" where
  "HOST_l2c l = [ucast (drop_bit 24 l), ucast (drop_bit 16 l), ucast (drop_bit 8 l), ucast l]"

section \<open>The context\<close>

definition HASH_CBLOCK :: nat where "HASH_CBLOCK = 64"

record 'h hash_ctx =
  ctx_h :: 'h
  Nl :: u32
  Nh :: u32
  ctx_data :: "byte list"
  ctx_num :: nat
  md_len :: nat

text \<open>A block function: the chaining value, the input and the number of blocks to read from it.\<close>

type_synonym 'h block_fn = "'h \<Rightarrow> byte list \<Rightarrow> nat \<Rightarrow> 'h option"

definition HASH_TRANSFORM :: "'h block_fn \<Rightarrow> 'h hash_ctx \<Rightarrow> byte list \<Rightarrow> 'h hash_ctx option" where
  "HASH_TRANSFORM bdo c data = map_option (\<lambda>h. c\<lparr>ctx_h := h\<rparr>) (bdo (ctx_h c) data 1)"

text \<open>The bit counter. \<open>len\<close> is a \<open>size_t\<close>; the casts keep its low 32 bits.\<close>

definition count_bits :: "nat \<Rightarrow> 'h hash_ctx \<Rightarrow> 'h hash_ctx" where
  "count_bits len c =
     (let l = Nl c + push_bit 3 (of_nat len);
          nh = (if l < Nl c then Nh c + 1 else Nh c)
      in c\<lparr>Nh := nh + of_nat (drop_bit 29 len), Nl := l\<rparr>)"

text \<open>The whole blocks of the input, and what is left of it.\<close>

definition hash_blocks :: "'h block_fn \<Rightarrow> 'h hash_ctx \<Rightarrow> byte list \<Rightarrow> ('h hash_ctx \<times> byte list) option" where
  "hash_blocks bdo c data =
     (let n = length data div HASH_CBLOCK in
      if n > 0 then
        do { h \<leftarrow> bdo (ctx_h c) data n; Some (c\<lparr>ctx_h := h\<rparr>, drop (n * HASH_CBLOCK) data) }
      else Some (c, data))"

definition hash_keep :: "'h hash_ctx \<Rightarrow> byte list \<Rightarrow> 'h hash_ctx option" where
  "hash_keep c data =
     (if length data \<noteq> 0 then
        do {
          p \<leftarrow> mem_write (ctx_data c) 0 data;
          Some (c\<lparr>ctx_num := length data, ctx_data := p\<rparr>)
        }
      else Some c)"

definition HASH_UPDATE :: "'h block_fn \<Rightarrow> 'h hash_ctx \<Rightarrow> byte list \<Rightarrow> 'h hash_ctx option" where
  "HASH_UPDATE bdo c data =
     (if data = [] then Some c
      else
        (let c = count_bits (length data) c; len = length data; n = ctx_num c in
         if n \<noteq> 0 then
           (if len \<ge> HASH_CBLOCK \<or> len + n \<ge> HASH_CBLOCK then
              do {
                p \<leftarrow> mem_write (ctx_data c) n (take (HASH_CBLOCK - n) data);
                h \<leftarrow> bdo (ctx_h c) p 1;
                let c = c\<lparr>ctx_h := h, ctx_num := 0, ctx_data := replicate HASH_CBLOCK 0\<rparr>;
                (c, rest) \<leftarrow> hash_blocks bdo c (drop (HASH_CBLOCK - n) data);
                hash_keep c rest
              }
            else
              do {
                p \<leftarrow> mem_write (ctx_data c) n data;
                Some (c\<lparr>ctx_data := p, ctx_num := n + len\<rparr>)
              })
         else do { (c, rest) \<leftarrow> hash_blocks bdo c data; hash_keep c rest }))"

text \<open>
  \<open>HASH_FINAL\<close>; \<open>make_string\<close> is \<open>HASH_MAKE_STRING\<close>, which may make the function return 0 (None
  inside).
\<close>

definition HASH_FINAL ::
    "'h block_fn \<Rightarrow> ('h hash_ctx \<Rightarrow> byte list option) \<Rightarrow> 'h hash_ctx
      \<Rightarrow> ('h hash_ctx \<times> byte list option) option" where
  "HASH_FINAL bdo make_string c =
     do {
       let n = ctx_num c;
       p \<leftarrow> mem_write (ctx_data c) n [0x80];
       let n = n + 1;
       (h, p, n) \<leftarrow> (if n > HASH_CBLOCK - 8 then
             do {
               p \<leftarrow> mem_write p n (replicate (HASH_CBLOCK - n) 0);
               h \<leftarrow> bdo (ctx_h c) p 1;
               Some (h, p, 0)
             }
           else Some (ctx_h c, p, n));
       p \<leftarrow> mem_write p n (replicate (HASH_CBLOCK - 8 - n) 0);
       p \<leftarrow> mem_write p (HASH_CBLOCK - 8) (HOST_l2c (Nh c));
       p \<leftarrow> mem_write p (HASH_CBLOCK - 4) (HOST_l2c (Nl c));
       h \<leftarrow> bdo h p 1;
       let c = c\<lparr>ctx_h := h, ctx_num := 0, ctx_data := replicate HASH_CBLOCK 0\<rparr>;
       Some (c, make_string c)
     }"

section \<open>What a block function promises\<close>

locale block_function =
  fixes bdo :: "'h block_fn"
  assumes bdo_0: "bdo h data 0 = Some h"
    and bdo_split: "bdo h data (m + n) = Option.bind (bdo h data m) (\<lambda>h'. bdo h' (drop (64 * m) data) n)"
    and bdo_total: "64 * n \<le> length data \<Longrightarrow> \<exists>h'. bdo h data n = Some h'"
    and bdo_prefix: "64 * n \<le> length data \<Longrightarrow> bdo h (data @ extra) n = bdo h data n"

text \<open>The context after the message \<open>msg\<close>, started from the chaining value \<open>h0\<close>.\<close>

definition hash_state :: "'h block_fn \<Rightarrow> 'h \<Rightarrow> byte list \<Rightarrow> 'h hash_ctx \<Rightarrow> bool" where
  "hash_state bdo h0 msg c \<longleftrightarrow>
     bdo h0 msg (length msg div 64) = Some (ctx_h c) \<and>
     ctx_num c = length msg mod 64 \<and>
     ctx_data c = drop (64 * (length msg div 64)) msg @ replicate (64 - length msg mod 64) 0"

definition hash_inv :: "'h block_fn \<Rightarrow> 'h \<Rightarrow> byte list \<Rightarrow> 'h hash_ctx \<Rightarrow> bool" where
  "hash_inv bdo h0 msg c \<longleftrightarrow> hash_state bdo h0 msg c \<and>
     Nl c = of_nat (8 * length msg) \<and> Nh c = of_nat (8 * length msg div 2 ^ 32)"

text \<open>The padding of FIPS 180: a one bit, zeros to 56 bytes of a block, the length in bits.\<close>

definition md_pad :: "byte list \<Rightarrow> byte list" where
  "md_pad msg = msg @ [0x80] @ replicate ((119 - length msg mod 64) mod 64) 0
     @ HOST_l2c (of_nat (8 * length msg div 2 ^ 32)) @ HOST_l2c (of_nat (8 * length msg))"

section \<open>The bit counter\<close>

lemma u32_carry: "x + y < x \<longleftrightarrow> 2 ^ 32 \<le> unat x + unat y" for x y :: u32
proof -
  have b: "unat x < 2 ^ 32" "unat y < 2 ^ 32" using unsigned_less [of x] unsigned_less [of y] by simp_all
  have "unat (x + y) = (unat x + unat y) mod 2 ^ 32" by (simp add: unat_word_ariths)
  with b show ?thesis
    by (cases "unat x + unat y < 2 ^ 32") (auto simp: word_less_nat_alt le_mod_geq mod_if)
qed

lemma carry_div:
  "(a + b) div n = a div n + b div n + (if n \<le> a mod n + b mod n then 1 else 0)"
  if "0 < n" for a b n :: nat
proof -
  have "a mod n + b mod n < 2 * n" using that mod_less_divisor [of n a] mod_less_divisor [of n b] by linarith
  then show ?thesis using div_add1_eq [of a b n]
    by (cases "n \<le> a mod n + b mod n") (auto simp: div_if [of n] that le_div_geq)
qed

lemma add_below:
  fixes b m n :: nat
  assumes "n + m mod b < b"
  shows "(m + n) div b = m div b" "(m + n) mod b = m mod b + n"
proof -
  have "n < b" using assms by simp
  with assms show "(m + n) div b = m div b" by (subst carry_div) auto
  have "(m + n) mod b = (m mod b + n) mod b" by (simp add: mod_simps)
  with assms show "(m + n) mod b = m mod b + n" by simp
qed

lemma fill_up: "b * q + k = m \<Longrightarrow> k < b \<Longrightarrow> m + (b - k) = b * (q + 1)" for b q k m :: nat
  by (auto simp: distrib_left)

lemma push_bit_3_u32: "push_bit 3 (of_nat n) = (of_nat (8 * n) :: u32)"
  by (simp add: push_bit_eq_mult)

lemma count_bits_ok:
  assumes "Nl c = of_nat (8 * m)" "Nh c = of_nat (8 * m div 2 ^ 32)"
  shows "Nl (count_bits len c) = of_nat (8 * (m + len))"
    and "Nh (count_bits len c) = of_nat (8 * (m + len) div 2 ^ 32)"
proof -
  show "Nl (count_bits len c) = of_nat (8 * (m + len))"
    by (simp add: count_bits_def Let_def assms push_bit_3_u32)
  let ?x = "of_nat (8 * m) :: u32" and ?y = "of_nat (8 * len) :: u32"
  have u: "unat ?x = 8 * m mod 2 ^ 32" "unat ?y = 8 * len mod 2 ^ 32" by (simp_all only: unat_of_nat) simp_all
  have "8 * (m + len) div 2 ^ 32 = 8 * m div 2 ^ 32 + 8 * len div 2 ^ 32
      + (if ?x + ?y < ?x then 1 else 0)"
    unfolding u32_carry u using carry_div [of "2 ^ 32" "8 * m" "8 * len"] by (simp add: distrib_left)
  moreover have "8 * len div 2 ^ 32 = drop_bit 29 len"
    by (simp add: drop_bit_eq_div)
  ultimately show "Nh (count_bits len c) = of_nat (8 * (m + len) div 2 ^ 32)"
    by (simp add: count_bits_def Let_def assms push_bit_3_u32 del: of_nat_mult)
qed

lemma count_bits_fields [simp]:
  "ctx_h (count_bits len c) = ctx_h c" "ctx_data (count_bits len c) = ctx_data c"
  "ctx_num (count_bits len c) = ctx_num c" "md_len (count_bits len c) = md_len c"
  by (simp_all add: count_bits_def Let_def)

lemma hash_keep_ok:
  assumes "ctx_data c = replicate 64 0" "ctx_num c = 0" "length r < 64"
  shows "\<exists>c'. hash_keep c r = Some c' \<and> ctx_h c' = ctx_h c \<and> ctx_num c' = length r \<and>
    ctx_data c' = r @ replicate (64 - length r) 0 \<and> Nl c' = Nl c \<and> Nh c' = Nh c \<and> md_len c' = md_len c"
  using assms by (cases "r = []") (auto simp: hash_keep_def mem_write_def)

section \<open>Update and Final\<close>

context block_function begin

lemma blocks_append:
  "64 * m \<le> length xs \<Longrightarrow> length xs = 64 * m \<Longrightarrow>
   bdo h (xs @ ys) (m + n) = Option.bind (bdo h xs m) (\<lambda>h'. bdo h' ys n)"
  by (simp add: bdo_split bdo_prefix)

text \<open>Feeding whole blocks and keeping the rest, once the buffer is empty.\<close>

lemma keep_blocks:
  assumes inv: "bdo h0 done (length done div 64) = Some (ctx_h c)" "length done mod 64 = 0"
    "ctx_data c = replicate 64 0" "ctx_num c = 0"
  shows "\<exists>c'. Option.bind (hash_blocks bdo c data) (\<lambda>(c, rest). hash_keep c rest) = Some c' \<and>
    hash_state bdo h0 (done @ data) c' \<and> Nl c' = Nl c \<and> Nh c' = Nh c \<and> md_len c' = md_len c"
proof -
  let ?n = "length data div 64" and ?rest = "drop (length data div 64 * 64) data"
  have len: "length done = 64 * (length done div 64)"
    using mult_div_mod_eq [of 64 "length done"] inv(2) by simp
  have le: "64 * ?n \<le> length data" by simp
  obtain h' where h': "bdo (ctx_h c) data ?n = Some h'" using bdo_total [OF le] by blast
  have blocks: "hash_blocks bdo c data = Some (c\<lparr>ctx_h := h'\<rparr>, ?rest)"
    using h' bdo_0 [of "ctx_h c" data] by (auto simp: hash_blocks_def HASH_CBLOCK_def Let_def)
  have rl: "length ?rest = length data mod 64" by (simp add: minus_div_mult_eq_mod)
  have div: "length (done @ data) div 64 = length done div 64 + ?n"
    and mod: "length (done @ data) mod 64 = length data mod 64"
    using inv(2) by (simp_all add: div_add1_eq mod_add_eq [symmetric] add.commute)
  have bdo: "bdo h0 (done @ data) (length done div 64 + ?n) = Some h'"
    using blocks_append [OF _ len, of h0 data ?n] inv(1) h' len by simp
  have "64 * (length done div 64 + ?n) = length done + ?n * 64" using len by simp
  then have dr: "drop (64 * (length done div 64 + ?n)) (done @ data) = ?rest" by (simp add: mult.commute)
  obtain c' where c': "hash_keep (c\<lparr>ctx_h := h'\<rparr>) ?rest = Some c'" "ctx_h c' = h'"
    "ctx_num c' = length data mod 64" "ctx_data c' = ?rest @ replicate (64 - length data mod 64) 0"
    "Nl c' = Nl c" "Nh c' = Nh c" "md_len c' = md_len c"
    using hash_keep_ok [of "c\<lparr>ctx_h := h'\<rparr>" ?rest] inv(3,4) unfolding rl by auto
  have "hash_state bdo h0 (done @ data) c'" unfolding hash_state_def div mod dr using bdo c' by simp
  with c' blocks show ?thesis by simp
qed

text \<open>The three cases of an update: an empty buffer, one that stays partial, one that fills up.\<close>

lemma update_empty:
  assumes "hash_state bdo h0 msg c" "length msg mod 64 = 0" "data \<noteq> []"
  shows "\<exists>c'. HASH_UPDATE bdo c data = Some c' \<and> hash_state bdo h0 (msg @ data) c' \<and>
    Nl c' = Nl (count_bits (length data) c) \<and> Nh c' = Nh (count_bits (length data) c) \<and> md_len c' = md_len c"
proof -
  have h: "bdo h0 msg (length msg div 64) = Some (ctx_h c)" "ctx_num c = 0" "ctx_data c = replicate 64 0"
    using assms by (simp_all add: hash_state_def minus_mult_div_eq_mod [symmetric])
  with keep_blocks [of h0 msg "count_bits (length data) c" data] assms(2,3) show ?thesis
    by (simp add: HASH_UPDATE_def Let_def)
qed

lemma update_partial:
  assumes "hash_state bdo h0 msg c" "length msg mod 64 \<noteq> 0" "data \<noteq> []" "length data + length msg mod 64 < 64"
  shows "\<exists>c'. HASH_UPDATE bdo c data = Some c' \<and> hash_state bdo h0 (msg @ data) c' \<and>
    Nl c' = Nl (count_bits (length data) c) \<and> Nh c' = Nh (count_bits (length data) c) \<and> md_len c' = md_len c"
proof -
  let ?c = "count_bits (length data) c" and ?k = "length msg mod 64"
  let ?tail = "drop (64 * (length msg div 64)) msg"
  have h0: "bdo h0 msg (length msg div 64) = Some (ctx_h c)" "ctx_num c = ?k"
    "ctx_data c = ?tail @ replicate (64 - ?k) 0" using assms(1) by (simp_all add: hash_state_def)
  have tl: "length ?tail = ?k" by (simp add: minus_mult_div_eq_mod)
  have div: "length (msg @ data) div 64 = length msg div 64" and mod: "length (msg @ data) mod 64 = ?k + length data"
    using add_below [OF assms(4)] by simp_all
  have bdo: "bdo h0 (msg @ data) (length msg div 64) = Some (ctx_h c)"
    using bdo_prefix [of "length msg div 64" msg h0 data] h0(1) by simp
  have dr: "drop (64 * (length msg div 64)) (msg @ data) = ?tail @ data" by simp
  have p: "mem_write (ctx_data c) ?k data = Some (?tail @ data @ replicate (64 - (?k + length data)) 0)"
    unfolding h0(3) using assms(4) tl by (simp add: mem_write_def)
  have "hash_state bdo h0 (msg @ data) (?c\<lparr>ctx_data := ?tail @ data
      @ replicate (64 - (?k + length data)) 0, ctx_num := ?k + length data\<rparr>)"
    unfolding hash_state_def div mod dr using bdo by simp
  with assms h0(2) p show ?thesis by (simp add: HASH_UPDATE_def HASH_CBLOCK_def Let_def)
qed

lemma update_full:
  assumes "hash_state bdo h0 msg c" "length msg mod 64 \<noteq> 0" "64 \<le> length data + length msg mod 64"
  shows "\<exists>c'. HASH_UPDATE bdo c data = Some c' \<and> hash_state bdo h0 (msg @ data) c' \<and>
    Nl c' = Nl (count_bits (length data) c) \<and> Nh c' = Nh (count_bits (length data) c) \<and> md_len c' = md_len c"
proof -
  let ?c = "count_bits (length data) c" and ?k = "length msg mod 64"
  let ?head = "take (64 * (length msg div 64)) msg" and ?tail = "drop (64 * (length msg div 64)) msg"
  let ?first = "take (64 - ?k) data" and ?rest = "drop (64 - ?k) data"
  let ?p = "?tail @ ?first" and ?done = "msg @ ?first"
  have h0: "bdo h0 msg (length msg div 64) = Some (ctx_h c)" "ctx_num c = ?k"
    "ctx_data c = ?tail @ replicate (64 - ?k) 0" using assms(1) by (simp_all add: hash_state_def)
  have ne: "data \<noteq> []" using assms(3) mod_less_divisor [of 64 "length msg"] by auto
  have tl: "length ?tail = ?k" by (simp add: minus_mult_div_eq_mod)
  have hl: "length ?head = 64 * (length msg div 64)" by simp
  have h0': "bdo h0 ?head (length msg div 64) = Some (ctx_h c)"
    using h0(1) bdo_prefix [of "length msg div 64" ?head h0 ?tail] hl by simp
  have pl: "length ?p = 64" using assms(3) tl by simp
  have p: "mem_write (ctx_data c) ?k ?first = Some ?p"
    unfolding h0(3) using assms(3) tl by (simp add: mem_write_def)
  obtain h1 where h1: "bdo (ctx_h c) ?p 1 = Some h1" using bdo_total [of 1 ?p] pl by auto
  have dl: "length ?done = 64 * (length msg div 64 + 1)"
  proof -
    have "length ?done = length msg + (64 - ?k)" using assms(3) by simp
    then show ?thesis using fill_up [OF mult_div_mod_eq, of "length msg" 64] by simp
  qed
  have "bdo h0 (?head @ ?p) (length msg div 64 + 1) = Some h1"
    using blocks_append [OF _ hl, of h0 ?p 1] hl h0' h1 by simp
  moreover have "?head @ ?p = ?done" by (simp add: append_assoc [symmetric] del: append_assoc)
  ultimately have hd: "bdo h0 ?done (length ?done div 64) = Some h1" unfolding dl by simp
  have dm: "length ?done mod 64 = 0" unfolding dl by simp
  let ?c1 = "?c\<lparr>ctx_h := h1, ctx_num := 0, ctx_data := replicate 64 0\<rparr>"
  have "?done @ ?rest = msg @ data" by simp
  then have "\<exists>c'. Option.bind (hash_blocks bdo ?c1 ?rest) (\<lambda>(c, rest). hash_keep c rest) = Some c' \<and>
      hash_state bdo h0 (msg @ data) c' \<and> Nl c' = Nl ?c \<and> Nh c' = Nh ?c \<and> md_len c' = md_len c"
    using keep_blocks [of h0 ?done ?c1 ?rest, OF _ dm] hd by simp
  moreover have "HASH_UPDATE bdo c data
      = Option.bind (hash_blocks bdo ?c1 ?rest) (\<lambda>(c, rest). hash_keep c rest)"
    using ne assms(2,3) h0(2) p h1
    by (simp add: HASH_UPDATE_def HASH_CBLOCK_def Let_def add.commute)
  ultimately show ?thesis by simp
qed

lemma update_ok:
  assumes inv: "hash_inv bdo h0 msg c"
  shows "\<exists>c'. HASH_UPDATE bdo c data = Some c' \<and> hash_inv bdo h0 (msg @ data) c' \<and> md_len c' = md_len c"
proof (cases "data = []")
  case False
  have st: "hash_state bdo h0 msg c" and cnt0: "Nl c = of_nat (8 * length msg)"
    "Nh c = of_nat (8 * length msg div 2 ^ 32)" using inv unfolding hash_inv_def by blast+
  have cnt: "Nl (count_bits (length data) c) = of_nat (8 * length (msg @ data))"
    "Nh (count_bits (length data) c) = of_nat (8 * length (msg @ data) div 2 ^ 32)"
    using count_bits_ok [OF cnt0, of "length data"] by (simp_all only: length_append)
  have "\<exists>c'. HASH_UPDATE bdo c data = Some c' \<and> hash_state bdo h0 (msg @ data) c' \<and>
      Nl c' = Nl (count_bits (length data) c) \<and> Nh c' = Nh (count_bits (length data) c) \<and>
      md_len c' = md_len c"
    using update_empty [OF st _ False] update_partial [OF st _ False] update_full [OF st, of data]
    by (meson not_less)
  then show ?thesis unfolding hash_inv_def cnt by blast
qed (use inv in \<open>simp add: HASH_UPDATE_def\<close>)

end
lemma mem_write_at: "n = length a \<Longrightarrow> length xs \<le> length b
    \<Longrightarrow> mem_write (a @ b) n xs = Some (a @ xs @ drop (length xs) b)"
  by (simp add: mem_write_def)

lemma pad_zeros:
  assumes "length t = k" "k \<le> 55"
  shows "mem_write (t @ [x] @ replicate (63 - k) 0) (k + 1) (replicate (55 - k) 0)
    = Some (t @ [x] @ replicate (55 - k) 0 @ replicate 8 0)"
  using mem_write_at [of "k + 1" "t @ [x]" "replicate (55 - k) 0" "replicate (63 - k) 0"] assms by simp

lemma pad_zeros_full:
  assumes "length t = k"
  shows "mem_write (t @ [x] @ replicate (63 - k) 0) (k + 1) (replicate (63 - k) 0)
    = Some (t @ [x] @ replicate (63 - k) 0)"
  using mem_write_at [of "k + 1" "t @ [x]" "replicate (63 - k) 0" "replicate (63 - k) 0"] assms by simp

lemma HOST_l2c_length [simp]: "length (HOST_l2c l) = 4"
  by (simp add: HOST_l2c_def)

context block_function begin

text \<open>Both ways \<open>HASH_FINAL\<close> lays out the padding.\<close>

lemma final_one_block:
  assumes "hash_inv bdo h0 msg c" "length msg mod 64 \<le> 55"
  shows "\<exists>h. HASH_FINAL bdo ms c = Some (c\<lparr>ctx_h := h, ctx_num := 0, ctx_data := replicate 64 0\<rparr>,
      ms (c\<lparr>ctx_h := h, ctx_num := 0, ctx_data := replicate 64 0\<rparr>)) \<and>
    bdo h0 (md_pad msg) (length (md_pad msg) div 64) = Some h"
proof -
  let ?k = "length msg mod 64"
  let ?head = "take (64 * (length msg div 64)) msg" and ?tail = "drop (64 * (length msg div 64)) msg"
  let ?p = "?tail @ [0x80] @ replicate (55 - ?k) 0 @ HOST_l2c (Nh c) @ HOST_l2c (Nl c)"
  have st: "hash_state bdo h0 msg c" and cnt: "Nl c = of_nat (8 * length msg)"
    "Nh c = of_nat (8 * length msg div 2 ^ 32)" using assms(1) unfolding hash_inv_def by blast+
  have h0: "bdo h0 msg (length msg div 64) = Some (ctx_h c)" "ctx_num c = ?k"
    "ctx_data c = ?tail @ replicate (64 - ?k) 0" using st by (simp_all add: hash_state_def)
  have tl: "length ?tail = ?k" by (simp add: minus_mult_div_eq_mod)
  have hl: "length ?head = 64 * (length msg div 64)" by simp
  have pl: "length ?p = 64" using assms(2) tl by simp
  have h0': "bdo h0 ?head (length msg div 64) = Some (ctx_h c)"
    using h0(1) bdo_prefix [of "length msg div 64" ?head h0 ?tail] hl by simp
  obtain h where h: "bdo (ctx_h c) ?p 1 = Some h" using bdo_total [of 1 ?p] pl by auto
  have "(119 - ?k) mod 64 = (55 - ?k + 64) mod 64" using assms(2) by simp
  also have "\<dots> = 55 - ?k" by simp
  finally have "md_pad msg = (?head @ ?tail) @ [0x80] @ replicate (55 - ?k) 0 @ HOST_l2c (Nh c) @ HOST_l2c (Nl c)"
    unfolding md_pad_def cnt by simp
  then have pad: "md_pad msg = ?head @ ?p" by simp
  have len: "length (md_pad msg) div 64 = length msg div 64 + 1" unfolding pad length_append hl
    using pl by simp
  have "bdo h0 (md_pad msg) (length (md_pad msg) div 64) = Some h"
    unfolding len unfolding pad using blocks_append [OF _ hl, of h0 ?p 1] hl h0' h by simp
  moreover have w1: "mem_write (ctx_data c) ?k [0x80] = Some (?tail @ [0x80] @ replicate (63 - ?k) 0)"
    unfolding h0(3) using tl assms(2) by (subst mem_write_at) auto
  moreover have w2: "mem_write (?tail @ [0x80] @ replicate (63 - ?k) 0) (?k + 1) (replicate (55 - ?k) 0)
      = Some (?tail @ [0x80] @ replicate (55 - ?k) 0 @ replicate 8 0)"
    using tl assms(2) by (rule pad_zeros)
  moreover have w3: "mem_write (?tail @ [0x80] @ replicate (55 - ?k) 0 @ replicate 8 0) 56 (HOST_l2c (Nh c))
      = Some (?tail @ [0x80] @ replicate (55 - ?k) 0 @ HOST_l2c (Nh c) @ replicate 4 0)"
    using mem_write_at [of 56 "?tail @ [0x80] @ replicate (55 - ?k) 0" "HOST_l2c (Nh c)" "replicate 8 0"]
      tl assms(2) by simp
  moreover have w4: "mem_write (?tail @ [0x80] @ replicate (55 - ?k) 0 @ HOST_l2c (Nh c) @ replicate 4 0)
      60 (HOST_l2c (Nl c)) = Some ?p"
    using mem_write_at [of 60 "?tail @ [0x80] @ replicate (55 - ?k) 0 @ HOST_l2c (Nh c)"
        "HOST_l2c (Nl c)" "replicate 4 0"] tl assms(2) by simp
  ultimately show ?thesis
    using assms(2) h h0(2) by (simp add: HASH_FINAL_def HASH_CBLOCK_def Let_def)
qed

lemma final_two_blocks:
  assumes "hash_inv bdo h0 msg c" "55 < length msg mod 64"
  shows "\<exists>h. HASH_FINAL bdo ms c = Some (c\<lparr>ctx_h := h, ctx_num := 0, ctx_data := replicate 64 0\<rparr>,
      ms (c\<lparr>ctx_h := h, ctx_num := 0, ctx_data := replicate 64 0\<rparr>)) \<and>
    bdo h0 (md_pad msg) (length (md_pad msg) div 64) = Some h"
proof -
  let ?k = "length msg mod 64"
  let ?head = "take (64 * (length msg div 64)) msg" and ?tail = "drop (64 * (length msg div 64)) msg"
  let ?p = "?tail @ [0x80] @ replicate (63 - ?k) 0"
  let ?q = "replicate 56 0 @ HOST_l2c (Nh c) @ HOST_l2c (Nl c)"
  have k: "?k < 64" by simp
  have st: "hash_state bdo h0 msg c" and cnt: "Nl c = of_nat (8 * length msg)"
    "Nh c = of_nat (8 * length msg div 2 ^ 32)" using assms(1) unfolding hash_inv_def by blast+
  have h0: "bdo h0 msg (length msg div 64) = Some (ctx_h c)" "ctx_num c = ?k"
    "ctx_data c = ?tail @ replicate (64 - ?k) 0" using st by (simp_all add: hash_state_def)
  have tl: "length ?tail = ?k" by (simp add: minus_mult_div_eq_mod)
  have hl: "length ?head = 64 * (length msg div 64)" by simp
  have pl: "length ?p = 64" using k tl by simp
  have hpl: "length (?head @ ?p) = 64 * (length msg div 64 + 1)" unfolding length_append [of ?head] pl hl by simp
  have h0': "bdo h0 ?head (length msg div 64) = Some (ctx_h c)"
    using h0(1) bdo_prefix [of "length msg div 64" ?head h0 ?tail] hl by simp
  obtain h1 where h1: "bdo (ctx_h c) ?p 1 = Some h1" using bdo_total [of 1 ?p] pl by auto
  obtain h where h: "bdo h1 ?q 1 = Some h" using bdo_total [of 1 ?q] by auto
  have z: "(119 - ?k) mod 64 = (63 - ?k) + 56" using assms(2) k by simp
  have "md_pad msg = (?head @ ?tail) @ [0x80] @ replicate (63 - ?k) 0 @ ?q"
    unfolding md_pad_def cnt z replicate_add by simp
  then have pad: "md_pad msg = (?head @ ?p) @ ?q" by simp
  have len: "length (md_pad msg) div 64 = length msg div 64 + 1 + 1"
    unfolding pad length_append [of "?head @ ?p"] hpl by simp
  have "bdo h0 (?head @ ?p) (length msg div 64 + 1) = Some h1"
    using blocks_append [OF _ hl, of h0 ?p 1] hl h0' h1 by simp
  then have "bdo h0 (md_pad msg) (length (md_pad msg) div 64) = Some h"
    unfolding len unfolding pad using blocks_append [OF _ hpl, of h0 ?q 1] hpl h by simp
  moreover have w1: "mem_write (ctx_data c) ?k [0x80] = Some (?tail @ [0x80] @ replicate (63 - ?k) 0)"
    unfolding h0(3) using tl k by (subst mem_write_at) auto
  moreover have w2: "mem_write ?p (?k + 1) (replicate (63 - ?k) 0) = Some ?p"
    using tl by (rule pad_zeros_full)
  moreover have w3: "mem_write ?p 0 (replicate 56 0) = Some (replicate 56 0 @ drop 56 ?p)"
    using mem_write_at [of 0 "[]" "replicate 56 0" ?p] pl by simp
  moreover have w4: "mem_write (replicate 56 0 @ drop 56 ?p) 56 (HOST_l2c (Nh c))
      = Some (replicate 56 0 @ HOST_l2c (Nh c) @ drop 60 ?p)"
    using mem_write_at [of 56 "replicate 56 0" "HOST_l2c (Nh c)" "drop 56 ?p"] pl
    by (simp del: drop_append)
  moreover have w5: "mem_write (replicate 56 0 @ HOST_l2c (Nh c) @ drop 60 ?p) 60 (HOST_l2c (Nl c)) = Some ?q"
    using mem_write_at [of 60 "replicate 56 0 @ HOST_l2c (Nh c)" "HOST_l2c (Nl c)" "drop 60 ?p"] pl
    by (simp del: drop_append)
  ultimately show ?thesis
    using assms(2) h h1 h0(2)
    by (simp add: HASH_FINAL_def HASH_CBLOCK_def Let_def del: drop_append append_assoc)
qed

lemma final_ok:
  assumes "hash_inv bdo h0 msg c"
  shows "\<exists>h. HASH_FINAL bdo ms c = Some (c\<lparr>ctx_h := h, ctx_num := 0, ctx_data := replicate 64 0\<rparr>,
      ms (c\<lparr>ctx_h := h, ctx_num := 0, ctx_data := replicate 64 0\<rparr>)) \<and>
    bdo h0 (md_pad msg) (length (md_pad msg) div 64) = Some h"
  using final_one_block [OF assms] final_two_blocks [OF assms] by (meson not_le)

lemma updates_ok:
  assumes "hash_inv bdo h0 msg c"
  shows "\<exists>c'. foldl (\<lambda>r xs. Option.bind r (\<lambda>c. HASH_UPDATE bdo c xs)) (Some c) chunks = Some c' \<and>
    hash_inv bdo h0 (msg @ concat chunks) c' \<and> md_len c' = md_len c"
  using assms
proof (induction chunks arbitrary: msg c)
  case (Cons xs chunks)
  obtain c1 where c1: "HASH_UPDATE bdo c xs = Some c1" "hash_inv bdo h0 (msg @ xs) c1" "md_len c1 = md_len c"
    using update_ok [OF Cons.prems] by blast
  from Cons.IH [OF c1(2)] c1(1,3) show ?case by simp
qed simp

end

end
