(* ===== verification/Sha256.thy ===== *)
theory Sha256
  imports Md32
begin

text \<open>
  intercom/crypto/sha256.c over md32_common.h: the block function in its two compiled forms (the
  small-footprint loop and the unrolled one, whose macros take the eight registers in rotated
  order), the FIPS 180-2 compression it must compute, and the SHA-224 and SHA-256 entry points.
\<close>

section \<open>Constants and round functions\<close>

definition SHA224_DIGEST_LENGTH :: nat where "SHA224_DIGEST_LENGTH = 28"
definition SHA256_DIGEST_LENGTH :: nat where "SHA256_DIGEST_LENGTH = 32"

definition K256 :: "u32 list" where
  "K256 =
     [0x428a2f98, 0x71374491, 0xb5c0fbcf, 0xe9b5dba5]
   @ [0x3956c25b, 0x59f111f1, 0x923f82a4, 0xab1c5ed5]
   @ [0xd807aa98, 0x12835b01, 0x243185be, 0x550c7dc3]
   @ [0x72be5d74, 0x80deb1fe, 0x9bdc06a7, 0xc19bf174]
   @ [0xe49b69c1, 0xefbe4786, 0x0fc19dc6, 0x240ca1cc]
   @ [0x2de92c6f, 0x4a7484aa, 0x5cb0a9dc, 0x76f988da]
   @ [0x983e5152, 0xa831c66d, 0xb00327c8, 0xbf597fc7]
   @ [0xc6e00bf3, 0xd5a79147, 0x06ca6351, 0x14292967]
   @ [0x27b70a85, 0x2e1b2138, 0x4d2c6dfc, 0x53380d13]
   @ [0x650a7354, 0x766a0abb, 0x81c2c92e, 0x92722c85]
   @ [0xa2bfe8a1, 0xa81a664b, 0xc24b8b70, 0xc76c51a3]
   @ [0xd192e819, 0xd6990624, 0xf40e3585, 0x106aa070]
   @ [0x19a4c116, 0x1e376c08, 0x2748774c, 0x34b0bcb5]
   @ [0x391c0cb3, 0x4ed8aa4a, 0x5b9cca4f, 0x682e6ff3]
   @ [0x748f82ee, 0x78a5636f, 0x84c87814, 0x8cc70208]
   @ [0x90befffa, 0xa4506ceb, 0xbef9a3f7, 0xc67178f2]"

definition Sigma0 :: "u32 \<Rightarrow> u32" where
  "Sigma0 x = ROTATE x 30 XOR ROTATE x 19 XOR ROTATE x 10"
definition Sigma1 :: "u32 \<Rightarrow> u32" where
  "Sigma1 x = ROTATE x 26 XOR ROTATE x 21 XOR ROTATE x 7"
definition sigma0 :: "u32 \<Rightarrow> u32" where
  "sigma0 x = ROTATE x 25 XOR ROTATE x 14 XOR drop_bit 3 x"
definition sigma1 :: "u32 \<Rightarrow> u32" where
  "sigma1 x = ROTATE x 15 XOR ROTATE x 13 XOR drop_bit 10 x"
definition Ch :: "u32 \<Rightarrow> u32 \<Rightarrow> u32 \<Rightarrow> u32" where
  "Ch x y z = (x AND y) XOR (NOT x AND z)"
definition Maj :: "u32 \<Rightarrow> u32 \<Rightarrow> u32 \<Rightarrow> u32" where
  "Maj x y z = (x AND y) XOR (x AND z) XOR (y AND z)"

section \<open>The small-footprint block function\<close>

text \<open>The registers a to h are a list of eight words.\<close>

definition small_round :: "u32 \<Rightarrow> u32 \<Rightarrow> u32 list \<Rightarrow> u32 list" where
  "small_round k t v =
     (let T1 = t + (v ! 7 + Sigma1 (v ! 4) + Ch (v ! 4) (v ! 5) (v ! 6) + k);
          T2 = Sigma0 (v ! 0) + Maj (v ! 0) (v ! 1) (v ! 2)
      in [T1 + T2, v ! 0, v ! 1, v ! 2, v ! 3 + T1, v ! 4, v ! 5, v ! 6])"

text \<open>The first loop, rounds \<open>i\<close> to 15; it fills \<open>X\<close>.\<close>

fun small_load :: "nat \<Rightarrow> nat \<Rightarrow> byte list \<Rightarrow> nat \<Rightarrow> u32 list \<Rightarrow> u32 list \<Rightarrow> (u32 list \<times> u32 list) option" where
  "small_load 0 i data off X v = Some (X, v)"
| "small_load (Suc n) i data off X v =
     do {
       l \<leftarrow> HOST_c2l data off;
       small_load n (Suc i) data (off + 4) (X[i := l]) (small_round (K256 ! i) l v)
     }"

text \<open>The update of the circular schedule in round \<open>i\<close>.\<close>

definition schedule_step :: "nat \<Rightarrow> u32 list \<Rightarrow> u32 list" where
  "schedule_step i X =
     (let s0 = sigma0 (X ! ((i + 1) mod 16));
          s1 = sigma1 (X ! ((i + 14) mod 16))
      in X[i mod 16 := X ! (i mod 16) + (s0 + s1 + X ! ((i + 9) mod 16))])"

fun small_rounds :: "nat \<Rightarrow> nat \<Rightarrow> u32 list \<Rightarrow> u32 list \<Rightarrow> u32 list" where
  "small_rounds 0 i X v = v"
| "small_rounds (Suc n) i X v =
     (let X = schedule_step i X
      in small_rounds n (Suc i) X (small_round (K256 ! i) (X ! (i mod 16)) v))"

definition small_block :: "u32 list \<Rightarrow> byte list \<Rightarrow> nat \<Rightarrow> u32 list option" where
  "small_block h data off =
     do {
       (X, v) \<leftarrow> small_load 16 0 data off (replicate 16 0) h;
       Some (map2 (+) h (small_rounds 48 16 X v))
     }"

text \<open>The loop \<open>while (num--)\<close> over the blocks.\<close>

fun block_loop :: "(u32 list \<Rightarrow> byte list \<Rightarrow> nat \<Rightarrow> u32 list option)
    \<Rightarrow> nat \<Rightarrow> u32 list \<Rightarrow> byte list \<Rightarrow> nat \<Rightarrow> u32 list option" where
  "block_loop blk 0 h data off = Some h"
| "block_loop blk (Suc n) h data off =
     do { h \<leftarrow> blk h data off; block_loop blk n h data (off + 64) }"

definition sha256_block_small :: "u32 list block_fn" where
  "sha256_block_small h data num = block_loop small_block num h data 0"

section \<open>The unrolled block function\<close>

text \<open>
  \<open>ROUND_00_15(i,...)\<close> is called with the registers' names rotated by the position of the call:
  in call \<open>k\<close> the macro's parameter \<open>j\<close> is the variable \<open>(j - k) mod 8\<close>. It only writes \<open>d\<close>
  and \<open>h\<close>.
\<close>

definition reg :: "nat \<Rightarrow> nat \<Rightarrow> nat" where
  "reg k j = (j + (8 - k mod 8)) mod 8"

definition ROUND_00_15 :: "nat \<Rightarrow> nat \<Rightarrow> u32 \<Rightarrow> u32 list \<Rightarrow> u32 list" where
  "ROUND_00_15 i k T1 v =
     (let p = reg k;
          T1 = T1 + (v ! p 7 + Sigma1 (v ! p 4) + Ch (v ! p 4) (v ! p 5) (v ! p 6) + K256 ! i);
          hh = Sigma0 (v ! p 0) + Maj (v ! p 0) (v ! p 1) (v ! p 2);
          v = v[p 3 := v ! p 3 + T1]
      in v[p 7 := hh + T1])"

definition ROUND_16_63 :: "nat \<Rightarrow> nat \<Rightarrow> u32 list \<times> u32 list \<Rightarrow> u32 list \<times> u32 list" where
  "ROUND_16_63 i k Xv =
     (case Xv of (X, v) \<Rightarrow>
       let X = schedule_step i X in (X, ROUND_00_15 i k (X ! (i mod 16)) v))"

text \<open>The sixteen loading calls, \<open>k = 0..15\<close>.\<close>

fun unrolled_load :: "nat \<Rightarrow> nat \<Rightarrow> byte list \<Rightarrow> nat \<Rightarrow> u32 list \<Rightarrow> u32 list \<Rightarrow> (u32 list \<times> u32 list) option" where
  "unrolled_load 0 k data off X v = Some (X, v)"
| "unrolled_load (Suc n) k data off X v =
     do {
       l \<leftarrow> HOST_c2l data off;
       unrolled_load n (Suc k) data (off + 4) (X[k := l]) (ROUND_00_15 k k l v)
     }"

text \<open>One iteration of the loop with step 8, then the loop.\<close>

definition unrolled_eight :: "nat \<Rightarrow> u32 list \<times> u32 list \<Rightarrow> u32 list \<times> u32 list" where
  "unrolled_eight i Xv =
     ROUND_16_63 (i + 7) 7 (ROUND_16_63 (i + 6) 6 (ROUND_16_63 (i + 5) 5 (ROUND_16_63 (i + 4) 4
     (ROUND_16_63 (i + 3) 3 (ROUND_16_63 (i + 2) 2 (ROUND_16_63 (i + 1) 1 (ROUND_16_63 (i + 0) 0 Xv)))))))"

fun unrolled_rounds :: "nat \<Rightarrow> nat \<Rightarrow> u32 list \<times> u32 list \<Rightarrow> u32 list \<times> u32 list" where
  "unrolled_rounds 0 i Xv = Xv"
| "unrolled_rounds (Suc n) i Xv = unrolled_rounds n (i + 8) (unrolled_eight i Xv)"

definition unrolled_block :: "u32 list \<Rightarrow> byte list \<Rightarrow> nat \<Rightarrow> u32 list option" where
  "unrolled_block h data off =
     do {
       Xv \<leftarrow> unrolled_load 16 0 data off (replicate 16 0) h;
       Some (map2 (+) h (snd (unrolled_rounds 6 16 Xv)))
     }"

definition sha256_block_data_order :: "u32 list block_fn" where
  "sha256_block_data_order h data num = block_loop unrolled_block num h data 0"

section \<open>Entry points\<close>

definition SHA224_Init :: "u32 list hash_ctx" where
  "SHA224_Init = \<lparr>ctx_h = [0xc1059ed8, 0x367cd507, 0x3070dd17, 0xf70e5939,
      0xffc00b31, 0x68581511, 0x64f98fa7, 0xbefa4fa4], Nl = 0, Nh = 0,
     ctx_data = replicate 64 0, ctx_num = 0, md_len = SHA224_DIGEST_LENGTH\<rparr>"

definition SHA256_Init :: "u32 list hash_ctx" where
  "SHA256_Init = \<lparr>ctx_h = [0x6a09e667, 0xbb67ae85, 0x3c6ef372, 0xa54ff53a,
      0x510e527f, 0x9b05688c, 0x1f83d9ab, 0x5be0cd19], Nl = 0, Nh = 0,
     ctx_data = replicate 64 0, ctx_num = 0, md_len = SHA256_DIGEST_LENGTH\<rparr>"

text \<open>\<open>HASH_MAKE_STRING\<close>: the first \<open>md_len / 4\<close> words; a longer \<open>md_len\<close> is refused.\<close>

definition make_string :: "u32 list hash_ctx \<Rightarrow> byte list option" where
  "make_string c =
     (if md_len c > SHA256_DIGEST_LENGTH then None
      else Some (concat (map (\<lambda>nn. HOST_l2c (ctx_h c ! nn)) [0..<md_len c div 4])))"

definition SHA256_Update :: "u32 list hash_ctx \<Rightarrow> byte list \<Rightarrow> u32 list hash_ctx option" where
  "SHA256_Update = HASH_UPDATE sha256_block_data_order"

definition SHA256_Transform :: "u32 list hash_ctx \<Rightarrow> byte list \<Rightarrow> u32 list hash_ctx option" where
  "SHA256_Transform = HASH_TRANSFORM sha256_block_data_order"

definition SHA256_Final :: "u32 list hash_ctx \<Rightarrow> (u32 list hash_ctx \<times> byte list option) option" where
  "SHA256_Final = HASH_FINAL sha256_block_data_order make_string"

definition SHA224 :: "byte list \<Rightarrow> byte list option" where
  "SHA224 d = do { c \<leftarrow> SHA256_Update SHA224_Init d; (c, md) \<leftarrow> SHA256_Final c; md }"

definition SHA256 :: "byte list \<Rightarrow> byte list option" where
  "SHA256 d = do { c \<leftarrow> SHA256_Update SHA256_Init d; (c, md) \<leftarrow> SHA256_Final c; md }"

section \<open>Loading a block\<close>

lemma mem_get_drop: "mem_get (drop d xs) i = mem_get xs (d + i)"
  by (auto simp: mem_get_def)

lemma mem_get_append: "i < length xs \<Longrightarrow> mem_get (xs @ ys) i = mem_get xs i"
  by (simp add: mem_get_def nth_append)

lemma HOST_c2l_drop: "HOST_c2l (drop d xs) off = HOST_c2l xs (d + off)"
  by (simp add: HOST_c2l_def mem_get_drop add.assoc)

lemma HOST_c2l_append: "off + 4 \<le> length xs \<Longrightarrow> HOST_c2l (xs @ ys) off = HOST_c2l xs off"
  by (simp add: HOST_c2l_def mem_get_append)

text \<open>The word at \<open>off\<close>, and the sixteen words of the block there.\<close>

definition be32 :: "byte list \<Rightarrow> nat \<Rightarrow> u32" where
  "be32 data off =
     push_bit 24 (ucast (data ! off)) OR push_bit 16 (ucast (data ! (off + 1)))
     OR push_bit 8 (ucast (data ! (off + 2))) OR ucast (data ! (off + 3))"

definition block_words :: "byte list \<Rightarrow> nat \<Rightarrow> u32 list" where
  "block_words data off = map (\<lambda>i. be32 data (off + 4 * i)) [0..<16]"

lemma HOST_c2l_in: "off + 4 \<le> length data \<Longrightarrow> HOST_c2l data off = Some (be32 data off)"
  by (simp add: HOST_c2l_def be32_def mem_simps)

section \<open>FIPS 180-2\<close>

definition ROTR :: "nat \<Rightarrow> u32 \<Rightarrow> u32" where
  "ROTR n x = drop_bit n x OR push_bit (32 - n) x"

definition fips_round :: "u32 list \<Rightarrow> u32 \<times> u32 \<Rightarrow> u32 list" where
  "fips_round v kw =
     (case (v, kw) of
        ([a, b, c, d, e, f, g, h], (k, w)) \<Rightarrow>
          (let T1 = h + (ROTR 6 e XOR ROTR 11 e XOR ROTR 25 e) + ((e AND f) XOR (NOT e AND g)) + k + w;
               T2 = (ROTR 2 a XOR ROTR 13 a XOR ROTR 22 a)
                    + ((a AND b) XOR (a AND c) XOR (b AND c))
           in [T1 + T2, a, b, c, d + T1, e, f, g])
      | _ \<Rightarrow> v)"

definition fips_next :: "u32 list \<Rightarrow> u32" where
  "fips_next W =
     (let t = length W; x = W ! (t - 2); y = W ! (t - 15)
      in (ROTR 17 x XOR ROTR 19 x XOR drop_bit 10 x) + W ! (t - 7)
         + (ROTR 7 y XOR ROTR 18 y XOR drop_bit 3 y) + W ! (t - 16))"

fun fips_extend :: "nat \<Rightarrow> u32 list \<Rightarrow> u32 list" where
  "fips_extend 0 W = W"
| "fips_extend (Suc n) W = fips_extend n (W @ [fips_next W])"

definition fips_compress :: "u32 list \<Rightarrow> u32 list \<Rightarrow> u32 list" where
  "fips_compress h M = map2 (+) h (foldl fips_round h (zip K256 (fips_extend 48 M)))"

fun fips_blocks :: "nat \<Rightarrow> u32 list \<Rightarrow> byte list \<Rightarrow> u32 list" where
  "fips_blocks 0 h data = h"
| "fips_blocks (Suc n) h data = fips_blocks n (fips_compress h (block_words data 0)) (drop 64 data)"

text \<open>The digest of a message: the padded message's blocks, then \<open>n\<close> words of the result.\<close>

definition fips_digest :: "u32 list \<Rightarrow> nat \<Rightarrow> byte list \<Rightarrow> byte list" where
  "fips_digest h0 n msg =
     concat (map HOST_l2c (take n (fips_blocks (length (md_pad msg) div 64) h0 (md_pad msg))))"

section \<open>Rounds\<close>

lemma ROTATE_ROTR: "n \<le> 32 \<Longrightarrow> ROTATE x n = ROTR (32 - n) x"
proof -
  have "(0xffffffff :: u32) = - 1" by simp
  then have "x AND 0xffffffff = x" by (simp only: bit.conj_one_right)
  then show "n \<le> 32 \<Longrightarrow> ROTATE x n = ROTR (32 - n) x" by (simp add: ROTATE_def ROTR_def or.commute)
qed

lemma length8: "length v = 8 \<longleftrightarrow> (\<exists>a b c d e f g h. v = [a, b, c, d, e, f, g, h])"
  by (auto simp: length_Suc_conv eval_nat_numeral)

lemma small_round_fips: "length v = 8 \<Longrightarrow> small_round k t v = fips_round v (k, t)"
  by (auto simp: length8 small_round_def fips_round_def Sigma0_def Sigma1_def ROTATE_ROTR
      Ch_def Maj_def Let_def ac_simps)

lemma small_round_length [simp]: "length (small_round k t v) = 8"
  by (simp add: small_round_def Let_def)

text \<open>The registers in the order the names of call \<open>k\<close> give them.\<close>

definition view :: "nat \<Rightarrow> u32 list \<Rightarrow> u32 list" where
  "view k v = [v ! reg k 0, v ! reg k 1, v ! reg k 2, v ! reg k 3,
     v ! reg k 4, v ! reg k 5, v ! reg k 6, v ! reg k 7]"

lemma reg_mod: "reg (k mod 8) = reg k"
  by (simp add: reg_def fun_eq_iff)

lemma view_0: "length v = 8 \<Longrightarrow> k mod 8 = 0 \<Longrightarrow> view k v = v"
  by (auto simp: length8 view_def reg_def)

lemma round_rotates:
  assumes "length v = 8"
  shows "view (Suc k) (ROUND_00_15 i k t v) = small_round (K256 ! i) t (view k v)"
proof -
  from assms obtain a b c d e f g h where v: "v = [a, b, c, d, e, f, g, h]" by (auto simp: length8)
  have "view (Suc m) (ROUND_00_15 i m t v) = small_round (K256 ! i) t (view m v)" if "m < 8" for m
  proof -
    from that consider "m = 0" | "m = 1" | "m = 2" | "m = 3" | "m = 4" | "m = 5" | "m = 6" | "m = 7"
      by linarith
    then show ?thesis
      by cases (simp_all add: v view_def ROUND_00_15_def small_round_def reg_def Let_def)
  qed
  moreover have "ROUND_00_15 i (k mod 8) t v = ROUND_00_15 i k t v" "view (k mod 8) v = view k v"
    by (simp_all add: ROUND_00_15_def view_def reg_mod)
  moreover have "view (Suc (k mod 8)) u = view (Suc k) u" for u
    using reg_mod [of "Suc (k mod 8)"] reg_mod [of "Suc k"] by (simp add: view_def mod_Suc_eq)
  ultimately show ?thesis by (metis mod_less_divisor zero_less_numeral)
qed

lemma ROUND_00_15_length [simp]: "length (ROUND_00_15 i k t v) = length v"
  by (simp add: ROUND_00_15_def Let_def)

section \<open>The unrolled function is the small one\<close>

lemma unrolled_load_view:
  "length v = 8 \<Longrightarrow>
   map_option (\<lambda>(X, v). (X, view (k + n) v)) (unrolled_load n k data off X v)
     = small_load n k data off X (view k v)
   \<and> (\<forall>X' v'. unrolled_load n k data off X v = Some (X', v') \<longrightarrow> length v' = 8)"
proof (induction n arbitrary: k off X v)
  case (Suc n)
  show ?case
  proof (cases "HOST_c2l data off")
    case (Some l)
    with Suc.IH [of "ROUND_00_15 k k l v" "Suc k" "off + 4" "X[k := l]"] Suc.prems
    show ?thesis by (simp add: round_rotates)
  qed simp
qed simp

text \<open>The registers rotate by one in each call of the unrolled loop.\<close>

definition calls :: "nat \<Rightarrow> nat \<Rightarrow> u32 list \<times> u32 list \<Rightarrow> u32 list \<times> u32 list" where
  "calls i m Xv = fold (\<lambda>k. ROUND_16_63 (i + k) k) [0..<m] Xv"

lemma calls_small:
  "length v = 8 \<Longrightarrow> calls i m (X, v) = (X', v') \<Longrightarrow>
    length v' = 8 \<and> small_rounds (m + n) i X (view 0 v) = small_rounds n (i + m) X' (view m v')"
proof (induction m arbitrary: n X' v')
  case 0
  then show ?case by (simp add: calls_def)
next
  case (Suc m)
  obtain Y u where c: "calls i m (X, v) = (Y, u)" by fastforce
  with Suc.prems(2) have "ROUND_16_63 (i + m) m (Y, u) = (X', v')" by (simp add: calls_def)
  then have X': "X' = schedule_step (i + m) Y"
    "v' = ROUND_00_15 (i + m) m (schedule_step (i + m) Y ! ((i + m) mod 16)) u"
    by (auto simp: ROUND_16_63_def Let_def)
  from Suc.IH [OF Suc.prems(1) c, of "Suc n"] have u: "length u = 8"
    "small_rounds (m + Suc n) i X (view 0 v) = small_rounds (Suc n) (i + m) Y (view m u)" by auto
  then show ?case by (simp add: X' round_rotates Let_def)
qed

lemma unrolled_eight_calls: "unrolled_eight i Xv = calls i 8 Xv"
proof -
  have "[0..<8] = [0, 1, 2, 3, 4, 5, 6, 7]" by code_simp
  then show ?thesis by (simp add: unrolled_eight_def calls_def)
qed

lemma unrolled_rounds_small:
  "length v = 8 \<Longrightarrow> snd (unrolled_rounds n i (X, v)) = small_rounds (8 * n) i X v"
proof (induction n arbitrary: i X v)
  case (Suc n)
  obtain X' v' where e: "calls i 8 (X, v) = (X', v')" by fastforce
  with calls_small [OF Suc.prems e, of "8 * n"] have v': "length v' = 8"
    "small_rounds (8 + 8 * n) i X v = small_rounds (8 * n) (i + 8) X' v'"
    using view_0 [of v 0] view_0 [of v' 8] Suc.prems by auto
  then show ?case using Suc.IH [of v' "i + 8" X'] e by (simp add: unrolled_eight_calls)
qed simp

lemma unrolled_block_small: "length h = 8 \<Longrightarrow> unrolled_block h data off = small_block h data off"
proof (cases "unrolled_load 16 0 data off (replicate 16 0) h")
  case None
  assume h: "length h = 8"
  from unrolled_load_view [OF h, of 0 16 data off "replicate 16 0"] view_0 [OF h, of 0] None
  have "small_load 16 0 data off (replicate 16 0) h = None" by simp
  with None show ?thesis by (simp add: unrolled_block_def small_block_def)
next
  case (Some Xv)
  assume h: "length h = 8"
  obtain X v where Xv: "Xv = (X, v)" by fastforce
  from unrolled_load_view [OF h, of 0 16 data off "replicate 16 0"] view_0 [OF h, of 0] Some Xv
  have v: "length v = 8" and "small_load 16 0 data off (replicate 16 0) h = Some (X, view 16 v)" by auto
  moreover have "view 16 v = v" using v by (rule view_0) simp
  ultimately show ?thesis using Some Xv unrolled_rounds_small [OF v, of 6 16 X]
    by (simp add: unrolled_block_def small_block_def)
qed

section \<open>The small function is FIPS 180-2\<close>

lemma fips_round_length [simp]: "length v = 8 \<Longrightarrow> length (fips_round v kw) = 8"
  by (cases kw) (metis small_round_fips small_round_length)

lemma fips_rounds_length: "length v = 8 \<Longrightarrow> length (foldl fips_round v kws) = 8"
  by (induction kws arbitrary: v) auto

lemma small_load_fips:
  "off + 4 * n \<le> length data \<Longrightarrow> length v = 8 \<Longrightarrow>
   small_load n i data off X v =
     Some (foldl (\<lambda>X j. X[i + j := be32 data (off + 4 * j)]) X [0..<n],
           foldl fips_round v (map (\<lambda>j. (K256 ! (i + j), be32 data (off + 4 * j))) [0..<n]))"
proof (induction n arbitrary: i off X v)
  case (Suc n)
  have up: "[0..<Suc n] = 0 # map Suc [0..<n]" by (simp add: upt_conv_Cons map_Suc_upt del: upt_Suc)
  have "HOST_c2l data off = Some (be32 data off)" using Suc.prems by (intro HOST_c2l_in) simp
  with Suc.IH [of "off + 4" "small_round (K256 ! i) (be32 data off) v" "Suc i" "X[i := be32 data off]"]
    Suc.prems show ?case
    by (simp add: up small_round_fips foldl_map comp_def add.assoc del: upt_Suc)
qed simp

lemma store_all: "n \<le> length X \<Longrightarrow> foldl (\<lambda>X j. X[j := f j]) X [0..<n] = map f [0..<n] @ drop n X"
  by (induction n) (auto simp: list_update_append Cons_nth_drop_Suc [symmetric])

definition circular :: "u32 list \<Rightarrow> u32 list \<Rightarrow> bool" where
  "circular X W \<longleftrightarrow> length X = 16 \<and> 16 \<le> length W \<and>
     (\<forall>t < length W. length W - 16 \<le> t \<longrightarrow> X ! (t mod 16) = W ! t)"

lemma circular_at: "circular X W \<Longrightarrow> 0 < j \<Longrightarrow> j \<le> 16 \<Longrightarrow> X ! ((length W + (16 - j)) mod 16) = W ! (length W - j)"
proof -
  assume c: "circular X W" and j: "0 < j" "j \<le> 16"
  then have l: "16 \<le> length W" by (simp add: circular_def)
  with j have "length W + (16 - j) = (length W - j) + 16" by simp
  then have "(length W + (16 - j)) mod 16 = (length W - j) mod 16" by (simp only: mod_add_self2)
  with c j l show ?thesis by (simp add: circular_def)
qed

lemma schedule_fips:
  assumes "circular X W"
  shows "circular (schedule_step (length W) X) (W @ [fips_next W])"
    and "schedule_step (length W) X ! (length W mod 16) = fips_next W"
proof -
  have l: "length X = 16" "16 \<le> length W" using assms by (auto simp: circular_def)
  have s: "schedule_step (length W) X = X[length W mod 16 := fips_next W]"
    using circular_at [OF assms, of 15] circular_at [OF assms, of 2] circular_at [OF assms, of 7]
      circular_at [OF assms, of 16] l
    by (simp add: schedule_step_def fips_next_def sigma0_def sigma1_def ROTATE_ROTR Let_def ac_simps)
  show "schedule_step (length W) X ! (length W mod 16) = fips_next W" using l by (simp add: s)
  have "length W mod 16 \<noteq> t mod 16" if "t < length W" "length W + 1 - 16 \<le> t" for t
  proof
    assume "length W mod 16 = t mod 16"
    then have "16 dvd (length W - t)" using that by (metis mod_eq_dvd_iff_nat less_imp_le)
    then show False using that l by (auto dest: dvd_imp_le)
  qed
  then show "circular (schedule_step (length W) X) (W @ [fips_next W])"
    using assms by (auto simp: s circular_def nth_append less_Suc_eq)
qed

lemma fips_extend_length: "length (fips_extend n W) = length W + n"
  by (induction n arbitrary: W) auto

lemma fips_extend_prefix: "i < length W \<Longrightarrow> fips_extend n W ! i = W ! i"
  by (induction n arbitrary: W) (auto simp: nth_append)

lemma small_rounds_fips:
  "circular X W \<Longrightarrow> length v = 8 \<Longrightarrow>
   small_rounds n (length W) X v =
     foldl fips_round v (map (\<lambda>t. (K256 ! t, fips_extend n W ! t)) [length W..<length W + n])"
proof (induction n arbitrary: X W v)
  case (Suc n)
  let ?W = "W @ [fips_next W]"
  have up: "[length W..<length W + Suc n] = length W # [length ?W..<length ?W + n]"
    by (simp add: upt_conv_Cons del: upt_Suc)
  have "fips_extend n ?W ! length W = fips_next W" by (simp add: fips_extend_prefix)
  with Suc.IH [OF schedule_fips(1) [OF Suc.prems(1)],
      of "small_round (K256 ! length W) (fips_next W) v"] schedule_fips(2) [OF Suc.prems(1)] Suc.prems(2)
  show ?case unfolding up by (simp add: Let_def small_round_fips del: upt_Suc)
qed simp

lemma K256_length: "length K256 = 64"
  by (simp add: K256_def)

lemma small_block_fips:
  assumes "length h = 8" "off + 64 \<le> length data"
  shows "small_block h data off = Some (fips_compress h (block_words data off))"
proof -
  let ?W = "block_words data off" and ?E = "fips_extend 48 (block_words data off)"
  let ?v = "foldl fips_round h (map (\<lambda>t. (K256 ! t, ?E ! t)) [0..<16])"
  have W: "length ?W = 16" by (simp add: block_words_def)
  have E: "length ?E = 64" "\<And>t. t < 16 \<Longrightarrow> ?E ! t = be32 data (off + 4 * t)"
    using fips_extend_prefix [of _ ?W 48] W by (simp_all add: fips_extend_length block_words_def)
  have X: "foldl (\<lambda>X j. X[0 + j := be32 data (off + 4 * j)]) (replicate 16 0) [0..<16] = ?W"
    by (simp add: store_all block_words_def)
  have sl: "small_load 16 0 data off (replicate 16 0) h
      = Some (?W, foldl fips_round h (map (\<lambda>j. (K256 ! j, be32 data (off + 4 * j))) [0..<16]))"
    using small_load_fips [of off 16 data h 0 "replicate 16 0"] assms X by simp
  have m: "map (\<lambda>j. (K256 ! j, be32 data (off + 4 * j))) [0..<16] = map (\<lambda>t. (K256 ! t, ?E ! t)) [0..<16]"
    using E(2) by (intro map_cong) auto
  have load: "small_load 16 0 data off (replicate 16 0) h = Some (?W, ?v)" using sl unfolding m .
  have v8: "length ?v = 8"
    using assms(1) by (rule fips_rounds_length)
  have "circular ?W ?W" using W by (auto simp: circular_def)
  from small_rounds_fips [OF this v8, of 48] W
  have r: "small_rounds 48 16 ?W ?v = foldl fips_round ?v (map (\<lambda>t. (K256 ! t, ?E ! t)) [16..<64])" by simp
  have "zip K256 ?E = map (\<lambda>t. (K256 ! t, ?E ! t)) [0..<64]"
    by (rule nth_equalityI) (simp_all add: K256_length E(1))
  also have "[0..<64] = [0..<16] @ [16..<64]" using upt_add_eq_append [of 0 16 48] by simp
  finally show ?thesis using load r by (simp add: small_block_def fips_compress_def)
qed

section \<open>The block function of the update\<close>

lemma small_load_length:
  "small_load n i data off X v = Some (X', v') \<Longrightarrow> length v = 8 \<Longrightarrow> length v' = 8"
  by (induction n arbitrary: i off X v) (auto simp: bind_eq_Some_conv)

lemma small_rounds_length: "length v = 8 \<Longrightarrow> length (small_rounds n i X v) = 8"
  by (induction n arbitrary: i X v) (auto simp: Let_def)

lemma unrolled_load_drop: "unrolled_load n k (drop d data) off X v = unrolled_load n k data (d + off) X v"
  by (induction n arbitrary: k off X v) (simp_all add: HOST_c2l_drop add.assoc)

lemma unrolled_load_append:
  "off + 4 * n \<le> length data \<Longrightarrow>
   unrolled_load n k (data @ extra) off X v = unrolled_load n k data off X v"
proof (induction n arbitrary: k off X v)
  case (Suc n)
  then have "HOST_c2l (data @ extra) off = HOST_c2l data off" by (intro HOST_c2l_append) simp
  with Suc show ?case by (cases "HOST_c2l data off") simp_all
qed simp

lemma unrolled_load_total:
  "off + 4 * n \<le> length data \<Longrightarrow> \<exists>Xv. unrolled_load n k data off X v = Some Xv"
proof (induction n arbitrary: k off X v)
  case (Suc n)
  then have "HOST_c2l data off = Some (be32 data off)" by (intro HOST_c2l_in) simp
  with Suc show ?case by simp
qed simp

lemma unrolled_block_drop: "unrolled_block h (drop d data) off = unrolled_block h data (d + off)"
  by (simp add: unrolled_block_def unrolled_load_drop)

lemma unrolled_block_append:
  "off + 64 \<le> length data \<Longrightarrow> unrolled_block h (data @ extra) off = unrolled_block h data off"
  by (simp add: unrolled_block_def unrolled_load_append)

lemma unrolled_block_total: "off + 64 \<le> length data \<Longrightarrow> \<exists>h'. unrolled_block h data off = Some h'"
  using unrolled_load_total [of off 16 data 0 "replicate 16 0" h] by (auto simp: unrolled_block_def)

lemma block_loop_add:
  "block_loop blk (m + n) h data off
    = Option.bind (block_loop blk m h data off) (\<lambda>h'. block_loop blk n h' data (off + 64 * m))"
  by (induction m arbitrary: h off) (simp_all add: add.assoc)

lemma block_loop_drop:
  "block_loop unrolled_block n h (drop d data) off = block_loop unrolled_block n h data (d + off)"
  by (induction n arbitrary: h off) (simp_all add: unrolled_block_drop add.assoc)

lemma block_loop_append:
  "off + 64 * n \<le> length data \<Longrightarrow>
   block_loop unrolled_block n h (data @ extra) off = block_loop unrolled_block n h data off"
  by (induction n arbitrary: h off) (simp_all add: unrolled_block_append)

lemma block_loop_total:
  "off + 64 * n \<le> length data \<Longrightarrow> \<exists>h'. block_loop unrolled_block n h data off = Some h'"
proof (induction n arbitrary: h off)
  case (Suc n)
  obtain h1 where "unrolled_block h data off = Some h1"
    using unrolled_block_total [of off data h] Suc.prems by auto
  with Suc show ?case by simp
qed simp

interpretation sha: block_function sha256_block_data_order
proof
  fix h and data extra :: "byte list" and m n :: nat
  show "sha256_block_data_order h data 0 = Some h" by (simp add: sha256_block_data_order_def)
  show "sha256_block_data_order h data (m + n) = Option.bind (sha256_block_data_order h data m)
      (\<lambda>h'. sha256_block_data_order h' (drop (64 * m) data) n)"
    by (simp add: sha256_block_data_order_def block_loop_add block_loop_drop)
  show "\<exists>h'. sha256_block_data_order h data n = Some h'" if "64 * n \<le> length data"
    using block_loop_total [of 0 n data h] that by (simp add: sha256_block_data_order_def)
  show "sha256_block_data_order h (data @ extra) n = sha256_block_data_order h data n"
    if "64 * n \<le> length data"
    using block_loop_append [of 0 n data h extra] that by (simp add: sha256_block_data_order_def)
qed

lemma fips_compress_length: "length h = 8 \<Longrightarrow> length (fips_compress h M) = 8"
  by (simp add: fips_compress_def fips_rounds_length)

lemma sha_blocks_fips:
  "length h = 8 \<Longrightarrow> 64 * n \<le> length data \<Longrightarrow>
    sha256_block_data_order h data n = Some (fips_blocks n h data) \<and> length (fips_blocks n h data) = 8"
proof (induction n arbitrary: h data)
  case (Suc n)
  have "unrolled_block h data 0 = Some (fips_compress h (block_words data 0))"
    using Suc.prems unrolled_block_small small_block_fips [of h 0 data] by simp
  then have "sha256_block_data_order h data 1 = Some (fips_compress h (block_words data 0))"
    by (simp add: sha256_block_data_order_def)
  then show ?case
    using sha.bdo_split [of h data 1 n] Suc.prems fips_compress_length
      Suc.IH [of "fips_compress h (block_words data 0)" "drop 64 data"] by simp
qed (simp add: sha256_block_data_order_def)

lemma init_inv:
  "hash_inv sha256_block_data_order (ctx_h SHA256_Init) [] SHA256_Init"
  "hash_inv sha256_block_data_order (ctx_h SHA224_Init) [] SHA224_Init"
  by (simp_all add: hash_inv_def hash_state_def sha256_block_data_order_def SHA256_Init_def SHA224_Init_def)

lemma md_pad_blocks: "64 * (length (md_pad msg) div 64) \<le> length (md_pad msg)"
  by simp

lemma make_string_words:
  "length (ctx_h c) = 8 \<Longrightarrow> md_len c \<le> 32 \<Longrightarrow>
    make_string c = Some (concat (map HOST_l2c (take (md_len c div 4) (ctx_h c))))"
proof -
  assume l: "length (ctx_h c) = 8" "md_len c \<le> 32"
  then have "md_len c div 4 \<le> 8" by linarith
  then have "map (\<lambda>nn. HOST_l2c (ctx_h c ! nn)) [0..<md_len c div 4]
      = map HOST_l2c (take (md_len c div 4) (ctx_h c))"
    using l by (intro nth_equalityI) auto
  with l show ?thesis by (simp add: make_string_def SHA256_DIGEST_LENGTH_def)
qed

text \<open>Whatever way the message came in, \<open>SHA256_Final\<close> gives the FIPS digest.\<close>

lemma final_digest:
  assumes "hash_inv sha256_block_data_order h0 msg c" "length h0 = 8" "md_len c \<le> 32"
  shows "\<exists>c'. SHA256_Final c = Some (c', Some (fips_digest h0 (md_len c div 4) msg))"
proof -
  obtain h where h: "SHA256_Final c = Some (c\<lparr>ctx_h := h, ctx_num := 0, ctx_data := replicate 64 0\<rparr>,
      make_string (c\<lparr>ctx_h := h, ctx_num := 0, ctx_data := replicate 64 0\<rparr>))"
    "sha256_block_data_order h0 (md_pad msg) (length (md_pad msg) div 64) = Some h"
    using sha.final_ok [OF assms(1), of make_string] unfolding SHA256_Final_def by blast
  with sha_blocks_fips [OF assms(2) md_pad_blocks, of msg] show ?thesis
    using assms(3) by (simp add: make_string_words fips_digest_def)
qed

text \<open>The digests of the one-shot functions.\<close>

lemma sha_digests:
  "SHA256 msg = Some (fips_digest (ctx_h SHA256_Init) 8 msg) \<and>
   SHA224 msg = Some (fips_digest (ctx_h SHA224_Init) 7 msg)"
proof -
  have l: "length (ctx_h SHA256_Init) = 8" "length (ctx_h SHA224_Init) = 8"
    "md_len SHA256_Init = 32" "md_len SHA224_Init = 28"
    by (simp_all add: SHA256_Init_def SHA224_Init_def SHA256_DIGEST_LENGTH_def SHA224_DIGEST_LENGTH_def)
  obtain c1 c2 where c: "SHA256_Update SHA256_Init msg = Some c1"
    "hash_inv sha256_block_data_order (ctx_h SHA256_Init) msg c1" "md_len c1 = 32"
    "SHA256_Update SHA224_Init msg = Some c2"
    "hash_inv sha256_block_data_order (ctx_h SHA224_Init) msg c2" "md_len c2 = 28"
    using sha.update_ok [OF init_inv(1), of msg] sha.update_ok [OF init_inv(2), of msg] l
    by (auto simp: SHA256_Update_def)
  from final_digest [OF c(2) l(1)] final_digest [OF c(5) l(2)] c(1,3,4,6) show ?thesis
    by (auto simp: SHA256_def SHA224_def)
qed

section \<open>Properties\<close>

text \<open>
  The unrolled block function, whose macros take the registers in rotated order, computes
  the same chaining value as the small-footprint loop, for every input, also when it reads past
  the end of it.
\<close>

theorem unrolled_equals_small:
  assumes "length h = 8"
  shows "sha256_block_data_order h data n = sha256_block_small h data n"
proof -
  have "length h = 8 \<Longrightarrow> block_loop unrolled_block n h data off = block_loop small_block n h data off" for off
  proof (induction n arbitrary: h off)
    case (Suc n)
    have "length h' = 8" if "small_block h data off = Some h'" for h'
      using that Suc.prems
      by (auto simp: small_block_def bind_eq_Some_conv small_rounds_length dest: small_load_length)
    with Suc show ?case by (cases "small_block h data off") (simp_all add: unrolled_block_small)
  qed simp
  with assms show ?thesis by (simp add: sha256_block_data_order_def sha256_block_small_def)
qed

theorem unrolled_equals_small_witness:
  "sha256_block_data_order (ctx_h SHA256_Init) (replicate 128 7) 2
    = sha256_block_small (ctx_h SHA256_Init) (replicate 128 7) 2"
  by (rule unrolled_equals_small) (simp add: SHA256_Init_def)

text \<open>
  C28: for every message, \<open>SHA256\<close> and \<open>SHA224\<close> return the digest of FIPS 180-2: the message
  padded with a one bit, zeros and its length in bits, compressed block by block with the
  message schedule of the standard.
\<close>

theorem sha256_is_fips:
  "SHA256 msg = Some (fips_digest (ctx_h SHA256_Init) 8 msg) \<and>
   SHA224 msg = Some (fips_digest (ctx_h SHA224_Init) 7 msg)"
  by (rule sha_digests)

text \<open>
  C30: hashing is incremental: cutting a message into any pieces and passing them to
  \<open>SHA256_Update\<close> one after the other gives the digest that \<open>SHA256\<close> gives of the whole.
\<close>

theorem sha256_incremental:
  "Option.bind (foldl (\<lambda>r xs. Option.bind r (\<lambda>c. SHA256_Update c xs)) (Some SHA256_Init) chunks)
     (\<lambda>c. map_option snd (SHA256_Final c))
   = Some (SHA256 (concat chunks))"
proof -
  have l: "length (ctx_h SHA256_Init) = 8" "md_len SHA256_Init = 32"
    by (simp_all add: SHA256_Init_def SHA256_DIGEST_LENGTH_def)
  have all: "\<exists>c. foldl (\<lambda>r xs. Option.bind r (\<lambda>c. SHA256_Update c xs)) (Some SHA256_Init) cs = Some c
      \<and> hash_inv sha256_block_data_order (ctx_h SHA256_Init) (concat cs) c \<and> md_len c = 32" for cs
    using sha.updates_ok [OF init_inv(1), of cs] l by (simp add: SHA256_Update_def)
  obtain c where c: "foldl (\<lambda>r xs. Option.bind r (\<lambda>c. SHA256_Update c xs)) (Some SHA256_Init) chunks = Some c"
    "hash_inv sha256_block_data_order (ctx_h SHA256_Init) (concat chunks) c" "md_len c = 32"
    using all [of chunks] by blast
  obtain d where d: "SHA256_Update SHA256_Init (concat chunks) = Some d"
    "hash_inv sha256_block_data_order (ctx_h SHA256_Init) (concat chunks) d" "md_len d = 32"
    using all [of "[concat chunks]"] by auto
  from final_digest [OF c(2) l(1)] final_digest [OF d(2) l(1)] c(1,3) d(1,3) show ?thesis
    by (auto simp: SHA256_def)
qed

end
