(* ===== verification/Http_Text.thy ===== *)
theory Http_Text
  imports Prelude "HOL-Library.Char_ord"
begin

text \<open>
  The text routines of mjpg-streamer/plugins/output_http/httpd.c: \<open>hex_char_to_int\<close>,
  \<open>unescape\<close> and \<open>decodeBase64\<close>, which work in place on a C string, and the functions of
  string.h and stdlib.h the server calls. A C string is a block of chars that ends at its first
  NUL; a read or write outside the block is None.
\<close>

section \<open>C strings\<close>

definition NUL :: char where "NUL = CHR 0x00"

text \<open>The string in a block: what precedes the first NUL.\<close>

definition cstr :: "char list \<Rightarrow> string" where
  "cstr mem = takeWhile (\<lambda>c. c \<noteq> NUL) mem"

definition plain :: "string \<Rightarrow> bool" where
  "plain s \<longleftrightarrow> NUL \<notin> set s"

lemma cstr_plain: "plain s \<Longrightarrow> cstr (s @ NUL # r) = s"
  by (simp add: cstr_def plain_def takeWhile_tail) (metis takeWhile_eq_all_conv)

definition char_code :: "char \<Rightarrow> int" where
  "char_code c = of_char c"

text \<open>\<open>strstr\<close> gives the rest of the string from the first occurrence, \<open>strchr\<close> likewise.\<close>

fun strstr :: "string \<Rightarrow> string \<Rightarrow> string option" where
  "strstr [] pat = (if pat = [] then Some [] else None)"
| "strstr (c # s) pat =
     (if take (length pat) (c # s) = pat then Some (c # s) else strstr s pat)"

definition strchr :: "string \<Rightarrow> char \<Rightarrow> string option" where
  "strchr s c = (case dropWhile (\<lambda>x. x \<noteq> c) s of [] \<Rightarrow> None | r \<Rightarrow> Some r)"

definition strspn :: "string \<Rightarrow> string \<Rightarrow> nat" where
  "strspn s accept = length (takeWhile (\<lambda>c. c \<in> set accept) s)"

definition is_digit :: "char \<Rightarrow> bool" where
  "is_digit c \<longleftrightarrow> CHR ''0'' \<le> c \<and> c \<le> CHR ''9''"

definition digits_value :: "string \<Rightarrow> int" where
  "digits_value ds = foldl (\<lambda>v c. v * 10 + (char_code c - 48)) 0 ds"

text \<open>
  \<open>strtol(s, NULL, 10)\<close> for a long of \<open>w\<close> bits, and \<open>atoi\<close>. The sets of characters the
  callers pass contain no white space.
\<close>

definition signed_number :: "string \<Rightarrow> int" where
  "signed_number s =
     (case s of
        [] \<Rightarrow> 0
      | c # r \<Rightarrow>
          (if c = CHR ''-'' then - digits_value (takeWhile is_digit r)
           else if c = CHR ''+'' then digits_value (takeWhile is_digit r)
           else digits_value (takeWhile is_digit s)))"

definition strtol :: "nat \<Rightarrow> string \<Rightarrow> int" where
  "strtol w s = max (- (2 ^ (w - 1))) (min (2 ^ (w - 1) - 1) (signed_number s))"

definition isspace :: "char \<Rightarrow> bool" where
  "isspace c \<longleftrightarrow> c = CHR '' '' \<or> CHR 0x09 \<le> c \<and> c \<le> CHR 0x0D"

definition atoi :: "string \<Rightarrow> int" where
  "atoi s = to_s32 (strtol 64 (dropWhile isspace s))"

section \<open>Hexadecimal digits and unescape\<close>

definition hex_char_to_int :: "char \<Rightarrow> int" where
  "hex_char_to_int c =
     (if CHR ''0'' \<le> c \<and> c \<le> CHR ''9'' then char_code c - char_code (CHR ''0'')
      else if CHR ''a'' \<le> c \<and> c \<le> CHR ''f'' then char_code c - char_code (CHR ''a'') + 10
      else if CHR ''A'' \<le> c \<and> c \<le> CHR ''F'' then char_code c - char_code (CHR ''A'') + 10
      else -1)"

text \<open>A char from an int, reduced modulo 256.\<close>

definition to_char :: "int \<Rightarrow> char" where
  "to_char x = char_of x"

text \<open>
  The loop of \<open>unescape\<close> at \<open>src\<close> and \<open>dst\<close>: the return value and the block. The two stores of
  a replaced character are one here, since the first is overwritten.
\<close>

function unescape_loop :: "char list \<Rightarrow> nat \<Rightarrow> nat \<Rightarrow> nat \<Rightarrow> (int \<times> char list) option" where
  "unescape_loop mem len src dst =
     (if src < len then
        do {
          c \<leftarrow> mem_get mem src;
          if c \<noteq> CHR ''%'' then
            do { mem \<leftarrow> mem_set mem dst c; unescape_loop mem len (src + 1) (dst + 1) }
          else if src + 2 > len then Some (-1, mem)
          else do {
            c1 \<leftarrow> mem_get mem (src + 1);
            if hex_char_to_int c1 = -1 then Some (-1, mem)
            else do {
              mem \<leftarrow> mem_set mem dst (to_char (hex_char_to_int c1 * 16));
              c2 \<leftarrow> mem_get mem (src + 2);
              if hex_char_to_int c2 = -1 then Some (-1, mem)
              else do {
                mem \<leftarrow> mem_set mem dst (to_char (hex_char_to_int c1 * 16 + hex_char_to_int c2));
                unescape_loop mem len (src + 3) (dst + 1)
              }
            }
          }
        }
      else do { mem \<leftarrow> mem_set mem dst NUL; Some (0, mem) })"
  by pat_completeness auto
termination by (relation "measure (\<lambda>(mem, len, src, dst). len - src)") auto

declare unescape_loop.simps [simp del]

definition unescape :: "char list \<Rightarrow> (int \<times> char list) option" where
  "unescape mem = unescape_loop mem (length (cstr mem)) 0 0"

section \<open>Base64\<close>

text \<open>The value of a character; None where the loop continues with the next one.\<close>

definition base64_value :: "char \<Rightarrow> nat option" where
  "base64_value t =
     (if CHR ''0'' \<le> t \<and> t \<le> CHR ''9'' then Some (of_char t - 48 + 52)
      else if CHR ''A'' \<le> t \<and> t \<le> CHR ''Z'' then Some (of_char t - 65)
      else if CHR ''a'' \<le> t \<and> t \<le> CHR ''z'' then Some (of_char t - 97 + 26)
      else if t = CHR ''+'' then Some 62
      else if t = CHR ''/'' then Some 63
      else if t = CHR ''='' then Some 0
      else None)"

text \<open>
  The loop of \<open>decodeBase64\<close> with the input pointer at \<open>in'\<close> and the output pointer at \<open>out\<close>;
  \<open>ch\<close> is an unsigned int. The input ends at the NUL it reads.
\<close>

function decode_loop :: "char list \<Rightarrow> nat \<Rightarrow> nat \<Rightarrow> u32 \<Rightarrow> nat \<Rightarrow> char list option" where
  "decode_loop mem in' out ch i =
     (case mem_get mem in' of
        None \<Rightarrow> None
      | Some t \<Rightarrow>
          if t = NUL then mem_set mem out NUL
          else (case base64_value t of
              None \<Rightarrow> decode_loop mem (in' + 1) out ch i
            | Some v \<Rightarrow>
                (let ch = push_bit 6 ch OR of_nat v in
                 if i + 1 = 4 then
                   do {
                     mem1 \<leftarrow> mem_write mem out
                       [to_char (uint (drop_bit 16 ch)), to_char (uint (drop_bit 8 ch)), to_char (uint ch)];
                     decode_loop mem1 (in' + 1) (out + 3) ch 0
                   }
                 else decode_loop mem (in' + 1) out ch (i + 1))))"
  by pat_completeness auto
termination
  by (relation "measure (\<lambda>(mem, in', out, ch, i). length mem - in')")
    (auto simp: mem_get_def dest!: mem_write_length split: if_splits)

declare decode_loop.simps [simp del]

definition decodeBase64 :: "char list \<Rightarrow> char list option" where
  "decodeBase64 mem = decode_loop mem 0 0 0 0"

section \<open>Decoding in place\<close>

text \<open>What \<open>unescape\<close> computes, as a function of the string.\<close>

fun percent_decode :: "string \<Rightarrow> string option" where
  "percent_decode [] = Some []"
| "percent_decode (c # s) =
     (if c \<noteq> CHR ''%'' then map_option ((#) c) (percent_decode s)
      else case s of
          h # l # r \<Rightarrow>
            (if hex_char_to_int h = -1 \<or> hex_char_to_int l = -1 then None
             else map_option ((#) (to_char (hex_char_to_int h * 16 + hex_char_to_int l))) (percent_decode r))
        | _ \<Rightarrow> None)"

lemma mem_set_at: "n = length a \<Longrightarrow> b \<noteq> [] \<Longrightarrow> mem_set (a @ b) n x = Some (a @ x # tl b)"
  by (cases b) (auto simp: mem_set_def)

lemma mem_get_at: "n = length a + k \<Longrightarrow> mem_get (a @ b) n = mem_get b k"
  by (auto simp: mem_get_def nth_append)

lemma hex_NUL: "hex_char_to_int NUL = -1"
  by (simp add: hex_char_to_int_def NUL_def)

lemma unescape_step:
  assumes "c \<noteq> CHR ''%''"
  shows "unescape_loop (out @ junk @ c # r @ [NUL]) (length out + length junk + length (c # r))
      (length out + length junk) (length out)
    = unescape_loop ((out @ [c]) @ tl (junk @ [c]) @ r @ [NUL])
      (length (out @ [c]) + length (tl (junk @ [c])) + length r)
      (length (out @ [c]) + length (tl (junk @ [c]))) (length (out @ [c]))"
proof -
  have g: "mem_get (out @ junk @ c # r @ [NUL]) (length out + length junk) = Some c"
    by (subst append_assoc [symmetric], subst mem_get_at [where k = 0]) auto
  have s: "mem_set (out @ junk @ c # r @ [NUL]) (length out) c = Some ((out @ [c]) @ tl (junk @ [c]) @ r @ [NUL])"
    by (subst mem_set_at) (auto simp: tl_append split: list.splits)
  show ?thesis
    by (subst unescape_loop.simps) (simp add: assms g s)
qed

lemma unescape_hex_step:
  assumes "hex_char_to_int h \<noteq> -1" "hex_char_to_int l \<noteq> -1"
  shows "unescape_loop (out @ junk @ CHR ''%'' # h # l # r @ [NUL])
      (length out + length junk + length (CHR ''%'' # h # l # r)) (length out + length junk) (length out)
    = unescape_loop ((out @ [to_char (hex_char_to_int h * 16 + hex_char_to_int l)])
        @ tl (junk @ [CHR ''%'', h, l]) @ r @ [NUL])
      (length (out @ [CHR ''%'']) + length (tl (junk @ [CHR ''%'', h, l])) + length r)
      (length (out @ [CHR ''%'']) + length (tl (junk @ [CHR ''%'', h, l]))) (length (out @ [CHR ''%'']))"
proof -
  let ?m = "out @ junk @ CHR ''%'' # h # l # r @ [NUL]"
  let ?x = "to_char (hex_char_to_int h * 16)" and ?y = "to_char (hex_char_to_int h * 16 + hex_char_to_int l)"
  let ?n = "length out + length junk"
  have g: "mem_get ?m ?n = Some (CHR ''%'')" "mem_get ?m (Suc ?n) = Some h"
    by (simp_all add: mem_get_def nth_append)
  have s: "mem_set ?m (length out) ?x = Some (out @ ?x # tl (junk @ [CHR ''%'', h, l]) @ r @ [NUL])"
    by (subst mem_set_at) (auto simp: tl_append split: list.splits)
  have g2: "mem_get (out @ ?x # tl (junk @ [CHR ''%'', h, l]) @ r @ [NUL]) (Suc (Suc ?n)) = Some l"
    by (cases junk) (auto simp: mem_get_def nth_append)
  have s2: "mem_set (out @ ?x # tl (junk @ [CHR ''%'', h, l]) @ r @ [NUL]) (length out) ?y
      = Some (out @ ?y # tl (junk @ [CHR ''%'', h, l]) @ r @ [NUL])"
    by (subst mem_set_at) auto
  show ?thesis
    by (subst unescape_loop.simps) (simp add: assms g s g2 s2 numeral_3_eq_3)
qed

lemma unescape_bad:
  assumes "percent_decode (CHR ''%'' # s) = None"
    and "\<And>h l r. s = h # l # r \<Longrightarrow> hex_char_to_int h = -1 \<or> hex_char_to_int l = -1"
  shows "\<exists>mem. unescape_loop (out @ junk @ CHR ''%'' # s @ [NUL])
      (length out + length junk + length (CHR ''%'' # s)) (length out + length junk) (length out)
    = Some (-1, mem)"
proof -
  let ?m = "out @ junk @ CHR ''%'' # s @ [NUL]" and ?n = "length out + length junk"
  have g: "mem_get ?m ?n = Some (CHR ''%'')" by (simp add: mem_get_def nth_append)
  consider "s = []" | h where "s = [h]" | h l r where "s = h # l # r"
    by (metis list.exhaust)
  then show ?thesis
  proof cases
    case 1
    with g show ?thesis by (subst unescape_loop.simps) simp
  next
    case 2
    have g1: "mem_get ?m (Suc ?n) = Some h" by (simp add: 2 mem_get_def nth_append)
    have s1: "mem_set ?m (length out) x = Some (out @ x # tl (junk @ [CHR ''%'', h]) @ [NUL])" for x
      unfolding 2 by (subst mem_set_at) (auto simp: tl_append split: list.splits)
    have g2: "mem_get (out @ x # tl (junk @ [CHR ''%'', h]) @ [NUL]) (?n + 2) = Some NUL" for x
      by (cases junk) (auto simp: mem_get_def nth_append)
    show ?thesis using g g1 s1 g2 unfolding 2 by (subst unescape_loop.simps) (auto simp: hex_NUL)
  next
    case 3
    have g1: "mem_get ?m (Suc ?n) = Some h" by (simp add: 3 mem_get_def nth_append)
    have s1: "mem_set ?m (length out) x = Some (out @ x # tl (junk @ [CHR ''%'', h, l]) @ r @ [NUL])" for x
      unfolding 3 by (subst mem_set_at) (auto simp: tl_append split: list.splits)
    have g2: "mem_get (out @ x # tl (junk @ [CHR ''%'', h, l]) @ r @ [NUL]) (?n + 2) = Some l" for x
      by (cases junk) (auto simp: mem_get_def nth_append)
    show ?thesis using assms(2) [OF 3]
      using g g1 s1 g2 unfolding 3 by (subst unescape_loop.simps) auto
  qed
qed

lemma unescape_loop_decode:
  "(case percent_decode rest of
      Some t \<Rightarrow> \<exists>z. unescape_loop (out @ junk @ rest @ [NUL]) (length out + length junk + length rest)
        (length out + length junk) (length out) = Some (0, out @ t @ NUL # z)
    | None \<Rightarrow> \<exists>mem. unescape_loop (out @ junk @ rest @ [NUL]) (length out + length junk + length rest)
        (length out + length junk) (length out) = Some (-1, mem))"
proof (induction rest arbitrary: out junk rule: percent_decode.induct)
  case 1
  have "mem_set (out @ junk @ [NUL]) (length out) NUL = Some (out @ NUL # tl (junk @ [NUL]))"
    by (subst mem_set_at) auto
  then show ?case by (subst unescape_loop.simps) simp
next
  case (2 c s)
  show ?case
  proof (cases "c = CHR ''%''")
    case False
    from 2(1) [OF False, of "out @ [c]" "tl (junk @ [c])"] unescape_step [OF False, of out junk s] False
    show ?thesis by (auto split: option.splits)
  next
    case True
    show ?thesis
    proof (cases "\<exists>h l r. s = h # l # r \<and> hex_char_to_int h \<noteq> -1 \<and> hex_char_to_int l \<noteq> -1")
      case good: True
      then obtain h l r where s: "s = h # l # r" and hl: "hex_char_to_int h \<noteq> -1" "hex_char_to_int l \<noteq> -1"
        by blast
      let ?y = "to_char (hex_char_to_int h * 16 + hex_char_to_int l)"
      from 2(2) [of h "l # r" l r "out @ [?y]" "tl (junk @ [CHR ''%'', h, l])"] True s hl
        unescape_hex_step [OF hl, of out junk r]
      show ?thesis by (auto split: option.splits)
    next
      case bad: False
      have "percent_decode (CHR ''%'' # s) = None"
        using bad by (auto split: list.splits)
      moreover from unescape_bad [OF this, of out junk] bad
      have "\<exists>mem. unescape_loop (out @ junk @ CHR ''%'' # s @ [NUL])
        (length out + length junk + length (CHR ''%'' # s)) (length out + length junk) (length out)
        = Some (-1, mem)" by blast
      ultimately show ?thesis using True by (simp del: percent_decode.simps)
    qed
  qed
qed

lemma unescape_decode:
  assumes "plain s"
  shows "case percent_decode s of
      Some t \<Rightarrow> \<exists>z. unescape (s @ [NUL]) = Some (0, t @ NUL # z)
    | None \<Rightarrow> \<exists>mem. unescape (s @ [NUL]) = Some (-1, mem)"
  using unescape_loop_decode [where rest = s and out = "[]" and junk = "[]"] cstr_plain [OF assms, of "[]"]
  by (auto simp: unescape_def split: option.splits)

section \<open>Escaping\<close>

definition hex_digit :: "nat \<Rightarrow> char" where
  "hex_digit n = (if n < 10 then char_of (48 + n) else char_of (87 + n))"

definition percent_encode :: "string \<Rightarrow> string" where
  "percent_encode s =
     concat (map (\<lambda>c. [CHR ''%'', hex_digit (of_char c div 16), hex_digit (of_char c mod 16)]) s)"

lemma hex_digit_value: "n < 16 \<Longrightarrow> hex_char_to_int (hex_digit n) = int n"
proof -
  have "\<forall>n < 16. hex_char_to_int (hex_digit n) = int n"
    by code_simp
  then show "n < 16 \<Longrightarrow> hex_char_to_int (hex_digit n) = int n" by blast
qed

lemma of_char_lt [simp]: "(of_char c :: nat) < 256"
  using of_char_of [of "of_char c :: nat"] by simp

lemma to_char_of_char: "to_char (int (of_char c div 16) * 16 + int (of_char c mod 16)) = c"
proof -
  have "int (of_char c div 16) * 16 + int (of_char c mod 16) = int (of_char c)"
    by (simp flip: of_nat_mult of_nat_add add: zdiv_int zmod_int)
  then show ?thesis by (simp add: to_char_def)
qed

lemma percent_decode_hex:
  "a < 16 \<Longrightarrow> b < 16 \<Longrightarrow> percent_decode (CHR ''%'' # hex_digit a # hex_digit b # r)
    = map_option ((#) (to_char (int a * 16 + int b))) (percent_decode r)"
  by (simp add: hex_digit_value)

lemma percent_decode_encode: "percent_decode (percent_encode s) = Some s"
proof (induction s)
  case (Cons c s)
  have d: "(of_char c :: nat) div 16 < 16" using of_char_lt [of c] by (intro less_mult_imp_div_less) simp
  have "percent_encode (c # s) = CHR ''%'' # hex_digit (of_char c div 16) # hex_digit (of_char c mod 16)
      # percent_encode s" by (simp add: percent_encode_def)
  moreover have "(of_char c :: nat) mod 16 < 16" by simp
  ultimately show ?case using percent_decode_hex [OF d, of "of_char c mod 16" "percent_encode s"] Cons
    unfolding to_char_of_char by (simp del: percent_decode.simps)
qed (simp add: percent_encode_def)

lemma percent_encode_plain: "plain (percent_encode s)"
proof -
  have "NUL \<noteq> hex_digit n" if "n < 16" for n
    using hex_digit_value [OF that] hex_NUL by auto
  moreover have "(of_char c :: nat) div 16 < 16" for c
    using of_char_lt [of c] by (intro less_mult_imp_div_less) simp
  moreover have "NUL \<noteq> CHR ''%''" by (simp add: NUL_def)
  ultimately show ?thesis unfolding plain_def percent_encode_def by simp
qed

section \<open>Base64 in place\<close>

text \<open>The bytes \<open>decodeBase64\<close> writes, as a function of the string.\<close>

fun base64_bytes :: "string \<Rightarrow> u32 \<Rightarrow> nat \<Rightarrow> string" where
  "base64_bytes [] ch i = []"
| "base64_bytes (t # s) ch i =
     (case base64_value t of
        None \<Rightarrow> base64_bytes s ch i
      | Some v \<Rightarrow>
          (let ch = push_bit 6 ch OR of_nat v in
           if i + 1 = 4 then
             to_char (uint (drop_bit 16 ch)) # to_char (uint (drop_bit 8 ch)) # to_char (uint ch)
               # base64_bytes s ch 0
           else base64_bytes s ch (i + 1)))"

lemma decode_loop_write:
  "mem_get M p = Some t \<Longrightarrow> t \<noteq> NUL \<Longrightarrow> base64_value t = Some v \<Longrightarrow> i + 1 = 4 \<Longrightarrow>
   ch' = push_bit 6 ch OR of_nat v \<Longrightarrow>
   mem_write M q [to_char (uint (drop_bit 16 ch')), to_char (uint (drop_bit 8 ch')), to_char (uint ch')] = Some M1
   \<Longrightarrow> decode_loop M p q ch i = decode_loop M1 (p + 1) (q + 3) ch' 0"
  by (subst decode_loop.simps) (simp add: Let_def del: drop_bit_or)

lemma decode_loop_bytes:
  assumes "plain s" "i \<le> length junk" "i < 4"
  shows "\<exists>z. decode_loop (out @ junk @ s @ NUL # r) (length out + length junk) (length out) ch i
    = Some (out @ base64_bytes s ch i @ NUL # z) \<and> length (base64_bytes s ch i @ NUL # z) = length (junk @ s @ NUL # r)"
  using assms
proof (induction s arbitrary: out junk ch i)
  case Nil
  have "mem_get (out @ junk @ NUL # r) (length out + length junk) = Some NUL"
    by (simp add: mem_get_def nth_append)
  moreover have "mem_set (out @ junk @ NUL # r) (length out) NUL = Some (out @ NUL # tl (junk @ NUL # r))"
    by (subst mem_set_at) auto
  ultimately show ?case by (subst decode_loop.simps) auto
next
  case (Cons t s)
  have t: "t \<noteq> NUL" "plain s" using Cons.prems by (auto simp: plain_def)
  have g: "mem_get (out @ junk @ (t # s) @ NUL # r) (length out + length junk) = Some t"
    by (simp add: mem_get_def nth_append)
  have shift: "out @ junk @ (t # s) @ NUL # r = out @ (junk @ [t]) @ s @ NUL # r" by simp
  show ?case
  proof (cases "base64_value t")
    case None
    with Cons.IH [OF t(2), of i "junk @ [t]" out ch] Cons.prems g t(1) show ?thesis
      by (subst decode_loop.simps) auto
  next
    case (Some v)
    let ?ch = "push_bit 6 ch OR of_nat v :: u32"
    show ?thesis
    proof (cases "i + 1 = 4")
      case False
      with Cons.IH [OF t(2), of "i + 1" "junk @ [t]" out ?ch] Cons.prems g t(1) Some show ?thesis
        by (subst decode_loop.simps) (auto simp: Let_def)
    next
      case True
      let ?b = "[to_char (uint (drop_bit 16 ?ch)), to_char (uint (drop_bit 8 ?ch)), to_char (uint ?ch)]"
      have "3 \<le> length junk" using True Cons.prems by simp
      then have w: "mem_write (out @ junk @ (t # s) @ NUL # r) (length out) ?b
          = Some ((out @ ?b) @ drop 3 (junk @ [t]) @ s @ NUL # r)"
        by (simp add: mem_write_def)
      have l: "length out + length junk + 1 = length (out @ ?b) + length (drop 3 (junk @ [t]))"
        using \<open>3 \<le> length junk\<close> by simp
      from Cons.IH [OF t(2), of 0 "drop 3 (junk @ [t])" "out @ ?b" ?ch]
      obtain z where z: "decode_loop ((out @ ?b) @ drop 3 (junk @ [t]) @ s @ NUL # r)
          (length (out @ ?b) + length (drop 3 (junk @ [t]))) (length (out @ ?b)) ?ch 0
        = Some ((out @ ?b) @ base64_bytes s ?ch 0 @ NUL # z)"
        "length (base64_bytes s ?ch 0 @ NUL # z) = length (drop 3 (junk @ [t]) @ s @ NUL # r)" by auto
      have q: "length out + 3 = length (out @ ?b)" by simp
      have "decode_loop (out @ junk @ (t # s) @ NUL # r) (length out + length junk) (length out) ch i
          = Some ((out @ ?b) @ base64_bytes s ?ch 0 @ NUL # z)"
        using decode_loop_write [OF g t(1) Some True refl w] z(1) unfolding l q by (rule trans)
      moreover have "base64_bytes (t # s) ch i = ?b @ base64_bytes s ?ch 0"
        using Some True by (simp add: Let_def)
      ultimately show ?thesis using z(2) \<open>3 \<le> length junk\<close> by (intro exI [of _ z]) simp
    qed
  qed
qed

lemma decodeBase64_bytes:
  assumes "plain s"
  shows "\<exists>z. decodeBase64 (s @ [NUL]) = Some (base64_bytes s 0 0 @ NUL # z) \<and>
    length (base64_bytes s 0 0 @ NUL # z) = length (s @ [NUL])"
  using decode_loop_bytes [OF assms, where i = 0 and junk = "[]" and out = "[]" and ch = 0 and r = "[]"]
  by (simp add: decodeBase64_def)

text \<open>The encoding of RFC 4648.\<close>

definition base64_char :: "nat \<Rightarrow> char" where
  "base64_char v =
     (if v < 26 then char_of (65 + v) else if v < 52 then char_of (71 + v)
      else if v < 62 then char_of (v - 4) else if v = 62 then CHR ''+'' else CHR ''/'')"

fun base64_encode :: "string \<Rightarrow> string" where
  "base64_encode [] = []"
| "base64_encode [a] =
     (let n = of_char a in [base64_char (n div 4), base64_char (n mod 4 * 16), CHR ''='', CHR ''=''])"
| "base64_encode [a, b] =
     (let n = of_char a; m = of_char b
      in [base64_char (n div 4), base64_char (n mod 4 * 16 + m div 16), base64_char (m mod 16 * 4), CHR ''=''])"
| "base64_encode (a # b # c # s) =
     (let n = of_char a; m = of_char b; k = of_char c
      in base64_char (n div 4) # base64_char (n mod 4 * 16 + m div 16)
         # base64_char (m mod 16 * 4 + k div 64) # base64_char (k mod 64) # base64_encode s)"

lemma base64_char_value: "v < 64 \<Longrightarrow> base64_value (base64_char v) = Some v"
proof -
  assume v: "v < 64"
  consider "v < 26" | "26 \<le> v" "v < 52" | "52 \<le> v" "v < 62" | "v = 62" | "v = 63" using v by linarith
  then show "base64_value (base64_char v) = Some v"
    by cases (auto simp: base64_char_def base64_value_def less_eq_char_def)
qed

lemma base64_value_NUL: "base64_value NUL = None" "base64_value (CHR ''='') = Some 0"
  by (simp_all add: base64_value_def NUL_def)

text \<open>Four values accumulate to a 24-bit number below whatever was in \<open>ch\<close>.\<close>

lemma accumulate: "v < 64 \<Longrightarrow> push_bit 6 ch OR of_nat v = ch * 64 + (of_nat v :: u32)"
proof -
  assume v: "v < 64"
  have "push_bit 6 ch AND (of_nat v :: u32) = 0"
  proof (rule bit_eqI)
    fix n assume "possible_bit TYPE(32 word) n"
    have "\<not> bit v n" if "6 \<le> n"
    proof -
      have "(64 :: nat) \<le> 2 ^ n" using power_increasing [OF that, of "2 :: nat"] by simp
      with v show ?thesis by (simp add: bit_iff_odd)
    qed
    then show "bit (push_bit 6 ch AND (of_nat v :: u32)) n = bit (0 :: u32) n"
      by (auto simp: bit_simps)
  qed
  then show ?thesis by (simp add: disjunctive_add_eq_or [symmetric] push_bit_eq_mult)
qed

lemma high_bits:
  fixes q N :: int
  assumes "0 \<le> N" "N < 16777216"
  shows "(q * 16777216 + N) mod 4294967296 = q mod 256 * 16777216 + N"
proof -
  have "0 \<le> q mod 256 * 16777216 + N" "q mod 256 * 16777216 + N < 4294967296"
    using assms pos_mod_bound [of 256 q] by auto
  moreover have "q * 16777216 + N = (q mod 256 * 16777216 + N) + q div 256 * 4294967296"
    using div_mult_mod_eq [of q 256] by (simp add: algebra_simps) presburger
  ultimately show ?thesis by (simp only: mod_mult_self1) (rule mod_pos_pos_trivial)
qed

lemma low_bytes:
  fixes r N :: int
  shows "(r * 16777216 + N) div 65536 mod 256 = N div 65536 mod 256"
    and "(r * 16777216 + N) div 256 mod 256 = N div 256 mod 256"
    and "(r * 16777216 + N) mod 256 = N mod 256"
proof -
  have "(r * 16777216 + N) div 65536 = r * 256 + N div 65536"
    using div_mult_self3 [of 65536 "r * 256" N] by (simp add: mult.assoc)
  then show "(r * 16777216 + N) div 65536 mod 256 = N div 65536 mod 256" by simp
  have "(r * 16777216 + N) div 256 = r * 65536 + N div 256"
    using div_mult_self3 [of 256 "r * 65536" N] by (simp add: mult.assoc)
  moreover have "r * 65536 = r * 256 * 256" by simp
  ultimately show "(r * 16777216 + N) div 256 mod 256 = N div 256 mod 256" by (simp only: mod_mult_self3)
  have "r * 16777216 = r * 65536 * 256" by simp
  then show "(r * 16777216 + N) mod 256 = N mod 256" by (simp only: mod_mult_self3)
qed

lemma to_char_mod: "to_char x = to_char (x mod 256)"
  by (simp add: to_char_def)

lemma accumulate_four:
  assumes "v1 < 64" "v2 < 64" "v3 < 64" "v4 < 64"
  shows "push_bit 6 (push_bit 6 (push_bit 6 (push_bit 6 ch OR of_nat v1) OR of_nat v2) OR of_nat v3) OR of_nat v4
    = ch * 16777216 + (of_nat (v1 * 262144 + v2 * 4096 + v3 * 64 + v4) :: u32)"
  using assms by (simp only: accumulate of_nat_add of_nat_mult of_nat_numeral) (simp add: distrib_right)

lemma uint_accumulated:
  assumes "N < 16777216"
  shows "uint (ch * 16777216 + of_nat N :: u32) = uint ch mod 256 * 16777216 + int N"
proof -
  have "uint (of_nat N :: u32) = int N" using assms by (simp add: uint_nat unat_of_nat)
  then have "uint (ch * 16777216 + of_nat N :: u32) = (uint ch * 16777216 + int N) mod 4294967296"
    by (simp add: uint_word_ariths mod_simps)
  then show ?thesis using high_bits [of "int N" "uint ch"] assms by simp
qed

lemma written_bytes:
  assumes "N < 16777216" and "ch' = (ch * 16777216 + of_nat N :: u32)"
  shows "to_char (uint (drop_bit 16 ch')) = to_char (int (N div 65536))"
    and "to_char (uint (drop_bit 8 ch')) = to_char (int (N div 256))"
    and "to_char (uint ch') = to_char (int N)"
proof -
  note u = uint_accumulated [OF assms(1), of ch, folded assms(2)]
  have t: "take_bit 32 (uint ch') = uint ch'"
    using uint_bounded [of ch'] by (intro take_bit_int_eq_self) simp_all
  have d: "uint (drop_bit 16 ch') = uint ch' div 65536" "uint (drop_bit 8 ch') = uint ch' div 256"
    by (simp_all only: unsigned_drop_bit_eq) (simp_all add: drop_bit_eq_div t)
  show "to_char (uint (drop_bit 16 ch')) = to_char (int (N div 65536))"
    unfolding d u by (subst (1 2) to_char_mod) (simp only: low_bytes zdiv_int of_nat_numeral)
  show "to_char (uint (drop_bit 8 ch')) = to_char (int (N div 256))"
    unfolding d u by (subst (1 2) to_char_mod) (simp only: low_bytes zdiv_int of_nat_numeral)
  show "to_char (uint ch') = to_char (int N)"
    unfolding u by (subst (1 2) to_char_mod) (simp only: low_bytes)
qed

lemma base64_bytes_three:
  "base64_value c1 = Some v1 \<Longrightarrow> base64_value c2 = Some v2 \<Longrightarrow> base64_value c3 = Some v3 \<Longrightarrow>
   base64_bytes (c1 # c2 # c3 # s) ch 0 =
    base64_bytes s (push_bit 6 (push_bit 6 (push_bit 6 ch OR of_nat v1) OR of_nat v2) OR of_nat v3) 3"
  by (simp add: Let_def numeral_3_eq_3 del: push_bit_or)

lemma base64_bytes_fourth:
  "base64_value c = Some v \<Longrightarrow> ch' = push_bit 6 ch OR of_nat v \<Longrightarrow>
   base64_bytes (c # s) ch 3 = to_char (uint (drop_bit 16 ch')) # to_char (uint (drop_bit 8 ch'))
     # to_char (uint ch') # base64_bytes s ch' 0"
  by (simp add: Let_def del: push_bit_or drop_bit_or)

lemma four_values:
  assumes v: "base64_value c1 = Some v1" "base64_value c2 = Some v2" "base64_value c3 = Some v3"
    "base64_value c4 = Some v4" "v1 < 64" "v2 < 64" "v3 < 64" "v4 < 64"
    and N: "N = v1 * 262144 + v2 * 4096 + v3 * 64 + v4"
  shows "\<exists>ch'. base64_bytes (c1 # c2 # c3 # c4 # s) ch 0 =
    to_char (int (N div 65536)) # to_char (int (N div 256)) # to_char (int N) # base64_bytes s ch' 0"
proof -
  have lt: "N < 16777216" using v(5-8) N by simp
  note acc = accumulate_four [OF v(5-8), of ch, folded N, symmetric]
  show ?thesis
    unfolding base64_bytes_three [OF v(1-3)] base64_bytes_fourth [OF v(4) acc] written_bytes [OF lt refl]
    by blast
qed

lemma base64_skip: "\<forall>c \<in> set tail. base64_value c = None \<Longrightarrow> base64_bytes tail ch i = []"
  by (induction tail) auto

lemma to_char_code: "to_char (int (of_char c)) = c"
  by (simp add: to_char_def)

text \<open>Three bytes \<open>n\<close>, \<open>m\<close> and \<open>k\<close> and the four values they are written as.\<close>

lemma triple_number:
  "n * 65536 + m * 256 + k
    = n div 4 * 262144 + (n mod 4 * 16 + m div 16) * 4096 + (m mod 16 * 4 + k div 64) * 64 + k mod 64"
  for n m k :: nat
proof -
  have "n * 65536 + m * 256 + k = (n div 4 * 4 + n mod 4) * 65536 + (m div 16 * 16 + m mod 16) * 256
      + (k div 64 * 64 + k mod 64)" by simp
  then show ?thesis by (simp only: distrib_right mult.assoc add.assoc)
qed

lemma triple_values:
  fixes n m k :: nat
  assumes "n < 256" "m < 256" "k < 256"
  shows "n div 4 < 64" "n mod 4 * 16 + m div 16 < 64" "m mod 16 * 4 + k div 64 < 64" "k mod 64 < 64"
proof -
  have "m div 16 < 16" "k div 64 < 4" "n mod 4 < 4" "m mod 16 < 16"
    using assms by (auto intro: less_mult_imp_div_less)
  then show "n mod 4 * 16 + m div 16 < 64" "m mod 16 * 4 + k div 64 < 64" by auto
  show "n div 4 < 64" using assms by (auto intro: less_mult_imp_div_less)
qed simp

lemma triple_bytes:
  fixes n m k :: nat
  assumes "m < 256" "k < 256"
  shows "(n * 65536 + m * 256 + k) div 65536 = n"
    and "to_char (int ((n * 65536 + m * 256 + k) div 256)) = to_char (int m)"
    and "to_char (int (n * 65536 + m * 256 + k)) = to_char (int k)"
proof -
  show "(n * 65536 + m * 256 + k) div 65536 = n" using assms by (intro div_nat_eqI) auto
  have "(n * 65536 + m * 256 + k) div 256 = n * 256 + m" using assms by (intro div_nat_eqI) auto
  then show "to_char (int ((n * 65536 + m * 256 + k) div 256)) = to_char (int m)"
    by (simp add: to_char_mod [of "_ + _"]) (simp flip: to_char_mod)
  have "int (n * 65536 + m * 256 + k) = (int n * 256 + int m) * 256 + int k" by simp
  then show "to_char (int (n * 65536 + m * 256 + k)) = to_char (int k)"
    by (metis to_char_mod mod_mult_self3)
qed

lemma base64_triple:
  assumes "base64_value c3 = Some (m mod 16 * 4 + k div 64)" "base64_value c4 = Some (k mod 64)"
    "n < 256" "m < 256" "k < 256"
  shows "\<exists>ch'. base64_bytes (base64_char (n div 4) # base64_char (n mod 4 * 16 + m div 16) # c3 # c4 # s) ch 0
    = to_char (int n) # to_char (int m) # to_char (int k) # base64_bytes s ch' 0"
proof -
  note v = triple_values [OF assms(3-5)]
  show ?thesis
    using four_values [OF base64_char_value [OF v(1)] base64_char_value [OF v(2)] assms(1,2) v triple_number,
      of s ch] triple_bytes [OF assms(4,5), of n]
    by (simp only:)
qed

lemma base64_char_plain: "v < 64 \<Longrightarrow> NUL \<noteq> base64_char v"
  using base64_char_value base64_value_NUL(1) by force

lemma base64_encode_plain: "NUL \<notin> set (base64_encode s)"
proof (induction s rule: base64_encode.induct)
  case (2 a)
  have v: "of_char a div 4 < (64 :: nat)" "of_char a mod 4 * 16 < (64 :: nat)"
    using triple_values [of "of_char a" 0 0] by simp_all
  show ?case using v [THEN base64_char_plain] by (simp add: Let_def NUL_def)
next
  case (3 a b)
  have v: "of_char a div 4 < (64 :: nat)" "of_char a mod 4 * 16 + of_char b div 16 < (64 :: nat)"
    "of_char b mod 16 * 4 < (64 :: nat)"
    using triple_values [of "of_char a" "of_char b" 0] by simp_all
  show ?case using v [THEN base64_char_plain] by (simp add: Let_def NUL_def)
next
  case (4 a b c s)
  have v: "of_char a div 4 < (64 :: nat)" "of_char a mod 4 * 16 + of_char b div 16 < (64 :: nat)"
    "of_char b mod 16 * 4 + of_char c div 64 < (64 :: nat)" "of_char c mod 64 < (64 :: nat)"
    using triple_values [of "of_char a" "of_char b" "of_char c"] by simp_all
  have "NUL \<notin> set (base64_encode s)" using 4 by blast
  then show ?case using v [THEN base64_char_plain] by (simp only: base64_encode.simps Let_def list.set insert_iff) blast
qed simp

text \<open>Decoding gives the text back, followed by a NUL for each padding character.\<close>

lemma group_code_roundtrip:
  assumes "\<forall>c \<in> set tail. base64_value c = None"
  shows "\<exists>k. base64_bytes (base64_encode s @ tail) ch 0 = s @ replicate k NUL"
proof (induction s arbitrary: ch rule: base64_encode.induct)
  case 1
  then show ?case using base64_skip [OF assms] by (intro exI [of _ 0]) simp
next
  case (2 a)
  have "to_char 0 = NUL" by code_simp
  with base64_triple [of "CHR ''=''" 0 0 "CHR ''=''" "of_char a" tail ch] base64_skip [OF assms]
  show ?case
    by (intro exI [of _ 2]) (auto simp: Let_def to_char_code base64_value_NUL numeral_2_eq_2)
next
  case (3 a b)
  have "to_char 0 = NUL" by code_simp
  moreover have "of_char b mod 16 * 4 < (64 :: nat)" using triple_values [of 0 "of_char b" 0] by simp
  ultimately show ?case
    using base64_triple [of "base64_char (of_char b mod 16 * 4)" "of_char b" 0 "CHR ''=''" "of_char a" tail ch]
      base64_skip [OF assms]
    by (intro exI [of _ 1]) (auto simp: Let_def to_char_code base64_value_NUL base64_char_value)
next
  case (4 a b c s)
  have v: "of_char b mod 16 * 4 + of_char c div 64 < (64 :: nat)" "of_char c mod 64 < (64 :: nat)"
    using triple_values [of 0 "of_char b" "of_char c"] by auto
  from base64_triple [OF base64_char_value [OF v(1)] base64_char_value [OF v(2)], of "of_char a"
      "base64_encode s @ tail" ch]
  obtain ch' where "base64_bytes (base64_encode (a # b # c # s) @ tail) ch 0
      = a # b # c # base64_bytes (base64_encode s @ tail) ch' 0"
    by (auto simp: Let_def to_char_code)
  moreover have "\<exists>k. base64_bytes (base64_encode s @ tail) ch' 0 = s @ replicate k NUL" using 4 by blast
  ultimately show ?case by auto
qed

section \<open>Properties\<close>

text \<open>
  C38: \<open>unescape\<close> never reads or writes outside the string it is given, also for a string that
  ends in the middle of an escape: it returns 0 and leaves the decoded text when every % is
  followed by two hexadecimal digits, and -1 otherwise.
\<close>

theorem unescape_correct:
  assumes "plain s"
  shows "case percent_decode s of
      Some t \<Rightarrow> \<exists>mem. unescape (s @ [NUL]) = Some (0, mem) \<and> cstr mem = cstr (t @ [NUL])
    | None \<Rightarrow> \<exists>mem. unescape (s @ [NUL]) = Some (-1, mem)"
  using unescape_decode [OF assms]
  by (auto simp: cstr_def takeWhile_append split: option.splits)

theorem unescape_correct_witness:
  "\<exists>mem. unescape (''dest=0%26id=%7'' @ [NUL]) = Some (-1, mem)"
proof -
  have "plain ''dest=0%26id=%7''" by code_simp
  moreover have "percent_decode ''dest=0%26id=%7'' = None" by code_simp
  ultimately show ?thesis using unescape_correct by fastforce
qed

text \<open>
  Every text survives percent-encoding: \<open>unescape\<close> of its encoding returns 0 and leaves the
  text (up to its first NUL, where a C string ends).
\<close>

theorem unescape_roundtrip:
  "\<exists>mem. unescape (percent_encode s @ [NUL]) = Some (0, mem) \<and> cstr mem = cstr (s @ [NUL])"
  using unescape_decode [OF percent_encode_plain, of s]
  by (auto simp: percent_decode_encode cstr_def takeWhile_append)

text \<open>
  C38: \<open>decodeBase64\<close> stays inside its buffer for every string, and on the RFC 4648 encoding of a
  text, followed by characters that are not base64 such as the line end of a header, it leaves
  exactly that text.
\<close>

theorem decodeBase64_roundtrip:
  assumes "plain tail" and "\<forall>c \<in> set tail. base64_value c = None"
  shows "(plain s \<longrightarrow> (\<exists>mem. decodeBase64 (s @ [NUL]) = Some mem \<and> length mem = length s + 1)) \<and>
    (plain msg \<longrightarrow> (\<exists>mem. decodeBase64 (base64_encode msg @ tail @ [NUL]) = Some mem \<and> cstr mem = msg))"
proof (intro conjI impI)
  show "\<exists>mem. decodeBase64 (s @ [NUL]) = Some mem \<and> length mem = length s + 1" if "plain s"
    using decodeBase64_bytes [OF that] by auto
next
  assume m: "plain msg"
  have p: "plain (base64_encode msg @ tail)" using assms(1) base64_encode_plain by (simp add: plain_def)
  obtain z where "decodeBase64 ((base64_encode msg @ tail) @ [NUL])
      = Some (base64_bytes (base64_encode msg @ tail) 0 0 @ NUL # z)"
    using decodeBase64_bytes [OF p] by blast
  moreover obtain k where "base64_bytes (base64_encode msg @ tail) 0 0 = msg @ replicate k NUL"
    using group_code_roundtrip [OF assms(2)] by blast
  moreover have "cstr (msg @ replicate k NUL @ NUL # z) = msg"
    using cstr_plain [OF m] by (cases k) simp_all
  ultimately show "\<exists>mem. decodeBase64 (base64_encode msg @ tail @ [NUL]) = Some mem \<and> cstr mem = msg"
    by simp
qed

theorem decodeBase64_roundtrip_witness:
  "\<exists>mem. decodeBase64 (''YWRtaW46c2VjcmV0'' @ [CHR 0x0D, CHR 0x0A, NUL]) = Some mem \<and> cstr mem = ''admin:secret''"
proof -
  have "base64_encode ''admin:secret'' = ''YWRtaW46c2VjcmV0''" by code_simp
  moreover have "plain [CHR 0x0D, CHR 0x0A]" "plain ''admin:secret''" by code_simp+
  moreover have "\<forall>c \<in> set [CHR 0x0D, CHR 0x0A]. base64_value c = None" by code_simp
  ultimately show ?thesis using decodeBase64_roundtrip [of "[CHR 0x0D, CHR 0x0A]" "[]" "''admin:secret''"] by simp
qed

end
