(* ===== verification/Http_Read.thy ===== *)
theory Http_Read
  imports Http_Text
begin

text \<open>
  The input side of mjpg-streamer/plugins/output_http/httpd.c: the \<open>iobuffer\<close>, \<open>_read\<close> and
  \<open>_readline\<close>. The socket is a list of events, one for each \<open>select\<close>: it says that data can be
  read and what the peer has sent by then, that the timeout passed, or that \<open>select\<close> or \<open>read\<close>
  failed; a list that has ended is a peer that stays silent. \<open>read\<close> hands over at most
  \<open>IO_BUFFER\<close> bytes and the rest stays in the socket. An access outside a buffer is None.
\<close>

section \<open>State\<close>

definition IO_BUFFER :: nat where "IO_BUFFER = 256"

record iobuffer =
  io_level :: int
  io_data :: "char list"

datatype net_event = Readable "char list" | Quiet | Select_failed | Read_failed

text \<open>\<open>exit(EXIT_FAILURE)\<close> ends the process, so it is kept apart from a return.\<close>

datatype read_result = Exit_failure | Returned int

definition init_iobuffer :: iobuffer where
  "init_iobuffer = \<lparr>io_level = 0, io_data = replicate IO_BUFFER NUL\<rparr>"

section \<open>Reading\<close>

text \<open>\<open>MIN(iobuf->level, len - copied)\<close>: the level is compared as a size_t.\<close>

definition min_level :: "int \<Rightarrow> nat \<Rightarrow> nat" where
  "min_level lvl n = (if lvl < 0 then n else min (nat lvl) n)"

text \<open>\<open>read\<close> into a cleared buffer and the alignment to its end.\<close>

definition refill :: "char list \<Rightarrow> iobuffer" where
  "refill got = \<lparr>io_level = int (length got),
     io_data = take (IO_BUFFER - length got) (got @ replicate (IO_BUFFER - length got) NUL) @ got\<rparr>"

definition unread :: "char list \<Rightarrow> net_event list \<Rightarrow> net_event list" where
  "unread bs evs = (if length bs \<le> IO_BUFFER then evs else Readable (drop IO_BUFFER bs) # evs)"

fun event_size :: "net_event \<Rightarrow> nat" where
  "event_size (Readable bs) = length bs + 1"
| "event_size _ = 1"

definition events_size :: "net_event list \<Rightarrow> nat" where
  "events_size evs = sum_list (List.map event_size evs)"

lemma unread_size: "events_size (unread bs evs) + length (take IO_BUFFER bs) \<le> events_size (Readable bs # evs)"
  by (auto simp: unread_def events_size_def IO_BUFFER_def)

function read_loop :: "iobuffer \<Rightarrow> char list \<Rightarrow> nat \<Rightarrow> nat \<Rightarrow> net_event list
    \<Rightarrow> (read_result \<times> iobuffer \<times> char list \<times> net_event list) option" where
  "read_loop io out copied len evs =
     (if copied < len then
        (let i = min_level (io_level io) (len - copied) in
         case mem_read (io_data io) (nat (int IO_BUFFER - io_level io)) i of
           None \<Rightarrow> None
         | Some bs \<Rightarrow>
           (case mem_write out copied bs of
             None \<Rightarrow> None
           | Some out \<Rightarrow>
              (let io = io\<lparr>io_level := io_level io - int i\<rparr>; copied = copied + i in
               if copied \<ge> len then Some (Returned (int copied), io, out, evs)
               else (case evs of
                   [] \<Rightarrow> Some (Returned (int copied), io, out, [])
                 | Quiet # evs \<Rightarrow> Some (Returned (int copied), io, out, evs)
                 | Select_failed # evs \<Rightarrow> Some (Exit_failure, io, out, evs)
                 | Read_failed # evs \<Rightarrow> Some (Returned (-1), init_iobuffer\<lparr>io_level := -1\<rparr>, out, evs)
                 | Readable sent # evs \<Rightarrow>
                     (if sent = [] then Some (Returned (-1), init_iobuffer, out, evs)
                      else read_loop (refill (take IO_BUFFER sent)) out copied len (unread sent evs))))))
      else Some (Returned 0, io, out, evs))"
  by pat_completeness auto
termination
  by (relation "measure (\<lambda>(io, out, copied, len, evs). events_size evs)")
    (auto simp: unread_def events_size_def IO_BUFFER_def)

declare read_loop.simps [simp del]

definition sock_read :: "iobuffer \<Rightarrow> nat \<Rightarrow> net_event list
    \<Rightarrow> (read_result \<times> iobuffer \<times> char list \<times> net_event list) option" where
  "sock_read io len evs = read_loop io (replicate len NUL) 0 len evs"

section \<open>Reading a line\<close>

text \<open>The loop of \<open>_readline\<close> after \<open>i\<close> chars; \<open>c\<close> is the last one.\<close>

function readline_loop :: "iobuffer \<Rightarrow> char list \<Rightarrow> nat \<Rightarrow> nat \<Rightarrow> char \<Rightarrow> net_event list
    \<Rightarrow> (read_result \<times> iobuffer \<times> char list \<times> net_event list) option" where
  "readline_loop io out i len c evs =
     (if i < len \<and> c \<noteq> CHR 0x0A then
        (case sock_read io 1 evs of
           None \<Rightarrow> None
         | Some (Exit_failure, io, cs, evs) \<Rightarrow> Some (Exit_failure, io, out, evs)
         | Some (Returned r, io, cs, evs) \<Rightarrow>
            (if r \<le> 0 then Some (Returned (-1), io, out, evs)
             else (case mem_set out i (cs ! 0) of
                 None \<Rightarrow> None
               | Some out \<Rightarrow> readline_loop io out (i + 1) len (cs ! 0) evs)))
      else Some (Returned (int i), io, out, evs))"
  by pat_completeness auto
termination by (relation "measure (\<lambda>(io, out, i, len, c, evs). len - i)") auto

declare readline_loop.simps [simp del]

definition readline :: "iobuffer \<Rightarrow> nat \<Rightarrow> net_event list
    \<Rightarrow> (read_result \<times> iobuffer \<times> char list \<times> net_event list) option" where
  "readline io len evs = readline_loop io (replicate len NUL) 0 len NUL evs"

section \<open>The bytes that arrive\<close>

text \<open>
  The reference: what the buffer still holds and what the peer sends until the first silence or
  failure, and the line at the start of it.
\<close>

definition io_ok :: "iobuffer \<Rightarrow> bool" where
  "io_ok io \<longleftrightarrow> 0 \<le> io_level io \<and> io_level io \<le> int IO_BUFFER \<and> length (io_data io) = IO_BUFFER"

definition io_pending :: "iobuffer \<Rightarrow> char list" where
  "io_pending io = drop (IO_BUFFER - nat (io_level io)) (io_data io)"

fun sent_bytes :: "net_event list \<Rightarrow> char list" where
  "sent_bytes (Readable bs # evs) = (if bs = [] then [] else bs @ sent_bytes evs)"
| "sent_bytes _ = []"

definition stream :: "iobuffer \<Rightarrow> net_event list \<Rightarrow> char list" where
  "stream io evs = io_pending io @ sent_bytes evs"

definition line_end :: "char list \<Rightarrow> nat" where
  "line_end bs = length (takeWhile (\<lambda>c. c \<noteq> CHR 0x0A) bs)"

text \<open>The first line of the bytes with its line feed, cut off after \<open>n\<close> chars.\<close>

definition first_line :: "nat \<Rightarrow> char list \<Rightarrow> char list" where
  "first_line n bs = take n (take (line_end bs + 1) bs)"

definition has_line :: "nat \<Rightarrow> char list \<Rightarrow> bool" where
  "has_line n bs \<longleftrightarrow> n \<le> length bs \<or> CHR 0x0A \<in> set bs"


section \<open>Lemmas\<close>

lemma refill_ok:
  assumes "length got \<le> IO_BUFFER"
  shows "io_ok (refill got)" and "io_pending (refill got) = got"
  using assms by (simp_all add: io_ok_def io_pending_def refill_def IO_BUFFER_def min_def)

lemma sent_unread:
  "bs \<noteq> [] \<Longrightarrow> take IO_BUFFER bs @ sent_bytes (unread bs evs) = bs @ sent_bytes evs"
  by (simp add: unread_def IO_BUFFER_def)

text \<open>A byte in the buffer is handed over; the buffer shrinks by it.\<close>

lemma read_buffered:
  assumes "io_ok io" "io_pending io = b # r"
  shows "\<exists>io'. read_loop io [NUL] 0 1 evs = Some (Returned 1, io', [b], evs) \<and>
    io_ok io' \<and> io_pending io' = r"
proof -
  obtain n where n: "io_level io = int n" "n \<le> IO_BUFFER" "length (io_data io) = IO_BUFFER"
    using assms(1) unfolding io_ok_def by (metis nat_int nat_le_iff zero_le_imp_eq_int of_nat_le_iff)
  have pos: "0 < n" using assms(2) n by (cases n) (simp_all add: io_pending_def)
  let ?k = "IO_BUFFER - n"
  have d: "drop ?k (io_data io) = b # r" using assms(2) n by (simp add: io_pending_def)
  have k: "nat (int IO_BUFFER - io_level io) = ?k" using n by simp
  have "?k + 1 \<le> length (io_data io)" using pos n by (simp add: IO_BUFFER_def)
  then have rd: "mem_read (io_data io) ?k 1 = Some [b]" by (simp add: mem_read_def d)
  have i: "min_level (io_level io) (1 - 0) = 1" using pos n by (simp add: min_level_def)
  have "drop (?k + 1) (io_data io) = r" using d by (metis drop_drop drop_Suc_Cons drop0 One_nat_def add.commute)
  moreover have "IO_BUFFER - nat (io_level io - 1) = ?k + 1" using pos n by simp
  ultimately have "io_pending (io\<lparr>io_level := io_level io - 1\<rparr>) = r" by (simp add: io_pending_def)
  moreover have "io_ok (io\<lparr>io_level := io_level io - 1\<rparr>)" using pos n by (simp add: io_ok_def)
  moreover have "read_loop io [NUL] 0 1 evs = Some (Returned 1, io\<lparr>io_level := io_level io - 1\<rparr>, [b], evs)"
    by (subst read_loop.simps) (simp only: i k rd Let_def, simp add: mem_write_def)
  ultimately show ?thesis by blast
qed

definition failed_read :: "read_result \<Rightarrow> bool" where
  "failed_read r \<longleftrightarrow> (case r of Exit_failure \<Rightarrow> True | Returned n \<Rightarrow> n \<le> 0)"

lemma read_empty:
  assumes "io_ok io" "io_pending io = []"
  shows "case evs of
      Readable sent # evs' \<Rightarrow>
        if sent = [] then read_loop io [NUL] 0 1 evs = Some (Returned (-1), init_iobuffer, [NUL], evs')
        else read_loop io [NUL] 0 1 evs
          = read_loop (refill (take IO_BUFFER sent)) [NUL] 0 1 (unread sent evs')
    | _ \<Rightarrow> \<exists>r io' evs'. read_loop io [NUL] 0 1 evs = Some (r, io', [NUL], evs') \<and> failed_read r"
proof -
  have l: "io_level io = 0" "length (io_data io) = IO_BUFFER"
    using assms by (auto simp: io_ok_def io_pending_def)
  have i: "min_level (io_level io) (1 - 0) = 0" by (simp add: l min_level_def)
  have rd: "mem_read (io_data io) (nat (int IO_BUFFER - io_level io)) 0 = Some []"
    by (simp add: l mem_read_def)
  have step: "read_loop io [NUL] 0 1 evs = (case evs of
        [] \<Rightarrow> Some (Returned 0, io\<lparr>io_level := 0\<rparr>, [NUL], [])
      | Quiet # evs \<Rightarrow> Some (Returned 0, io\<lparr>io_level := 0\<rparr>, [NUL], evs)
      | Select_failed # evs \<Rightarrow> Some (Exit_failure, io\<lparr>io_level := 0\<rparr>, [NUL], evs)
      | Read_failed # evs \<Rightarrow> Some (Returned (-1), init_iobuffer\<lparr>io_level := -1\<rparr>, [NUL], evs)
      | Readable sent # evs \<Rightarrow>
          (if sent = [] then Some (Returned (-1), init_iobuffer, [NUL], evs)
           else read_loop (refill (take IO_BUFFER sent)) [NUL] 0 1 (unread sent evs)))"
    by (subst read_loop.simps)
      (simp only: i rd Let_def add_0_right, simp add: mem_write_def l cong: list.case_cong net_event.case_cong)
  show ?thesis
    unfolding step failed_read_def by (cases evs) (simp, rename_tac e es, case_tac e, simp_all)
qed

text \<open>\<open>_read\<close> of one byte takes the next byte of the stream, or fails at its end.\<close>

lemma read_byte:
  assumes "io_ok io"
  shows "case stream io evs of
      [] \<Rightarrow> \<exists>r io' cs evs'. sock_read io 1 evs = Some (r, io', cs, evs') \<and> failed_read r
    | b # rest \<Rightarrow> \<exists>io' evs'. sock_read io 1 evs = Some (Returned 1, io', [b], evs') \<and>
        io_ok io' \<and> stream io' evs' = rest"
proof (cases "io_pending io")
  case (Cons b r)
  with read_buffered [OF assms Cons, of evs] show ?thesis
    by (fastforce simp: stream_def sock_read_def)
next
  case Nil
  note e = read_empty [OF assms Nil, of evs]
  show ?thesis
  proof (cases "\<exists>sent evs'. evs = Readable sent # evs' \<and> sent \<noteq> []")
    case False
    then have "stream io evs = []"
      by (cases evs rule: sent_bytes.cases) (auto simp: stream_def Nil)
    with e False show ?thesis
      by (auto simp: sock_read_def failed_read_def split: list.splits net_event.splits if_splits)
  next
    case True
    then obtain sent evs' where t: "evs = Readable sent # evs'" "sent \<noteq> []" by blast
    let ?got = "take IO_BUFFER sent"
    obtain b r where br: "?got = b # r" using t(2) by (cases ?got) (auto simp: IO_BUFFER_def)
    have "io_ok (refill ?got)" "io_pending (refill ?got) = b # r"
      using refill_ok [of ?got, unfolded length_take, OF min.cobounded2] unfolding br by blast+
    from read_buffered [OF this, of "unread sent evs'"]
    obtain io' where io': "read_loop (refill ?got) [NUL] 0 1 (unread sent evs')
        = Some (Returned 1, io', [b], unread sent evs')" "io_ok io'" "io_pending io' = r" by blast
    have "stream io evs = ?got @ sent_bytes (unread sent evs')"
      using t by (simp add: stream_def Nil sent_unread)
    then have "stream io evs = b # stream io' (unread sent evs')"
      by (simp add: br io'(3) stream_def)
    with e t io' show ?thesis by (auto simp: sock_read_def)
  qed
qed

lemma first_line_Nil: "n = 0 \<or> bs = [] \<Longrightarrow> first_line n bs = []"
  by (auto simp: first_line_def line_end_def)

lemma first_line_Cons:
  "first_line (Suc n) (b # bs) = b # (if b = CHR 0x0A then [] else first_line n bs)"
  by (simp add: first_line_def line_end_def)

lemma first_line_length: "length (first_line n bs) \<le> n"
  by (simp add: first_line_def)

definition line_failed :: "read_result \<Rightarrow> bool" where
  "line_failed r \<longleftrightarrow> r = Exit_failure \<or> r = Returned (-1)"

text \<open>The loop from the \<open>i\<close>th char on: the first line of the stream is appended.\<close>

lemma readline_loop_line:
  assumes "io_ok io" "i \<le> len" "length out = len" "c \<noteq> CHR 0x0A"
  shows "if has_line (len - i) (stream io evs)
    then let l = first_line (len - i) (stream io evs) in
      \<exists>io' evs'. readline_loop io out i len c evs
        = Some (Returned (int (i + length l)), io', take i out @ l @ drop (i + length l) out, evs') \<and>
        io_ok io' \<and> stream io' evs' = drop (length l) (stream io evs)
    else \<exists>r io' out' evs'. readline_loop io out i len c evs = Some (r, io', out', evs') \<and>
      length out' = len \<and> line_failed r"
  using assms
proof (induction "len - i" arbitrary: io out i c evs)
  case 0
  then have "i = len" by simp
  moreover have "readline_loop io out i len c evs = Some (Returned (int i), io, out, evs)"
    using \<open>i = len\<close> by (simp add: readline_loop.simps)
  ultimately show ?case using 0 by (simp add: has_line_def first_line_Nil Let_def)
next
  case (Suc m)
  then have lt: "i < len" by simp
  note step = readline_loop.simps [of io out i len c evs] read_byte [OF Suc.prems(1), of evs]
  show ?case
  proof (cases "stream io evs")
    case Nil
    then obtain r io1 cs evs1 where rd: "sock_read io 1 evs = Some (r, io1, cs, evs1)" "failed_read r"
      using step(2) by auto
    have "\<exists>r. readline_loop io out i len c evs = Some (r, io1, out, evs1) \<and> line_failed r"
      using step(1) rd lt Suc.prems(4) by (cases r) (auto simp: failed_read_def line_failed_def)
    moreover have "\<not> has_line (len - i) (stream io evs)" using Nil lt by (simp add: has_line_def)
    ultimately show ?thesis using Suc.prems(3) by auto
  next
    case (Cons b rest)
    then obtain io1 evs1 where rd: "sock_read io 1 evs = Some (Returned 1, io1, [b], evs1)"
      and ok: "io_ok io1" and rest: "stream io1 evs1 = rest" using step(2) by auto
    let ?out = "out[i := b]"
    have loop: "readline_loop io out i len c evs = readline_loop io1 ?out (i + 1) len b evs1"
      using step(1) rd lt Suc.prems by (simp add: mem_set_def)
    have tk: "take (Suc i) ?out = take i out @ [b]" "\<And>k. drop (Suc i + k) ?out = drop (Suc i + k) out"
      using lt Suc.prems(3) by (simp_all add: take_Suc_conv_app_nth)
    show ?thesis
    proof (cases "b = CHR 0x0A")
      case True
      have "readline_loop io1 ?out (i + 1) len b evs1 = Some (Returned (int (i + 1)), io1, ?out, evs1)"
        using True by (subst readline_loop.simps) simp
      moreover have "?out = take i out @ [b] @ drop (i + 1) out"
        using lt Suc.prems(3) by (simp add: upd_conv_take_nth_drop)
      ultimately show ?thesis
        using loop ok rest True Cons Suc.hyps(2)
        by (simp add: has_line_def first_line_Cons Let_def flip: Suc.hyps(2))
    next
      case False
      have m: "m = len - (i + 1)" using Suc.hyps(2) by simp
      have "i + 1 \<le> len" "length ?out = len" using lt Suc.prems(3) by simp_all
      note IH = Suc.hyps(1) [OF m ok this False, of evs1, unfolded rest]
      have hl: "has_line (len - i) (b # rest) = has_line (len - (i + 1)) rest"
        using False lt by (auto simp: has_line_def)
      have fl: "first_line (len - i) (b # rest) = b # first_line (len - (i + 1)) rest"
        using False Suc.hyps(2) m by (simp add: first_line_Cons flip: Suc.hyps(2))
      show ?thesis
        using IH unfolding loop Cons hl fl
        by (auto simp add: Let_def tk algebra_simps split: if_splits)
    qed
  qed
qed

section \<open>Properties\<close>

text \<open>
  C32: however the peer's bytes are cut into packets, \<open>_readline\<close> never leaves its buffers and
  returns the first line of the stream with its line feed, cut off at the buffer's length, pads the
  buffer with zeros and leaves the rest of the stream for the next call; when the stream ends
  before, it fails. With a fresh buffer the stream is the bytes sent.
\<close>

theorem readline_independent_of_packets:
  assumes "io_ok io"
  shows "stream init_iobuffer evs = sent_bytes evs \<and> io_ok init_iobuffer \<and>
    (if has_line len (stream io evs)
     then \<exists>io' evs'. readline io len evs
        = Some (Returned (int (length (first_line len (stream io evs)))), io',
            first_line len (stream io evs) @ replicate (len - length (first_line len (stream io evs))) NUL, evs') \<and>
        io_ok io' \<and> stream io' evs' = drop (length (first_line len (stream io evs))) (stream io evs)
     else \<exists>r io' out' evs'. readline io len evs = Some (r, io', out', evs') \<and> line_failed r)"
proof -
  have "stream init_iobuffer evs = sent_bytes evs" "io_ok init_iobuffer"
    by (simp_all add: stream_def io_pending_def init_iobuffer_def io_ok_def)
  moreover have "NUL \<noteq> CHR 0x0A" by (simp add: NUL_def)
  ultimately show ?thesis
    using readline_loop_line [OF assms, of 0 len "replicate len NUL" NUL evs]
    by (fastforce simp: readline_def Let_def split: if_splits)
qed

theorem readline_independent_of_packets_witness:
  "\<exists>io' evs'. readline init_iobuffer 8 [Readable ''GE'', Readable (''T'' @ [CHR 0x0A] @ ''rest'')]
    = Some (Returned 4, io', ''GET'' @ [CHR 0x0A, NUL, NUL, NUL, NUL], evs') \<and> stream io' evs' = ''rest''"
proof -
  let ?evs = "[Readable ''GE'', Readable (''T'' @ [CHR 0x0A] @ ''rest'')]"
  have ok: "io_ok init_iobuffer" by (simp add: io_ok_def init_iobuffer_def)
  have "stream init_iobuffer ?evs = ''GET'' @ [CHR 0x0A] @ ''rest''"
    by (simp add: stream_def io_pending_def init_iobuffer_def)
  moreover have "has_line 8 (''GET'' @ [CHR 0x0A] @ ''rest'')" by (simp add: has_line_def)
  moreover have "first_line 8 (''GET'' @ [CHR 0x0A] @ ''rest'') = ''GET'' @ [CHR 0x0A]" by code_simp
  ultimately show ?thesis
    using readline_independent_of_packets [OF ok, of ?evs 8] by (auto simp: numeral_eq_Suc)
qed

end
