(* ===== verification/Http_Json.thy ===== *)
theory Http_Json
  imports Http_Text
begin

text \<open>
  The descriptor files of mjpg-streamer/plugins/output_http/httpd.c: \<open>send_Input_JSON\<close>,
  \<open>send_Output_JSON\<close> and \<open>send_Program_JSON\<close>. Each builds its answer with sprintf in a buffer of
  \<open>BUFFER_SIZE * 16\<close> bytes and the text of a menu in a heap block; a sprintf that does not fit, an
  array index out of range and a NULL string are None. Memory allocation succeeds.
\<close>

section \<open>Formatting\<close>

definition BUFFER_SIZE :: nat where "BUFFER_SIZE = 1024"

definition crlf :: string where "crlf = [CHR 0x0D, CHR 0x0A]"
definition lf :: string where "lf = [CHR 0x0A]"

text \<open>A string in double quotes.\<close>

definition dq :: "string \<Rightarrow> string" where "dq s = CHR 0x22 # s @ [CHR 0x22]"

fun dec_nat :: "nat \<Rightarrow> string" where
  "dec_nat n = (if n < 10 then [char_of (48 + n)] else dec_nat (n div 10) @ [char_of (48 + n mod 10)])"

declare dec_nat.simps [simp del]

text \<open>The conversion \<open>%d\<close> of a 32-bit value.\<close>

definition dec :: "int \<Rightarrow> string" where
  "dec x = (let y = to_s32 x in if y < 0 then CHR ''-'' # dec_nat (nat (- y)) else dec_nat (nat y))"

text \<open>\<open>sprintf(buffer + strlen(buffer), \<dots>)\<close> with room for \<open>cap\<close> bytes: the text and its NUL.\<close>

definition put :: "nat \<Rightarrow> string \<Rightarrow> string \<Rightarrow> string option" where
  "put cap buf s = (if length buf + length s < cap then Some (buf @ s) else None)"

definition STD_HEADER :: string where
  "STD_HEADER = ''Connection: close'' @ crlf @ ''Server: MJPG-Streamer/0.2'' @ crlf @
     ''Cache-Control: no-store, no-cache, must-revalidate, pre-check=0, post-check=0, max-age=0'' @ crlf @
     ''Pragma: no-cache'' @ crlf @ ''Expires: Mon, 3 Jan 2000 12:34:56 GMT'' @ crlf"

section \<open>Controls\<close>

text \<open>
  A \<open>control\<close> with the fields of its \<open>v4l2_queryctrl\<close> the server prints; the menu items are their
  names, and None is a NULL pointer.
\<close>

record control =
  ctrl_id :: int
  ctrl_type :: int
  ctrl_name :: string
  ctrl_minimum :: int
  ctrl_maximum :: int
  ctrl_step :: int
  ctrl_default :: int
  ctrl_flags :: int
  ctrl_value :: int
  ctrl_group :: int
  ctrl_menuitems :: "string list option"

definition V4L2_CTRL_TYPE_MENU :: int where "V4L2_CTRL_TYPE_MENU = 3"

definition item_name :: "string list \<Rightarrow> int \<Rightarrow> string option" where
  "item_name items j = (if 0 \<le> j then mem_get items (nat j) else None)"

definition item_text :: "int \<Rightarrow> int \<Rightarrow> string \<Rightarrow> string" where
  "item_text maximum j name = dq (dec j) @ '': '' @ dq name @ (if j \<noteq> maximum then '', '' else [])"

text \<open>
  The loop over a menu from item \<open>j\<close> on, with the text so far (None before the first item): the
  block is grown to \<open>strlen(menuString) + itemLength + 5\<close> before the item is printed into it. The
  output variant takes the length of the text before it checks for NULL.
\<close>

function in_menu_loop :: "string list \<Rightarrow> int \<Rightarrow> int \<Rightarrow> string option \<Rightarrow> string option option" where
  "in_menu_loop items maximum j menu =
     (if j \<le> maximum then
        do {
          name \<leftarrow> item_name items j;
          let itemLength = length name + 6;
          let prev = (case menu of None \<Rightarrow> [] | Some m \<Rightarrow> m);
          m \<leftarrow> put (length prev + itemLength + 5) prev (item_text maximum j name);
          in_menu_loop items maximum (j + 1) (Some m)
        }
      else Some menu)"
  by pat_completeness auto
termination by (relation "measure (\<lambda>(items, maximum, j, menu). nat (maximum - j + 1))") auto

function out_menu_loop :: "string list \<Rightarrow> int \<Rightarrow> int \<Rightarrow> string option \<Rightarrow> string option option" where
  "out_menu_loop items maximum j menu =
     (if j \<le> maximum then
        (case menu of
           None \<Rightarrow> None
         | Some prev \<Rightarrow>
            do {
              name \<leftarrow> item_name items j;
              let itemLength = length name + 6;
              m \<leftarrow> put (length prev + itemLength + 5) prev (item_text maximum j name);
              out_menu_loop items maximum (j + 1) (Some m)
            })
      else Some menu)"
  by pat_completeness auto
termination by (relation "measure (\<lambda>(items, maximum, j, menu). nat (maximum - j + 1))") auto

declare in_menu_loop.simps [simp del] out_menu_loop.simps [simp del]

definition in_menu :: "control \<Rightarrow> string option option" where
  "in_menu c =
     (if ctrl_type c = V4L2_CTRL_TYPE_MENU then
        (case ctrl_menuitems c of
           None \<Rightarrow> Some None
         | Some items \<Rightarrow> in_menu_loop items (ctrl_maximum c) (ctrl_minimum c) None)
      else Some None)"

definition out_menu :: "control \<Rightarrow> string option option" where
  "out_menu c =
     (if ctrl_type c = V4L2_CTRL_TYPE_MENU then
        (case ctrl_menuitems c of
           None \<Rightarrow> Some None
         | Some items \<Rightarrow> out_menu_loop items (ctrl_maximum c) (ctrl_minimum c) None)
      else Some None)"

definition field_text :: "string \<Rightarrow> string \<Rightarrow> string" where
  "field_text key v = dq key @ '': '' @ dq v"

definition control_text :: "string \<Rightarrow> control \<Rightarrow> string" where
  "control_text dest c = ''{'' @ lf @
     field_text ''name'' (ctrl_name c) @ '','' @ lf @
     field_text ''id'' (dec (ctrl_id c)) @ '','' @ lf @
     field_text ''type'' (dec (ctrl_type c)) @ '','' @ lf @
     field_text ''min'' (dec (ctrl_minimum c)) @ '','' @ lf @
     field_text ''max'' (dec (ctrl_maximum c)) @ '','' @ lf @
     field_text ''step'' (dec (ctrl_step c)) @ '','' @ lf @
     field_text ''default'' (dec (ctrl_default c)) @ '','' @ lf @
     field_text ''value'' (dec (ctrl_value c)) @ '','' @ lf @
     field_text ''dest'' dest @ '','' @ lf @
     field_text ''flags'' (dec (ctrl_flags c)) @ '','' @ lf @
     field_text ''group'' (dec (ctrl_group c))"

definition menu_text :: "string \<Rightarrow> string" where
  "menu_text m = '','' @ lf @ dq ''menu'' @ '': {'' @ m @ ''}'' @ lf @ ''}''"

fun controls_loop :: "(control \<Rightarrow> string option option) \<Rightarrow> string \<Rightarrow> string \<Rightarrow> control list \<Rightarrow> string option" where
  "controls_loop menu dest buf [] = Some buf"
| "controls_loop menu dest buf (c # cs) =
     do {
       m \<leftarrow> menu c;
       buf \<leftarrow> put (BUFFER_SIZE * 16) buf (control_text dest c);
       buf \<leftarrow> (if ctrl_type c = V4L2_CTRL_TYPE_MENU
                then (case m of None \<Rightarrow> None | Some m \<Rightarrow> put (BUFFER_SIZE * 16) buf (menu_text m))
                else put (BUFFER_SIZE * 16) buf (lf @ ''}''));
       buf \<leftarrow> (if cs \<noteq> [] then put (BUFFER_SIZE * 16) buf ('','' @ lf) else Some buf);
       controls_loop menu dest buf cs
     }"

section \<open>The descriptor files\<close>

definition json_header :: string where
  "json_header = ''HTTP/1.0 200 OK'' @ crlf @ ''Content-type: application/x-javascript'' @ crlf @
     STD_HEADER @ crlf"

definition json_start :: string where
  "json_start = ''{'' @ lf @ dq ''controls'' @ '': ['' @ lf"

text \<open>The text written to the client; the parameters are None for a NULL pointer.\<close>

definition send_Input_JSON :: "control list option \<Rightarrow> string option" where
  "send_Input_JSON params =
     do {
       buf \<leftarrow> put (BUFFER_SIZE * 16) [] json_header;
       buf \<leftarrow> put (BUFFER_SIZE * 16) buf json_start;
       buf \<leftarrow> (case params of None \<Rightarrow> Some buf | Some cs \<Rightarrow> controls_loop in_menu ''0'' buf cs);
       put (BUFFER_SIZE * 16) buf (lf @ '']'' @ lf @ ''}'' @ lf)
     }"

definition send_Output_JSON :: "control list option \<Rightarrow> string option" where
  "send_Output_JSON params =
     do {
       buf \<leftarrow> put (BUFFER_SIZE * 16) [] json_header;
       buf \<leftarrow> put (BUFFER_SIZE * 16) buf json_start;
       buf \<leftarrow> (case params of None \<Rightarrow> Some buf | Some cs \<Rightarrow> controls_loop out_menu ''1'' buf cs);
       buf \<leftarrow> put (BUFFER_SIZE * 16) buf (lf @ '']'' @ lf);
       put (BUFFER_SIZE * 16) buf (''}'' @ lf)
     }"

record plugin_info =
  plugin_id :: int
  plugin_file :: string
  plugin_parameters :: string

definition plugin_text :: "plugin_info \<Rightarrow> string" where
  "plugin_text p = ''{'' @ lf @ field_text ''id'' (dec (plugin_id p)) @ '','' @ lf @
     field_text ''name'' (plugin_file p) @ '','' @ lf @
     field_text ''args'' (plugin_parameters p) @ lf @ ''}''"

fun plugins_loop :: "string \<Rightarrow> plugin_info list \<Rightarrow> string option" where
  "plugins_loop buf [] = Some buf"
| "plugins_loop buf (p # ps) =
     do {
       buf \<leftarrow> put (BUFFER_SIZE * 16) buf (plugin_text p);
       buf \<leftarrow> put (BUFFER_SIZE * 16) buf (if ps \<noteq> [] then '', '' @ lf else lf);
       plugins_loop buf ps
     }"

definition send_Program_JSON :: "plugin_info list \<Rightarrow> plugin_info list \<Rightarrow> string option" where
  "send_Program_JSON inputs outputs =
     do {
       buf \<leftarrow> put (BUFFER_SIZE * 16) [] json_header;
       buf \<leftarrow> put (BUFFER_SIZE * 16) buf (''{'' @ lf @ dq ''inputs'' @ '':['' @ lf);
       buf \<leftarrow> plugins_loop buf inputs;
       buf \<leftarrow> put (BUFFER_SIZE * 16) buf (''],'' @ lf);
       buf \<leftarrow> put (BUFFER_SIZE * 16) buf (dq ''outputs'' @ '':['' @ lf);
       buf \<leftarrow> plugins_loop buf outputs;
       put (BUFFER_SIZE * 16) buf ('']}'' @ lf)
     }"

section \<open>Reference\<close>

text \<open>The documents as text, without buffers: items and controls are joined by separators.\<close>

fun join :: "string \<Rightarrow> string list \<Rightarrow> string" where
  "join sep [] = []"
| "join sep [x] = x"
| "join sep (x # xs) = x @ sep @ join sep xs"

definition menu_items :: "string list \<Rightarrow> int \<Rightarrow> int \<Rightarrow> string" where
  "menu_items items minimum maximum =
     join '', '' (List.map (\<lambda>j. dq (dec j) @ '': '' @ dq (items ! nat j)) [minimum..maximum])"

definition control_json :: "string \<Rightarrow> control \<Rightarrow> string" where
  "control_json dest c = control_text dest c @
     (if ctrl_type c = V4L2_CTRL_TYPE_MENU
      then menu_text (menu_items (the (ctrl_menuitems c)) (ctrl_minimum c) (ctrl_maximum c))
      else lf @ ''}'')"

definition controls_document :: "string \<Rightarrow> control list \<Rightarrow> string" where
  "controls_document dest cs = json_header @ json_start @
     join ('','' @ lf) (List.map (control_json dest) cs) @ lf @ '']'' @ lf @ ''}'' @ lf"

definition program_document :: "plugin_info list \<Rightarrow> plugin_info list \<Rightarrow> string" where
  "program_document inputs outputs = json_header @ (''{'' @ lf @ dq ''inputs'' @ '':['' @ lf) @
     (join ('', '' @ lf) (List.map plugin_text inputs) @ (if inputs = [] then [] else lf)) @ (''],'' @ lf) @
     (dq ''outputs'' @ '':['' @ lf) @
     (join ('', '' @ lf) (List.map plugin_text outputs) @ (if outputs = [] then [] else lf)) @ ('']}'' @ lf)"

text \<open>A menu the server can print: its items exist and their numbers have at most two digits.\<close>

definition menu_ok :: "control \<Rightarrow> bool" where
  "menu_ok c \<longleftrightarrow> (ctrl_type c = V4L2_CTRL_TYPE_MENU \<longrightarrow>
     0 \<le> ctrl_minimum c \<and> ctrl_minimum c \<le> ctrl_maximum c \<and> ctrl_maximum c \<le> 100 \<and>
     (case ctrl_menuitems c of None \<Rightarrow> False | Some items \<Rightarrow> ctrl_maximum c < int (length items)))"


section \<open>Lemmas\<close>

lemma put_put: "(put cap buf s \<bind> (\<lambda>b. put cap b t)) = put cap buf (s @ t)"
  by (simp add: put_def)

lemma put_Nil: "length buf < cap \<Longrightarrow> put cap buf [] = Some buf"
  by (simp add: put_def)

lemma put_bind:
  "(\<And>b. length b < cap \<Longrightarrow> f b = put cap b t) \<Longrightarrow> (put cap buf s \<bind> f) = put cap buf (s @ t)"
  by (simp add: put_def)

lemma dec_nat_length:
  shows "n < 10 \<Longrightarrow> length (dec_nat n) = 1" "10 \<le> n \<Longrightarrow> length (dec_nat n) = Suc (length (dec_nat (n div 10)))"
  by (subst dec_nat.simps, simp)+

lemma dec_nat_pos: "0 < length (dec_nat n)"
  by (subst dec_nat.simps) simp

lemma dec_nat_two: "length (dec_nat n) \<le> 2 \<longleftrightarrow> n < 100"
proof -
  have "n div 10 < 10 \<longleftrightarrow> n < 100" by auto
  then show ?thesis
    using dec_nat_length [of n] dec_nat_length [of "n div 10"] dec_nat_pos [of "n div 10 div 10"] by linarith
qed

lemma dec_nat_four: "length (dec_nat n) \<le> 4 \<longleftrightarrow> n < 10000"
proof (cases "10 \<le> n \<and> 10 \<le> n div 10")
  case True
  have "n div 10 div 10 < 100 \<longleftrightarrow> n < 10000" by linarith
  with True show ?thesis
    using dec_nat_length(2) [of n] dec_nat_length(2) [of "n div 10"] dec_nat_two [of "n div 10 div 10"] by simp
next
  case False
  then have "n < 100" by auto
  with dec_nat_two [of n] show ?thesis by auto
qed

definition small :: "int \<Rightarrow> bool" where "small j \<longleftrightarrow> 0 \<le> j \<and> j \<le> 2147483647"

lemma dec_small: "small j \<Longrightarrow> dec j = dec_nat (nat j)"
  by (simp add: small_def dec_def to_s32_id Let_def)

text \<open>One item fits into its block exactly when its number has few digits.\<close>

lemma item_put:
  assumes "small j"
  shows "put (length prev + (length name + 6) + 5) prev (item_text maximum j name)
    = (if j < (if j \<noteq> maximum then 100 else 10000) then Some (prev @ item_text maximum j name) else None)"
  using assms dec_nat_two [of "nat j"] dec_nat_four [of "nat j"]
  by (auto simp: put_def item_text_def dq_def dec_small small_def)

lemma item_name_in: "0 \<le> j \<Longrightarrow> j < int (length items) \<Longrightarrow> item_name items j = Some (items ! nat j)"
  by (simp add: item_name_def mem_get_def nat_less_iff)

text \<open>The text before an item, whether or not there is a block yet.\<close>

definition menu_prefix :: "string option \<Rightarrow> string" where
  "menu_prefix menu = (case menu of None \<Rightarrow> [] | Some m \<Rightarrow> m)"

lemma in_menu_loop_step:
  assumes "small j" "j \<le> maximum" "maximum < int (length items)"
  shows "in_menu_loop items maximum j menu =
    (if j < (if j \<noteq> maximum then 100 else 10000)
     then in_menu_loop items maximum (j + 1) (Some (menu_prefix menu @ item_text maximum j (items ! nat j)))
     else None)"
  using assms item_name_in [of j items]
  by (subst in_menu_loop.simps)
    (simp only: bind.bind_lunit Let_def menu_prefix_def [symmetric] item_put if_True small_def, simp)

lemma menu_items_step:
  "j \<le> maximum \<Longrightarrow> menu_items items j maximum
    = item_text maximum j (items ! nat j) @ (if j < maximum then menu_items items (j + 1) maximum else [])"
  by (cases "j = maximum") (auto simp: menu_items_def item_text_def upto_rec1 [of j] upto_rec1 [of "j + 1"])

lemma in_menu_loop_bound:
  assumes "0 \<le> j" "j \<le> maximum" "maximum < int (length items)" "maximum \<le> 2147483647"
  shows "in_menu_loop items maximum j menu =
    (if maximum \<le> 100 \<or> j = maximum \<and> maximum < 10000
     then Some (Some (menu_prefix menu @ menu_items items j maximum)) else None)"
  using assms
proof (induction "nat (maximum - j)" arbitrary: j menu)
  case 0
  then have "j = maximum" "small j" by (auto simp: small_def)
  then show ?case
    using 0 in_menu_loop_step [of j maximum items menu] menu_items_step [of j maximum items]
    by (simp add: in_menu_loop.simps [of _ _ "maximum + 1"])
next
  case (Suc n)
  then have "j < maximum" "n = nat (maximum - (j + 1))" "small j" by (auto simp: small_def)
  then show ?case
    using Suc in_menu_loop_step [of j maximum items menu] menu_items_step [of j maximum items]
      Suc.hyps(1) [of "j + 1" "Some (menu_prefix menu @ item_text maximum j (items ! nat j))"]
    by (auto simp: menu_prefix_def)
qed

text \<open>What the documents need of a menu routine: it prints the menus that are acceptable to it.\<close>

definition printed_menu :: "control \<Rightarrow> string option" where
  "printed_menu c = (if ctrl_type c = V4L2_CTRL_TYPE_MENU
     then Some (menu_items (the (ctrl_menuitems c)) (ctrl_minimum c) (ctrl_maximum c)) else None)"

locale menu_printer =
  fixes menu :: "control \<Rightarrow> string option option"
    and ok :: "control \<Rightarrow> bool"
  assumes menu_printed: "ok c \<Longrightarrow> menu c = Some (printed_menu c)"
begin

lemma controls_loop_put:
  assumes "\<forall>c \<in> set cs. ok c" "length buf < BUFFER_SIZE * 16"
  shows "controls_loop menu dest buf cs
    = put (BUFFER_SIZE * 16) buf (join ('','' @ lf) (List.map (control_json dest) cs))"
  using assms
proof (induction cs arbitrary: buf)
  case (Cons c cs)
  let ?cap = "BUFFER_SIZE * 16"
  let ?body = "if ctrl_type c = V4L2_CTRL_TYPE_MENU
    then menu_text (menu_items (the (ctrl_menuitems c)) (ctrl_minimum c) (ctrl_maximum c)) else lf @ ''}''"
  let ?rest = "(if cs \<noteq> [] then '','' @ lf else []) @ join ('','' @ lf) (List.map (control_json dest) cs)"
  have IH: "controls_loop menu dest b cs = put ?cap b (join ('','' @ lf) (List.map (control_json dest) cs))"
    if "length b < ?cap" for b using Cons that by simp
  have sep: "((if cs \<noteq> [] then put ?cap b ('','' @ lf) else Some b) \<bind> (\<lambda>b. controls_loop menu dest b cs))
      = put ?cap b ?rest" if "length b < ?cap" for b
    using that put_bind [OF IH, of b "'','' @ lf"] IH [OF that] that by (simp add: put_Nil)
  have body: "(if ctrl_type c = V4L2_CTRL_TYPE_MENU
        then (case printed_menu c of
            None \<Rightarrow> None | Some m \<Rightarrow> put ?cap b (menu_text m))
        else put ?cap b (lf @ ''}'')) = put ?cap b ?body" for b
    by (simp add: printed_menu_def)
  have "controls_loop menu dest buf (c # cs)
      = put ?cap buf (control_text dest c) \<bind> (\<lambda>b. put ?cap b ?body \<bind>
          (\<lambda>b. (if cs \<noteq> [] then put ?cap b ('','' @ lf) else Some b) \<bind> (\<lambda>b. controls_loop menu dest b cs)))"
    using menu_printed [of c] Cons.prems(1) by (simp only: controls_loop.simps body) (simp add: printed_menu_def)
  also have "\<dots> = put ?cap buf (control_text dest c @ ?body @ ?rest)"
    by (rule put_bind) (rule put_bind, rule sep)
  also have "control_text dest c @ ?body @ ?rest = join ('','' @ lf) (List.map (control_json dest) (c # cs))"
    by (cases cs) (simp_all add: control_json_def)
  finally show ?case .
qed (simp add: put_Nil)

lemma document_put:
  assumes "\<forall>c \<in> set cs. ok c"
  shows "(do {
       buf \<leftarrow> put (BUFFER_SIZE * 16) [] json_header;
       buf \<leftarrow> put (BUFFER_SIZE * 16) buf json_start;
       buf \<leftarrow> controls_loop menu dest buf cs;
       put (BUFFER_SIZE * 16) buf (lf @ '']'' @ lf @ ''}'' @ lf)
     }) = put (BUFFER_SIZE * 16) [] (controls_document dest cs)"
proof -
  have "(controls_loop menu dest b cs \<bind> (\<lambda>b. put (BUFFER_SIZE * 16) b (lf @ '']'' @ lf @ ''}'' @ lf)))
      = put (BUFFER_SIZE * 16) b (join ('','' @ lf) (List.map (control_json dest) cs) @ lf @ '']'' @ lf @ ''}'' @ lf)"
    if "length b < BUFFER_SIZE * 16" for b
    unfolding controls_loop_put [OF assms that] by (rule put_put)
  then show ?thesis unfolding controls_document_def by (intro put_bind)
qed

end

lemma in_menu_ok: "menu_ok c \<Longrightarrow> in_menu c = Some (printed_menu c)"
  using in_menu_loop_bound [of "ctrl_minimum c" "ctrl_maximum c" "the (ctrl_menuitems c)" None]
  by (auto simp: in_menu_def menu_ok_def menu_prefix_def printed_menu_def split: option.splits)

definition no_menu :: "control \<Rightarrow> bool" where
  "no_menu c \<longleftrightarrow> ctrl_type c \<noteq> V4L2_CTRL_TYPE_MENU"

interpretation in_printer: menu_printer in_menu menu_ok
  by unfold_locales (rule in_menu_ok)

interpretation out_printer: menu_printer out_menu no_menu
  by unfold_locales (simp add: out_menu_def no_menu_def printed_menu_def)

lemma controls_loop_fault: "menu c = None \<Longrightarrow> controls_loop menu dest buf (before @ c # after) = None"
  by (induction before arbitrary: buf) (simp_all add: bind_eq_None_conv)

lemma plugins_loop_put:
  assumes "length buf < BUFFER_SIZE * 16"
  shows "plugins_loop buf ps = put (BUFFER_SIZE * 16) buf
    (join ('', '' @ lf) (List.map plugin_text ps) @ (if ps = [] then [] else lf))"
  using assms
proof (induction ps arbitrary: buf)
  case (Cons p ps)
  let ?rest = "join ('', '' @ lf) (List.map plugin_text ps) @ (if ps = [] then [] else lf)"
  have "(put (BUFFER_SIZE * 16) b (if ps \<noteq> [] then '', '' @ lf else lf) \<bind> (\<lambda>b. plugins_loop b ps))
      = put (BUFFER_SIZE * 16) b ((if ps \<noteq> [] then '', '' @ lf else lf) @ ?rest)" for b
    by (rule put_bind) (rule Cons.IH)
  then have "plugins_loop buf (p # ps) = put (BUFFER_SIZE * 16) buf
      (plugin_text p @ (if ps \<noteq> [] then '', '' @ lf else lf) @ ?rest)"
    by (simp only: plugins_loop.simps) (rule put_bind, simp)
  also have "plugin_text p @ (if ps \<noteq> [] then '', '' @ lf else lf) @ ?rest
      = join ('', '' @ lf) (List.map plugin_text (p # ps)) @ (if p # ps = [] then [] else lf)"
    by (cases ps) simp_all
  finally show ?case .
qed (simp add: put_Nil)

lemma plugins_loop_bind:
  assumes "length buf < BUFFER_SIZE * 16"
    and "\<And>b. length b < BUFFER_SIZE * 16 \<Longrightarrow> f b = put (BUFFER_SIZE * 16) b t"
  shows "(plugins_loop buf ps \<bind> f) = put (BUFFER_SIZE * 16) buf
    ((join ('', '' @ lf) (List.map plugin_text ps) @ (if ps = [] then [] else lf)) @ t)"
  unfolding plugins_loop_put [OF assms(1)] by (rule put_bind [OF assms(2)])

section \<open>Properties\<close>

text \<open>
  When the items of every menu exist and their numbers go up to 100 at most,
  \<open>send_Input_JSON\<close> writes exactly the descriptor document (every control with its fields and
  menu, separated by commas) if it fits into the 16384 byte buffer; a longer document overflows it.
\<close>

theorem input_json_document:
  assumes "\<forall>c \<in> set cs. menu_ok c"
  shows "send_Input_JSON (Some cs) =
    (if length (controls_document ''0'' cs) < 16384 then Some (controls_document ''0'' cs) else None)"
  unfolding send_Input_JSON_def option.case in_printer.document_put [OF assms]
  by (simp add: put_def BUFFER_SIZE_def)

definition quality_control :: control where
  "quality_control = \<lparr>ctrl_id = 1, ctrl_type = 3, ctrl_name = ''Quality'', ctrl_minimum = 0, ctrl_maximum = 1,
     ctrl_step = 1, ctrl_default = 0, ctrl_flags = 0, ctrl_value = 1, ctrl_group = 1,
     ctrl_menuitems = Some [''low'', ''high'']\<rparr>"

theorem input_json_document_witness:
  "send_Input_JSON (Some [quality_control]) = Some (controls_document ''0'' [quality_control])"
proof -
  have "\<forall>c \<in> set [quality_control]. menu_ok c" by code_simp
  moreover have "length (controls_document ''0'' [quality_control]) < 16384" by code_simp
  ultimately show ?thesis using input_json_document by simp
qed

text \<open>
  The heap block of a menu never overflows exactly when no item number beyond 99 is followed by
  another item (and a single item's number has at most four digits); then the loop returns the
  items in order, quoted and separated.
\<close>

theorem menu_block_exact:
  assumes "0 \<le> minimum" "minimum \<le> maximum" "maximum < int (length items)" "maximum \<le> 2147483647"
  shows "in_menu_loop items maximum minimum None =
    (if maximum \<le> 100 \<or> minimum = maximum \<and> maximum < 10000
     then Some (Some (menu_items items minimum maximum)) else None)"
  using in_menu_loop_bound [OF assms, of None] by (simp add: menu_prefix_def)

theorem menu_block_exact_witness: "in_menu_loop (replicate 102 ''x'') 101 0 None = None"
  using menu_block_exact [of 0 101 "replicate 102 ''x''"] by simp

text \<open>
  C40: \<open>send_Output_JSON\<close> takes the length of a NULL string at the first control with a menu that
  has items, so the server crashes on it, where \<open>send_Input_JSON\<close> prints such a menu; without
  menu controls it writes the descriptor document with destination 1.
\<close>

theorem output_json_menu_fault:
  assumes "ctrl_type c = V4L2_CTRL_TYPE_MENU" "ctrl_menuitems c = Some items"
    and "ctrl_minimum c \<le> ctrl_maximum c" and "\<forall>d \<in> set before. no_menu d"
  shows "send_Output_JSON (Some (before @ c # after)) = None \<and>
    send_Output_JSON (Some before) =
      (if length (controls_document ''1'' before) < 16384 then Some (controls_document ''1'' before) else None)"
proof
  have "out_menu c = None" using assms by (simp add: out_menu_def out_menu_loop.simps)
  then show "send_Output_JSON (Some (before @ c # after)) = None"
    by (simp add: send_Output_JSON_def controls_loop_fault bind_eq_None_conv)
  show "send_Output_JSON (Some before) =
      (if length (controls_document ''1'' before) < 16384 then Some (controls_document ''1'' before) else None)"
    unfolding send_Output_JSON_def option.case put_put append_assoc out_printer.document_put [OF assms(4)]
    by (simp add: put_def BUFFER_SIZE_def)
qed

theorem output_json_menu_fault_witness:
  "send_Output_JSON (Some [quality_control]) = None"
  using output_json_menu_fault [of quality_control "[''low'', ''high'']" "[]" "[]"]
  by (simp add: quality_control_def V4L2_CTRL_TYPE_MENU_def)

text \<open>
  C33: \<open>send_Program_JSON\<close> writes the document that lists the input and output plugins if it fits
  into its buffer, and overflows the buffer otherwise.
\<close>

theorem program_json_document:
  "send_Program_JSON inputs outputs =
    (if length (program_document inputs outputs) < 16384 then Some (program_document inputs outputs) else None)"
proof -
  have "send_Program_JSON inputs outputs = put (BUFFER_SIZE * 16) [] (program_document inputs outputs)"
    unfolding send_Program_JSON_def program_document_def
    by (intro put_bind plugins_loop_bind) (assumption | rule refl)+
  then show ?thesis by (simp add: put_def BUFFER_SIZE_def)
qed

end
