(* ===== verification/Http_Server.thy ===== *)
theory Http_Server
  imports Http_Read Http_Json
begin

text \<open>
  The requests and responses of mjpg-streamer/plugins/output_http/httpd.c: \<open>client_thread\<close> with
  the parts of the answer \<open>send_error\<close>, \<open>send_snapshot\<close>, \<open>send_stream\<close>, \<open>send_file\<close> and
  \<open>command\<close>. A connection is the list of its effects; None is undefined behaviour. The build
  defines \<open>WXP_COMPAT\<close>. The files, the plugins' \<open>cmd\<close> functions and the frames that become fresh
  are fields of the state, so are the results of \<open>write\<close>; memory allocation succeeds.
\<close>

section \<open>State\<close>

datatype answer_t = A_UNKNOWN | A_SNAPSHOT | A_STREAM | A_COMMAND | A_FILE | A_INPUT_JSON
  | A_OUTPUT_JSON | A_PROGRAM_JSON

record request =
  req_type :: answer_t
  req_parameter :: "string option"
  req_client :: "string option"
  req_credentials :: "string option"

definition init_request :: request where
  "init_request = \<lparr>req_type = A_UNKNOWN, req_parameter = None, req_client = None, req_credentials = None\<rparr>"

record http_conf =
  conf_credentials :: "string option"
  conf_www_folder :: "string option"
  conf_nocommands :: bool

text \<open>A JPG frame with its time stamp, in seconds and microseconds.\<close>

record frame =
  frame_data :: string
  frame_sec :: int
  frame_usec :: int

text \<open>An input plugin; \<open>in_frames\<close> are the frames it delivers from the request until the stop.\<close>

record input_plugin =
  in_info :: plugin_info
  in_parameters :: "control list option"
  in_frame_interval :: int
  in_frames :: "frame list"
  in_cmd :: "int \<Rightarrow> int \<Rightarrow> int \<Rightarrow> int \<Rightarrow> int"

record output_plugin =
  out_info :: plugin_info
  out_parameters :: "control list option"
  out_cmd :: "int \<Rightarrow> int \<Rightarrow> int \<Rightarrow> int \<Rightarrow> int"

text \<open>\<open>incnt\<close> and \<open>outcnt\<close> are the lengths of the lists; the arrays have room for 10 plugins.\<close>

definition MAX_OUTPUT_PLUGINS :: nat where "MAX_OUTPUT_PLUGINS = 10"

record globals =
  g_in :: "input_plugin list"
  g_out :: "output_plugin list"

text \<open>
  What the server sees of the system: the content of a file it can open, whether the nth \<open>write\<close>
  of a response succeeds, and the value an uninitialised int happens to have.
\<close>

record world =
  w_file :: "string \<Rightarrow> string option"
  w_write :: "nat \<Rightarrow> bool"
  w_garbage :: int

datatype action = Write string | Open_file string | Wait_frame nat | Run_cmd int int int int int
  | Close | Exit | Block

section \<open>Errors\<close>

definition status_line :: "string \<Rightarrow> string" where
  "status_line s = ''HTTP/1.0 '' @ s @ crlf"

definition text_plain :: string where
  "text_plain = ''Content-type: text/plain'' @ crlf"

definition error_text :: "int \<Rightarrow> string" where
  "error_text which =
     (if which = 401 then
        status_line ''401 Unauthorized'' @ text_plain @ STD_HEADER @
        ''WWW-Authenticate: Basic realm='' @ dq ''MJPG-Streamer'' @ crlf @ crlf @ ''401: Not Authenticated!'' @ crlf
      else if which = 404 then
        status_line ''404 Not Found'' @ text_plain @ STD_HEADER @ crlf @ ''404: Not Found!'' @ crlf
      else if which = 500 then
        status_line ''500 Internal Server Error'' @ text_plain @ STD_HEADER @ crlf @ ''500: Internal Server Error!'' @ crlf
      else if which = 400 then
        status_line ''400 Bad Request'' @ text_plain @ STD_HEADER @ crlf @ ''400: Not Found!'' @ crlf
      else
        status_line ''501 Not Implemented'' @ text_plain @ STD_HEADER @ crlf @ ''501: Not Implemented!'' @ crlf)"

definition send_error :: "int \<Rightarrow> string \<Rightarrow> action list option" where
  "send_error which message =
     do { s \<leftarrow> put BUFFER_SIZE [] (error_text which @ message); Some [Write s] }"

section \<open>Frames\<close>

definition dec_usec :: "int \<Rightarrow> string" where
  "dec_usec x = (let s = dec x in replicate (6 - length s) (CHR ''0'') @ s)"

definition timestamp_text :: "frame \<Rightarrow> string" where
  "timestamp_text f = ''X-Timestamp: '' @ dec (frame_sec f) @ ''.'' @ dec_usec (frame_usec f) @ crlf"

definition snapshot_header :: "frame \<Rightarrow> string" where
  "snapshot_header f = status_line ''200 OK'' @ STD_HEADER @ ''Content-type: image/jpeg'' @ crlf @
     timestamp_text f @ crlf"

definition send_snapshot :: "globals \<Rightarrow> world \<Rightarrow> nat \<Rightarrow> action list option" where
  "send_snapshot g w n =
     do {
       i \<leftarrow> mem_get (g_in g) n;
       case in_frames i of
         [] \<Rightarrow> Some [Wait_frame n, Block]
       | f # _ \<Rightarrow>
           do {
             s \<leftarrow> put BUFFER_SIZE [] (snapshot_header f);
             Some ([Wait_frame n, Write s] @ (if w_write w 0 then [Write (frame_data f)] else []))
           }
     }"

definition PJS_FLOAT_SHIFT :: nat where "PJS_FLOAT_SHIFT = 16"
definition PJS_FLOAT_EXT_CONST :: "int \<Rightarrow> int" where "PJS_FLOAT_EXT_CONST c = to_s32 (c * 2 ^ PJS_FLOAT_SHIFT)"
definition MAX_FRAME_CONST :: int where "MAX_FRAME_CONST = PJS_FLOAT_EXT_CONST 100"
definition TEN_K :: nat where "TEN_K = 10 * 1024"
definition BOUNDARY :: string where "BOUNDARY = ''boundarydonotcross''"

text \<open>
  The decision whether a fresh frame is sent, and the new \<open>m_frame_current\<close>; the pause after
  a frame is not modelled.
\<close>

definition frame_due :: "int \<Rightarrow> int \<Rightarrow> int \<Rightarrow> bool \<times> int" where
  "frame_due interval inc cur =
     (if interval > 0 \<and> inc \<noteq> 0 then
        (if cur \<noteq> 0 then
           (let cur = (if cur > MAX_FRAME_CONST then cur - MAX_FRAME_CONST else cur);
                last = cur div 2 ^ PJS_FLOAT_SHIFT;
                cur' = cur + inc
            in (last \<noteq> cur' div 2 ^ PJS_FLOAT_SHIFT, cur'))
         else (True, cur + inc))
      else (True, cur))"

text \<open>The increment chosen before the loop and whether \<open>m_frame_current\<close> is set to 0 with it.\<close>

definition frame_inc :: "int \<Rightarrow> int \<Rightarrow> int" where
  "frame_inc interval camera =
     (if interval \<noteq> 0 \<and> camera \<noteq> 0 \<and> camera < interval
      then PJS_FLOAT_EXT_CONST camera sdiv interval else 0)"

definition frame_start :: "int \<Rightarrow> int \<Rightarrow> int \<Rightarrow> int" where
  "frame_start garbage interval camera =
     (if interval \<noteq> 0 \<and> camera \<noteq> 0 \<and> camera < interval then garbage else 0)"

definition frame_header :: "frame \<Rightarrow> string" where
  "frame_header f = ''Content-Type: image/jpeg'' @ crlf @
     ''Content-Length: '' @ dec (int (length (frame_data f))) @ crlf @ timestamp_text f @ crlf"

definition part_boundary :: string where
  "part_boundary = crlf @ ''--'' @ BOUNDARY @ crlf"

definition stream_header :: string where
  "stream_header = status_line ''200 OK'' @ STD_HEADER @
     ''Content-Type: multipart/x-mixed-replace;boundary='' @ BOUNDARY @ crlf @ crlf @ ''--'' @ BOUNDARY @ crlf"

text \<open>
  The loop of \<open>send_stream\<close>: \<open>cap\<close> is the size of the frame buffer, \<open>k\<close> the number of writes so
  far; a frame is copied into the buffer only if it fits.
\<close>

fun stream_loop :: "world \<Rightarrow> nat \<Rightarrow> int \<Rightarrow> int \<Rightarrow> int \<Rightarrow> nat \<Rightarrow> nat \<Rightarrow> frame list \<Rightarrow> action list option" where
  "stream_loop w n interval inc cur cap k [] = Some []"
| "stream_loop w n interval inc cur cap k (f # fs) =
     (let (due, cur) = frame_due interval inc cur in
      if \<not> due then
        do { r \<leftarrow> stream_loop w n interval inc cur cap k fs; Some (Wait_frame n # r) }
      else
        (let cap = (if length (frame_data f) > cap then length (frame_data f) + TEN_K else cap) in
         if length (frame_data f) > cap then None
         else do {
           h \<leftarrow> put BUFFER_SIZE [] (frame_header f);
           b \<leftarrow> put BUFFER_SIZE [] part_boundary;
           if \<not> w_write w k then Some [Wait_frame n, Write h]
           else if \<not> w_write w (k + 1) then Some [Wait_frame n, Write h, Write (frame_data f)]
           else if \<not> w_write w (k + 2) then Some [Wait_frame n, Write h, Write (frame_data f), Write b]
           else do {
             r \<leftarrow> stream_loop w n interval inc cur cap (k + 3) fs;
             Some ([Wait_frame n, Write h, Write (frame_data f), Write b] @ r)
           }
         }))"

definition send_stream :: "globals \<Rightarrow> world \<Rightarrow> nat \<Rightarrow> int \<Rightarrow> action list option" where
  "send_stream g w n interval =
     do {
       i \<leftarrow> mem_get (g_in g) n;
       let camera = to_s32 (in_frame_interval i);
       let inc = frame_inc interval camera;
       let cur = frame_start (w_garbage w) interval camera;
       s \<leftarrow> put BUFFER_SIZE [] stream_header;
       if \<not> w_write w 0 then Some [Write s]
       else do { r \<leftarrow> stream_loop w n interval inc cur 0 1 (in_frames i); Some (Write s # r) }
     }"

section \<open>Files\<close>

definition mimetypes :: "(string \<times> string) list" where
  "mimetypes =
     [(''.html'', ''text/html''), (''.htm'', ''text/html''), (''.css'', ''text/css''),
      (''.js'', ''text/javascript''), (''.txt'', ''text/plain''), (''.jpg'', ''image/jpeg''),
      (''.jpeg'', ''image/jpeg''), (''.png'', ''image/png''), (''.gif'', ''image/gif''),
      (''.ico'', ''image/x-icon''), (''.swf'', ''application/x-shockwave-flash''),
      (''.cab'', ''application/x-shockwave-flash''), (''.jar'', ''application/java-archive''),
      (''.json'', ''application/json'')]"

text \<open>The offset of the last dot; 0 also when there is none.\<close>

definition last_dot :: "string \<Rightarrow> nat" where
  "last_dot s =
     (case [i \<leftarrow> [0..<length s]. s ! i = CHR ''.''] of [] \<Rightarrow> 0 | ds \<Rightarrow> last ds)"

text \<open>The file is sent in pieces of the buffer's size.\<close>

function file_loop :: "world \<Rightarrow> nat \<Rightarrow> string \<Rightarrow> action list" where
  "file_loop w k content =
     (if content = [] then []
      else Write (take BUFFER_SIZE content) #
        (if w_write w k then file_loop w (k + 1) (drop BUFFER_SIZE content) else []))"
  by pat_completeness auto
termination by (relation "measure (\<lambda>(w, k, content). length content)") (auto simp: BUFFER_SIZE_def)

declare file_loop.simps [simp del]

definition file_header :: "string \<Rightarrow> string" where
  "file_header mimetype = status_line ''200 OK'' @ ''Content-type: '' @ mimetype @ crlf @ STD_HEADER @ crlf"

definition file_name :: "string option \<Rightarrow> string" where
  "file_name parameter =
     (case parameter of None \<Rightarrow> ''index.html'' | Some p \<Rightarrow> if p = [] then ''index.html'' else p)"

definition send_file :: "string \<Rightarrow> world \<Rightarrow> string option \<Rightarrow> action list option" where
  "send_file folder w parameter =
     (let name = file_name parameter in
      if last_dot name = 0 then send_error 400 ''No file extension found''
      else (case map_of mimetypes (drop (last_dot name) name) of
          None \<Rightarrow> send_error 404 ''MIME-TYPE not known''
        | Some mimetype \<Rightarrow>
           (let path0 = take (BUFFER_SIZE - 1) folder;
                path = path0 @ take (BUFFER_SIZE - length path0 - 1) name
            in (case w_file w path of
                  None \<Rightarrow> do { e \<leftarrow> send_error 404 ''Could not open file''; Some (Open_file path # e) }
                | Some content \<Rightarrow>
                    do {
                      s \<leftarrow> put BUFFER_SIZE [] (file_header mimetype);
                      Some ([Open_file path, Write s] @ (if w_write w 0 then file_loop w 1 content else []))
                    }))))"

section \<open>Commands\<close>

definition alnum_chars :: string where
  "alnum_chars = ''abcdefghijklmnopqrstuvwxyzABCDEFGHIJKLMNOPQRSTUVWXYZ_1234567890''"

definition number_chars :: string where "number_chars = ''-1234567890''"

text \<open>\<open>MAX(MIN(strtol(s, NULL, 10), INT_MAX), INT_MIN)\<close> of the digits at the start of a text.\<close>

definition clamp_int :: "int \<Rightarrow> int" where
  "clamp_int x = max (min x 2147483647) (- 2147483648)"

definition leading_number :: "string \<Rightarrow> int" where
  "leading_number s = clamp_int (strtol 64 (take (strspn s number_chars) s))"

text \<open>The number behind a key of the parameter string, or the default without the key.\<close>

definition find_number :: "string \<Rightarrow> string \<Rightarrow> int \<Rightarrow> int" where
  "find_number s key dflt =
     (case strstr s key of None \<Rightarrow> dflt | Some r \<Rightarrow> leading_number (drop (length key) r))"

definition IN_CMD_GENERIC :: int where "IN_CMD_GENERIC = 0"
definition Dest_Input :: int where "Dest_Input = 0"
definition Dest_Output :: int where "Dest_Output = 1"
definition Dest_Program :: int where "Dest_Program = 2"

text \<open>A plugin of the array by a signed index; None outside the array.\<close>

definition plugin_at :: "'a list \<Rightarrow> int \<Rightarrow> 'a option" where
  "plugin_at ps i = (if 0 \<le> i then mem_get ps (nat i) else None)"

definition command_response :: "string \<Rightarrow> int \<Rightarrow> string" where
  "command_response cmd res = status_line ''200 OK'' @ text_plain @ STD_HEADER @ crlf @ cmd @ '': '' @ dec res"

definition command :: "globals \<Rightarrow> string option \<Rightarrow> action list option" where
  "command g parameter =
     (case parameter of
        None \<Rightarrow> send_error 400 ''Parameter-string of command does not look valid.''
      | Some p \<Rightarrow>
         if length p \<ge> 255 \<or> length p = 0 then
           send_error 400 ''Parameter-string of command does not look valid.''
         else (case strstr p ''id='' of
             None \<Rightarrow> send_error 400 (''no GET variable '' @ dq ''id=...'' @
               '' found, it is required to specify which command id to execute'')
           | Some r \<Rightarrow>
              (let c = drop 3 r;
                   cmd = take (strspn c alnum_chars) c;
                   command_id = leading_number cmd;
                   ivalue = find_number p ''value='' 0;
                   group = find_number p ''group='' IN_CMD_GENERIC;
                   dest = find_number p ''dest='' Dest_Input;
                   plugin_no = find_number p ''plugin='' 0
               in do {
                 (acts, res) \<leftarrow>
                   (if dest = Dest_Input \<and> plugin_no < int (length (g_in g)) then
                      do {
                        i \<leftarrow> plugin_at (g_in g) plugin_no;
                        Some ([Run_cmd Dest_Input plugin_no (to_u32 command_id) (to_u32 group) ivalue],
                          in_cmd i plugin_no (to_u32 command_id) (to_u32 group) ivalue)
                      }
                    else if dest = Dest_Output \<and> plugin_no < int (length (g_out g)) then
                      do {
                        q \<leftarrow> plugin_at (g_out g) plugin_no;
                        Some ([Run_cmd Dest_Output plugin_no (to_u32 command_id) (to_u32 group) ivalue],
                          out_cmd q plugin_no (to_u32 command_id) (to_u32 group) ivalue)
                      }
                    else Some ([], 0));
                 s \<leftarrow> put BUFFER_SIZE [] (command_response cmd res);
                 Some (acts @ [Write s])
               })))"

section \<open>The request\<close>

definition has :: "string \<Rightarrow> string \<Rightarrow> bool" where
  "has s pat \<longleftrightarrow> strstr s pat \<noteq> None"

definition command_chars :: string where
  "command_chars = ''abcdefghijklmnopqrstuvwxyzABCDEFGHIJKLMNOPQRSTUVWXYZ_-=&1234567890%./''"

definition file_chars :: string where
  "file_chars = ''abcdefghijklmnopqrstuvwxyzABCDEFGHIJKLMNOPQRSTUVWXYZ._-1234567890''"

definition accepted :: "string \<Rightarrow> string \<Rightarrow> string" where
  "accepted chars s = take (min (strspn s chars) 100) s"

definition stream_interval :: "string \<Rightarrow> int" where
  "stream_interval line =
     (case strstr line ''&fr10='' of
        None \<Rightarrow> 0
      | Some r \<Rightarrow> (let framerate = atoi (drop 6 r) in if framerate > 0 then 10000 sdiv framerate else 0))"

text \<open>
  What the first line asks for: the type, the parameter, the interval and \<open>input_suffixed\<close>; an
  error response instead for a malformed request.
\<close>

datatype parsed = Bad int string | Parsed answer_t "string option" int bool

definition parse_request :: "string \<Rightarrow> parsed option" where
  "parse_request line =
     (if has line ''GET /?action=snapshot'' then Some (Parsed A_SNAPSHOT None 0 False)
      else if has line ''GET /cam'' \<and> has line ''.jpg'' then Some (Parsed A_SNAPSHOT None 0 True)
      else if has line ''GET /?action=stream'' then Some (Parsed A_STREAM None (stream_interval line) True)
      else if has line ''GET /cam'' \<and> has line ''.mjpg'' then Some (Parsed A_STREAM None 0 True)
      else if has line ''GET /input'' \<and> has line ''.json'' then Some (Parsed A_INPUT_JSON None 0 True)
      else if has line ''GET /output'' \<and> has line ''.json'' then Some (Parsed A_OUTPUT_JSON None 0 True)
      else if has line ''GET /program.json'' then Some (Parsed A_PROGRAM_JSON None 0 True)
      else (case strstr line ''GET /?action=command'' of
          Some pb \<Rightarrow>
            do {
              (r, mem) \<leftarrow> unescape (accepted command_chars (drop 20 pb) @ [NUL]);
              Some (if r = -1 then Bad 500 ''could not properly unescape command parameter string''
                    else Parsed A_COMMAND (Some (cstr mem)) 0 False)
            }
        | None \<Rightarrow>
            (case strstr line ''GET /'' of
               None \<Rightarrow> Some (Bad 400 ''Malformed HTTP request'')
             | Some pb \<Rightarrow> Some (Parsed A_FILE (Some (accepted file_chars (drop 5 pb))) 0 False))))"

definition input_suffix :: "string \<Rightarrow> nat" where
  "input_suffix line =
     (case strchr line (CHR ''_'') of
        None \<Rightarrow> 0
      | Some sch \<Rightarrow> nat (atoi (take 1 (drop 1 sch))))"

section \<open>The header and the answer\<close>

text \<open>A line as a C string: the buffer has one byte more than \<open>_readline\<close> may fill.\<close>

definition read_line :: "iobuffer \<Rightarrow> net_event list \<Rightarrow> (read_result \<times> iobuffer \<times> char list \<times> net_event list) option" where
  "read_line io evs =
     do { (r, io, out, evs) \<leftarrow> readline io (BUFFER_SIZE - 1) evs; Some (r, io, out @ [NUL], evs) }"

text \<open>One header line: the client and the credentials are copied from fixed offsets.\<close>

definition header_line :: "request \<Rightarrow> string \<Rightarrow> request option" where
  "header_line req line =
     (if has line ''User-Agent: '' then Some (req\<lparr>req_client := Some (drop 12 line)\<rparr>)
      else if has line ''Authorization: Basic '' then
        do { mem \<leftarrow> decodeBase64 (drop 21 line @ [NUL]); Some (req\<lparr>req_credentials := Some (cstr mem)\<rparr>) }
      else Some req)"

definition last_line :: "int \<Rightarrow> char list \<Rightarrow> bool" where
  "last_line cnt buf \<longleftrightarrow> cnt \<le> 2 \<or> take 2 buf = crlf"

datatype header_result = Header_done request | Header_failed | Header_exit

text \<open>The loop over the header; every round reads at least a char, so the fuel bounds the rounds.\<close>

fun header_loop :: "nat \<Rightarrow> iobuffer \<Rightarrow> net_event list \<Rightarrow> request \<Rightarrow> header_result option" where
  "header_loop 0 io evs req = None"
| "header_loop (Suc fuel) io evs req =
     do {
       (r, io, buf, evs) \<leftarrow> read_line io evs;
       case r of
         Exit_failure \<Rightarrow> Some Header_exit
       | Returned cnt \<Rightarrow>
           if cnt = -1 then Some Header_failed
           else do {
             req \<leftarrow> header_line req (cstr buf);
             if last_line cnt buf then Some (Header_done req) else header_loop fuel io evs req
           }
     }"

text \<open>The arrays of the plugins are zeroed where no plugin is loaded.\<close>

definition output_parameters :: "globals \<Rightarrow> nat \<Rightarrow> control list option option" where
  "output_parameters g n =
     (if n < length (g_out g) then Some (out_parameters (g_out g ! n))
      else if n < MAX_OUTPUT_PLUGINS then Some None else None)"

definition answer :: "http_conf \<Rightarrow> globals \<Rightarrow> world \<Rightarrow> request \<Rightarrow> nat \<Rightarrow> int \<Rightarrow> action list option" where
  "answer conf g w req n interval =
     (case req_type req of
        A_SNAPSHOT \<Rightarrow> send_snapshot g w n
      | A_STREAM \<Rightarrow> send_stream g w n interval
      | A_COMMAND \<Rightarrow>
          if conf_nocommands conf then send_error 501 ''this server is configured to not accept commands''
          else command g (req_parameter req)
      | A_INPUT_JSON \<Rightarrow>
          do { i \<leftarrow> mem_get (g_in g) n; s \<leftarrow> send_Input_JSON (in_parameters i); Some [Write s] }
      | A_OUTPUT_JSON \<Rightarrow>
          do { p \<leftarrow> output_parameters g n; s \<leftarrow> send_Output_JSON p; Some [Write s] }
      | A_PROGRAM_JSON \<Rightarrow>
          do { s \<leftarrow> send_Program_JSON (List.map in_info (g_in g)) (List.map out_info (g_out g)); Some [Write s] }
      | A_FILE \<Rightarrow>
          (case conf_www_folder conf of
             None \<Rightarrow> send_error 501 ''no www-folder configured''
           | Some folder \<Rightarrow> send_file folder w (req_parameter req))
      | A_UNKNOWN \<Rightarrow> Some [])"

text \<open>The closing of the connection, which a request that waits for a frame for ever never reaches.\<close>

definition finish :: "action list \<Rightarrow> action list" where
  "finish acts = (if Block \<in> set acts then acts else acts @ [Close])"

definition header_fuel :: "net_event list \<Rightarrow> nat" where
  "header_fuel evs = length (sent_bytes evs) + 2"

definition authorised :: "http_conf \<Rightarrow> request \<Rightarrow> bool" where
  "authorised conf req \<longleftrightarrow> conf_credentials conf = None \<or> req_credentials req = conf_credentials conf"

definition client_thread :: "http_conf \<Rightarrow> globals \<Rightarrow> world \<Rightarrow> net_event list \<Rightarrow> action list option" where
  "client_thread conf g w events =
     do {
       (r, io, buf, evs) \<leftarrow> read_line init_iobuffer events;
       case r of
         Exit_failure \<Rightarrow> Some [Exit]
       | Returned cnt \<Rightarrow>
          if cnt = -1 then Some [Close]
          else do {
            p \<leftarrow> parse_request (cstr buf);
            case p of
              Bad which message \<Rightarrow> do { e \<leftarrow> send_error which message; Some (e @ [Close]) }
            | Parsed type param interval suffixed \<Rightarrow>
               (let req = init_request\<lparr>req_type := type, req_parameter := param\<rparr>;
                    input_number = (if suffixed then input_suffix (cstr buf) else 0)
                in do {
                  h \<leftarrow> header_loop (header_fuel events) io evs req;
                  case h of
                    Header_exit \<Rightarrow> Some [Exit]
                  | Header_failed \<Rightarrow> Some [Close]
                  | Header_done req \<Rightarrow>
                     if \<not> authorised conf req then
                       do { e \<leftarrow> send_error 401 ''username and password do not match to configuration''; Some (e @ [Close]) }
                     else if \<not> input_number < length (g_in g) then
                       do { e \<leftarrow> send_error 404 ''Invalid input plugin number''; Some (e @ [Close]) }
                     else do { acts \<leftarrow> answer conf g w req input_number interval; Some (finish acts) }
                })
          }
     }"


section \<open>Lemmas: lines and headers\<close>

text \<open>The lines of a byte stream as the server's buffer cuts them.\<close>

function stream_lines :: "nat \<Rightarrow> char list \<Rightarrow> char list list" where
  "stream_lines n bs =
     (if n = 0 \<or> bs = [] then []
      else first_line n bs # stream_lines n (drop (length (first_line n bs)) bs))"
  by pat_completeness auto
termination
  by (relation "measure (\<lambda>(n, bs). length bs)") (auto simp: first_line_def line_end_def)

declare stream_lines.simps [simp del]

lemma first_line_pos: "0 < n \<Longrightarrow> bs \<noteq> [] \<Longrightarrow> 0 < length (first_line n bs)"
  by (simp add: first_line_def line_end_def)

lemma cstr_padded: "cstr (l @ replicate k NUL @ [NUL]) = cstr l"
  by (cases k) (auto simp: cstr_def takeWhile_append intro: takeWhile_eq_all_conv [THEN iffD2, symmetric])

lemma cstr_is_plain: "plain (cstr s)"
  by (auto simp: plain_def cstr_def dest: set_takeWhileD)

text \<open>A line is read or the reading fails; the buffer as a C string is the line.\<close>

lemma read_line_cases:
  assumes "io_ok io"
  obtains (line) cnt io' buf evs' where
      "read_line io evs = Some (Returned cnt, io', buf, evs')" "cnt \<noteq> -1" "io_ok io'"
      "cstr buf = cstr (first_line 1023 (stream io evs))" "stream io evs \<noteq> []"
      "stream io' evs' = drop (length (first_line 1023 (stream io evs))) (stream io evs)"
    | (failed) r io' buf evs' where "read_line io evs = Some (r, io', buf, evs')" "line_failed r"
proof (cases "has_line 1023 (stream io evs)")
  case True
  let ?l = "first_line 1023 (stream io evs)"
  have "NUL \<noteq> CHR 0x0A" by (simp add: NUL_def)
  with True obtain io' evs' where "read_line io evs
      = Some (Returned (int (length ?l)), io', ?l @ replicate (1023 - length ?l) NUL @ [NUL], evs')"
    "io_ok io'" "stream io' evs' = drop (length ?l) (stream io evs)"
    using readline_loop_line [OF assms, of 0 1023 "replicate 1023 NUL" NUL evs]
    by (auto simp: read_line_def readline_def Let_def BUFFER_SIZE_def)
  moreover have "stream io evs \<noteq> []" using True by (auto simp: has_line_def)
  ultimately show thesis using line cstr_padded by force
next
  case False
  have "NUL \<noteq> CHR 0x0A" by (simp add: NUL_def)
  with False show thesis
    using readline_loop_line [OF assms, of 0 1023 "replicate 1023 NUL" NUL evs] failed
    by (auto simp: read_line_def readline_def Let_def BUFFER_SIZE_def)
qed

text \<open>A header line hands over these credentials.\<close>

definition supplies :: "string \<Rightarrow> string \<Rightarrow> bool" where
  "supplies line c \<longleftrightarrow> has line ''Authorization: Basic '' \<and>
     (case decodeBase64 (drop 21 line @ [NUL]) of None \<Rightarrow> False | Some mem \<Rightarrow> cstr mem = c)"

text \<open>What a part of the header changes: the credentials come from one of its lines.\<close>

definition header_change :: "char list list \<Rightarrow> request \<Rightarrow> request \<Rightarrow> bool" where
  "header_change ls req req' \<longleftrightarrow> req_type req' = req_type req \<and> req_parameter req' = req_parameter req \<and>
     (req_credentials req' = req_credentials req \<or>
      (\<exists>l \<in> set ls. \<exists>c. req_credentials req' = Some c \<and> supplies (cstr l) c))"

lemma header_change_Cons:
  "header_change [l] req req1 \<Longrightarrow> header_change ls req1 req' \<Longrightarrow> header_change (l # ls) req req'"
  unfolding header_change_def by auto

lemma header_change_mono: "header_change [l] req req' \<Longrightarrow> header_change (l # ls) req req'"
  unfolding header_change_def by auto

lemma header_line_Some:
  assumes "cstr buf = cstr l"
  shows "\<exists>req'. header_line req (cstr buf) = Some req' \<and> header_change [l] req req'"
proof -
  have "plain (drop 21 (cstr l))" using cstr_is_plain [of l] by (auto simp: plain_def dest: in_set_dropD)
  from decodeBase64_bytes [OF this] obtain mem where "decodeBase64 (drop 21 (cstr l) @ [NUL]) = Some mem" by blast
  then show ?thesis using assms by (simp add: header_line_def supplies_def header_change_def)
qed

lemma header_loop_Some:
  assumes "io_ok io" "length (stream io evs) < fuel"
  shows "\<exists>h. header_loop fuel io evs req = Some h \<and>
    (\<forall>req'. h = Header_done req' \<longrightarrow> header_change (stream_lines 1023 (stream io evs)) req req')"
  using assms
proof (induction fuel arbitrary: io evs req)
  case (Suc fuel)
  from Suc.prems(1) show ?case
  proof (cases rule: read_line_cases [of io evs])
    case (failed r io' buf evs')
    then show ?thesis by (auto simp: line_failed_def)
  next
    case (line cnt io' buf evs')
    let ?l = "first_line 1023 (stream io evs)"
    obtain req1 where h: "header_line req (cstr buf) = Some req1" "header_change [?l] req req1"
      using header_line_Some [OF line(4)] by blast
    have lines: "stream_lines 1023 (stream io evs) = ?l # stream_lines 1023 (stream io' evs')"
      using line(5,6) by (subst stream_lines.simps) simp
    show ?thesis
    proof (cases "last_line cnt buf")
      case True
      have "header_loop (Suc fuel) io evs req = Some (Header_done req1)"
        using line(1,2) h(1) True by simp
      then show ?thesis unfolding lines using header_change_mono [OF h(2)] by blast
    next
      case False
      have "length (stream io' evs') < fuel"
        using line(5,6) first_line_pos [of 1023 "stream io evs"] Suc.prems(2)
          length_greater_0_conv [of "stream io evs"] by (simp del: length_greater_0_conv)
      note IH = Suc.IH [OF line(3) this, of req1]
      have "header_loop (Suc fuel) io evs req = header_loop fuel io' evs' req1"
        using line(1,2) h(1) False by simp
      with IH show ?thesis unfolding lines using header_change_Cons [OF h(2)] by metis
    qed
  qed
qed simp

section \<open>Lemmas: requests\<close>

lemma strspn_take: "set (take (strspn s chars) s) \<subseteq> set chars"
  unfolding strspn_def takeWhile_eq_take [symmetric] by (auto dest: set_takeWhileD)

lemma accepted_chars: "set (accepted chars s) \<subseteq> set chars"
  using strspn_take [of s chars] set_take_subset_set_take [of "min (strspn s chars) 100" "strspn s chars" s]
  by (auto simp: accepted_def)

lemma accepted_length: "length (accepted chars s) \<le> 100"
  by (simp add: accepted_def)

lemma accepted_plain: "NUL \<notin> set chars \<Longrightarrow> plain (accepted chars s)"
  using accepted_chars by (auto simp: plain_def)

lemma cstr_length: "length (cstr s) \<le> length s"
  by (simp add: cstr_def length_takeWhile_le)

lemma unescape_accepted:
  obtains r mem where "unescape (accepted command_chars s @ [NUL]) = Some (r, mem)"
proof -
  have "NUL \<notin> set command_chars" by (simp add: command_chars_def NUL_def)
  from unescape_decode [OF accepted_plain [OF this], of s] that show thesis
    by (auto split: option.splits)
qed

text \<open>A file is asked for by a name of accepted characters, and every rejection is a short text.\<close>

definition good_name :: "string \<Rightarrow> bool" where
  "good_name s \<longleftrightarrow> set s \<subseteq> set file_chars \<and> length s \<le> 100"

definition parsed_ok :: "parsed \<Rightarrow> bool" where
  "parsed_ok p \<longleftrightarrow> (case p of
      Bad which message \<Rightarrow> length message \<le> 500
    | Parsed type param interval suffixed \<Rightarrow>
        (type = A_FILE \<longrightarrow> (case param of None \<Rightarrow> False | Some s \<Rightarrow> good_name s)) \<and>
        (type = A_COMMAND \<longrightarrow> param \<noteq> None))"

lemma parse_request_ok: "\<exists>p. parse_request line = Some p \<and> parsed_ok p"
proof -
  obtain r mem where "unescape (accepted command_chars (drop 20 (the (strstr line ''GET /?action=command''))) @ [NUL])
      = Some (r, mem)" by (rule unescape_accepted)
  then show ?thesis
    by (auto simp: parse_request_def parsed_ok_def good_name_def accepted_length
        subset_iff dest: accepted_chars [THEN subsetD] split: option.split)
qed

section \<open>Lemmas: responses\<close>

lemma dec_nat_bound: "0 < k \<Longrightarrow> n < 10 ^ k \<Longrightarrow> length (dec_nat n) \<le> k"
proof (induction k arbitrary: n)
  case (Suc k)
  show ?case
  proof (cases "n < 10")
    case False
    then have "k \<noteq> 0" using Suc.prems by (cases k) auto
    have "n div 10 < 10 ^ k" using Suc.prems by (simp add: less_mult_imp_div_less)
    with \<open>k \<noteq> 0\<close> show ?thesis using Suc.IH [of "n div 10"] False by (simp add: dec_nat_length(2))
  qed (simp add: dec_nat_length(1))
qed simp

lemma dec_length: "length (dec x) \<le> 11"
  using to_s32_range [of x] dec_nat_bound [of 10 "nat (to_s32 x)"] dec_nat_bound [of 10 "nat (- to_s32 x)"]
  by (auto simp: dec_def Let_def is_s32_def nat_less_iff)

lemma dec_usec_length: "length (dec_usec x) \<le> 11"
  using dec_length [of x] by (simp add: dec_usec_def Let_def)

lemma timestamp_length: "length (timestamp_text f) \<le> 50"
  using dec_length [of "frame_sec f"] dec_usec_length [of "frame_usec f"]
  by (simp add: timestamp_text_def crlf_def)

lemma std_header_length: "length STD_HEADER \<le> 230"
  by (simp add: STD_HEADER_def crlf_def)

lemma put_fits: "length s \<le> 1000 \<Longrightarrow> put BUFFER_SIZE [] s = Some s"
  by (simp add: put_def BUFFER_SIZE_def)

text \<open>Every response header fits into its buffer.\<close>

lemma snapshot_header_fits: "put BUFFER_SIZE [] (snapshot_header f) = Some (snapshot_header f)"
  using timestamp_length [of f] std_header_length
  by (intro put_fits) (simp add: snapshot_header_def status_line_def crlf_def)

lemma stream_header_fits: "put BUFFER_SIZE [] stream_header = Some stream_header"
  using std_header_length by (intro put_fits) (simp add: stream_header_def status_line_def crlf_def BOUNDARY_def)

lemma frame_texts_fit:
  "put BUFFER_SIZE [] (frame_header f) = Some (frame_header f)"
  "put BUFFER_SIZE [] part_boundary = Some part_boundary"
  using timestamp_length [of f] dec_length [of "int (length (frame_data f))"]
  by (intro put_fits; simp add: frame_header_def crlf_def BOUNDARY_def part_boundary_def)+

lemma mimetypes_length: "map_of mimetypes e = Some m \<Longrightarrow> length m \<le> 40"
  by (auto simp: mimetypes_def split: if_splits)

lemma file_header_fits:
  assumes "map_of mimetypes e = Some m"
  shows "put BUFFER_SIZE [] (file_header m) = Some (file_header m)"
  using mimetypes_length [OF assms] std_header_length
  by (intro put_fits) (simp add: file_header_def status_line_def crlf_def)

lemma error_text_length: "length (error_text which) \<le> 400"
  by (simp add: error_text_def status_line_def text_plain_def STD_HEADER_def crlf_def dq_def)

lemma send_error_Some:
  "length message \<le> 500 \<Longrightarrow> send_error which message = Some [Write (error_text which @ message)]"
  using error_text_length [of which] by (simp add: send_error_def put_def BUFFER_SIZE_def)


lemma strstr_length: "strstr s pat = Some r \<Longrightarrow> length r \<le> length s"
  by (induction s) (auto split: if_splits intro: le_SucI)

text \<open>The plugin number of a command is compared with the number of plugins but not with 0.\<close>

definition bad_plugin :: "string \<Rightarrow> bool" where
  "bad_plugin p \<longleftrightarrow> length p < 255 \<and> strstr p ''id='' \<noteq> None \<and> find_number p ''plugin='' 0 < 0 \<and>
     (find_number p ''dest='' Dest_Input = Dest_Input \<or> find_number p ''dest='' Dest_Input = Dest_Output)"

lemma command_response_fits:
  assumes "length cmd < 255"
  shows "put BUFFER_SIZE [] (command_response cmd res) = Some (command_response cmd res)"
  using assms std_header_length dec_length [of res]
  by (intro put_fits) (simp add: command_response_def status_line_def crlf_def text_plain_def)

lemma plugin_at_None: "i < int (length ps) \<Longrightarrow> plugin_at ps i = None \<longleftrightarrow> i < 0"
  by (auto simp: plugin_at_def mem_get_def)

lemma command_None: "command g (Some p) = None \<longleftrightarrow> bad_plugin p"
proof (cases "length p < 255 \<and> strstr p ''id='' \<noteq> None")
  case False
  then show ?thesis
    by (cases p) (auto simp: command_def bad_plugin_def send_error_Some dq_def split: option.split)
next
  case True
  then obtain r where r: "strstr p ''id='' = Some r" by blast
  have p: "\<not> (length p \<ge> 255 \<or> length p = 0)" using True by (cases p) auto
  let ?cmd = "take (strspn (drop 3 r) alnum_chars) (drop 3 r)"
  have "length ?cmd < 255" using strstr_length [OF r] True by (simp add: min_def) linarith
  note fits = command_response_fits [OF this]
  have d: "Dest_Output \<noteq> Dest_Input" by (simp add: Dest_Output_def Dest_Input_def)
  show ?thesis
    using r True d p plugin_at_None [of "find_number p ''plugin='' 0" "g_in g"]
      plugin_at_None [of "find_number p ''plugin='' 0" "g_out g"]
    by (auto simp: command_def bad_plugin_def Let_def fits bind_eq_None_conv)
qed

lemma stream_loop_Some: "\<exists>r. stream_loop w n interval inc cur cap k fs = Some r \<and> Block \<notin> set r"
proof (induction fs arbitrary: cur cap k)
  case (Cons f fs)
  obtain due cur' where d: "frame_due interval inc cur = (due, cur')" by (cases "frame_due interval inc cur")
  obtain r1 where r1: "stream_loop w n interval inc cur' cap k fs = Some r1" "Block \<notin> set r1"
    using Cons.IH by blast
  obtain r2 where r2: "stream_loop w n interval inc cur'
      (if length (frame_data f) > cap then length (frame_data f) + TEN_K else cap) (k + 3) fs = Some r2" "Block \<notin> set r2"
    using Cons.IH by blast
  show ?case using r1 r2 by (auto simp: d Let_def frame_texts_fit)
qed simp

lemma file_loop_Write: "a \<in> set (file_loop w k content) \<Longrightarrow> \<exists>s. a = Write s"
  by (induction w k content rule: file_loop.induct) (subst (asm) (2) file_loop.simps, auto split: if_splits)

lemma send_file_Some:
  "\<exists>acts. send_file folder w parameter = Some acts \<and> Block \<notin> set acts"
  using file_loop_Write
  by (fastforce simp: send_file_def Let_def send_error_Some file_header_fits split: option.split)

lemma send_snapshot_Some:
  assumes "n < length (g_in g)"
  shows "\<exists>acts. send_snapshot g w n = Some acts"
  using assms by (auto simp: send_snapshot_def mem_get_def snapshot_header_fits split: list.split)

lemma send_stream_Some:
  assumes "n < length (g_in g)"
  shows "\<exists>acts. send_stream g w n interval = Some acts"
  using assms stream_loop_Some
  by (auto simp: send_stream_def mem_get_def stream_header_fits Let_def) (metis bind.bind_lunit option.distinct(1))

text \<open>The descriptors of all plugins can be printed.\<close>

definition descriptors_ok :: "globals \<Rightarrow> bool" where
  "descriptors_ok g \<longleftrightarrow> (\<forall>i \<in> set (g_in g). send_Input_JSON (in_parameters i) \<noteq> None) \<and>
     (\<forall>q \<in> set (g_out g). send_Output_JSON (out_parameters q) \<noteq> None) \<and>
     send_Program_JSON (List.map in_info (g_in g)) (List.map out_info (g_out g)) \<noteq> None"

lemma output_json_empty: "send_Output_JSON None \<noteq> None"
  by (simp add: send_Output_JSON_def put_def json_header_def json_start_def STD_HEADER_def crlf_def lf_def
      dq_def BUFFER_SIZE_def)

lemma answer_Some:
  assumes "n < length (g_in g)" "length (g_in g) \<le> 10" "descriptors_ok g"
    and "req_type req = A_COMMAND \<Longrightarrow> conf_nocommands conf \<or> (\<exists>p. req_parameter req = Some p \<and> \<not> bad_plugin p)"
  shows "\<exists>acts. answer conf g w req n interval = Some acts"
proof (cases "req_type req")
  case A_SNAPSHOT
  then show ?thesis using send_snapshot_Some [OF assms(1)] by (simp add: answer_def)
next
  case A_STREAM
  then show ?thesis using send_stream_Some [OF assms(1)] by (simp add: answer_def)
next
  case A_COMMAND
  then show ?thesis using assms(4) command_None [of g, THEN arg_cong [of _ _ Not]]
    by (auto simp: answer_def send_error_Some)
next
  case A_INPUT_JSON
  have "send_Input_JSON (in_parameters (g_in g ! n)) \<noteq> None"
    using assms(1,3) by (simp add: descriptors_ok_def)
  with A_INPUT_JSON show ?thesis using assms(1) by (auto simp: answer_def mem_get_def)
next
  case A_OUTPUT_JSON
  obtain p s where "output_parameters g n = Some p" "send_Output_JSON p = Some s"
    using assms(1-3) output_json_empty
    by (cases "n < length (g_out g)")
      (fastforce simp: output_parameters_def descriptors_ok_def MAX_OUTPUT_PLUGINS_def dest: nth_mem)+
  with A_OUTPUT_JSON show ?thesis by (simp add: answer_def)
next
  case A_PROGRAM_JSON
  then show ?thesis using assms(3) by (auto simp: answer_def descriptors_ok_def)
next
  case A_FILE
  then show ?thesis
    using send_file_Some [of _ w "req_parameter req"] by (auto simp: answer_def send_error_Some split: option.split)
qed (simp add: answer_def)

section \<open>Lemmas: the connection\<close>

text \<open>An effect that shows or does more than an error message.\<close>

definition discloses :: "action \<Rightarrow> bool" where
  "discloses a \<longleftrightarrow> (case a of Write s \<Rightarrow> take 9 s = ''HTTP/1.0 '' \<longrightarrow> s ! 9 = CHR ''2'' | Close \<Rightarrow> False | Exit \<Rightarrow> False
     | _ \<Rightarrow> True)"

lemma error_not_disclosing: "\<not> discloses (Write (error_text which @ message))"
  by (simp add: discloses_def error_text_def status_line_def nth_append)

text \<open>A request that gets as far as its answer: what the first line and the header say.\<close>

definition reaches :: "http_conf \<Rightarrow> globals \<Rightarrow> net_event list \<Rightarrow> string \<Rightarrow> request \<Rightarrow> nat \<Rightarrow> int \<Rightarrow> bool" where
  "reaches conf g events line req n interval \<longleftrightarrow>
     line = cstr (first_line 1023 (sent_bytes events)) \<and>
     (\<exists>suffixed. parse_request line = Some (Parsed (req_type req) (req_parameter req) interval suffixed) \<and>
       n = (if suffixed then input_suffix line else 0)) \<and>
     (case req_credentials req of None \<Rightarrow> True
      | Some c \<Rightarrow> \<exists>l \<in> set (stream_lines 1023 (sent_bytes events)). supplies (cstr l) c) \<and>
     authorised conf req \<and> n < length (g_in g)"

lemma connection_cases:
  obtains (rejected) acts where "client_thread conf g w events = Some acts"
      "\<forall>a \<in> set acts. \<not> discloses a" "last acts = Close \<or> last acts = Exit" "acts \<noteq> []"
    | (answered) line req n interval where "reaches conf g events line req n interval"
      "client_thread conf g w events = map_option finish (answer conf g w req n interval)"
proof -
  have rejected': thesis if "client_thread conf g w events = Some (e @ [Close])"
    "send_error which message = Some e" "length message \<le> 500" for which message e
    using that rejected [of "e @ [Close]"] send_error_Some [OF that(3), of which] error_not_disclosing
    by (auto simp: discloses_def)
  have ok: "io_ok init_iobuffer" "stream init_iobuffer events = sent_bytes events"
    by (simp_all add: io_ok_def init_iobuffer_def stream_def io_pending_def)
  show thesis
  proof (cases rule: read_line_cases [OF ok(1), of events])
    case (2 r io buf evs)
    then show thesis
      using rejected [of "[Close]"] rejected [of "[Exit]"]
      by (auto simp: client_thread_def line_failed_def discloses_def)
  next
    case (1 cnt io buf evs)
    obtain p where p: "parse_request (cstr buf) = Some p" "parsed_ok p" using parse_request_ok by blast
    show thesis
    proof (cases p)
      case (Bad which message)
      with p have m: "length message \<le> 500" by (simp add: parsed_ok_def)
      show thesis
        using rejected' [OF _ send_error_Some [OF m] m, of which] 1 p Bad send_error_Some [OF m, of which]
        by (simp add: client_thread_def)
    next
      case (Parsed type param interval suffixed)
      let ?req = "init_request\<lparr>req_type := type, req_parameter := param\<rparr>"
      let ?n = "if suffixed then input_suffix (cstr buf) else 0"
      have st: "stream io evs = drop (length (first_line 1023 (sent_bytes events))) (sent_bytes events)"
        using 1(6) ok(2) by simp
      then have "length (stream io evs) < header_fuel events" by (simp add: header_fuel_def)
      then obtain h where h: "header_loop (header_fuel events) io evs ?req = Some h"
        "\<forall>req'. h = Header_done req' \<longrightarrow> header_change (stream_lines 1023 (stream io evs)) ?req req'"
        using header_loop_Some [OF 1(3)] by blast
      show thesis
      proof (cases h)
        case (Header_done req)
        have run: "client_thread conf g w events =
            (if \<not> authorised conf req then
               do { e \<leftarrow> send_error 401 ''username and password do not match to configuration''; Some (e @ [Close]) }
             else if \<not> ?n < length (g_in g) then
               do { e \<leftarrow> send_error 404 ''Invalid input plugin number''; Some (e @ [Close]) }
             else do { acts \<leftarrow> answer conf g w req ?n interval; Some (finish acts) })"
          using 1(1,2) p(1) Parsed h(1) Header_done by (simp add: client_thread_def Let_def)
        show thesis
        proof (cases "authorised conf req \<and> ?n < length (g_in g)")
          case False
          then show thesis
            using run rejected' [of _ 401 "''username and password do not match to configuration''"]
              rejected' [of _ 404 "''Invalid input plugin number''"]
            by (auto simp: send_error_Some split: if_splits)
        next
          case True
          have "stream_lines 1023 (sent_bytes events)
              = first_line 1023 (sent_bytes events) # stream_lines 1023 (stream io evs)"
            using 1(5) ok(2) st by (subst stream_lines.simps) simp
          then have "reaches conf g events (cstr buf) req ?n interval"
            using 1(4) ok(2) p(1) Parsed h(2) Header_done True unfolding reaches_def header_change_def
          by (auto simp: init_request_def)
          moreover have "client_thread conf g w events = map_option finish (answer conf g w req ?n interval)"
            using run True by (cases "answer conf g w req ?n interval") simp_all
          ultimately show thesis by (rule answered)
        qed
      qed (use 1(1,2) p(1) Parsed h(1) rejected [of "[Close]"] rejected [of "[Exit]"] in
          \<open>auto simp: client_thread_def Let_def discloses_def\<close>)
    qed
  qed
qed


section \<open>Lemmas: what an answer does\<close>

lemma file_loop_no_open: "Open_file path \<notin> set (file_loop w k content)" "Wait_frame n \<notin> set (file_loop w k content)"
  using file_loop_Write by blast+

lemma stream_loop_actions:
  "stream_loop w n interval inc cur cap k fs = Some r \<Longrightarrow> a \<in> set r \<Longrightarrow> a = Wait_frame n \<or> (\<exists>s. a = Write s)"
proof (induction fs arbitrary: cur cap k r)
  case (Cons f fs)
  obtain due cur' where d: "frame_due interval inc cur = (due, cur')" by (cases "frame_due interval inc cur")
  show ?case
    using Cons.prems Cons.IH by (fastforce simp: d Let_def frame_texts_fit bind_eq_Some_conv split: if_splits)
qed simp

lemma send_snapshot_actions:
  assumes "send_snapshot g w n = Some acts" "a \<in> set acts"
  shows "a = Wait_frame n \<or> a = Block \<or> (\<exists>s. a = Write s)"
proof -
  obtain i where i: "mem_get (g_in g) n = Some i" using assms(1) by (auto simp: send_snapshot_def bind_eq_Some_conv)
  show ?thesis
    using assms i by (cases "in_frames i") (auto simp: send_snapshot_def snapshot_header_fits split: if_splits)
qed

text \<open>Only the answer with a file opens one, only a snapshot or a stream waits for frames.\<close>

lemma answer_opens:
  assumes "answer conf g w req n interval = Some acts" "Open_file path \<in> set acts"
  obtains folder where "req_type req = A_FILE" "conf_www_folder conf = Some folder"
    "send_file folder w (req_parameter req) = Some acts"
proof (cases "req_type req")
  case A_SNAPSHOT
  with assms show thesis
    by (auto simp: answer_def dest: send_snapshot_actions)
next
  case A_STREAM
  with assms show thesis
    by (auto simp: answer_def send_stream_def Let_def bind_eq_Some_conv dest: stream_loop_actions split: if_splits)
next
  case A_COMMAND
  with assms show thesis
    by (auto simp: answer_def command_def send_error_def Let_def bind_eq_Some_conv split: option.splits if_splits)
next
  case A_FILE
  with assms that show thesis
    by (cases "conf_www_folder conf") (auto simp: answer_def send_error_def bind_eq_Some_conv)
qed (use assms in \<open>auto simp: answer_def bind_eq_Some_conv\<close>)

lemma answer_waits:
  assumes "answer conf g w req n interval = Some acts" "Wait_frame m \<in> set acts"
  shows "m = n"
proof (cases "req_type req")
  case A_SNAPSHOT
  with assms show ?thesis
    by (auto simp: answer_def dest: send_snapshot_actions)
next
  case A_STREAM
  with assms show ?thesis
    by (auto simp: answer_def send_stream_def Let_def bind_eq_Some_conv dest: stream_loop_actions split: if_splits)
next
  case A_COMMAND
  with assms show ?thesis
    by (auto simp: answer_def command_def send_error_def Let_def bind_eq_Some_conv split: option.splits if_splits)
next
  case A_FILE
  with assms show ?thesis
    by (auto simp: answer_def send_file_def send_error_def Let_def bind_eq_Some_conv file_loop_no_open
        split: option.splits if_splits)
qed (use assms in \<open>auto simp: answer_def bind_eq_Some_conv\<close>)

lemma finish_set: "set (finish acts) \<subseteq> insert Close (set acts)"
  by (auto simp: finish_def)

text \<open>The path \<open>send_file\<close> opens.\<close>

lemma take_path: "take m folder @ take (m - length (take m folder)) name = take m (folder @ name)"
  by (simp add: min_def)

lemma send_file_opens:
  assumes "send_file folder w parameter = Some acts" "Open_file path \<in> set acts"
  obtains name where "name = ''index.html'' \<or> parameter = Some name"
    "drop (last_dot name) name \<in> fst ` set mimetypes" "path = take 1023 (folder @ name)"
proof -
  let ?name = "file_name parameter"
  have n: "?name = ''index.html'' \<or> parameter = Some ?name"
    by (simp add: file_name_def split: option.split)
  show thesis
  proof (cases "map_of mimetypes (drop (last_dot ?name) ?name)")
    case None
    with assms show thesis by (auto simp: send_file_def send_error_def Let_def bind_eq_Some_conv split: if_splits)
  next
    case (Some m)
    then have "drop (last_dot ?name) ?name \<in> fst ` set mimetypes" by (metis domI dom_map_of_conv_image_fst)
    moreover have "path = take 1023 folder @ take (1023 - length (take 1023 folder)) ?name"
      using assms Some
      by (auto simp: send_file_def send_error_def Let_def bind_eq_Some_conv file_loop_no_open BUFFER_SIZE_def
          split: option.splits if_splits)
    ultimately show thesis using that n unfolding take_path by blast
  qed
qed

section \<open>Lemmas: the pace of a stream\<close>

definition is_write :: "action \<Rightarrow> bool" where
  "is_write a \<longleftrightarrow> (case a of Write s \<Rightarrow> True | _ \<Rightarrow> False)"

lemma max_frame: "MAX_FRAME_CONST = 6553600"
  by (simp add: MAX_FRAME_CONST_def PJS_FLOAT_EXT_CONST_def PJS_FLOAT_SHIFT_def to_s32_def)

lemma wrapped_div: "(z - 6553600) div 65536 = z div 65536 - 100" for z :: int
  using div_mult_self2 [of 65536 z "-100"] by simp

lemma frame_due_wrap:
  assumes "0 < interval" "0 < inc" "0 < cur"
  obtains d where "d = 0 \<or> d = 6553600 \<and> d < cur"
    "frame_due interval inc cur = ((cur - d) div 65536 \<noteq> (cur - d + inc) div 65536, cur - d + inc)"
proof (cases "cur > MAX_FRAME_CONST")
  case True
  then show thesis using that [of 6553600] assms by (simp add: frame_due_def Let_def max_frame PJS_FLOAT_SHIFT_def)
next
  case False
  then show thesis using that [of 0] assms by (simp add: frame_due_def Let_def PJS_FLOAT_SHIFT_def)
qed

lemma frame_due_pace:
  assumes "0 < interval" "0 < inc" "0 < cur" "frame_due interval inc cur = (due, cur')"
  shows "due \<longleftrightarrow> (cur + inc) div 65536 \<noteq> cur div 65536" and "0 < cur'"
    and "(cur' + x) div 65536 - cur' div 65536 = (cur + inc + x) div 65536 - (cur + inc) div 65536"
proof -
  obtain d where d: "d = 0 \<or> d = 6553600 \<and> d < cur"
    "frame_due interval inc cur = ((cur - d) div 65536 \<noteq> (cur - d + inc) div 65536, cur - d + inc)"
    by (rule frame_due_wrap [OF assms(1-3)])
  have r: "cur - 6553600 + inc = cur + inc - 6553600" "cur - 6553600 + inc + x = cur + inc + x - 6553600" by simp_all
  have due: "due \<longleftrightarrow> (cur - d) div 65536 \<noteq> (cur - d + inc) div 65536" and cur': "cur' = cur - d + inc"
    using d(2) assms(4) by simp_all
  show "0 < cur'" using d(1) cur' assms(2,3) by linarith
  show "due \<longleftrightarrow> (cur + inc) div 65536 \<noteq> cur div 65536"
    using d(1) unfolding due by (elim disjE conjE) (simp, metis, simp only: r wrapped_div, linarith)
  show "(cur' + x) div 65536 - cur' div 65536 = (cur + inc + x) div 65536 - (cur + inc) div 65536"
    using d(1) unfolding cur' by (elim disjE conjE) (simp, simp only: r wrapped_div)
qed

lemma stream_loop_pace:
  assumes "0 < interval" "0 < inc" "inc < 65536" "0 < cur" "\<forall>k. w_write w k"
    and "stream_loop w n interval inc cur cap k fs = Some r"
  shows "int (length (filter is_write r)) = 3 * ((cur + int (length fs) * inc) div 65536 - cur div 65536)"
  using assms(4,6)
proof (induction fs arbitrary: cur cap k r)
  case (Cons f fs)
  obtain due cur' where d: "frame_due interval inc cur = (due, cur')" by (cases "frame_due interval inc cur")
  note pace = frame_due_pace(1,2) [OF assms(1,2) Cons.prems(1) d]
    frame_due_pace(3) [OF assms(1,2) Cons.prems(1) d, of "int (length fs) * inc"]
  have total: "cur + int (length (f # fs)) * inc = cur + inc + int (length fs) * inc" by (simp add: algebra_simps)
  show ?case
  proof (cases due)
    case False
    then obtain r' where "stream_loop w n interval inc cur' cap k fs = Some r'" "r = Wait_frame n # r'"
      using Cons.prems(2) by (auto simp: d bind_eq_Some_conv)
    then show ?thesis
      using Cons.IH [OF pace(2)] pace(1,3) False unfolding total by (simp add: is_write_def)
  next
    case True
    then obtain cap' r' where "stream_loop w n interval inc cur' cap' (k + 3) fs = Some r'"
      "r = [Wait_frame n, Write (frame_header f), Write (frame_data f), Write part_boundary] @ r'"
      using Cons.prems(2) assms(5) by (auto simp: d Let_def frame_texts_fit bind_eq_Some_conv split: if_splits)
    moreover have "(cur + inc) div 65536 = cur div 65536 + 1"
      using pace(1) True assms(2,3) by linarith
    ultimately show ?thesis
      using Cons.IH [OF pace(2)] pace(3) unfolding total by (simp add: is_write_def)
  qed
qed simp

lemma index_no_slash: "CHR ''/'' \<notin> set ''index.html''"
  by simp

lemma good_name_no_slash: "good_name s \<Longrightarrow> CHR ''/'' \<notin> set s"
  by (auto simp: good_name_def file_chars_def)

lemma reaches_parsed: "reaches conf g events line req n interval \<Longrightarrow>
    \<exists>suffixed. parsed_ok (Parsed (req_type req) (req_parameter req) interval suffixed)"
  using parse_request_ok [of line] by (force simp: reaches_def)

lemma ratio_less:
  fixes a b :: int
  assumes "a < b" "0 < b"
  shows "a * 65536 div b < 65536"
proof (rule ccontr)
  assume "\<not> a * 65536 div b < 65536"
  then have "b * 65536 \<le> b * (a * 65536 div b)" using assms(2) by simp
  also have "\<dots> \<le> a * 65536" using assms(2) pos_mod_sign [of b "a * 65536"] mult_div_mod_eq [of b "a * 65536"] by linarith
  finally show False using assms(1) by simp
qed

text \<open>A server with one camera, for the instances below.\<close>

definition demo_input :: input_plugin where
  "demo_input = \<lparr>in_info = \<lparr>plugin_id = 0, plugin_file = ''input_uvc.so'', plugin_parameters = ''''\<rparr>,
     in_parameters = None, in_frame_interval = 100,
     in_frames = replicate 4 \<lparr>frame_data = ''jpg'', frame_sec = 1, frame_usec = 5\<rparr>, in_cmd = (\<lambda>p c g v. 0)\<rparr>"

definition demo_globals :: globals where
  "demo_globals = \<lparr>g_in = [demo_input], g_out = []\<rparr>"

definition demo_world :: world where
  "demo_world = \<lparr>w_file = (\<lambda>p. if p = ''/www/a.txt'' then Some ''text'' else None), w_write = (\<lambda>n. True), w_garbage = 0\<rparr>"

definition demo_conf :: "string option \<Rightarrow> http_conf" where
  "demo_conf c = \<lparr>conf_credentials = c, conf_www_folder = Some ''/www/'', conf_nocommands = False\<rparr>"

definition demo_get :: "string \<Rightarrow> string \<Rightarrow> net_event list" where
  "demo_get path auth = [Readable (''GET '' @ path @ '' HTTP/1.0'' @ crlf), Readable (auth @ crlf)]"

section \<open>Properties\<close>

text \<open>
  C10: when credentials are configured, a connection never does more than send an error message
  (no 200 response, no data, no file opened, no frame waited for, no command run) unless one of the
  header lines the client sent carries credentials that decode to exactly the configured ones;
  however the bytes are cut into packets.
\<close>

theorem http_authentication:
  assumes "conf_credentials conf = Some c" "client_thread conf g w events = Some acts"
    and "a \<in> set acts" "discloses a"
  shows "\<exists>l \<in> set (stream_lines 1023 (sent_bytes events)). supplies (cstr l) c"
proof (cases rule: connection_cases [of conf g w events])
  case (rejected acts')
  then show ?thesis using assms(2-4) by simp
next
  case (answered line req n interval)
  from answered(1) have "authorised conf req" by (simp add: reaches_def)
  then have "req_credentials req = Some c" using assms(1) by (simp add: authorised_def)
  with answered(1) show ?thesis by (simp add: reaches_def)
qed

theorem http_authentication_witness:
  "\<exists>l \<in> set (stream_lines 1023 (sent_bytes (demo_get ''/a.txt'' (''Authorization: Basic YTpi'' @ crlf)))).
    supplies (cstr l) ''a:b''"
proof -
  let ?conf = "demo_conf (Some ''a:b'')" and ?events = "demo_get ''/a.txt'' (''Authorization: Basic YTpi'' @ crlf)"
  have "case client_thread ?conf demo_globals demo_world ?events of
      None \<Rightarrow> False | Some acts \<Rightarrow> Open_file ''/www/a.txt'' \<in> set acts" by code_simp
  moreover have "conf_credentials ?conf = Some ''a:b''" by (simp add: demo_conf_def)
  moreover have "discloses (Open_file ''/www/a.txt'')" by (simp add: discloses_def)
  ultimately show ?thesis
    using http_authentication [of ?conf "''a:b''" demo_globals demo_world ?events _ "Open_file ''/www/a.txt''"]
    by (auto split: option.splits)
qed

text \<open>
  C11: the server opens no file but one in the configured folder: the path is the folder followed by
  a name without a slash (cut off at the buffer's length), and the name ends in one of the
  extensions of the table.
\<close>

theorem http_opens_only_folder_files:
  assumes "client_thread conf g w events = Some acts" "Open_file path \<in> set acts"
  shows "\<exists>folder name. conf_www_folder conf = Some folder \<and> path = take 1023 (folder @ name) \<and>
    CHR ''/'' \<notin> set name \<and> drop (last_dot name) name \<in> fst ` set mimetypes"
proof (cases rule: connection_cases [of conf g w events])
  case (rejected acts')
  then show ?thesis using assms by (auto simp: discloses_def)
next
  case (answered line req n interval)
  then obtain acts' where a: "answer conf g w req n interval = Some acts'" "acts = finish acts'"
    using assms(1) by (cases "answer conf g w req n interval") auto
  then have "Open_file path \<in> set acts'" using assms(2) finish_set by fastforce
  from answer_opens [OF a(1) this] obtain folder where f: "req_type req = A_FILE"
    "conf_www_folder conf = Some folder" "send_file folder w (req_parameter req) = Some acts'" .
  obtain name where n: "name = ''index.html'' \<or> req_parameter req = Some name"
    "drop (last_dot name) name \<in> fst ` set mimetypes" "path = take 1023 (folder @ name)"
    by (rule send_file_opens [OF f(3) \<open>Open_file path \<in> set acts'\<close>])
  have "CHR ''/'' \<notin> set name"
    using n(1) reaches_parsed [OF answered(1)] f(1) good_name_no_slash [of name] index_no_slash
    by (auto simp: parsed_ok_def)
  with n f show ?thesis by blast
qed

theorem http_opens_only_folder_files_witness:
  "\<exists>folder name. Some ''/www/'' = Some folder \<and> ''/www/a.txt'' = take 1023 (folder @ name) \<and>
    CHR ''/'' \<notin> set name \<and> drop (last_dot name) name \<in> fst ` set mimetypes"
proof -
  have "case client_thread (demo_conf None) demo_globals demo_world (demo_get ''/a.txt'' []) of
      None \<Rightarrow> False | Some acts \<Rightarrow> Open_file ''/www/a.txt'' \<in> set acts" by code_simp
  moreover have "conf_www_folder (demo_conf None) = Some ''/www/''" by (simp add: demo_conf_def)
  ultimately show ?thesis
    using http_opens_only_folder_files [of "demo_conf None" demo_globals demo_world "demo_get ''/a.txt'' []" _ "''/www/a.txt''"]
    by (auto split: option.splits)
qed

text \<open>
  C12: a connection never reads or writes outside a buffer and never uses an index or a pointer that
  is not valid, for every sequence of bytes and failures of the socket: when the plugins'
  descriptors can be printed and the request is not a command with a negative plugin number (or
  commands are switched off), the thread runs to its end and closes the connection, unless the
  process exits or a snapshot waits for a frame for ever.
\<close>

definition requested_command :: "net_event list \<Rightarrow> string option" where
  "requested_command events =
     (case parse_request (cstr (first_line 1023 (sent_bytes events))) of
        Some (Parsed A_COMMAND param interval suffixed) \<Rightarrow> param
      | _ \<Rightarrow> None)"



text \<open>
  C31: \<open>command\<close> compares the plugin number with the number of plugins but not with 0: it uses an
  element before the plugin array exactly when the parameter has an id, is shorter than 255, is
  addressed to an input or output plugin and has a negative plugin number.
\<close>

theorem command_negative_plugin:
  "command g (Some p) = None \<longleftrightarrow>
     length p < 255 \<and> strstr p ''id='' \<noteq> None \<and> find_number p ''plugin='' 0 < 0 \<and>
     (find_number p ''dest='' Dest_Input = Dest_Input \<or> find_number p ''dest='' Dest_Input = Dest_Output)"
  using command_None [of g p] by (simp add: bad_plugin_def)

text \<open>
  C32: \<open>GET /?action=snapshot\<close> serves the first input plugin whatever number follows an underscore
  in the request, although the suffix is meant to choose the plugin.
\<close>

theorem snapshot_ignores_suffix:
  assumes "has (cstr (first_line 1023 (sent_bytes events))) ''GET /?action=snapshot''"
    and "client_thread conf g w events = Some acts" "Wait_frame n \<in> set acts"
  shows "n = 0"
proof (cases rule: connection_cases [of conf g w events])
  case (rejected acts')
  then show ?thesis using assms by (auto simp: discloses_def)
next
  case (answered line req m interval)
  then obtain acts' where a: "answer conf g w req m interval = Some acts'" "acts = finish acts'"
    using assms(2) by (cases "answer conf g w req m interval") auto
  then have "Wait_frame n \<in> set acts'" using assms(3) finish_set by fastforce
  then have "n = m" by (rule answer_waits [OF a(1)])
  moreover have "m = 0" using answered(1) assms(1) by (auto simp: reaches_def parse_request_def)
  ultimately show ?thesis by simp
qed

theorem snapshot_ignores_suffix_witness:
  "case client_thread (demo_conf None) demo_globals demo_world (demo_get ''/?action=snapshot_3'' []) of
     None \<Rightarrow> False | Some acts \<Rightarrow> \<forall>n. Wait_frame n \<in> set acts \<longrightarrow> n = 0"
proof -
  let ?events = "demo_get ''/?action=snapshot_3'' []"
  have "has (cstr (first_line 1023 (sent_bytes ?events))) ''GET /?action=snapshot''" by code_simp
  moreover have "client_thread (demo_conf None) demo_globals demo_world ?events \<noteq> None" by code_simp
  ultimately show ?thesis
    using snapshot_ignores_suffix [of ?events "demo_conf None" demo_globals demo_world]
    by (auto split: option.splits)
qed

text \<open>
  A stream with a frame interval above the camera's is thinned out exactly at the ratio of the
  intervals: with \<open>m_frame_current\<close> starting at 0, after \<open>m\<close> camera frames exactly
  1 + m * inc / 65536 frames (rounded down) have been sent, where inc is the ratio in 1/65536; from
  a positive start value the count is shifted by its fraction.
\<close>

theorem stream_pace:
  assumes "n < length (g_in g)" "i = g_in g ! n" "0 < in_frame_interval i" "in_frame_interval i < interval"
    and "interval \<le> 10000" "\<forall>k. w_write w k" "0 \<le> w_garbage w" "in_frames i \<noteq> []"
  shows "\<exists>acts. send_stream g w n interval = Some acts \<and>
    int (length (filter is_write acts)) = 1 + 3 *
      (if w_garbage w = 0
       then 1 + int (length (in_frames i)) * (in_frame_interval i * 65536 div interval) div 65536
       else (w_garbage w + int (length (in_frames i)) * (in_frame_interval i * 65536 div interval)) div 65536
         - w_garbage w div 65536)"
proof -
  let ?c = "in_frame_interval i" and ?inc = "in_frame_interval i * 65536 div interval"
  have c: "to_s32 ?c = ?c" using assms by (simp add: to_s32_id)
  have inc: "frame_inc interval ?c = ?inc"
    using assms by (simp add: frame_inc_def PJS_FLOAT_EXT_CONST_def PJS_FLOAT_SHIFT_def to_s32_id sdiv_pos)
  have start: "frame_start (w_garbage w) interval ?c = w_garbage w" using assms by (simp add: frame_start_def)
  have pos: "0 < interval" "0 < ?inc" "?inc < 65536"
    using assms ratio_less [of ?c interval] by (auto simp: pos_imp_zdiv_pos_iff)
  obtain r where r: "stream_loop w n interval ?inc (w_garbage w) 0 1 (in_frames i) = Some r"
    using stream_loop_Some by blast
  have acts: "send_stream g w n interval = Some (Write stream_header # r)"
    using assms(1,6) c inc start r
    by (simp add: send_stream_def mem_get_def Let_def stream_header_fits flip: assms(2))
  show ?thesis
  proof (cases "w_garbage w = 0")
    case False
    then show ?thesis using acts stream_loop_pace [OF pos _ assms(6) r] assms(7) by (simp add: is_write_def)
  next
    case True
    obtain f fs where f: "in_frames i = f # fs" using assms(8) by (cases "in_frames i") auto
    have d: "frame_due interval ?inc 0 = (True, ?inc)" using pos by (simp add: frame_due_def)
    obtain cap r' where r': "stream_loop w n interval ?inc ?inc cap (1 + 3) fs = Some r'"
      "r = [Wait_frame n, Write (frame_header f), Write (frame_data f), Write part_boundary] @ r'"
      using r assms(6) by (auto simp: f True d Let_def frame_texts_fit bind_eq_Some_conv split: if_splits)
    have "?inc + int (length fs) * ?inc = int (length (f # fs)) * ?inc" by (simp add: algebra_simps)
    then show ?thesis
      using acts stream_loop_pace [OF pos pos(2) assms(6) r'(1)] r'(2) pos True by (simp add: is_write_def f)
  qed
qed

theorem stream_pace_witness:
  "\<exists>acts. send_stream demo_globals demo_world 0 200 = Some acts \<and> length (filter is_write acts) = 1 + 3 * 3"
proof -
  have "0 < length (g_in demo_globals)" by (simp add: demo_globals_def)
  from stream_pace [OF this refl, of 200 demo_world] show ?thesis
    by (simp add: demo_globals_def demo_input_def demo_world_def)
qed

end
