(* ===== verification/Call_Routing.thy ===== *)
theory Call_Routing
  imports Prelude
begin

text \<open>
  The sound routing of a call: \<open>pjs_call_script_interface\<close> of
  intercom/pjs_intercom_script_interface.h with the switcher \<open>connect\<close> and \<open>disconnect\<close> of
  \<open>pjs_intercom_system\<close> (intercom/pjs_intercom.cpp). An operation gives the new state and the
  calls it makes to the conference bridge of pjsua, in order. The bridge is an interface
  (locale \<open>conference_bridge\<close>): connecting two ports adds a link, disconnecting removes it. Port 0
  is the main sound device, and 0 also stands for no port.
\<close>

section \<open>State\<close>

definition SCT_LISTEN_MAIN :: int where "SCT_LISTEN_MAIN = 1"
definition SCT_CONFERENCE_ON_CONNECTED :: int where "SCT_CONFERENCE_ON_CONNECTED = 2"
definition SCT_CONFERENCE :: int where "SCT_CONFERENCE = 4"
definition PJ_ERR_CALL_IS_ENDED :: int where "PJ_ERR_CALL_IS_ENDED = -2000"

record call_script =
  cs_callid :: int
  cs_is_connected_to_main :: bool
  cs_sound_connection_type :: int
  cs_call_is_active :: bool
  cs_has_callback :: bool
  cs_vr_port :: int
  cs_call_port :: int

text \<open>What \<open>pjsua_enum_calls\<close> and its companions say of a call.\<close>

record call_entry =
  ce_callid :: int
  ce_has_media :: bool
  ce_port :: int

datatype bridge_op = Connect int int | Disconnect int int

definition clear_pjs_call_data :: call_script where
  "clear_pjs_call_data = \<lparr>cs_callid = 0, cs_is_connected_to_main = False,
     cs_sound_connection_type = SCT_CONFERENCE_ON_CONNECTED, cs_call_is_active = False,
     cs_has_callback = False, cs_vr_port = 0, cs_call_port = 0\<rparr>"

text \<open>The constructor; \<open>data\<close> is the call's data with the fields the caller has set.\<close>

definition new_call_script :: "call_script \<Rightarrow> bool \<Rightarrow> call_script" where
  "new_call_script data active =
     data\<lparr>cs_vr_port := 0, cs_call_port := 0, cs_is_connected_to_main := False, cs_call_is_active := active\<rparr>"

section \<open>The switcher\<close>

text \<open>The audio monitor, if there is one, hears what goes to the main device at its first input.\<close>

definition switch_connect :: "int option \<Rightarrow> int \<Rightarrow> int \<Rightarrow> bridge_op list" where
  "switch_connect monitor source sink =
     (case monitor of
        None \<Rightarrow> []
      | Some input1 \<Rightarrow> (if sink = 0 \<and> input1 \<noteq> source then [Connect source input1] else [])) @
     [Connect source sink]"

definition switch_disconnect :: "int option \<Rightarrow> int \<Rightarrow> int \<Rightarrow> bridge_op list" where
  "switch_disconnect monitor source sink =
     (case monitor of
        None \<Rightarrow> []
      | Some input1 \<Rightarrow> (if sink = 0 \<and> input1 \<noteq> source then [Disconnect source input1] else [])) @
     [Disconnect source sink]"

section \<open>Routing\<close>

definition check_vr_port_connection :: "int option \<Rightarrow> call_script \<Rightarrow> bridge_op list" where
  "check_vr_port_connection mon s =
     (if cs_call_port s \<noteq> 0 \<and> cs_vr_port s \<noteq> 0 then switch_connect mon (cs_vr_port s) (cs_call_port s) else [])"

fun sound_route_to_other_calls :: "int option \<Rightarrow> call_script \<Rightarrow> call_entry list \<Rightarrow> bool \<Rightarrow> bridge_op list" where
  "sound_route_to_other_calls mon s [] connect = []"
| "sound_route_to_other_calls mon s (c # cs) connect =
     (if ce_callid c = cs_callid s then []
      else if \<not> ce_has_media c then []
      else if ce_port c \<noteq> 0 then
        (if connect then switch_connect mon (cs_call_port s) (ce_port c) @ switch_connect mon (ce_port c) (cs_call_port s)
         else switch_disconnect mon (cs_call_port s) (ce_port c) @ switch_disconnect mon (ce_port c) (cs_call_port s))
      else []) @ sound_route_to_other_calls mon s cs connect"

definition has_sct :: "call_script \<Rightarrow> int \<Rightarrow> bool" where
  "has_sct s flag \<longleftrightarrow> cs_sound_connection_type s AND flag \<noteq> 0"

definition check_main_sound_connection :: "int option \<Rightarrow> call_entry list \<Rightarrow> call_script \<Rightarrow> bridge_op list" where
  "check_main_sound_connection mon calls s =
     (if cs_call_port s \<noteq> 0 then
        (if cs_is_connected_to_main s then
           sound_route_to_other_calls mon s calls (has_sct s SCT_CONFERENCE \<or> has_sct s SCT_CONFERENCE_ON_CONNECTED) @
           switch_connect mon (cs_call_port s) 0 @ switch_connect mon 0 (cs_call_port s)
         else
           sound_route_to_other_calls mon s calls (has_sct s SCT_CONFERENCE) @
           switch_disconnect mon (cs_call_port s) 0 @
           (if has_sct s SCT_LISTEN_MAIN then switch_connect mon 0 (cs_call_port s)
            else switch_disconnect mon 0 (cs_call_port s)))
      else [])"

section \<open>Operations\<close>

definition set_vr_port :: "int option \<Rightarrow> int \<Rightarrow> call_script \<Rightarrow> call_script \<times> bridge_op list" where
  "set_vr_port mon port s = (let s = s\<lparr>cs_vr_port := port\<rparr> in (s, check_vr_port_connection mon s))"

definition set_call_port :: "int option \<Rightarrow> call_entry list \<Rightarrow> int \<Rightarrow> call_script \<Rightarrow> call_script \<times> bridge_op list" where
  "set_call_port mon calls port s =
     (let s = s\<lparr>cs_call_port := port\<rparr>
      in (s, check_vr_port_connection mon s @ check_main_sound_connection mon calls s))"

text \<open>
  The result of \<open>connect_main\<close> and \<open>disconnect_main\<close>: the state, the calls to the bridge, whether
  the callback is told, and the return value.
\<close>

definition set_main :: "bool \<Rightarrow> int option \<Rightarrow> call_entry list \<Rightarrow> call_script \<Rightarrow> call_script \<times> bridge_op list \<times> bool \<times> bool" where
  "set_main b mon calls s =
     (let s = s\<lparr>cs_is_connected_to_main := b\<rparr>
      in (s, check_main_sound_connection mon calls s, cs_call_is_active s \<and> cs_has_callback s, cs_call_port s \<noteq> 0))"

definition connect_main :: "int option \<Rightarrow> call_entry list \<Rightarrow> call_script \<Rightarrow> call_script \<times> bridge_op list \<times> bool \<times> bool" where
  "connect_main = set_main True"

definition disconnect_main :: "int option \<Rightarrow> call_entry list \<Rightarrow> call_script \<Rightarrow> call_script \<times> bridge_op list \<times> bool \<times> bool" where
  "disconnect_main = set_main False"

text \<open>The type is a \<open>pj_uint8_t\<close>.\<close>

definition set_sound_connection_type ::
    "int option \<Rightarrow> call_entry list \<Rightarrow> int \<Rightarrow> call_script \<Rightarrow> call_script \<times> bridge_op list" where
  "set_sound_connection_type mon calls sct s =
     (let s = s\<lparr>cs_sound_connection_type := to_u8 sct\<rparr> in (s, check_main_sound_connection mon calls s))"

text \<open>\<open>answer\<close> and \<open>hangup\<close> reach pjsua only while the call is active.\<close>

definition answer_call :: "(int \<Rightarrow> int \<Rightarrow> string option \<Rightarrow> int) \<Rightarrow> int \<Rightarrow> string option \<Rightarrow> call_script \<Rightarrow> int" where
  "answer_call pjsua_answer code reason s =
     (if cs_call_is_active s then pjsua_answer (cs_callid s) code reason else PJ_ERR_CALL_IS_ENDED)"

definition hangup_call :: "(int \<Rightarrow> int \<Rightarrow> int) \<Rightarrow> int \<Rightarrow> call_script \<Rightarrow> int" where
  "hangup_call pjsua_hangup code s =
     (if cs_call_is_active s then pjsua_hangup (cs_callid s) code else PJ_ERR_CALL_IS_ENDED)"

section \<open>The bridge\<close>

text \<open>Running the calls on a bridge with the given connect and disconnect functions.\<close>

fun run_op :: "('b \<Rightarrow> int \<Rightarrow> int \<Rightarrow> 'b) \<Rightarrow> ('b \<Rightarrow> int \<Rightarrow> int \<Rightarrow> 'b) \<Rightarrow> bridge_op \<Rightarrow> 'b \<Rightarrow> 'b" where
  "run_op conf_connect conf_disconnect (Connect a b) br = conf_connect br a b"
| "run_op conf_connect conf_disconnect (Disconnect a b) br = conf_disconnect br a b"

definition run_ops :: "('b \<Rightarrow> int \<Rightarrow> int \<Rightarrow> 'b) \<Rightarrow> ('b \<Rightarrow> int \<Rightarrow> int \<Rightarrow> 'b) \<Rightarrow> bridge_op list \<Rightarrow> 'b \<Rightarrow> 'b" where
  "run_ops conf_connect conf_disconnect ops br = fold (run_op conf_connect conf_disconnect) ops br"

text \<open>The links the state asks for, among those that touch the call's port.\<close>

definition other_ports :: "call_entry list \<Rightarrow> call_script \<Rightarrow> int set" where
  "other_ports calls s = ce_port ` {c \<in> set calls. ce_callid c \<noteq> cs_callid s \<and> ce_has_media c \<and> ce_port c \<noteq> 0}"

lemma other_ports_simps:
  "other_ports [] s = {}"
  "other_ports (c # calls) s = (if ce_callid c \<noteq> cs_callid s \<and> ce_has_media c \<and> ce_port c \<noteq> 0
      then insert (ce_port c) (other_ports calls s) else other_ports calls s)"
  by (auto simp: other_ports_def)

definition in_conference :: "call_script \<Rightarrow> bool" where
  "in_conference s \<longleftrightarrow> has_sct s SCT_CONFERENCE \<or> cs_is_connected_to_main s \<and> has_sct s SCT_CONFERENCE_ON_CONNECTED"

definition hears_main :: "call_script \<Rightarrow> bool" where
  "hears_main s \<longleftrightarrow> cs_is_connected_to_main s \<or> has_sct s SCT_LISTEN_MAIN"

definition wanted_links :: "int option \<Rightarrow> call_entry list \<Rightarrow> call_script \<Rightarrow> (int \<times> int) set" where
  "wanted_links mon calls s =
     (let p = cs_call_port s in
      (if in_conference s then {(p, r) | r. r \<in> other_ports calls s} \<union> {(r, p) | r. r \<in> other_ports calls s} else {}) \<union>
      (if cs_is_connected_to_main s then insert (p, 0) ({(p, i) | i. mon = Some i \<and> i \<noteq> p}) else {}) \<union>
      (if hears_main s then {(0, p)} else {}))"

definition governed_links :: "int option \<Rightarrow> call_entry list \<Rightarrow> call_script \<Rightarrow> (int \<times> int) set" where
  "governed_links mon calls s =
     (let p = cs_call_port s in
      {(p, r) | r. r \<in> other_ports calls s} \<union> {(r, p) | r. r \<in> other_ports calls s} \<union>
      insert (p, 0) (insert (0, p) ({(p, i) | i. mon = Some i \<and> i \<noteq> p})))"

locale conference_bridge =
  fixes conf_connect :: "'b \<Rightarrow> int \<Rightarrow> int \<Rightarrow> 'b"
    and conf_disconnect :: "'b \<Rightarrow> int \<Rightarrow> int \<Rightarrow> 'b"
    and links :: "'b \<Rightarrow> (int \<times> int) set"
  assumes links_connect: "links (conf_connect br a b) = insert (a, b) (links br)"
    and links_disconnect: "links (conf_disconnect br a b) = links br - {(a, b)}"
begin

lemma links_run:
  "links (run_ops conf_connect conf_disconnect [] br) = links br"
  "links (run_ops conf_connect conf_disconnect (Connect a b # ops) br)
    = links (run_ops conf_connect conf_disconnect ops (conf_connect br a b))"
  "links (run_ops conf_connect conf_disconnect (Disconnect a b # ops) br)
    = links (run_ops conf_connect conf_disconnect ops (conf_disconnect br a b))"
  by (simp_all add: run_ops_def)

lemma run_append:
  "run_ops conf_connect conf_disconnect (xs @ ys) br
    = run_ops conf_connect conf_disconnect ys (run_ops conf_connect conf_disconnect xs br)"
  by (simp add: run_ops_def)

lemma links_switch_connect:
  "links (run_ops conf_connect conf_disconnect (switch_connect mon a b) br)
    = insert (a, b) (links br) \<union> {(a, i) | i. mon = Some i \<and> b = 0 \<and> i \<noteq> a}"
  by (auto simp: switch_connect_def links_run links_connect split: option.splits)

lemma links_switch_disconnect:
  "links (run_ops conf_connect conf_disconnect (switch_disconnect mon a b) br)
    = links br - insert (a, b) {(a, i) | i. mon = Some i \<and> b = 0 \<and> i \<noteq> a}"
  by (auto simp: switch_disconnect_def links_run links_disconnect split: option.splits)

lemma links_route:
  assumes "cs_call_port s \<noteq> 0"
  shows "links (run_ops conf_connect conf_disconnect (sound_route_to_other_calls mon s calls b) br)
    = (if b then links br \<union> {(cs_call_port s, r) | r. r \<in> other_ports calls s} \<union> {(r, cs_call_port s) | r. r \<in> other_ports calls s}
       else links br - {(cs_call_port s, r) | r. r \<in> other_ports calls s} - {(r, cs_call_port s) | r. r \<in> other_ports calls s})"
proof (induction calls arbitrary: br)
  case Nil
  then show ?case by (simp add: links_run other_ports_simps)
next
  case (Cons c calls)
  show ?case
    unfolding sound_route_to_other_calls.simps run_append Cons other_ports_simps using assms
    by (auto simp: run_append links_run links_switch_connect links_switch_disconnect)
qed

lemma links_check_main:
  assumes "cs_call_port s \<noteq> 0" "\<forall>i. mon = Some i \<longrightarrow> i \<noteq> 0 \<and> i \<notin> other_ports calls s"
    and "cs_call_port s \<notin> other_ports calls s"
  shows "links (run_ops conf_connect conf_disconnect (check_main_sound_connection mon calls s) br)
    = links br - governed_links mon calls s \<union> wanted_links mon calls s"
proof -
  have z: "0 \<notin> other_ports calls s" by (auto simp: other_ports_def)
  show ?thesis
    using assms z
    unfolding check_main_sound_connection_def governed_links_def wanted_links_def Let_def
    by (cases "cs_is_connected_to_main s"; cases mon)
      (auto simp: run_append links_route links_switch_connect links_switch_disconnect in_conference_def hears_main_def)
qed

end


section \<open>Sequences of operations\<close>

datatype routing_cmd = Set_call_port int | Connect_main | Disconnect_main | Set_type int

fun routing_step :: "int option \<Rightarrow> call_entry list \<Rightarrow> routing_cmd \<Rightarrow> call_script \<Rightarrow> call_script \<times> bridge_op list" where
  "routing_step mon calls (Set_call_port p) s = set_call_port mon calls p s"
| "routing_step mon calls Connect_main s = (case connect_main mon calls s of (s', ops, told, r) \<Rightarrow> (s', ops))"
| "routing_step mon calls Disconnect_main s = (case disconnect_main mon calls s of (s', ops, told, r) \<Rightarrow> (s', ops))"
| "routing_step mon calls (Set_type t) s = set_sound_connection_type mon calls t s"

text \<open>Each step ends with the check of the main connection in the new state.\<close>

lemma routing_step_ops:
  "\<exists>pre. snd (routing_step mon calls cmd s)
    = pre @ check_main_sound_connection mon calls (fst (routing_step mon calls cmd s))"
  by (cases cmd) (auto simp: set_call_port_def connect_main_def disconnect_main_def set_main_def
      set_sound_connection_type_def Let_def)

fun routing_run :: "int option \<Rightarrow> call_entry list \<Rightarrow> routing_cmd list \<Rightarrow> call_script \<Rightarrow> call_script \<times> bridge_op list" where
  "routing_run mon calls [] s = (s, [])"
| "routing_run mon calls (c # cs) s =
     (let (s1, ops1) = routing_step mon calls c s; (s2, ops2) = routing_run mon calls cs s1 in (s2, ops1 @ ops2))"

lemma routing_run_ops:
  assumes "cmds \<noteq> []"
  shows "\<exists>pre. snd (routing_run mon calls cmds s)
    = pre @ check_main_sound_connection mon calls (fst (routing_run mon calls cmds s))"
  using assms
proof (induction cmds arbitrary: s)
  case (Cons c cmds)
  obtain s1 ops1 where s1: "routing_step mon calls c s = (s1, ops1)" by (cases "routing_step mon calls c s")
  obtain s2 ops2 where s2: "routing_run mon calls cmds s1 = (s2, ops2)" by (cases "routing_run mon calls cmds s1")
  show ?case
  proof (cases "cmds = []")
    case True
    then show ?thesis using routing_step_ops [of mon calls c s] s1 by simp
  next
    case False
    then obtain pre where "ops2 = pre @ check_main_sound_connection mon calls s2"
      using Cons.IH [of s1] s2 by auto
    then have "ops1 @ ops2 = (ops1 @ pre) @ check_main_sound_connection mon calls s2" by simp
    then show ?thesis using s1 s2 by auto
  qed
qed simp

lemma wanted_governed: "wanted_links mon calls s \<subseteq> governed_links mon calls s"
  by (auto simp: wanted_links_def governed_links_def Let_def split: if_splits)

text \<open>The ports of a call that is well placed on the bridge.\<close>

definition ports_ok :: "int option \<Rightarrow> call_entry list \<Rightarrow> call_script \<Rightarrow> bool" where
  "ports_ok mon calls s \<longleftrightarrow> cs_call_port s \<noteq> 0 \<and> cs_call_port s \<notin> other_ports calls s \<and>
     (case mon of None \<Rightarrow> True | Some i \<Rightarrow> i \<noteq> 0 \<and> i \<notin> other_ports calls s)"

text \<open>The links themselves are a bridge.\<close>

interpretation link_set: conference_bridge "\<lambda>br a b. insert (a, b) br" "\<lambda>br a b. br - {(a, b)}" "\<lambda>br. br"
  by unfold_locales simp_all

text \<open>A call and the list of the other call, for the instances below.\<close>

definition demo_call :: "int \<Rightarrow> int \<Rightarrow> int \<Rightarrow> call_script" where
  "demo_call i port sct = clear_pjs_call_data\<lparr>cs_callid := i, cs_call_port := port, cs_sound_connection_type := sct\<rparr>"

definition demo_others :: "int \<Rightarrow> int \<Rightarrow> call_entry list" where
  "demo_others i port = [\<lparr>ce_callid = i, ce_has_media = True, ce_port = port\<rparr>]"

lemma demo_call_fields:
  "cs_call_port (demo_call i port sct) = port" "cs_is_connected_to_main (demo_call i port sct) = False"
  "has_sct (demo_call i port sct) flag \<longleftrightarrow> sct AND flag \<noteq> 0" "cs_callid (demo_call i port sct) = i"
  by (simp_all add: demo_call_def clear_pjs_call_data_def has_sct_def)

lemma demo_others_ports: "i \<noteq> j \<Longrightarrow> p \<noteq> 0 \<Longrightarrow> other_ports (demo_others i p) (demo_call j q t) = {p}"
  by (simp add: other_ports_simps demo_others_def demo_call_fields)

lemma demo_conference: "in_conference (demo_call i p t) \<longleftrightarrow> t AND 4 \<noteq> 0"
  by (simp add: in_conference_def demo_call_fields SCT_CONFERENCE_def)

lemma demo_ports_ok: "i \<noteq> j \<Longrightarrow> p \<noteq> 0 \<Longrightarrow> q \<noteq> 0 \<Longrightarrow> p \<noteq> q \<Longrightarrow> ports_ok None (demo_others i p) (demo_call j q t)"
  by (simp add: ports_ok_def demo_others_ports demo_call_fields)

lemma demo_set_type:
  "routing_run mon calls [Set_type t] (demo_call i p u)
    = (demo_call i p (to_u8 t), check_main_sound_connection mon calls (demo_call i p (to_u8 t)))"
  by (simp add: set_sound_connection_type_def demo_call_def Let_def)

section \<open>Properties\<close>

text \<open>
  C13: after any sequence of port changes, \<open>connect_main\<close>, \<open>disconnect_main\<close> and changes of the
  sound connection type, the links of the call's port with the main device, the monitor and the
  other calls with media are exactly those the current settings ask for, whatever was connected
  before, on every bridge where connecting adds a link and disconnecting removes it.
\<close>

theorem routing_follows_settings:
  assumes "conference_bridge cc cd links" "cmds \<noteq> []"
    and "routing_run mon calls cmds s = (s', ops)" "ports_ok mon calls s'"
  shows "links (run_ops cc cd ops br) \<inter> governed_links mon calls s' = wanted_links mon calls s'"
proof -
  obtain pre where ops: "ops = pre @ check_main_sound_connection mon calls s'"
    using routing_run_ops [OF assms(2), of mon calls s] assms(3) by auto
  have "links (run_ops cc cd ops br) = links (run_ops cc cd pre br) - governed_links mon calls s' \<union> wanted_links mon calls s'"
    unfolding ops conference_bridge.run_append [OF assms(1)]
    using assms(4) by (intro conference_bridge.links_check_main [OF assms(1)]) (auto simp: ports_ok_def)
  then show ?thesis using wanted_governed [of mon calls s'] by blast
qed

theorem routing_follows_settings_witness:
  "run_ops (\<lambda>br a b. insert (a, b) br) (\<lambda>br a b. br - {(a, b)})
     (snd (routing_run None (demo_others 2 6) [Set_type 0] (demo_call 1 5 4))) {(5, 6)}
     \<inter> governed_links None (demo_others 2 6) (demo_call 1 5 0) = {}"
proof -
  have "wanted_links None (demo_others 2 6) (demo_call 1 5 0) = {}"
    by (simp add: wanted_links_def Let_def demo_call_fields demo_conference hears_main_def)
  moreover have "routing_run None (demo_others 2 6) [Set_type 0] (demo_call 1 5 4)
      = (demo_call 1 5 0, check_main_sound_connection None (demo_others 2 6) (demo_call 1 5 0))"
    by (simp add: demo_set_type to_u8_def del: routing_run.simps)
  moreover have "ports_ok None (demo_others 2 6) (demo_call 1 5 0)" by (rule demo_ports_ok) simp_all
  ultimately show ?thesis
    using routing_follows_settings [OF link_set.conference_bridge_axioms, where br = "{(5, 6)}" and cmds = "[Set_type 0]"]
    by (metis list.distinct(1) snd_conv)
qed

text \<open>
  Whether two calls hear each other depends on the order of their last updates: when one call
  asks for the conference and the other does not, they are connected if the first was updated
  last, and disconnected if the other was, with the same settings in both cases.
\<close>

theorem conference_depends_on_order:
  assumes "conference_bridge cc cd links"
    and "ports_ok mon callsA a" "ports_ok mon callsB b"
    and "cs_call_port b \<in> other_ports callsA a" "cs_call_port a \<in> other_ports callsB b"
    and "in_conference a" "\<not> in_conference b"
  defines "updA \<equiv> run_ops cc cd (check_main_sound_connection mon callsA a)"
    and "updB \<equiv> run_ops cc cd (check_main_sound_connection mon callsB b)"
  shows "(cs_call_port a, cs_call_port b) \<in> links (updA (updB br)) \<and>
    (cs_call_port a, cs_call_port b) \<notin> links (updB (updA br))"
proof -
  have A: "links (updA br') = links br' - governed_links mon callsA a \<union> wanted_links mon callsA a" for br'
    unfolding updA_def using assms(2) by (intro conference_bridge.links_check_main [OF assms(1)]) (auto simp: ports_ok_def)
  have B: "links (updB br') = links br' - governed_links mon callsB b \<union> wanted_links mon callsB b" for br'
    unfolding updB_def using assms(3) by (intro conference_bridge.links_check_main [OF assms(1)]) (auto simp: ports_ok_def)
  have "(cs_call_port a, cs_call_port b) \<in> wanted_links mon callsA a"
    using assms(4,6) by (simp add: wanted_links_def Let_def)
  moreover have "(cs_call_port a, cs_call_port b) \<in> governed_links mon callsB b"
    using assms(5) by (simp add: governed_links_def Let_def)
  moreover have "cs_call_port a \<noteq> 0" "cs_call_port a \<noteq> cs_call_port b" "cs_call_port b \<noteq> 0"
    using assms(2-5) by (auto simp: ports_ok_def)
  then have "(cs_call_port a, cs_call_port b) \<notin> wanted_links mon callsB b"
    using assms(7) by (auto simp: wanted_links_def Let_def)
  ultimately show ?thesis unfolding A B by blast
qed

theorem conference_depends_on_order_witness:
  "(5, 6) \<in> run_ops (\<lambda>br x y. insert (x, y) br) (\<lambda>br x y. br - {(x, y)})
      (check_main_sound_connection None (demo_others 2 6) (demo_call 1 5 4))
      (run_ops (\<lambda>br x y. insert (x, y) br) (\<lambda>br x y. br - {(x, y)})
        (check_main_sound_connection None (demo_others 1 5) (demo_call 2 6 0)) {})"
  using conference_depends_on_order [OF link_set.conference_bridge_axioms,
      of None "demo_others 2 6" "demo_call 1 5 4" "demo_others 1 5" "demo_call 2 6 0" "{}"]
  by (simp add: demo_others_ports demo_conference demo_call_fields demo_ports_ok)

end
