(* ===== verification/Script_Registry.thy ===== *)
theory Script_Registry
  imports Prelude
begin

text \<open>
  The registry of scripts and calls of \<open>pjs_intercom_system\<close> (intercom/pjs_intercom.cpp): the maps
  \<open>m_scripts\<close> and \<open>m_calls\<close>, the operations on them and the life of a script
  (\<open>pjs_intercom_script\<close>, \<open>pjs_intercom_call\<close>). Each operation runs under \<open>m_scripts_mutex\<close>, so it
  is one step. A std::map is an association list in the order of its keys. The class of a script
  is its kind: a \<open>static_cast\<close> of a script that is not a call is None.
\<close>

section \<open>Ordered maps\<close>

fun map_find :: "('k :: linorder \<times> 'v) list \<Rightarrow> 'k \<Rightarrow> 'v option" where
  "map_find [] k = None"
| "map_find ((k', v) # m) k = (if k = k' then Some v else map_find m k)"

fun map_put :: "('k :: linorder \<times> 'v) list \<Rightarrow> 'k \<Rightarrow> 'v \<Rightarrow> ('k \<times> 'v) list" where
  "map_put [] k v = [(k, v)]"
| "map_put ((k', v') # m) k v =
     (if k < k' then (k, v) # (k', v') # m else if k = k' then (k, v) # m else (k', v') # map_put m k v)"

definition map_erase :: "('k :: linorder \<times> 'v) list \<Rightarrow> 'k \<Rightarrow> ('k \<times> 'v) list" where
  "map_erase m k = filter (\<lambda>(k', v). k' \<noteq> k) m"

definition map_ok :: "('k :: linorder \<times> 'v) list \<Rightarrow> bool" where
  "map_ok m \<longleftrightarrow> sorted (List.map fst m) \<and> distinct (List.map fst m)"

section \<open>State\<close>

text \<open>\<open>Call_script\<close> is a \<open>pjs_intercom_call\<close> with its call id, \<open>Thread_script\<close> a \<open>pjs_intercom_script_final\<close>.\<close>

datatype script_kind = Call_script int | Thread_script

record script =
  sc_kind :: script_kind
  sc_tag :: int
  sc_has_thread :: bool
  sc_completed :: bool
  sc_script_exit :: bool
  sc_call_is_active :: bool
  sc_connected_to_main :: bool
  sc_quit_messages :: nat

text \<open>
  The system. The effects outside the registry are recorded: the calls to \<open>pjsua_call_hangup\<close> with
  their code, and the scripts whose objects have been deleted.
\<close>

record system =
  sy_started :: bool
  sy_scripts_id :: u32
  sy_calls :: "(int \<times> u32) list"
  sy_scripts :: "(u32 \<times> script) list"
  sy_hangups :: "(int \<times> int) list"
  sy_deleted :: "script list"
  sy_last_check :: int

section \<open>A script\<close>

text \<open>
  The constructors: \<open>thread_ok\<close> says whether \<open>pj_thread_create\<close> succeeded. \<open>clean\<close> does nothing
  but release the script's own objects when there is no thread.
\<close>

definition new_call_object :: "int \<Rightarrow> int \<Rightarrow> bool \<Rightarrow> script" where
  "new_call_object callid tag thread_ok =
     \<lparr>sc_kind = Call_script callid, sc_tag = tag, sc_has_thread = thread_ok, sc_completed = False,
      sc_script_exit = False, sc_call_is_active = thread_ok, sc_connected_to_main = False, sc_quit_messages = 0\<rparr>"

definition new_thread_object :: "int \<Rightarrow> bool \<Rightarrow> script" where
  "new_thread_object tag thread_ok =
     \<lparr>sc_kind = Thread_script, sc_tag = tag, sc_has_thread = thread_ok, sc_completed = False,
      sc_script_exit = False, sc_call_is_active = False, sc_connected_to_main = False, sc_quit_messages = 0\<rparr>"

definition is_call :: "script \<Rightarrow> bool" where
  "is_call s \<longleftrightarrow> (case sc_kind s of Call_script c \<Rightarrow> True | Thread_script \<Rightarrow> False)"

text \<open>\<open>stop\<close>: a script whose thread still runs is told to end; a call is no longer active.\<close>

definition stop_script :: "script \<Rightarrow> script" where
  "stop_script s =
     (if sc_has_thread s \<and> \<not> sc_completed s then
        s\<lparr>sc_call_is_active := False, sc_script_exit := True, sc_quit_messages := sc_quit_messages s + 1\<rparr>
      else s)"

text \<open>The end of a script's thread; an active call is hung up.\<close>

definition script_thread_end :: "script \<Rightarrow> script \<times> (int \<times> int) list" where
  "script_thread_end s =
     (s\<lparr>sc_completed := True\<rparr>,
      case sc_kind s of Call_script callid \<Rightarrow> if sc_call_is_active s then [(callid, 503)] else [] | Thread_script \<Rightarrow> [])"

section \<open>The registry\<close>

definition get_script :: "system \<Rightarrow> u32 \<Rightarrow> script option" where
  "get_script y i = map_find (sy_scripts y) i"

text \<open>A script as a call: the cast is only defined for an object of that class.\<close>

definition cast_to_call :: "script option \<Rightarrow> script option option" where
  "cast_to_call s = (case s of None \<Rightarrow> Some None | Some s \<Rightarrow> if is_call s then Some (Some s) else None)"

definition get_call :: "int \<Rightarrow> system \<Rightarrow> (system \<times> (u32 \<times> script) option) option" where
  "get_call callid y =
     (case map_find (sy_calls y) callid of
        None \<Rightarrow> Some (y, None)
      | Some i \<Rightarrow>
          (case get_script y i of
             None \<Rightarrow> Some (y\<lparr>sy_calls := map_erase (sy_calls y) callid\<rparr>, None)
           | Some s \<Rightarrow> if is_call s then Some (y, Some (i, s)) else None))"

definition put_script :: "u32 \<Rightarrow> script \<Rightarrow> system \<Rightarrow> system" where
  "put_script i s y = y\<lparr>sy_scripts := map_put (sy_scripts y) i s\<rparr>"

definition create_thread :: "int \<Rightarrow> bool \<Rightarrow> system \<Rightarrow> system \<times> u32" where
  "create_thread tag thread_ok y =
     (if sy_started y then
        (let i = sy_scripts_id y + 1; y = y\<lparr>sy_scripts_id := i\<rparr>
         in (put_script i (new_thread_object tag thread_ok) y, i))
      else (y, 0))"

text \<open>\<open>create_call\<close> returns \<open>PJ_SUCCESS\<close> (0) or -1. An old script of the same call is stopped.\<close>

definition create_call :: "int \<Rightarrow> int \<Rightarrow> bool \<Rightarrow> system \<Rightarrow> (system \<times> int) option" where
  "create_call callid tag thread_ok y =
     (if sy_started y then
        (let i = sy_scripts_id y + 1; y = y\<lparr>sy_scripts_id := i\<rparr>;
             y = put_script i (new_call_object callid tag thread_ok) y
         in case map_find (sy_calls y) callid of
              None \<Rightarrow> Some (y\<lparr>sy_calls := map_put (sy_calls y) callid i\<rparr>, 0)
            | Some old \<Rightarrow>
                do {
                  c \<leftarrow> cast_to_call (get_script y old);
                  let y = (case c of None \<Rightarrow> y | Some s \<Rightarrow> put_script old (stop_script s) y);
                  Some (y\<lparr>sy_calls := map_put (sy_calls y) callid i\<rparr>, 0)
                })
      else Some (y, -1))"

text \<open>\<open>pjsua_call_hangup\<close> is recorded.\<close>

definition hangup :: "int \<Rightarrow> int \<Rightarrow> system \<Rightarrow> system" where
  "hangup callid code y = y\<lparr>sy_hangups := sy_hangups y @ [(callid, code)]\<rparr>"

text \<open>
  \<open>on_incoming_call\<close>; \<open>known\<close> says whether the account is one of the system's.
\<close>

definition on_incoming_call :: "bool \<Rightarrow> int \<Rightarrow> bool \<Rightarrow> system \<Rightarrow> system option" where
  "on_incoming_call known callid thread_ok y =
     (if known then
        do {
          (y, r) \<leftarrow> create_call callid 0 thread_ok y;
          Some (if r \<noteq> 0 then hangup callid 503 y else y)
        }
      else Some y)"

text \<open>\<open>make_call\<close> from the id pjsua gave the call on: the result is the call id or -1.\<close>

definition make_call :: "int option \<Rightarrow> int \<Rightarrow> bool \<Rightarrow> system \<Rightarrow> (system \<times> int) option" where
  "make_call new_id tag thread_ok y =
     (case new_id of
        None \<Rightarrow> Some (y, -1)
      | Some callid \<Rightarrow>
          do {
            (y, r) \<leftarrow> create_call callid tag thread_ok y;
            Some (if r \<noteq> 0 then (hangup callid 200 y, -1) else (y, callid))
          })"

text \<open>\<open>on_call_state\<close> for a call that is disconnected; the message to the main script is not part of the registry.\<close>

definition on_call_disconnected :: "int \<Rightarrow> system \<Rightarrow> system option" where
  "on_call_disconnected callid y =
     do {
       (y, c) \<leftarrow> get_call callid y;
       let y = (case c of None \<Rightarrow> y | Some (i, s) \<Rightarrow> put_script i (stop_script s) y);
       Some (y\<lparr>sy_calls := map_erase (sy_calls y) callid\<rparr>)
     }"

text \<open>\<open>hangup_calls_by_tag\<close>: the ids are collected in an array of \<open>PJSUA_MAX_CALLS\<close> elements.\<close>

fun collect_by_tag :: "system \<Rightarrow> nat \<Rightarrow> int \<Rightarrow> (int \<times> u32) list \<Rightarrow> int list \<Rightarrow> int list option" where
  "collect_by_tag y max_calls tag [] cids = Some cids"
| "collect_by_tag y max_calls tag ((c, i) # cs) cids =
     do {
       call \<leftarrow> cast_to_call (get_script y i);
       case call of
         Some s \<Rightarrow>
           (if sc_call_is_active s \<and> sc_tag s = tag then
              (if length cids < max_calls then
                 (case sc_kind s of
                    Call_script callid \<Rightarrow> collect_by_tag y max_calls tag cs (cids @ [callid])
                  | Thread_script \<Rightarrow> None)
               else None)
            else collect_by_tag y max_calls tag cs cids)
       | None \<Rightarrow> collect_by_tag y max_calls tag cs cids
     }"

definition hangup_calls_by_tag :: "nat \<Rightarrow> int \<Rightarrow> int \<Rightarrow> system \<Rightarrow> (system \<times> nat) option" where
  "hangup_calls_by_tag max_calls tag code y =
     do {
       cids \<leftarrow> collect_by_tag y max_calls tag (sy_calls y) [];
       Some (fold (\<lambda>c y. hangup c code y) cids y, length cids)
     }"

fun count_connected :: "system \<Rightarrow> (int \<times> u32) list \<Rightarrow> nat option" where
  "count_connected y [] = Some 0"
| "count_connected y ((c, i) # cs) =
     do {
       call \<leftarrow> cast_to_call (get_script y i);
       n \<leftarrow> count_connected y cs;
       Some (case call of
           Some s \<Rightarrow> if sc_call_is_active s \<and> sc_connected_to_main s then n + 1 else n
         | None \<Rightarrow> n)
     }"

definition get_connected_to_main_count :: "system \<Rightarrow> nat option" where
  "get_connected_to_main_count y = (if sy_started y then count_connected y (sy_calls y) else Some 0)"

text \<open>The sweep of \<open>timer\<close>: completed scripts leave the map and are deleted; at most every 900 ms.\<close>

definition timer_sweep :: "int \<Rightarrow> system \<Rightarrow> system" where
  "timer_sweep now y =
     (if sy_started y \<and> now - sy_last_check y \<ge> 900 then
        y\<lparr>sy_last_check := now,
          sy_scripts := filter (\<lambda>(i, s). \<not> sc_completed s) (sy_scripts y),
          sy_deleted := sy_deleted y @ List.map snd (filter (\<lambda>(i, s). sc_completed s) (sy_scripts y))\<rparr>
      else y)"

text \<open>The thread of the script with this id ends; a script without a thread never gets there.\<close>

definition thread_ends :: "u32 \<Rightarrow> system \<Rightarrow> system" where
  "thread_ends i y =
     (case get_script y i of
        None \<Rightarrow> y
      | Some s \<Rightarrow>
         (if sc_has_thread s \<and> \<not> sc_completed s then
            (let (s, hs) = script_thread_end s
             in (put_script i s y)\<lparr>sy_hangups := sy_hangups y @ hs\<rparr>)
          else y))"

text \<open>A call's script connects to or leaves the main device.\<close>

definition set_connected :: "u32 \<Rightarrow> bool \<Rightarrow> system \<Rightarrow> system" where
  "set_connected i b y =
     (case get_script y i of
        None \<Rightarrow> y
      | Some s \<Rightarrow> if is_call s then put_script i (s\<lparr>sc_connected_to_main := b\<rparr>) y else y)"


section \<open>Events\<close>

datatype reg_event = Create_thread int bool | Incoming bool int bool | Make_call "int option" int bool
  | Disconnected int | By_tag int int | Thread_ends u32 | Timer int | Connected u32 bool

text \<open>One step; \<open>M\<close> is \<open>PJSUA_MAX_CALLS\<close>.\<close>

fun registry_step :: "nat \<Rightarrow> reg_event \<Rightarrow> system \<Rightarrow> system option" where
  "registry_step M (Create_thread tag ok) y = Some (fst (create_thread tag ok y))"
| "registry_step M (Incoming known c ok) y = on_incoming_call known c ok y"
| "registry_step M (Make_call new tag ok) y = map_option fst (make_call new tag ok y)"
| "registry_step M (Disconnected c) y = on_call_disconnected c y"
| "registry_step M (By_tag tag code) y = map_option fst (hangup_calls_by_tag M tag code y)"
| "registry_step M (Thread_ends i) y = Some (thread_ends i y)"
| "registry_step M (Timer now) y = Some (timer_sweep now y)"
| "registry_step M (Connected i b) y = Some (set_connected i b y)"

fun registry_run :: "nat \<Rightarrow> reg_event list \<Rightarrow> system \<Rightarrow> system option" where
  "registry_run M [] y = Some y"
| "registry_run M (e # es) y = do { y \<leftarrow> registry_step M e y; registry_run M es y }"

definition new_system :: system where
  "new_system = \<lparr>sy_started = True, sy_scripts_id = 0, sy_calls = [], sy_scripts = [], sy_hangups = [],
     sy_deleted = [], sy_last_check = 0\<rparr>"

text \<open>pjsua numbers its calls from 0 up to the maximum.\<close>

fun event_ok :: "nat \<Rightarrow> reg_event \<Rightarrow> bool" where
  "event_ok M (Incoming known c ok) \<longleftrightarrow> 0 \<le> c \<and> c < int M"
| "event_ok M (Make_call (Some c) tag ok) \<longleftrightarrow> 0 \<le> c \<and> c < int M"
| "event_ok M e \<longleftrightarrow> True"

section \<open>Lemmas on ordered maps\<close>

lemma map_ok_simps [simp]:
  "map_ok []"
  "map_ok ((k, v) # m) \<longleftrightarrow> map_ok m \<and> (\<forall>k' \<in> fst ` set m. k < k')"
  by (auto simp: map_ok_def order.strict_iff_order)

lemma map_find_notin: "k \<notin> fst ` set m \<Longrightarrow> map_find m k = None"
  by (induction m k rule: map_find.induct) auto

lemma map_find_in: "map_ok m \<Longrightarrow> map_find m k = Some v \<longleftrightarrow> (k, v) \<in> set m"
  by (induction m k rule: map_find.induct) (auto simp: image_iff)

lemma map_put_keys: "fst ` set (map_put m k v) = insert k (fst ` set m)"
  by (induction m k v rule: map_put.induct) auto

lemma map_put_ok [simp]: "map_ok m \<Longrightarrow> map_ok (map_put m k v)"
  by (induction m k v rule: map_put.induct) (auto simp: map_put_keys)

lemma map_put_find: "map_ok m \<Longrightarrow> map_find (map_put m k v) k' = (if k' = k then Some v else map_find m k')"
proof (induction m k v rule: map_put.induct)
  case (2 k0 v0 m k v)
  have "k \<notin> fst ` set m" if "k < k0" using 2(2) that by auto
  then show ?case using 2 map_find_notin [of k m] by auto
qed auto

lemma map_filter_ok [simp]: "map_ok m \<Longrightarrow> map_ok (filter P m)"
  by (induction m) auto

lemma map_filter_find:
  "map_ok m \<Longrightarrow> map_find (filter P m) k = (case map_find m k of None \<Rightarrow> None | Some v \<Rightarrow> if P (k, v) then Some v else None)"
proof (induction m k rule: map_find.induct)
  case (2 k' v m k)
  have "map_find (filter P m) k' = None" using 2(2) by (intro map_find_notin) auto
  then show ?case using 2 by auto
qed simp

lemma map_erase_ok [simp]: "map_ok m \<Longrightarrow> map_ok (map_erase m k)"
  by (simp add: map_erase_def)

lemma map_erase_find: "map_ok m \<Longrightarrow> map_find (map_erase m k) k' = (if k' = k then None else map_find m k')"
  by (simp add: map_erase_def map_filter_find split: option.split)

lemmas map_simps = map_put_find map_filter_find map_erase_find

section \<open>The invariant\<close>

text \<open>
  The maps are ordered, no id is above the last one given out, and the script of a call, if it
  still exists, is the object of that call; \<open>M\<close> bounds the call ids.
\<close>

definition reg_inv :: "nat \<Rightarrow> system \<Rightarrow> bool" where
  "reg_inv M y \<longleftrightarrow> map_ok (sy_calls y) \<and> map_ok (sy_scripts y) \<and>
     (\<forall>i s. map_find (sy_scripts y) i = Some s \<longrightarrow> i \<le> sy_scripts_id y) \<and>
     (\<forall>c i. map_find (sy_calls y) c = Some i \<longrightarrow> 0 \<le> c \<and> c < int M \<and> i \<le> sy_scripts_id y \<and>
        (\<forall>s. map_find (sy_scripts y) i = Some s \<longrightarrow> sc_kind s = Call_script c))"

lemma reg_invI:
  assumes "map_ok (sy_calls y)" "map_ok (sy_scripts y)"
    and "\<And>i s. map_find (sy_scripts y) i = Some s \<Longrightarrow> i \<le> sy_scripts_id y"
    and "\<And>c i. map_find (sy_calls y) c = Some i \<Longrightarrow> 0 \<le> c \<and> c < int M \<and> i \<le> sy_scripts_id y"
    and "\<And>c i s. map_find (sy_calls y) c = Some i \<Longrightarrow> map_find (sy_scripts y) i = Some s \<Longrightarrow> sc_kind s = Call_script c"
  shows "reg_inv M y"
  using assms by (simp add: reg_inv_def)

lemma reg_invD:
  assumes "reg_inv M y"
  shows "map_ok (sy_calls y)" "map_ok (sy_scripts y)"
    and "map_find (sy_scripts y) i = Some s \<Longrightarrow> i \<le> sy_scripts_id y"
    and "map_find (sy_calls y) c = Some i \<Longrightarrow> 0 \<le> c \<and> c < int M \<and> i \<le> sy_scripts_id y"
    and "map_find (sy_calls y) c = Some i \<Longrightarrow> map_find (sy_scripts y) i = Some s \<Longrightarrow> sc_kind s = Call_script c"
  using assms by (auto simp: reg_inv_def)

lemma new_system_inv: "reg_inv M new_system"
  by (rule reg_invI) (simp_all add: new_system_def)

text \<open>Replacing a script by one of the same kind keeps the invariant, and so does forgetting one.\<close>

lemma put_same_inv:
  assumes "reg_inv M y" "map_find (sy_scripts y) i = Some s" "sc_kind s' = sc_kind s"
  shows "reg_inv M (put_script i s' y)"
  using reg_invD [OF assms(1)] assms(2,3) by (intro reg_invI) (auto simp: put_script_def map_simps split: if_splits)

lemma filter_inv:
  assumes "reg_inv M y"
  shows "reg_inv M (y\<lparr>sy_scripts := filter P (sy_scripts y)\<rparr>)"
  using reg_invD [OF assms] by (intro reg_invI) (auto simp: map_simps split: option.splits if_splits)

lemma erase_call_inv:
  assumes "reg_inv M y"
  shows "reg_inv M (y\<lparr>sy_calls := map_erase (sy_calls y) c\<rparr>)"
  using reg_invD [OF assms] by (intro reg_invI) (auto simp: map_simps split: if_splits)

lemma other_fields_inv [simp]:
  "reg_inv M (y\<lparr>sy_hangups := h\<rparr>) \<longleftrightarrow> reg_inv M y"
  "reg_inv M (y\<lparr>sy_deleted := d\<rparr>) \<longleftrightarrow> reg_inv M y"
  "reg_inv M (y\<lparr>sy_last_check := n\<rparr>) \<longleftrightarrow> reg_inv M y"
  by (simp_all add: reg_inv_def)

lemma hangup_fields [simp]:
  "sy_scripts (hangup c code y) = sy_scripts y" "sy_calls (hangup c code y) = sy_calls y"
  "sy_scripts_id (hangup c code y) = sy_scripts_id y" "sy_started (hangup c code y) = sy_started y"
  "reg_inv M (hangup c code y) \<longleftrightarrow> reg_inv M y"
  by (simp_all add: hangup_def)

text \<open>A new script gets an id that no script or call has.\<close>

lemma new_id_greater:
  fixes i :: u32
  assumes "unat i < 4294967295"
  shows "i < i + 1" and "unat (i + 1) = unat i + 1"
  using assms by (auto simp: word_less_nat_alt unat_word_ariths)

definition add_script :: "script \<Rightarrow> system \<Rightarrow> system" where
  "add_script s y = put_script (sy_scripts_id y + 1) s (y\<lparr>sy_scripts_id := sy_scripts_id y + 1\<rparr>)"

lemma add_script_inv:
  assumes "reg_inv M y" "unat (sy_scripts_id y) < 4294967295"
  shows "reg_inv M (add_script s y)"
proof (rule reg_invI)
  note D = reg_invD [OF assms(1)] and n = new_id_greater [OF assms(2)]
  show "map_ok (sy_calls (add_script s y))" "map_ok (sy_scripts (add_script s y))"
    using D(1,2) by (simp_all add: add_script_def put_script_def)
  show "i \<le> sy_scripts_id (add_script s y)" if "map_find (sy_scripts (add_script s y)) i = Some s'" for i s'
    using that D(3) [of i s'] n(1) D(2) by (auto simp: add_script_def put_script_def map_simps split: if_splits)
  show "0 \<le> c \<and> c < int M \<and> i \<le> sy_scripts_id (add_script s y)" if "map_find (sy_calls (add_script s y)) c = Some i" for c i
    using that D(4) [of c i] n(1) by (auto simp: add_script_def put_script_def)
  show "sc_kind s' = Call_script c"
    if "map_find (sy_calls (add_script s y)) c = Some i" "map_find (sy_scripts (add_script s y)) i = Some s'" for c i s'
    using that D(4) [of c i] D(5) [of c i s'] n(1) D(2)
    by (auto simp: add_script_def put_script_def map_simps split: if_splits)
qed

lemma register_call_inv:
  assumes "reg_inv M y" "0 \<le> c" "c < int M" "map_find (sy_scripts y) i = Some s" "sc_kind s = Call_script c"
  shows "reg_inv M (y\<lparr>sy_calls := map_put (sy_calls y) c i\<rparr>)"
  using reg_invD [OF assms(1)] assms(2-5)
  by (intro reg_invI) (auto simp: map_simps split: if_splits)

lemma stop_script_kind [simp]: "sc_kind (stop_script s) = sc_kind s"
  by (simp add: stop_script_def)

lemma create_call_run:
  assumes "sy_started y0"
  shows "create_call c tag ok y0 = (case map_find (sy_calls (add_script (new_call_object c tag ok) y0)) c of
      None \<Rightarrow> Some ((add_script (new_call_object c tag ok) y0)\<lparr>sy_calls := map_put (sy_calls (add_script (new_call_object c tag ok) y0)) c (sy_scripts_id y0 + 1)\<rparr>, 0)
    | Some old \<Rightarrow> do {
        s \<leftarrow> cast_to_call (get_script (add_script (new_call_object c tag ok) y0) old);
        let y = (case s of None \<Rightarrow> add_script (new_call_object c tag ok) y0 | Some s \<Rightarrow> put_script old (stop_script s) (add_script (new_call_object c tag ok) y0));
        Some (y\<lparr>sy_calls := map_put (sy_calls y) c (sy_scripts_id y0 + 1)\<rparr>, 0)
      })"
  using assms unfolding create_call_def Let_def add_script_def [symmetric] by (simp only: if_True)

lemma create_call_inv:
  assumes "reg_inv M y" "unat (sy_scripts_id y) < 4294967295" "0 \<le> c" "c < int M"
  shows "\<exists>y' r. create_call c tag ok y = Some (y', r) \<and> reg_inv M y' \<and> unat (sy_scripts_id y') \<le> unat (sy_scripts_id y) + 1"
proof (cases "sy_started y")
  case True
  let ?i = "sy_scripts_id y + 1" and ?new = "new_call_object c tag ok"
  let ?y = "add_script ?new y"
  note n = new_id_greater [OF assms(2)] and D = reg_invD [OF assms(1)]
  have inv: "reg_inv M ?y" by (rule add_script_inv [OF assms(1,2)])
  have new: "map_find (sy_scripts ?y) ?i = Some ?new" "sc_kind ?new = Call_script c"
    using D(2) by (simp_all add: add_script_def put_script_def map_simps new_call_object_def)
  have calls: "sy_calls ?y = sy_calls y" "sy_scripts_id ?y = ?i" by (simp_all add: add_script_def put_script_def)
  note run = create_call_run [OF True, of c tag ok]
  show ?thesis
  proof (cases "map_find (sy_calls y) c")
    case None
    then show ?thesis
      using run register_call_inv [OF inv assms(3,4) new] calls n(2) by (simp del: One_nat_def)
  next
    case (Some old)
    have old: "old \<noteq> ?i" using D(4) [OF Some] n(1) by auto
    show ?thesis
    proof (cases "map_find (sy_scripts ?y) old")
      case None
      then show ?thesis
        using run Some register_call_inv [OF inv assms(3,4) new] calls n(2)
        by (simp add: get_script_def cast_to_call_def)
    next
      case s: (Some s)
      have k: "sc_kind s = Call_script c" using reg_invD(5) [OF inv _ s] Some calls(1) by simp
      have inv2: "reg_inv M (put_script old (stop_script s) ?y)" by (rule put_same_inv [OF inv s]) simp
      have new2: "map_find (sy_scripts (put_script old (stop_script s) ?y)) ?i = Some ?new"
        using new(1) old reg_invD(2) [OF inv] by (simp add: put_script_def map_simps)
      have f: "sy_calls (put_script old (stop_script s) ?y) = sy_calls y" "sy_scripts_id (put_script old (stop_script s) ?y) = ?i"
        using calls by (simp_all add: put_script_def)
      have "create_call c tag ok y = Some ((put_script old (stop_script s) ?y)\<lparr>sy_calls := map_put (sy_calls y) c ?i\<rparr>, 0)"
        unfolding run calls(1) using Some s k f(1) by (simp add: get_script_def cast_to_call_def is_call_def)
      then show ?thesis
        using register_call_inv [OF inv2 assms(3,4) new2 new(2)] n(2) f by (simp del: One_nat_def)
    qed
  qed
qed (use assms in \<open>simp add: create_call_def\<close>)

section \<open>Every operation keeps the invariant\<close>

text \<open>The call a caller finds is the object registered under its id.\<close>

lemma cast_registered:
  assumes "reg_inv M y" "map_find (sy_calls y) c = Some i"
  shows "cast_to_call (get_script y i) = Some (get_script y i)"
  using reg_invD(5) [OF assms] by (auto simp: cast_to_call_def get_script_def is_call_def split: option.split)

lemma calls_at_most:
  assumes "reg_inv M y"
  shows "length (sy_calls y) \<le> M"
proof -
  have d: "distinct (List.map fst (sy_calls y))" using reg_invD(1) [OF assms] by (simp add: map_ok_def)
  have "c \<in> {0..<int M}" if "c \<in> fst ` set (sy_calls y)" for c
    using that reg_invD(1,4) [OF assms] by (auto simp: map_find_in)
  then have "fst ` set (sy_calls y) \<subseteq> {0..<int M}" by blast
  then have "card (fst ` set (sy_calls y)) \<le> card {0..<int M}" by (intro card_mono) simp_all
  moreover have "card (fst ` set (sy_calls y)) = length (sy_calls y)" using distinct_card [OF d] by simp
  ultimately show ?thesis by simp
qed

lemma collect_total:
  assumes "\<And>c i s. (c, i) \<in> set cs \<Longrightarrow> get_script y i = Some s \<Longrightarrow> sc_kind s = Call_script c"
    and "length cids + length cs \<le> M"
  shows "\<exists>r. collect_by_tag y M tag cs cids = Some r"
  using assms
proof (induction cs arbitrary: cids)
  case (Cons p cs)
  obtain c i where p: "p = (c, i)" by (cases p)
  have IH: "\<exists>r. collect_by_tag y M tag cs cids' = Some r" if "length cids' + length cs \<le> M" for cids'
    using Cons.prems(1) by (intro Cons.IH that) auto
  show ?case
  proof (cases "get_script y i")
    case None
    then show ?thesis using IH [of cids] Cons.prems(2) p by (simp add: cast_to_call_def)
  next
    case (Some s)
    have k: "sc_kind s = Call_script c" using Cons.prems(1) [OF _ Some] p by simp
    have "length cids < M" using Cons.prems(2) by simp
    then show ?thesis
      using IH [of cids] IH [of "cids @ [c]"] Cons.prems(2) p Some k by (simp add: cast_to_call_def is_call_def)
  qed
qed simp

lemma count_total:
  assumes "\<And>c i s. (c, i) \<in> set cs \<Longrightarrow> get_script y i = Some s \<Longrightarrow> sc_kind s = Call_script c"
  shows "\<exists>n. count_connected y cs = Some n"
  using assms
proof (induction cs)
  case (Cons p cs)
  obtain c i where p: "p = (c, i)" by (cases p)
  obtain n where "count_connected y cs = Some n" using Cons by auto
  moreover have "sc_kind s = Call_script c" if "get_script y i = Some s" for s using Cons.prems [OF _ that] p by simp
  ultimately show ?case
    using p by (cases "get_script y i") (auto simp: cast_to_call_def is_call_def)
qed simp

lemma registered_kinds:
  assumes "reg_inv M y" "(c, i) \<in> set (sy_calls y)" "get_script y i = Some s"
  shows "sc_kind s = Call_script c"
  using reg_invD(1) [OF assms(1)] reg_invD(5) [OF assms(1)] assms(2,3) by (auto simp: get_script_def map_find_in)

lemma fold_hangup [simp]:
  "reg_inv M (fold (\<lambda>c y. hangup c code y) cs y) \<longleftrightarrow> reg_inv M y"
  "sy_scripts_id (fold (\<lambda>c y. hangup c code y) cs y) = sy_scripts_id y"
  by (induction cs arbitrary: y) simp_all

lemma put_script_id [simp]: "sy_scripts_id (put_script i s y) = sy_scripts_id y"
  by (simp add: put_script_def)

lemma disconnected_inv:
  assumes "reg_inv M y"
  shows "\<exists>y'. on_call_disconnected c y = Some y' \<and> reg_inv M y' \<and> sy_scripts_id y' = sy_scripts_id y"
proof (cases "map_find (sy_calls y) c")
  case None
  then show ?thesis using erase_call_inv [OF assms] by (simp add: on_call_disconnected_def get_call_def)
next
  case (Some i)
  note e = erase_call_inv [OF assms, of c]
  show ?thesis
  proof (cases "get_script y i")
    case None
    then show ?thesis
      using Some erase_call_inv [OF e, of c] by (simp add: on_call_disconnected_def get_call_def)
  next
    case s: (Some s)
    have k: "is_call s" using reg_invD(5) [OF assms Some] s by (simp add: is_call_def get_script_def)
    have "reg_inv M (put_script i (stop_script s) y)"
      using put_same_inv [OF assms] s by (simp add: get_script_def)
    from erase_call_inv [OF this, of c] show ?thesis
      using Some s k by (simp add: on_call_disconnected_def get_call_def Let_def)
  qed
qed

lemma thread_ends_inv:
  assumes "reg_inv M y"
  shows "reg_inv M (thread_ends i y)" "sy_scripts_id (thread_ends i y) = sy_scripts_id y"
  using put_same_inv [OF assms, of i] assms
  by (auto simp: thread_ends_def script_thread_end_def get_script_def Let_def split: option.splits)

lemma set_connected_inv:
  assumes "reg_inv M y"
  shows "reg_inv M (set_connected i b y)" "sy_scripts_id (set_connected i b y) = sy_scripts_id y"
  using put_same_inv [OF assms, of i] assms by (auto simp: set_connected_def get_script_def split: option.splits)

lemma timer_inv:
  assumes "reg_inv M y"
  shows "reg_inv M (timer_sweep now y)" "sy_scripts_id (timer_sweep now y) = sy_scripts_id y"
proof -
  have "reg_inv M ((y\<lparr>sy_last_check := now\<rparr>)\<lparr>sy_scripts := filter (\<lambda>(i, s). \<not> sc_completed s) (sy_scripts (y\<lparr>sy_last_check := now\<rparr>))\<rparr>)"
    using assms by (intro filter_inv) simp
  then have "reg_inv M (y\<lparr>sy_last_check := now, sy_scripts := filter (\<lambda>(i, s). \<not> sc_completed s) (sy_scripts y), sy_deleted := d\<rparr>)" for d
    unfolding other_fields_inv(2) by simp
  then show "reg_inv M (timer_sweep now y)" using assms by (simp add: timer_sweep_def)
  show "sy_scripts_id (timer_sweep now y) = sy_scripts_id y" by (simp add: timer_sweep_def)
qed

lemma create_thread_inv:
  assumes "reg_inv M y" "unat (sy_scripts_id y) < 4294967295"
  shows "reg_inv M (fst (create_thread tag ok y))" "unat (sy_scripts_id (fst (create_thread tag ok y))) \<le> unat (sy_scripts_id y) + 1"
  using add_script_inv [OF assms, of "new_thread_object tag ok"] new_id_greater [OF assms(2)] assms(1)
  by (simp_all add: create_thread_def add_script_def Let_def put_script_def del: One_nat_def)

definition step_fine :: "nat \<Rightarrow> reg_event \<Rightarrow> system \<Rightarrow> bool" where
  "step_fine M e y \<longleftrightarrow> (\<exists>y'. registry_step M e y = Some y' \<and> reg_inv M y' \<and> unat (sy_scripts_id y') \<le> unat (sy_scripts_id y) + 1)"

lemma step_fineI:
  "registry_step M e y = Some y' \<Longrightarrow> reg_inv M y' \<Longrightarrow> unat (sy_scripts_id y') \<le> unat (sy_scripts_id y) + 1 \<Longrightarrow> step_fine M e y"
  by (auto simp: step_fine_def)

lemma registry_step_fine:
  assumes inv: "reg_inv M y" and id: "unat (sy_scripts_id y) < 4294967295" and ok: "event_ok M e"
  shows "step_fine M e y"
proof (cases e)
  case (Create_thread tag b)
  then show ?thesis using create_thread_inv [OF inv id] by (intro step_fineI) auto
next
  case (Incoming known c b)
  show ?thesis
  proof (cases known)
    case True
    obtain y' r where y': "create_call c 0 b y = Some (y', r)" "reg_inv M y'" "unat (sy_scripts_id y') \<le> unat (sy_scripts_id y) + 1"
      using create_call_inv [OF inv id, of c 0 b] ok Incoming by auto
    show ?thesis
      by (rule step_fineI [of _ _ _ "if r \<noteq> 0 then hangup c 503 y' else y'"]) (use Incoming True y' in \<open>auto simp: on_incoming_call_def\<close>)
  next
    case False
    then show ?thesis using Incoming inv by (intro step_fineI [of _ _ _ y]) (auto simp: on_incoming_call_def)
  qed
next
  case (Make_call new tag b)
  show ?thesis
  proof (cases new)
    case None
    then show ?thesis using Make_call inv by (intro step_fineI [of _ _ _ y]) (auto simp: make_call_def)
  next
    case (Some c)
    obtain y' r where y': "create_call c tag b y = Some (y', r)" "reg_inv M y'" "unat (sy_scripts_id y') \<le> unat (sy_scripts_id y) + 1"
      using create_call_inv [OF inv id, of c tag b] ok Make_call Some by auto
    show ?thesis
      by (rule step_fineI [of _ _ _ "if r \<noteq> 0 then hangup c 200 y' else y'"]) (use Make_call Some y' in \<open>auto simp: make_call_def\<close>)
  qed
next
  case (Disconnected c)
  then show ?thesis using disconnected_inv [OF inv, of c] by (auto simp: step_fine_def)
next
  case (By_tag tag code)
  obtain cids where "collect_by_tag y M tag (sy_calls y) [] = Some cids"
    using collect_total [of "sy_calls y" y "[]" M tag] registered_kinds [OF inv] calls_at_most [OF inv] by auto
  then show ?thesis using By_tag inv by (auto simp: step_fine_def hangup_calls_by_tag_def)
next
  case (Thread_ends i)
  then show ?thesis using thread_ends_inv [OF inv] by (intro step_fineI) auto
next
  case (Timer n)
  then show ?thesis using timer_inv [OF inv] by (intro step_fineI) auto
next
  case (Connected i b)
  then show ?thesis using set_connected_inv [OF inv] by (intro step_fineI) auto
qed

lemma registry_run_fine:
  assumes "reg_inv M y" "unat (sy_scripts_id y) + length es \<le> 4294967295" "\<forall>e \<in> set es. event_ok M e"
  shows "\<exists>y'. registry_run M es y = Some y' \<and> reg_inv M y' \<and> unat (sy_scripts_id y') \<le> unat (sy_scripts_id y) + length es"
  using assms
proof (induction es arbitrary: y)
  case (Cons e es)
  have "step_fine M e y" using Cons.prems by (intro registry_step_fine) auto
  then obtain y' where y': "registry_step M e y = Some y'" "reg_inv M y'" "unat (sy_scripts_id y') \<le> unat (sy_scripts_id y) + 1"
    by (auto simp: step_fine_def)
  have "unat (sy_scripts_id y') + length es \<le> 4294967295" using y'(3) Cons.prems(2) by simp
  then show ?case using Cons.IH [OF y'(2)] Cons.prems(3) y'(1,3) by fastforce
qed simp

section \<open>Properties\<close>

text \<open>
  C14: as long as fewer than 2^32 events have happened and pjsua keeps its call ids below the
  maximum, every operation is defined: each \<open>static_cast\<close> of a registered script to a call is of an
  object of that class, with the id it is registered under, the array of \<open>hangup_calls_by_tag\<close> is
  never exceeded, and counting the calls connected to the main device works.
\<close>

theorem casts_always_calls:
  assumes "\<forall>e \<in> set es. event_ok M e" "length es < 2 ^ 32"
  shows "\<exists>y. registry_run M es new_system = Some y \<and> get_connected_to_main_count y \<noteq> None \<and>
    (\<forall>c i s. map_find (sy_calls y) c = Some i \<and> get_script y i = Some s \<longrightarrow> sc_kind s = Call_script c)"
proof -
  have "sy_scripts_id new_system = 0" by (simp add: new_system_def)
  then obtain y where y: "registry_run M es new_system = Some y" "reg_inv M y"
    using registry_run_fine [OF new_system_inv, of es M] assms by auto
  have "get_connected_to_main_count y \<noteq> None"
    using count_total [of "sy_calls y" y] registered_kinds [OF y(2)] by (auto simp: get_connected_to_main_count_def)
  then show ?thesis using y reg_invD(5) [OF y(2)] by (auto simp: get_script_def)
qed

definition demo_events :: "reg_event list" where
  "demo_events = [Create_thread 7 True, Incoming True 0 True, Make_call (Some 1) 5 True, Incoming True 0 True,
     Connected 3 True, By_tag 5 603, Disconnected 0, Thread_ends 4, Timer 1000]"

theorem casts_always_calls_witness:
  "\<exists>y. registry_run 2 demo_events new_system = Some y \<and> get_connected_to_main_count y \<noteq> None \<and>
    (\<forall>c i s. map_find (sy_calls y) c = Some i \<and> get_script y i = Some s \<longrightarrow> sc_kind s = Call_script c)"
  by (rule casts_always_calls) (simp_all add: demo_events_def)

section \<open>A script whose thread was not started\<close>

text \<open>
  A script without a thread is never completed: no event completes, stops or removes it.
\<close>

definition stuck_script :: "u32 \<Rightarrow> script \<Rightarrow> system \<Rightarrow> bool" where
  "stuck_script i s y \<longleftrightarrow> (\<exists>b. map_find (sy_scripts y) i = Some (s\<lparr>sc_connected_to_main := b\<rparr>))"

lemma stuck_put:
  assumes "reg_inv M y" "stuck_script i s y" "j \<noteq> i"
  shows "stuck_script i s (put_script j s' y)"
  using assms reg_invD(2) [OF assms(1)] by (simp add: stuck_script_def put_script_def map_simps)

lemma stuck_other [simp]:
  "stuck_script i s (y\<lparr>sy_calls := cs\<rparr>) = stuck_script i s y"
  "stuck_script i s (y\<lparr>sy_hangups := hs\<rparr>) = stuck_script i s y"
  "stuck_script i s (y\<lparr>sy_scripts_id := n\<rparr>) = stuck_script i s y"
  "stuck_script i s (hangup c code y) = stuck_script i s y"
  by (simp_all add: stuck_script_def hangup_def)

lemma stuck_fold [simp]: "stuck_script i s (fold (\<lambda>c y. hangup c code y) cs y) = stuck_script i s y"
  by (induction cs arbitrary: y) simp_all

text \<open>Stopping a script without a thread does nothing.\<close>

lemma stuck_stop:
  assumes "reg_inv M y" "stuck_script i s y" "\<not> sc_has_thread s" "map_find (sy_scripts y) j = Some t"
  shows "stuck_script i s (put_script j (stop_script t) y)"
proof (cases "j = i")
  case True
  then obtain b where "t = s\<lparr>sc_connected_to_main := b\<rparr>" using assms(2,4) by (auto simp: stuck_script_def)
  then have "stop_script t = t" using assms(3) by (simp add: stop_script_def)
  then show ?thesis
    using assms(2,4) True reg_invD(2) [OF assms(1)] by (simp add: stuck_script_def put_script_def map_simps)
qed (use stuck_put [OF assms(1,2)] in simp)

lemma stuck_add:
  assumes "reg_inv M y" "stuck_script i s y" "unat (sy_scripts_id y) < 4294967295"
  shows "stuck_script i s (add_script t y)"
proof -
  have "sy_scripts_id y + 1 \<noteq> i"
    using assms(2) reg_invD(3) [OF assms(1), of i] new_id_greater(1) [OF assms(3)] by (auto simp: stuck_script_def)
  then show ?thesis
    using assms(2) reg_invD(2) [OF assms(1)] by (simp add: stuck_script_def add_script_def put_script_def map_simps)
qed

lemma stuck_create_call:
  assumes "reg_inv M y" "unat (sy_scripts_id y) < 4294967295" "stuck_script i s y" "\<not> sc_has_thread s"
    and "create_call c tag ok y = Some (y', r)"
  shows "stuck_script i s y'"
proof (cases "sy_started y")
  case True
  let ?i = "sy_scripts_id y + 1" and ?new = "new_call_object c tag ok"
  let ?y = "add_script ?new y"
  have inv: "reg_inv M ?y" by (rule add_script_inv [OF assms(1,2)])
  have st: "stuck_script i s ?y" by (rule stuck_add [OF assms(1,3,2)])
  note run = create_call_run [OF True, of c tag ok]
  show ?thesis
  proof (cases "map_find (sy_calls ?y) c")
    case None
    then show ?thesis using assms(5) st unfolding run by auto
  next
    case (Some old)
    then show ?thesis
      using assms(5) st stuck_stop [OF inv st assms(4)] unfolding run
      by (cases "get_script ?y old") (auto simp: cast_to_call_def get_script_def Let_def split: if_splits)
  qed
qed (use assms in \<open>simp add: create_call_def\<close>)

lemma stuck_step:
  assumes inv: "reg_inv M y" and id: "unat (sy_scripts_id y) < 4294967295"
    and st: "stuck_script i s y" and th: "\<not> sc_has_thread s" and nc: "\<not> sc_completed s"
    and run: "registry_step M e y = Some y'"
  shows "stuck_script i s y'"
proof (cases e)
  case (Create_thread tag b)
  then show ?thesis
    using run st stuck_add [OF inv st id, of "new_thread_object tag b"]
    by (auto simp: create_thread_def add_script_def Let_def split: if_splits)
next
  case (Incoming known c b)
  then show ?thesis
    using run st stuck_create_call [OF inv id st th, of c 0 b]
    by (cases "create_call c 0 b y") (auto simp: on_incoming_call_def split: if_splits)
next
  case (Make_call new tag b)
  show ?thesis
  proof (cases new)
    case None
    then show ?thesis using Make_call run st by (simp add: make_call_def)
  next
    case (Some c)
    then show ?thesis
      using run st Make_call stuck_create_call [OF inv id st th, of c tag b]
      by (cases "create_call c tag b y") (auto simp: make_call_def split: if_splits)
  qed
next
  case (Disconnected c)
  then show ?thesis
    using run st stuck_stop [OF inv st th]
    by (auto simp: on_call_disconnected_def get_call_def get_script_def Let_def bind_eq_Some_conv split: option.splits if_splits)
next
  case (By_tag tag code)
  then show ?thesis using run st by (auto simp: hangup_calls_by_tag_def bind_eq_Some_conv)
next
  case (Thread_ends j)
  show ?thesis
  proof (cases "j = i")
    case True
    then have "thread_ends j y = y" using st th by (auto simp: thread_ends_def get_script_def stuck_script_def)
    then show ?thesis using Thread_ends run st by simp
  next
    case False
    then show ?thesis
      using Thread_ends run st stuck_put [OF inv st False]
      by (auto simp: thread_ends_def script_thread_end_def Let_def split: option.splits if_splits)
  qed
next
  case (Timer now)
  then show ?thesis
    using run st nc reg_invD(2) [OF inv] by (auto simp: timer_sweep_def stuck_script_def map_simps)
next
  case (Connected j b)
  show ?thesis
  proof (cases "j = i")
    case True
    then show ?thesis
      using Connected run st reg_invD(2) [OF inv]
      by (auto simp: set_connected_def get_script_def stuck_script_def put_script_def map_simps)
  next
    case False
    then show ?thesis
      using Connected run st stuck_put [OF inv st False] by (auto simp: set_connected_def split: option.splits if_splits)
  qed
qed

lemma stuck_run:
  assumes "reg_inv M y" "unat (sy_scripts_id y) + length es \<le> 4294967295" "\<forall>e \<in> set es. event_ok M e"
    and "stuck_script i s y" "\<not> sc_has_thread s" "\<not> sc_completed s" "registry_run M es y = Some y'"
  shows "stuck_script i s y'"
  using assms
proof (induction es arbitrary: y)
  case (Cons e es)
  have "step_fine M e y" using Cons.prems by (intro registry_step_fine) auto
  then obtain y1 where y1: "registry_step M e y = Some y1" "reg_inv M y1" "unat (sy_scripts_id y1) \<le> unat (sy_scripts_id y) + 1"
    by (auto simp: step_fine_def)
  have "stuck_script i s y1"
    using Cons.prems by (intro stuck_step [OF Cons.prems(1) _ Cons.prems(4,5,6) y1(1)]) simp
  moreover have "unat (sy_scripts_id y1) + length es \<le> 4294967295" using y1(3) Cons.prems(2) by simp
  ultimately show ?case using Cons.IH [OF y1(2)] Cons.prems y1(1) by simp
qed simp

lemma registry_run_append:
  "registry_run M (es @ es') y = do { y \<leftarrow> registry_run M es y; registry_run M es' y }"
  by (induction es arbitrary: y) (simp_all split: bind_splits)

lemma create_call_new:
  assumes "reg_inv M y" "unat (sy_scripts_id y) < 4294967295" "sy_started y" "create_call c tag False y = Some (y', r)"
  shows "r = 0 \<and> sy_hangups y' = sy_hangups y \<and> stuck_script (sy_scripts_id y + 1) (new_call_object c tag False) y'"
proof -
  let ?new = "new_call_object c tag False"
  let ?y = "add_script ?new y"
  have inv: "reg_inv M ?y" by (rule add_script_inv [OF assms(1,2)])
  have "map_find (sy_scripts ?y) (sy_scripts_id y + 1) = Some (?new\<lparr>sc_connected_to_main := False\<rparr>)"
    using reg_invD(2) [OF assms(1)] by (simp add: add_script_def put_script_def map_simps new_call_object_def)
  then have st: "stuck_script (sy_scripts_id y + 1) ?new ?y" unfolding stuck_script_def by blast
  have h: "sy_hangups ?y = sy_hangups y" by (simp add: add_script_def put_script_def)
  have th: "\<not> sc_has_thread ?new" by (simp add: new_call_object_def)
  show ?thesis
  proof (cases "map_find (sy_calls ?y) c")
    case None
    then show ?thesis using assms(4) st h unfolding create_call_run [OF assms(3)] by auto
  next
    case (Some old)
    then show ?thesis
      using assms(4) st h stuck_stop [OF inv st th] unfolding create_call_run [OF assms(3)]
      by (cases "get_script ?y old") (auto simp: cast_to_call_def get_script_def Let_def put_script_def split: if_splits)
  qed
qed

text \<open>
  When the thread of an incoming call's script cannot be started, the call is accepted into the
  registry all the same: \<open>create_call\<close> reports success, so the call is not hung up, and no later
  event, not the disconnection of the call, not a hang-up by tag and not the timer, ever
  removes its script from the registry.
\<close>

theorem failed_thread_never_removed:
  assumes "registry_run M es new_system = Some y" "sy_started y"
    and "\<forall>e \<in> set (es @ es'). event_ok M e" "0 \<le> c" "c < int M" "length es + length es' + 1 < 2 ^ 32"
  shows "\<exists>y1 y2 s. registry_step M (Incoming True c False) y = Some y1 \<and> sy_hangups y1 = sy_hangups y \<and>
    registry_run M es' y1 = Some y2 \<and>
    get_script y2 (sy_scripts_id y + 1) = Some s \<and> sc_kind s = Call_script c \<and> \<not> sc_completed s"
proof -
  let ?new = "new_call_object c 0 False"
  have "sy_scripts_id new_system = 0" by (simp add: new_system_def)
  then have y: "reg_inv M y" "unat (sy_scripts_id y) \<le> length es"
    using registry_run_fine [OF new_system_inv, of es M] assms by auto
  have id: "unat (sy_scripts_id y) < 4294967295" using y(2) assms(6) by simp
  obtain y1 r where y1: "create_call c 0 False y = Some (y1, r)" "reg_inv M y1" "unat (sy_scripts_id y1) \<le> unat (sy_scripts_id y) + 1"
    using create_call_inv [OF y(1) id assms(4,5)] by blast
  note n = create_call_new [OF y(1) id assms(2) y1(1)]
  have b: "unat (sy_scripts_id y1) + length es' \<le> 4294967295" using y1(3) y(2) assms(6) by simp
  have ok: "\<forall>e \<in> set es'. event_ok M e" using assms(3) by simp
  obtain y2 where y2: "registry_run M es' y1 = Some y2" using registry_run_fine [OF y1(2) b ok] by blast
  have "stuck_script (sy_scripts_id y + 1) ?new y2"
    by (rule stuck_run [OF y1(2) b ok _ _ _ y2]) (use n in \<open>auto simp: new_call_object_def\<close>)
  then obtain b where "get_script y2 (sy_scripts_id y + 1) = Some (?new\<lparr>sc_connected_to_main := b\<rparr>)"
    by (auto simp: stuck_script_def get_script_def)
  moreover have "registry_step M (Incoming True c False) y = Some y1" "sy_hangups y1 = sy_hangups y"
    using y1(1) n by (simp_all add: on_incoming_call_def)
  ultimately show ?thesis using y2 by (auto simp: new_call_object_def)
qed

theorem failed_thread_never_removed_witness:
  "\<exists>y1 y2 s. registry_step 2 (Incoming True 1 False) new_system = Some y1 \<and> sy_hangups y1 = sy_hangups new_system \<and>
    registry_run 2 [Disconnected 1, Thread_ends 1, Timer 1000] y1 = Some y2 \<and>
    get_script y2 (sy_scripts_id new_system + 1) = Some s \<and> sc_kind s = Call_script 1 \<and> \<not> sc_completed s"
  by (rule failed_thread_never_removed [of 2 "[]"]) (simp_all add: new_system_def)

end
