(* ===== verification/Voice_Response.thy ===== *)
theory Voice_Response
  imports Gain_Control
begin

text \<open>
  The voice response port \<open>pjs_vr\<close> (intercom/pjs_vr.cpp): it plays sound files into a call and
  collects the digits of the caller, each with a condition that ends it. An operation runs under
  \<open>m_lock\<close>, so it is one step; the blocking forms of \<open>play_file\<close> and \<open>wait_input\<close> are two, up to
  the wait and after it. Times are milliseconds. pjmedia's file player and resampler are parameters.
\<close>

section \<open>State\<close>

datatype vr_state = VRS_IDLE | VRS_PLAY_FILE | VRS_WAIT_INPUT
datatype vr_effect = VRE_NONE | VRE_FADE_OUT

text \<open>A file player as pjmedia opens it: its format and its handle.\<close>

record 'p player =
  pl_channel_count :: int
  pl_clock_rate :: int
  pl_samples_per_frame :: int
  pl_bits_per_sample :: int
  pl_handle :: 'p

text \<open>
  pjmedia: opening a file, the next frame (None when it is not audio or is empty), mixing channels
  down in the buffer, resampling, and whether the allocations succeed.
\<close>

record 'p media =
  md_open :: "string \<Rightarrow> int \<Rightarrow> bool \<Rightarrow> 'p player option"
  md_get :: "'p \<Rightarrow> 'p \<times> int list option"
  md_nto1 :: "int \<Rightarrow> int list \<Rightarrow> int list"
  md_resample :: "int list \<Rightarrow> int list"
  md_pool_ok :: bool
  md_buffer_ok :: bool
  md_resample_ok :: bool

text \<open>
  The members of \<open>pjs_vr\<close>; a parameter the constructor leaves uninitialised is None. The calls of
  \<open>on_async_completed\<close> are recorded in \<open>vr_reports\<close>.
\<close>

record 'p vr =
  vr_sounds_path :: string
  vr_ptime :: int
  vr_clock_rate :: int
  vr_frame_samples :: nat
  vr_exit :: bool
  vr_callback :: bool
  vr_terminate_cond :: string
  vr_input_buffer :: string
  vr_state :: vr_state
  vr_async :: bool
  vr_async_param1 :: "int option"
  vr_async_param2 :: "int option"
  vr_getport :: "'p player option"
  vr_getbuffer :: "int list option"
  vr_getresample :: bool
  vr_get_first_time :: bool
  vr_effect :: vr_effect
  vr_effect_start_time :: int
  vr_effect_param :: int
  vr_wait_input_max :: nat
  vr_wait_input_start_time :: int
  vr_last_digits_time :: int
  vr_digits_timeout :: int
  vr_interdigits_timeout :: int
  vr_reports :: "(vr_state \<times> int option \<times> int option) list"

text \<open>The constructor; \<open>m_wait_input_max\<close> is not initialised there, but every use follows \<open>internal_stop\<close>.\<close>

definition new_vr :: "string \<Rightarrow> int \<Rightarrow> nat \<Rightarrow> bool \<Rightarrow> 'p vr" where
  "new_vr sounds_path sampling_rate samples_per_frame callback =
     \<lparr>vr_sounds_path =
        (if sounds_path \<noteq> [] then
           (if last sounds_path \<noteq> CHR 0x2F then sounds_path @ ''/'' else sounds_path)
         else ''./''),
      vr_ptime = to_u32 (int samples_per_frame * 1000) div sampling_rate,
      vr_clock_rate = sampling_rate, vr_frame_samples = samples_per_frame,
      vr_exit = False, vr_callback = callback, vr_terminate_cond = [], vr_input_buffer = [],
      vr_state = VRS_IDLE, vr_async = False, vr_async_param1 = None, vr_async_param2 = None,
      vr_getport = None, vr_getbuffer = None, vr_getresample = False, vr_get_first_time = True,
      vr_effect = VRE_NONE, vr_effect_start_time = 0, vr_effect_param = 0, vr_wait_input_max = 0,
      vr_wait_input_start_time = 0, vr_last_digits_time = 0, vr_digits_timeout = 0,
      vr_interdigits_timeout = 0, vr_reports = []\<rparr>"

section \<open>Ending an operation\<close>

text \<open>\<open>pj_elapsed_msec\<close> is unsigned.\<close>

definition elapsed_msec :: "int \<Rightarrow> int \<Rightarrow> int" where
  "elapsed_msec start now = to_u32 (now - start)"

definition check_terminate_cond :: "int \<Rightarrow> 'p vr \<Rightarrow> bool" where
  "check_terminate_cond now v \<longleftrightarrow>
     (vr_wait_input_max v \<noteq> 0 \<and> vr_wait_input_max v \<le> length (vr_input_buffer v)) \<or>
     (vr_input_buffer v \<noteq> [] \<and> vr_terminate_cond v \<noteq> [] \<and>
        list_ex (\<lambda>c. c \<in> set (vr_input_buffer v)) (vr_terminate_cond v)) \<or>
     (vr_digits_timeout v \<noteq> 0 \<and> vr_digits_timeout v \<le> elapsed_msec (vr_wait_input_start_time v) now) \<or>
     (vr_interdigits_timeout v \<noteq> 0 \<and> vr_interdigits_timeout v \<le> elapsed_msec (vr_last_digits_time v) now)"

definition async_completed :: "vr_state \<Rightarrow> 'p vr \<Rightarrow> 'p vr" where
  "async_completed state v =
     (if vr_async v \<and> \<not> vr_exit v \<and> vr_callback v then
        v\<lparr>vr_async := False, vr_reports := vr_reports v @ [(state, vr_async_param1 v, vr_async_param2 v)]\<rparr>
      else v\<lparr>vr_async := False\<rparr>)"

definition internal_stop :: "'p vr \<Rightarrow> 'p vr" where
  "internal_stop v =
     (async_completed (vr_state v) v)\<lparr>vr_get_first_time := True, vr_wait_input_max := 0,
        vr_interdigits_timeout := 0, vr_digits_timeout := 0, vr_effect := VRE_NONE,
        vr_terminate_cond := [], vr_getresample := False, vr_getport := None, vr_getbuffer := None,
        vr_state := VRS_IDLE\<rparr>"

definition stop :: "'p vr \<Rightarrow> 'p vr" where
  "stop v = internal_stop v"

section \<open>Digits\<close>

text \<open>Both forms of \<open>on_input\<close>: the new digits are appended and may end the operation.\<close>

definition on_input :: "string \<Rightarrow> int \<Rightarrow> 'p vr \<Rightarrow> 'p vr" where
  "on_input input now v =
     (let v = v\<lparr>vr_last_digits_time := now, vr_input_buffer := vr_input_buffer v @ input\<rparr>
      in if vr_state v \<noteq> VRS_IDLE \<and> check_terminate_cond now v then internal_stop v else v)"

definition on_digit :: "char \<Rightarrow> int \<Rightarrow> 'p vr \<Rightarrow> 'p vr" where
  "on_digit digit now v =
     (let v = v\<lparr>vr_last_digits_time := now, vr_input_buffer := vr_input_buffer v @ [digit]\<rparr>
      in if vr_state v \<noteq> VRS_IDLE \<and> check_terminate_cond now v then internal_stop v else v)"

text \<open>
  The loop of \<open>internal_get_input\<close>: after a digit is moved, the NEXT one is looked up in
  \<open>m_terminate_cond\<close>. In an empty buffer that is the terminating 0, which no condition holds.
\<close>

fun move_digits :: "string \<Rightarrow> nat \<Rightarrow> string \<Rightarrow> string \<times> string" where
  "move_digits cond max_digits [] = ([], [])"
| "move_digits cond 0 (c # cs) = ([], c # cs)"
| "move_digits cond (Suc max_digits) (c # cs) =
     (if cs \<noteq> [] \<and> hd cs \<in> set cond then ([c], cs)
      else (let (result, rest) = move_digits cond max_digits cs in (c # result, rest)))"

definition internal_get_input :: "nat \<Rightarrow> string \<Rightarrow> 'p vr \<Rightarrow> 'p vr \<times> string" where
  "internal_get_input max_digits terminate_cond v =
     (let (result, rest) = move_digits (vr_terminate_cond v) max_digits (vr_input_buffer v)
      in (v\<lparr>vr_input_buffer := rest\<rparr>, result))"

definition clear_input :: "'p vr \<Rightarrow> 'p vr" where
  "clear_input v = v\<lparr>vr_input_buffer := []\<rparr>"

definition get_input :: "'p vr \<Rightarrow> 'p vr \<times> string" where
  "get_input v = (v\<lparr>vr_input_buffer := []\<rparr>, vr_input_buffer v)"

text \<open>
  \<open>wait_input\<close> up to its wait: the result, or None when the caller has to wait. The asynchronous
  form returns the empty string.
\<close>

definition wait_input ::
  "nat \<Rightarrow> string \<Rightarrow> int \<Rightarrow> int \<Rightarrow> bool \<Rightarrow> int \<Rightarrow> int \<Rightarrow> int \<Rightarrow> 'p vr \<Rightarrow> 'p vr \<times> string option" where
  "wait_input max_digits terminate_cond timeout inter_digits_timeout async async_param1 async_param2 now v =
     (let v = internal_stop v
      in if \<not> vr_exit v then
           (let v = v\<lparr>vr_async := async, vr_digits_timeout := timeout,
                      vr_interdigits_timeout := inter_digits_timeout, vr_terminate_cond := terminate_cond,
                      vr_wait_input_max := max_digits, vr_wait_input_start_time := now,
                      vr_last_digits_time := now\<rparr>
            in if check_terminate_cond now v then
                 (let v = async_completed VRS_WAIT_INPUT v
                  in if \<not> async then
                       (let (v, result) = internal_get_input max_digits terminate_cond v in (v, Some result))
                     else (v, Some []))
               else (v\<lparr>vr_state := VRS_WAIT_INPUT\<rparr>, if async then Some [] else None))
         else (v, Some []))"

text \<open>The rest of \<open>wait_input\<close> once the wait is over.\<close>

definition wait_input_finish :: "nat \<Rightarrow> string \<Rightarrow> 'p vr \<Rightarrow> 'p vr \<times> string" where
  "wait_input_finish max_digits terminate_cond v = internal_get_input max_digits terminate_cond v"

text \<open>
  \<open>internal_wait_completion\<close> over what it observes in each round: the time before the wait, the
  state after it and the time then, and the exit flag. None stands for a list that ends before the loop.
\<close>

fun internal_wait_completion :: "int \<Rightarrow> int \<Rightarrow> vr_state \<Rightarrow> bool \<Rightarrow> (vr_state \<times> int \<times> bool) list \<Rightarrow> bool option" where
  "internal_wait_completion timeout st state exit obs =
     (if state \<noteq> VRS_IDLE \<and> \<not> exit then
        (case obs of
           [] \<Rightarrow> None
         | (state', now, exit') # obs \<Rightarrow>
             (if timeout \<ge> 0 \<and> elapsed_msec st now \<ge> timeout then Some (state' = VRS_IDLE)
              else internal_wait_completion timeout st state' exit' obs))
      else Some (state = VRS_IDLE))"

section \<open>Playing a file\<close>

text \<open>
  \<open>play_file\<close> up to its wait: the result and whether the caller has to wait. The frame buffer has
  \<open>m_getsize\<close> bytes, a 16-bit value.
\<close>

definition get_size :: "'p player \<Rightarrow> int" where
  "get_size p = to_s16 (pl_samples_per_frame p * pl_channel_count p * pl_bits_per_sample p div 8)"

definition open_player :: "'p media \<Rightarrow> string \<Rightarrow> bool \<Rightarrow> 'p vr \<Rightarrow> 'p vr \<times> int" where
  "open_player md filepath loop v =
     (if md_pool_ok md then
        (case md_open md filepath (vr_ptime v) loop of
           None \<Rightarrow> (v\<lparr>vr_getport := None\<rparr>, -1)
         | Some p \<Rightarrow>
             (let v = v\<lparr>vr_getport := Some p\<rparr>
              in if md_buffer_ok md then
                   (let v = v\<lparr>vr_getbuffer := Some (replicate (nat (get_size p div 2)) 0)\<rparr>
                    in if pl_clock_rate p \<noteq> vr_clock_rate v then
                         (if md_resample_ok md then (v\<lparr>vr_getresample := True\<rparr>, 0) else (v, -1))
                       else (v, 0))
                 else (v\<lparr>vr_getbuffer := None\<rparr>, -1)))
      else (v, -1))"

definition play_file ::
  "'p media \<Rightarrow> string \<Rightarrow> string \<Rightarrow> bool \<Rightarrow> bool \<Rightarrow> int \<Rightarrow> int \<Rightarrow> int \<Rightarrow> 'p vr \<Rightarrow> 'p vr \<times> int \<times> bool" where
  "play_file md filename terminate_cond loop async async_param1 async_param2 now v =
     (let v = internal_stop v;
          filepath = vr_sounds_path v @ filename;
          v = v\<lparr>vr_terminate_cond := terminate_cond, vr_async := async\<rparr>;
          v = (if async then v\<lparr>vr_async_param1 := Some async_param1, vr_async_param2 := Some async_param2\<rparr> else v)
      in if \<not> check_terminate_cond now v \<and> \<not> vr_exit v then
           (let (v, result) = open_player md filepath loop v
            in if result < 0 then (internal_stop v, result, \<not> async)
               else (v\<lparr>vr_state := VRS_PLAY_FILE\<rparr>, result, \<not> async))
         else (async_completed VRS_PLAY_FILE v, -1, False))"

definition fade_out :: "int \<Rightarrow> int \<Rightarrow> 'p vr \<Rightarrow> 'p vr" where
  "fade_out duration now v =
     (if vr_state v = VRS_PLAY_FILE then
        v\<lparr>vr_effect_param := to_s32 duration, vr_effect := VRE_FADE_OUT, vr_effect_start_time := now\<rparr>
      else v)"

section \<open>The sound\<close>

text \<open>The effect on a frame: None is an overflow, \<open>Some None\<close> a frame that has become empty.\<close>

definition apply_effect :: "int \<Rightarrow> 'p vr \<Rightarrow> int list \<Rightarrow> int list option option" where
  "apply_effect now v buf =
     (case vr_effect v of
        VRE_NONE \<Rightarrow> Some (Some buf)
      | VRE_FADE_OUT \<Rightarrow>
          (if 0 < vr_effect_param v then
             (let elapsed = elapsed_msec (vr_effect_start_time v) now
              in if vr_effect_param v \<le> to_s32 elapsed then Some None
                 else do {
                   g \<leftarrow> agc_DIV (to_s32 (vr_effect_param v - elapsed)) (vr_effect_param v);
                   buf \<leftarrow> gain g g buf;
                   Some (Some buf)
                 })
           else Some (Some buf)))"

text \<open>
  A frame of the file: it is put into the frame buffer, mixed down, resampled or copied, and changed
  by the fade-in of the first frame and by the effect. The frame has \<open>n\<close> samples.
\<close>

definition file_frame :: "'p media \<Rightarrow> int \<Rightarrow> nat \<Rightarrow> 'p player \<Rightarrow> int list \<Rightarrow> int list \<Rightarrow> 'p vr
    \<Rightarrow> ('p vr \<times> int list option) option" where
  "file_frame md now n p getbuffer samples v =
     do {
       b \<leftarrow> mem_write getbuffer 0 samples;
       let b = (if pl_channel_count p \<noteq> 1 then md_nto1 md (pl_channel_count p) b else b);
       let v = v\<lparr>vr_getbuffer := Some b\<rparr>;
       out \<leftarrow> (if vr_getresample v then Some (md_resample md b) else mem_read b 0 n);
       out \<leftarrow> (if vr_get_first_time v then do { one \<leftarrow> agc_DIV 1 1; gain one 0 out } else Some out);
       let v = v\<lparr>vr_get_first_time := False\<rparr>;
       r \<leftarrow> apply_effect now v out;
       Some (v, r)
     }"

text \<open>\<open>get_frame\<close> for a frame of \<open>n\<close> samples: None as its audio is an empty frame, which is filled with zeros.\<close>

definition get_frame :: "'p media \<Rightarrow> int \<Rightarrow> nat \<Rightarrow> 'p vr \<Rightarrow> ('p vr \<times> int list option) option" where
  "get_frame md now n v =
     (if vr_state v \<noteq> VRS_IDLE \<and> n = vr_frame_samples v then
        (case (vr_getport v, vr_getbuffer v) of
           (Some p, Some getbuffer) \<Rightarrow>
             (let (h, samples) = md_get md (pl_handle p);
                  v = v\<lparr>vr_getport := Some (p\<lparr>pl_handle := h\<rparr>)\<rparr>
              in case samples of
                   None \<Rightarrow> Some (internal_stop v, None)
                 | Some samples \<Rightarrow>
                     do {
                       (v, r) \<leftarrow> file_frame md now n p getbuffer samples v;
                       Some (case r of None \<Rightarrow> (internal_stop v, None) | Some out \<Rightarrow> (v, Some out))
                     })
         | _ \<Rightarrow> Some (if check_terminate_cond now v then internal_stop v else v, None))
      else Some (v, None))"

section \<open>Runs\<close>

text \<open>
  What happens to a port: its API calls, digits, frames of the sound device and the end of the script
  (\<open>Exits\<close>). The asynchronous and the blocking form of an operation differ in their flag.
\<close>

datatype vr_event = Wait_input nat string int int bool int int int | Wait_over nat string
  | Play_file string string bool bool int int int | On_input string int | On_digit char int
  | Stop | Fade_out int int | Clear_input | Get_input | Get_frame int nat | Exits

text \<open>One event: None is a memory error or an overflow.\<close>

fun vr_step :: "'p media \<Rightarrow> vr_event \<Rightarrow> 'p vr \<Rightarrow> 'p vr option" where
  "vr_step md (Wait_input m cond t it async p1 p2 now) v = Some (fst (wait_input m cond t it async p1 p2 now v))"
| "vr_step md (Wait_over m cond) v = Some (fst (wait_input_finish m cond v))"
| "vr_step md (Play_file f cond loop async p1 p2 now) v = Some (fst (play_file md f cond loop async p1 p2 now v))"
| "vr_step md (On_input s now) v = Some (on_input s now v)"
| "vr_step md (On_digit c now) v = Some (on_digit c now v)"
| "vr_step md Stop v = Some (stop v)"
| "vr_step md (Fade_out d now) v = Some (fade_out d now v)"
| "vr_step md Clear_input v = Some (clear_input v)"
| "vr_step md Get_input v = Some (fst (get_input v))"
| "vr_step md (Get_frame now n) v = map_option fst (get_frame md now n v)"
| "vr_step md Exits v = Some (v\<lparr>vr_exit := True\<rparr>)"

fun vr_run :: "'p media \<Rightarrow> vr_event list \<Rightarrow> 'p vr \<Rightarrow> 'p vr option" where
  "vr_run md [] v = Some v"
| "vr_run md (e # es) v = do { v \<leftarrow> vr_step md e v; vr_run md es v }"

section \<open>What an operation leaves alone\<close>

lemma internal_stop_simps [simp]:
  "vr_state (internal_stop v) = VRS_IDLE" "vr_getport (internal_stop v) = None" "vr_getbuffer (internal_stop v) = None"
  "vr_async (internal_stop v) = False" "vr_exit (internal_stop v) = vr_exit v" "vr_callback (internal_stop v) = vr_callback v"
  "vr_input_buffer (internal_stop v) = vr_input_buffer v" "vr_terminate_cond (internal_stop v) = []"
  "vr_wait_input_max (internal_stop v) = 0" "vr_digits_timeout (internal_stop v) = 0" "vr_interdigits_timeout (internal_stop v) = 0"
  "vr_effect (internal_stop v) = VRE_NONE" "vr_getresample (internal_stop v) = False"
  "vr_frame_samples (internal_stop v) = vr_frame_samples v" "vr_clock_rate (internal_stop v) = vr_clock_rate v"
  "vr_sounds_path (internal_stop v) = vr_sounds_path v" "vr_ptime (internal_stop v) = vr_ptime v"
  by (simp_all add: internal_stop_def async_completed_def)

lemma internal_stop_reports:
  "vr_reports (internal_stop v) = vr_reports v @
     (if vr_async v \<and> \<not> vr_exit v \<and> vr_callback v then [(vr_state v, vr_async_param1 v, vr_async_param2 v)] else [])"
  by (simp add: internal_stop_def async_completed_def)

lemma async_completed_simps [simp]:
  "vr_state (async_completed st v) = vr_state v" "vr_getport (async_completed st v) = vr_getport v"
  "vr_getbuffer (async_completed st v) = vr_getbuffer v" "vr_async (async_completed st v) = False"
  "vr_exit (async_completed st v) = vr_exit v" "vr_callback (async_completed st v) = vr_callback v"
  "vr_input_buffer (async_completed st v) = vr_input_buffer v" "vr_effect (async_completed st v) = vr_effect v"
  "vr_getresample (async_completed st v) = vr_getresample v" "vr_terminate_cond (async_completed st v) = vr_terminate_cond v"
  "vr_frame_samples (async_completed st v) = vr_frame_samples v" "vr_clock_rate (async_completed st v) = vr_clock_rate v"
  by (simp_all add: async_completed_def)

lemma async_completed_reports:
  "vr_reports (async_completed st v) = vr_reports v @
     (if vr_async v \<and> \<not> vr_exit v \<and> vr_callback v then [(st, vr_async_param1 v, vr_async_param2 v)] else [])"
  by (simp add: async_completed_def)

lemma internal_get_input_simps [simp]:
  "vr_state (fst (internal_get_input m c v)) = vr_state v" "vr_async (fst (internal_get_input m c v)) = vr_async v"
  "vr_reports (fst (internal_get_input m c v)) = vr_reports v" "vr_exit (fst (internal_get_input m c v)) = vr_exit v"
  "vr_callback (fst (internal_get_input m c v)) = vr_callback v" "vr_getport (fst (internal_get_input m c v)) = vr_getport v"
  "vr_getbuffer (fst (internal_get_input m c v)) = vr_getbuffer v" "vr_effect (fst (internal_get_input m c v)) = vr_effect v"
  "vr_getresample (fst (internal_get_input m c v)) = vr_getresample v"
  "vr_frame_samples (fst (internal_get_input m c v)) = vr_frame_samples v"
  "vr_clock_rate (fst (internal_get_input m c v)) = vr_clock_rate v"
  by (simp_all add: internal_get_input_def split_beta Let_def)

lemma open_player_simps [simp]:
  "vr_async (fst (open_player md f l v)) = vr_async v" "vr_exit (fst (open_player md f l v)) = vr_exit v"
  "vr_callback (fst (open_player md f l v)) = vr_callback v" "vr_reports (fst (open_player md f l v)) = vr_reports v"
  "vr_state (fst (open_player md f l v)) = vr_state v" "vr_effect (fst (open_player md f l v)) = vr_effect v"
  "vr_frame_samples (fst (open_player md f l v)) = vr_frame_samples v"
  "vr_clock_rate (fst (open_player md f l v)) = vr_clock_rate v"
  by (simp_all add: open_player_def Let_def split: option.split)

lemma file_frame_simps:
  assumes "file_frame md now n p b s v = Some (v', r)"
  shows "vr_async v' = vr_async v" "vr_exit v' = vr_exit v" "vr_callback v' = vr_callback v"
    "vr_reports v' = vr_reports v" "vr_state v' = vr_state v"
  using assms by (auto simp: file_frame_def Let_def bind_eq_Some_conv)

section \<open>Reports\<close>

text \<open>Which events start an asynchronous operation.\<close>

fun starts_async :: "vr_event \<Rightarrow> bool" where
  "starts_async (Wait_input m cond t it async p1 p2 now) \<longleftrightarrow> async"
| "starts_async (Play_file f cond loop async p1 p2 now) \<longleftrightarrow> async"
| "starts_async _ \<longleftrightarrow> False"

definition reports_due :: "'p vr \<Rightarrow> nat" where
  "reports_due v = length (vr_reports v) + (if vr_async v then 1 else 0)"

definition report_inv :: "'p vr \<Rightarrow> bool" where
  "report_inv v \<longleftrightarrow> \<not> vr_exit v \<and> vr_callback v \<and> (vr_async v \<longrightarrow> vr_state v \<noteq> VRS_IDLE)"

lemma stop_due [simp]: "report_inv v \<Longrightarrow> reports_due (internal_stop v) = reports_due v"
  "report_inv v \<Longrightarrow> report_inv (internal_stop v)"
  by (auto simp: report_inv_def reports_due_def internal_stop_reports)

lemma wait_input_due:
  assumes "report_inv v"
  shows "report_inv (fst (wait_input m cond t it async p1 p2 now v))
    \<and> reports_due (fst (wait_input m cond t it async p1 p2 now v)) = reports_due v + (if async then 1 else 0)"
  using assms
  by (auto simp: wait_input_def Let_def split_beta report_inv_def reports_due_def internal_stop_reports async_completed_reports)

lemma play_file_due:
  assumes "report_inv v"
  shows "report_inv (fst (play_file md f cond loop async p1 p2 now v))
    \<and> reports_due (fst (play_file md f cond loop async p1 p2 now v)) = reports_due v + (if async then 1 else 0)"
  using assms
  by (auto simp: play_file_def Let_def split_beta report_inv_def reports_due_def internal_stop_reports async_completed_reports)

text \<open>A frame leaves what reports depend on alone, or it ends the operation.\<close>

definition same_control :: "'p vr \<Rightarrow> 'p vr \<Rightarrow> bool" where
  "same_control w v \<longleftrightarrow> vr_async w = vr_async v \<and> vr_exit w = vr_exit v \<and> vr_callback w = vr_callback v \<and>
     vr_reports w = vr_reports v \<and> vr_state w = vr_state v"

lemma same_control_port [simp]: "same_control (v\<lparr>vr_getport := p\<rparr>) v" "same_control v v"
  by (simp_all add: same_control_def)

lemma file_frame_control:
  assumes "file_frame md now n p b s (v\<lparr>vr_getport := q\<rparr>) = Some (v', r)"
  shows "same_control v' v"
  using file_frame_simps [OF assms] by (simp add: same_control_def)

lemma get_frame_cases:
  assumes "get_frame md now n v = Some (v', r)"
  obtains w where "same_control w v" "v' = w \<or> v' = internal_stop w"
proof (cases "vr_state v \<noteq> VRS_IDLE \<and> n = vr_frame_samples v")
  case True
  show ?thesis
  proof (cases "vr_getport v = None \<or> vr_getbuffer v = None")
    case no: True
    then show ?thesis using assms True that [of v]
      by (cases "vr_getport v"; cases "vr_getbuffer v") (auto simp: get_frame_def split: if_splits)
  next
    case False
    then obtain p b where pb: "vr_getport v = Some p" "vr_getbuffer v = Some b" by auto
    obtain h s where hs: "md_get md (pl_handle p) = (h, s)" by (cases "md_get md (pl_handle p)")
    let ?v = "v\<lparr>vr_getport := Some (p\<lparr>pl_handle := h\<rparr>)\<rparr>"
    show ?thesis
    proof (cases s)
      case None
      then show ?thesis using assms True pb hs that [of ?v] by (simp add: get_frame_def)
    next
      case (Some samples)
      then obtain w q where w: "file_frame md now n p b samples ?v = Some (w, q)"
        "v' = (case q of None \<Rightarrow> internal_stop w | Some out \<Rightarrow> w)"
        using assms True pb hs by (auto simp: get_frame_def Let_def bind_eq_Some_conv split: option.splits)
      then show ?thesis using that [of w] file_frame_control [OF w(1)] by (auto split: option.splits)
    qed
  qed
next
  case False
  then show ?thesis using assms that [of v] by (auto simp: get_frame_def)
qed

lemma get_frame_due:
  assumes "report_inv v" "get_frame md now n v = Some (v', r)"
  shows "report_inv v' \<and> reports_due v' = reports_due v"
proof -
  obtain w where w: "same_control w v" "v' = w \<or> v' = internal_stop w" using assms(2) by (rule get_frame_cases)
  have "report_inv w" "reports_due w = reports_due v"
    using w(1) assms(1) by (simp_all add: report_inv_def reports_due_def same_control_def)
  then show ?thesis using w(2) by auto
qed

lemma step_due:
  assumes inv: "report_inv v" and run: "vr_step md e v = Some v'" and e: "e \<noteq> Exits"
  shows "report_inv v' \<and> reports_due v' = reports_due v + (if starts_async e then 1 else 0)"
proof (cases e)
  case (Get_frame now n)
  then show ?thesis using get_frame_due [OF inv] run by auto
next
  case (On_input s now)
  have "report_inv (v\<lparr>vr_last_digits_time := now, vr_input_buffer := vr_input_buffer v @ s\<rparr>)"
    "reports_due (v\<lparr>vr_last_digits_time := now, vr_input_buffer := vr_input_buffer v @ s\<rparr>) = reports_due v"
    using inv by (simp_all add: report_inv_def reports_due_def)
  then show ?thesis using run On_input by (auto simp: on_input_def Let_def split: if_splits)
next
  case (On_digit c now)
  have "report_inv (v\<lparr>vr_last_digits_time := now, vr_input_buffer := vr_input_buffer v @ [c]\<rparr>)"
    "reports_due (v\<lparr>vr_last_digits_time := now, vr_input_buffer := vr_input_buffer v @ [c]\<rparr>) = reports_due v"
    using inv by (simp_all add: report_inv_def reports_due_def)
  then show ?thesis using run On_digit by (auto simp: on_digit_def Let_def split: if_splits)
next
  case (Wait_input m cond t it async p1 p2 now)
  then show ?thesis using run wait_input_due [OF inv, of m cond t it async p1 p2 now] by simp
next
  case (Play_file f cond loop async p1 p2 now)
  then show ?thesis using run play_file_due [OF inv, of md f cond loop async p1 p2 now] by simp
next
  case (Wait_over m cond)
  then show ?thesis using run inv by (auto simp: wait_input_finish_def report_inv_def reports_due_def)
next
  case (Fade_out d now)
  then show ?thesis using run inv by (auto simp: fade_out_def report_inv_def reports_due_def split: if_splits)
next
  case Stop
  then show ?thesis using run stop_due [OF inv] by (auto simp: stop_def)
next
  case Clear_input
  then show ?thesis using run inv by (auto simp: clear_input_def report_inv_def reports_due_def)
next
  case Get_input
  then show ?thesis using run inv by (auto simp: get_input_def report_inv_def reports_due_def)
qed (use e in simp)

lemma run_due:
  assumes "report_inv v" "vr_run md es v = Some v'" "Exits \<notin> set es"
  shows "report_inv v' \<and> reports_due v' = reports_due v + length (filter starts_async es)"
  using assms
proof (induction es arbitrary: v)
  case (Cons e es)
  obtain v1 where v1: "vr_step md e v = Some v1" "vr_run md es v1 = Some v'"
    using Cons.prems(2) by (auto simp: bind_eq_Some_conv)
  have e: "e \<noteq> Exits" "Exits \<notin> set es" using Cons.prems(3) by auto
  note d = step_due [OF Cons.prems(1) v1(1) e(1)]
  show ?case using Cons.IH [OF conjunct1 [OF d] v1(2) e(2)] d by simp
qed simp

text \<open>
  C15: while the script does not exit, every asynchronous \<open>play_file\<close> or \<open>wait_input\<close> is reported
  exactly once, whatever ends it (a digit, a timeout, the end of the file, \<open>stop\<close>, another
  operation, or a file that cannot be opened): the reports made and the one still due are as many
  as the operations started, and one is due only while the port is busy.
\<close>

theorem async_reported_once:
  assumes "vr_run md es (new_vr path rate n True) = Some v" "Exits \<notin> set es"
  shows "length (vr_reports v) + (if vr_async v then 1 else 0) = length (filter starts_async es)
    \<and> (vr_async v \<longrightarrow> vr_state v \<noteq> VRS_IDLE)"
proof -
  have n: "report_inv (new_vr path rate n True)" "reports_due (new_vr path rate n True) = 0"
    by (simp_all add: report_inv_def reports_due_def new_vr_def)
  note r = run_due [OF n(1) assms]
  show ?thesis using r n(2) unfolding report_inv_def reports_due_def by simp
qed

text \<open>A file of two frames of two samples, and a session with it.\<close>

definition demo_media :: "nat media" where
  "demo_media = \<lparr>md_open = (\<lambda>f ptime loop. if f = ''./tone.wav'' then
       Some \<lparr>pl_channel_count = 1, pl_clock_rate = 8000, pl_samples_per_frame = 2, pl_bits_per_sample = 16, pl_handle = 2\<rparr> else None),
     md_get = (\<lambda>h. if 0 < h then (h - 1, Some [100, -32768]) else (h, None)),
     md_nto1 = (\<lambda>c b. b), md_resample = (\<lambda>b. [0, 0]), md_pool_ok = True, md_buffer_ok = True, md_resample_ok = True\<rparr>"

definition demo_session :: "vr_event list" where
  "demo_session = [Play_file ''tone.wav'' ''#'' False True 1 2 0, Get_frame 20 2, Get_frame 40 2, Get_frame 60 2,
     Play_file ''none.wav'' [] False True 3 4 70, Wait_input 4 ''#'' 5000 3000 True 5 6 80, On_digit (CHR 0x31) 90,
     On_digit (CHR 0x23) 100, Wait_input 4 ''#'' 5000 3000 True 7 8 110]"

theorem async_reported_once_witness:
  "\<exists>v. vr_run demo_media demo_session (new_vr [] 8000 2 True) = Some v \<and>
    length (vr_reports v) + (if vr_async v then 1 else 0) = length (filter starts_async demo_session)"
proof -
  have "vr_run demo_media demo_session (new_vr [] 8000 2 True) \<noteq> None" by code_simp
  moreover have "Exits \<notin> set demo_session" by (simp add: demo_session_def)
  ultimately show ?thesis using async_reported_once [of demo_media demo_session "[]" 8000 2] by fastforce
qed

section \<open>Digits before and after the call\<close>

lemma elapsed_none [simp]: "elapsed_msec t t = 0"
  by (simp add: elapsed_msec_def to_u32_def)

lemma move_digits_all: "length cs \<le> m \<Longrightarrow> move_digits [] m cs = (cs, [])"
  by (induction "[] :: string" m cs rule: move_digits.induct) auto

lemma move_digits_stop:
  "ds \<noteq> [] \<Longrightarrow> t \<notin> set ds \<Longrightarrow> length ds \<le> m \<Longrightarrow> move_digits [t] m (ds @ [t]) = (ds, [t])"
proof (induction ds arbitrary: m)
  case (Cons c cs)
  then obtain k where k: "m = Suc k" by (cases m) auto
  show ?case
  proof (cases cs)
    case Nil
    then show ?thesis using k by simp
  next
    case (Cons c' cs')
    then have "move_digits [t] k (cs @ [t]) = (cs, [t])" using Cons.prems k by (intro Cons.IH) auto
    then show ?thesis using Cons Cons.prems k by auto
  qed
qed simp

lemma digits_while_idle:
  assumes "vr_state v = VRS_IDLE"
  shows "vr_state (fold (\<lambda>c. on_digit c now) cs v) = VRS_IDLE
    \<and> vr_input_buffer (fold (\<lambda>c. on_digit c now) cs v) = vr_input_buffer v @ cs
    \<and> vr_exit (fold (\<lambda>c. on_digit c now) cs v) = vr_exit v"
  using assms by (induction cs arbitrary: v) (simp_all add: on_digit_def Let_def)

text \<open>Waiting for \<open>t\<close>, with no digit that ends the wait yet.\<close>

definition waits_for :: "char \<Rightarrow> nat \<Rightarrow> int \<Rightarrow> 'p vr \<Rightarrow> bool" where
  "waits_for t m now v \<longleftrightarrow> vr_state v = VRS_WAIT_INPUT \<and> vr_terminate_cond v = [t] \<and> t \<notin> set (vr_input_buffer v) \<and>
     vr_wait_input_max v = m \<and> vr_wait_input_start_time v = now \<and> 0 \<le> vr_digits_timeout v \<and>
     0 \<le> vr_interdigits_timeout v"

lemma other_digit:
  assumes "waits_for t m now v" "c \<noteq> t" "length (vr_input_buffer v) + 1 < m"
  shows "waits_for t m now (on_digit c now v) \<and> vr_input_buffer (on_digit c now v) = vr_input_buffer v @ [c]"
  using assms by (auto simp: waits_for_def on_digit_def check_terminate_cond_def Let_def)

lemma last_digit:
  assumes "waits_for t m now v"
  shows "vr_state (on_digit t now v) = VRS_IDLE \<and> vr_terminate_cond (on_digit t now v) = []
    \<and> vr_input_buffer (on_digit t now v) = vr_input_buffer v @ [t]"
  using assms by (auto simp: waits_for_def on_digit_def check_terminate_cond_def Let_def)

lemma digits_while_waiting:
  assumes "waits_for t m now v" "t \<notin> set cs" "length (vr_input_buffer v) + length cs < m"
  shows "vr_state (fold (\<lambda>c. on_digit c now) (cs @ [t]) v) = VRS_IDLE
    \<and> vr_terminate_cond (fold (\<lambda>c. on_digit c now) (cs @ [t]) v) = []
    \<and> vr_input_buffer (fold (\<lambda>c. on_digit c now) (cs @ [t]) v) = vr_input_buffer v @ cs @ [t]"
  using assms
proof (induction cs arbitrary: v)
  case Nil
  then show ?case using last_digit by fastforce
next
  case (Cons c cs)
  have c: "c \<noteq> t" "length (vr_input_buffer v) + 1 < m" using Cons.prems(2,3) by auto
  note s = other_digit [OF Cons.prems(1) c]
  have "length (vr_input_buffer (on_digit c now v)) + length cs < m" using s Cons.prems(3) by simp
  then show ?case using Cons.IH [of "on_digit c now v"] s Cons.prems(2) by simp
qed

definition digits :: "string \<Rightarrow> int \<Rightarrow> 'p vr \<Rightarrow> 'p vr" where
  "digits cs now v = fold (\<lambda>c. on_digit c now) cs v"

text \<open>
  What \<open>wait_input\<close> returns for the same digits depends on when they arrive. When the digits
  \<open>ds\<close> and the terminator come after the call, it returns all of them with the terminator and
  leaves nothing in the buffer; when they came before the call it returns \<open>ds\<close> alone and leaves
  the terminator in the buffer, where it ends the next wait at once. The condition it is given
  plays no part in taking the digits out.
\<close>

theorem wait_input_depends_on_timing:
  assumes "vr_input_buffer v = []" "\<not> vr_exit v" "vr_state v = VRS_IDLE" "ds \<noteq> []" "t \<notin> set ds"
    and "length ds < m" "0 \<le> timeout" "0 \<le> digit_timeout"
  shows "(\<exists>v1 v2. wait_input m [t] timeout digit_timeout False p1 p2 now v = (v1, None) \<and>
        wait_input_finish m [t] (digits (ds @ [t]) now v1) = (v2, ds @ [t]) \<and> vr_input_buffer v2 = [])
    \<and> (\<exists>v2. wait_input m [t] timeout digit_timeout False p1 p2 now (digits (ds @ [t]) now v) = (v2, Some ds) \<and>
        vr_input_buffer v2 = [t])"
proof -
  let ?w = "wait_input m [t] timeout digit_timeout False p1 p2 now v"
  have w: "snd ?w = None" "waits_for t m now (fst ?w)" "vr_input_buffer (fst ?w) = []"
    using assms by (auto simp: wait_input_def check_terminate_cond_def waits_for_def Let_def)
  have "wait_input_finish m [t] (digits (ds @ [t]) now (fst ?w)) = ((digits (ds @ [t]) now (fst ?w))\<lparr>vr_input_buffer := []\<rparr>, ds @ [t])"
    using digits_while_waiting [OF w(2) assms(5)] w(3) assms(6) move_digits_all [of "ds @ [t]" m]
    by (simp add: wait_input_finish_def internal_get_input_def digits_def del: fold_append)
  then have late: "\<exists>v1 v2. ?w = (v1, None) \<and> wait_input_finish m [t] (digits (ds @ [t]) now v1) = (v2, ds @ [t]) \<and>
      vr_input_buffer v2 = []"
    using w(1) by (cases ?w) simp
  have e: "vr_input_buffer (digits (ds @ [t]) now v) = ds @ [t]" "\<not> vr_exit (digits (ds @ [t]) now v)"
    using digits_while_idle [OF assms(3), of now "ds @ [t]"] assms(1,2) by (auto simp: digits_def)
  show ?thesis
    using late e assms(6) move_digits_stop [OF assms(4,5), of m]
    by (simp add: wait_input_def check_terminate_cond_def internal_get_input_def Let_def)
qed

definition demo_vr :: "nat vr" where "demo_vr = new_vr [] 8000 160 True"

theorem wait_input_depends_on_timing_witness:
  "(\<exists>v1 v2. wait_input 10 ''#'' 0 0 False 0 0 5 demo_vr = (v1, None) \<and>
        wait_input_finish 10 ''#'' (digits (''12'' @ ''#'') 5 v1) = (v2, ''12'' @ ''#'') \<and> vr_input_buffer v2 = [])
    \<and> (\<exists>v2. wait_input 10 ''#'' 0 0 False 0 0 5 (digits (''12'' @ ''#'') 5 demo_vr) = (v2, Some ''12'') \<and>
        vr_input_buffer v2 = ''#'')"
  by (rule wait_input_depends_on_timing) (simp_all add: demo_vr_def new_vr_def)

section \<open>The sound stays in its buffers\<close>

definition s16s :: "int list \<Rightarrow> bool" where "s16s xs \<longleftrightarrow> (\<forall>x \<in> set xs. is_s16 x)"

text \<open>A gain of at most one is defined on every sample, the smallest one too.\<close>

lemma scale_down:
  assumes "is_s16 x" "is_s32 (i * ginc)" "0 \<le> old + i * ginc" "old + i * ginc \<le> 65536"
  shows "\<exists>y. scale_sample x old i ginc = Some y \<and> is_s16 y"
proof -
  let ?g = "old + i * ginc"
  have "\<bar>x * ?g\<bar> \<le> 32768 * 65536"
    unfolding abs_mult using assms by (intro mult_mono) (auto simp: is_s16_def)
  moreover have "x * ?g \<le> 32767 * 65536"
  proof (cases "0 \<le> x")
    case True
    then show ?thesis using assms by (intro mult_mono) (auto simp: is_s16_def)
  next
    case False
    then have "x * ?g \<le> 0" using assms(3) by (intro mult_nonpos_nonneg) auto
    then show ?thesis by linarith
  qed
  ultimately have "is_s32 (x * ?g)" by (auto simp: is_s32_def)
  moreover have "is_s32 ?g" using assms(3,4) by (simp add: is_s32_def)
  ultimately show ?thesis using assms(2) by (simp add: scale_sample_def s32_in to_s16_range)
qed

lemma gain_loop_down:
  assumes "\<And>j. i \<le> j \<Longrightarrow> j < i + int (length xs) \<Longrightarrow>
      is_s32 (j * ginc) \<and> 0 \<le> old + j * ginc \<and> old + j * ginc \<le> 65536"
    and "s16s xs"
  shows "\<exists>ys. gain_loop old ginc i xs = Some ys \<and> length ys = length xs \<and> s16s ys"
  using assms
proof (induction xs arbitrary: i)
  case (Cons x xs)
  obtain y where y: "scale_sample x old i ginc = Some y" "is_s16 y"
    using scale_down [of x i ginc old] Cons.prems(1) [of i] Cons.prems(2) by (auto simp: s16s_def)
  have "\<exists>ys. gain_loop old ginc (i + 1) xs = Some ys \<and> length ys = length xs \<and> s16s ys"
    using Cons.prems by (intro Cons.IH) (auto simp: s16s_def)
  then show ?case using y by (auto simp: s16s_def)
qed (simp add: s16s_def)

lemma gain_down:
  assumes "2 \<le> length xs" "0 \<le> new" "new \<le> 65536" "0 \<le> old" "old \<le> 65536" "s16s xs"
  shows "\<exists>ys. gain new old xs = Some ys \<and> length ys = length xs \<and> s16s ys"
proof -
  let ?n = "int (length xs) - 1" and ?d = "new - old"
  have n: "0 < ?n" using assms by simp
  have div: "s32 ?d = Some ?d" "s32_div ?d ?n = Some (?d sdiv ?n)"
    using assms n by (auto simp: is_s32_def s32_in s32_div_any)
  have "is_s32 (j * (?d sdiv ?n)) \<and> 0 \<le> old + j * (?d sdiv ?n) \<and> old + j * (?d sdiv ?n) \<le> 65536"
    if "0 \<le> j" "j < 0 + int (length xs)" for j
    using interp_bounds [of ?n j old new] n that assms by (auto simp: is_s32_def abs_le_iff)
  then have "\<exists>ys. gain_loop old (?d sdiv ?n) 0 xs = Some ys \<and> length ys = length xs \<and> s16s ys"
    using assms by (intro gain_loop_down) auto
  then show ?thesis by (simp add: gain_def div)
qed

lemma fraction:
  assumes "0 \<le> a" "a \<le> b" "0 < b" "b \<le> 32767"
  shows "\<exists>q. agc_DIV a b = Some q \<and> 0 \<le> q \<and> q \<le> 65536"
proof -
  have s: "s32 (a * 65536) = Some (a * 65536)" using assms by (intro s32_nonneg) auto
  have "a * 65536 div b \<le> b * 65536 div b" using assms by (intro zdiv_mono1) auto
  then have "a * 65536 div b \<le> 65536" using assms by simp
  moreover have "0 \<le> a * 65536 div b" using assms by (intro div_int_pos_iff [THEN iffD2]) auto
  ultimately show ?thesis using assms s by (simp add: agc_DIV_def s32_div_pos)
qed

text \<open>
  What the port relies on of pjmedia. \<open>fits\<close> holds of an opened player and is kept by reading it:
  a frame is not longer than the buffer of \<open>m_getsize\<close> bytes, and a player at the port's own rate
  has a buffer of at least a frame of the port.
\<close>

definition buffer_length :: "'p player \<Rightarrow> nat" where
  "buffer_length p = nat (get_size p div 2)"

definition media_ok :: "('p player \<Rightarrow> bool) \<Rightarrow> int \<Rightarrow> nat \<Rightarrow> 'p media \<Rightarrow> bool" where
  "media_ok fits rate n md \<longleftrightarrow>
     (\<forall>f t l p. md_open md f t l = Some p \<longrightarrow> fits p) \<and>
     (\<forall>p h s. fits p \<and> md_get md (pl_handle p) = (h, s) \<longrightarrow> fits (p\<lparr>pl_handle := h\<rparr>) \<and>
        (\<forall>xs. s = Some xs \<longrightarrow> length xs \<le> buffer_length p \<and> s16s xs)) \<and>
     (\<forall>p. fits p \<and> pl_clock_rate p = rate \<longrightarrow> n \<le> buffer_length p) \<and>
     (\<forall>c b. s16s b \<longrightarrow> length (md_nto1 md c b) = length b \<and> s16s (md_nto1 md c b)) \<and>
     (\<forall>b. s16s b \<longrightarrow> length (md_resample md b) = n \<and> s16s (md_resample md b))"

definition sound_inv :: "('p player \<Rightarrow> bool) \<Rightarrow> int \<Rightarrow> nat \<Rightarrow> int \<Rightarrow> 'p vr \<Rightarrow> bool" where
  "sound_inv fits rate n T v \<longleftrightarrow> vr_frame_samples v = n \<and> vr_clock_rate v = rate \<and>
     (vr_effect v \<noteq> VRE_NONE \<longrightarrow> vr_effect_param v \<le> 32767 \<and> 0 \<le> vr_effect_start_time v \<and> vr_effect_start_time v \<le> T) \<and>
     (\<forall>p b. vr_getport v = Some p \<and> vr_getbuffer v = Some b \<longrightarrow>
        fits p \<and> length b = buffer_length p \<and> s16s b \<and> (\<not> vr_getresample v \<longrightarrow> pl_clock_rate p = rate))"

lemma buffer_length_handle [simp]: "buffer_length (p\<lparr>pl_handle := h\<rparr>) = buffer_length p"
  by (simp add: buffer_length_def get_size_def)

lemma apply_effect_ok:
  assumes "vr_effect v \<noteq> VRE_NONE \<longrightarrow> vr_effect_param v \<le> 32767 \<and> 0 \<le> vr_effect_start_time v \<and> vr_effect_start_time v \<le> now"
    and "now < 2147483648" "2 \<le> length buf" "s16s buf"
  shows "\<exists>r. apply_effect now v buf = Some r \<and> (\<forall>out. r = Some out \<longrightarrow> length out = length buf \<and> s16s out)"
proof (cases "vr_effect v")
  case VRE_FADE_OUT
  let ?e = "now - vr_effect_start_time v"
  have e: "elapsed_msec (vr_effect_start_time v) now = ?e" "to_s32 ?e = ?e" "0 \<le> ?e" "?e < 2147483648"
    using assms(1,2) VRE_FADE_OUT by (auto simp: elapsed_msec_def to_u32_id to_s32_id)
  show ?thesis
  proof (cases "0 < vr_effect_param v \<and> ?e < vr_effect_param v")
    case True
    have d: "to_s32 (vr_effect_param v - ?e) = vr_effect_param v - ?e"
      using True e assms(1) VRE_FADE_OUT by (intro to_s32_id) auto
    obtain q where q: "agc_DIV (vr_effect_param v - ?e) (vr_effect_param v) = Some q" "0 \<le> q" "q \<le> 65536"
      using fraction [of "vr_effect_param v - ?e" "vr_effect_param v"] True e assms(1) VRE_FADE_OUT by auto
    obtain ys where "gain q q buf = Some ys" "length ys = length buf" "s16s ys"
      using gain_down [OF assms(3) q(2,3) q(2,3) assms(4)] by auto
    then show ?thesis using True VRE_FADE_OUT q e d by (simp add: apply_effect_def)
  next
    case False
    then show ?thesis using VRE_FADE_OUT e assms(4) by (auto simp: apply_effect_def)
  qed
qed (use assms in \<open>simp add: apply_effect_def\<close>)

lemma file_frame_steps:
  assumes "mem_write b 0 s = Some b1"
    and "(if vr_getresample v then Some (md_resample md (if pl_channel_count p \<noteq> 1 then md_nto1 md (pl_channel_count p) b1 else b1))
      else mem_read (if pl_channel_count p \<noteq> 1 then md_nto1 md (pl_channel_count p) b1 else b1) 0 n) = Some o1"
    and "(if vr_get_first_time v then do { one \<leftarrow> agc_DIV 1 1; gain one 0 o1 } else Some o1) = Some o2"
    and "apply_effect now (v\<lparr>vr_getbuffer := Some (if pl_channel_count p \<noteq> 1 then md_nto1 md (pl_channel_count p) b1 else b1),
      vr_get_first_time := False\<rparr>) o2 = Some r"
  shows "file_frame md now n p b s v =
    Some (v\<lparr>vr_getbuffer := Some (if pl_channel_count p \<noteq> 1 then md_nto1 md (pl_channel_count p) b1 else b1),
      vr_get_first_time := False\<rparr>, r)"
  using assms by (simp add: file_frame_def Let_def)

lemma media_okD:
  assumes "media_ok fits rate n md"
  shows "md_open md f t l = Some p \<Longrightarrow> fits p"
    and "fits p \<Longrightarrow> md_get md (pl_handle p) = (h, s) \<Longrightarrow> fits (p\<lparr>pl_handle := h\<rparr>)"
    and "fits p \<Longrightarrow> md_get md (pl_handle p) = (h, Some xs) \<Longrightarrow> length xs \<le> buffer_length p \<and> s16s xs"
    and "fits p \<Longrightarrow> pl_clock_rate p = rate \<Longrightarrow> n \<le> buffer_length p"
    and "s16s b \<Longrightarrow> length (md_nto1 md c b) = length b \<and> s16s (md_nto1 md c b)"
    and "s16s b \<Longrightarrow> length (md_resample md b) = n \<and> s16s (md_resample md b)"
  using assms unfolding media_ok_def by blast+

lemma sound_invD:
  assumes "sound_inv fits rate n T v"
  shows "vr_frame_samples v = n" "vr_clock_rate v = rate"
    and "vr_effect v \<noteq> VRE_NONE \<Longrightarrow> vr_effect_param v \<le> 32767 \<and> 0 \<le> vr_effect_start_time v \<and> vr_effect_start_time v \<le> T"
    and "vr_getport v = Some p \<Longrightarrow> vr_getbuffer v = Some b \<Longrightarrow> fits p \<and> length b = buffer_length p \<and> s16s b"
    and "vr_getport v = Some p \<Longrightarrow> vr_getbuffer v = Some b \<Longrightarrow> \<not> vr_getresample v \<Longrightarrow> pl_clock_rate p = rate"
  using assms unfolding sound_inv_def by blast+

lemma s16s_take_drop: "s16s xs \<Longrightarrow> s16s (take k xs)" "s16s xs \<Longrightarrow> s16s (drop k xs)" "s16s (xs @ ys) \<longleftrightarrow> s16s xs \<and> s16s ys"
  by (auto simp: s16s_def dest: in_set_takeD in_set_dropD)

lemma file_frame_ok:
  assumes md: "media_ok fits rate n md" and inv: "sound_inv fits rate n T v" and n: "2 \<le> n"
    and pb: "vr_getport v = Some (p\<lparr>pl_handle := h\<rparr>)" "vr_getbuffer v = Some b" "fits p"
    and s: "length s \<le> buffer_length p" "s16s s" and now: "T \<le> now" "now < 2147483648"
  shows "\<exists>w r. file_frame md now n p b s v = Some (w, r) \<and> sound_inv fits rate n now w \<and>
    (\<forall>out. r = Some out \<longrightarrow> length out = n \<and> s16s out)"
proof -
  note D = sound_invD [OF inv] and M = media_okD [OF md]
  have b: "fits (p\<lparr>pl_handle := h\<rparr>)" "length b = buffer_length p" "s16s b" using D(4) [OF pb(1,2)] by simp_all
  define b1 where "b1 = s @ drop (length s) b"
  define c where "c = (if pl_channel_count p \<noteq> 1 then md_nto1 md (pl_channel_count p) b1 else b1)"
  have w: "mem_write b 0 s = Some b1" using s(1) b(2) by (simp add: mem_write_def b1_def)
  have "s16s b1" "length b1 = buffer_length p" using s b by (simp_all add: b1_def s16s_take_drop)
  then have c: "s16s c" "length c = buffer_length p" using M(5) by (simp_all add: c_def)
  obtain o1 where o1: "(if vr_getresample v then Some (md_resample md c) else mem_read c 0 n) = Some o1"
    "length o1 = n" "s16s o1"
  proof (cases "vr_getresample v")
    case True
    then show ?thesis using that [of "md_resample md c"] M(6) [OF c(1)] by simp
  next
    case False
    have "pl_clock_rate p = rate" using D(5) [OF pb(1,2) False] by simp
    then have "n \<le> length c" using M(4) [OF pb(3)] c(2) by simp
    then show ?thesis using False that [of "take n c"] c(1) by (simp add: mem_read_def s16s_take_drop)
  qed
  have one: "agc_DIV 1 1 = Some 65536" by (simp add: agc_DIV_def s32_in is_s32_def s32_div_pos)
  obtain o2 where o2: "(if vr_get_first_time v then do { one \<leftarrow> agc_DIV 1 1; gain one 0 o1 } else Some o1) = Some o2"
    "length o2 = n" "s16s o2"
  proof (cases "vr_get_first_time v")
    case True
    obtain ys where "gain 65536 0 o1 = Some ys" "length ys = length o1" "s16s ys"
      using gain_down [of o1 65536 0] o1 n by auto
    then show ?thesis using that [of ys] True one o1 by simp
  next
    case False
    then show ?thesis using that [of o1] o1 by simp
  qed
  let ?v = "v\<lparr>vr_getbuffer := Some c, vr_get_first_time := False\<rparr>"
  have e: "vr_effect ?v \<noteq> VRE_NONE \<longrightarrow> vr_effect_param ?v \<le> 32767 \<and> 0 \<le> vr_effect_start_time ?v \<and> vr_effect_start_time ?v \<le> now"
    using D(3) now(1) by auto
  have "2 \<le> length o2" using o2(2) n by simp
  then obtain r where r: "apply_effect now ?v o2 = Some r" "\<forall>out. r = Some out \<longrightarrow> length out = length o2 \<and> s16s out"
    using apply_effect_ok [OF e now(2) _ o2(3)] by blast
  have "file_frame md now n p b s v = Some (?v, r)"
    using file_frame_steps [OF w o1(1) [unfolded c_def] o2(1) r(1) [unfolded c_def]] unfolding c_def .
  moreover have "sound_inv fits rate n now ?v"
    using e D(1,2) D(5) [OF pb(1,2)] c b(1) pb(1) unfolding sound_inv_def by simp
  moreover have "\<forall>out. r = Some out \<longrightarrow> length out = n \<and> s16s out" using r(2) o2(2) by simp
  ultimately show ?thesis by blast
qed

lemma sound_inv_idle:
  assumes "vr_frame_samples v = n" "vr_clock_rate v = rate" "vr_effect v = VRE_NONE" "vr_getport v = None \<or> vr_getbuffer v = None"
  shows "sound_inv fits rate n T v"
  using assms by (auto simp: sound_inv_def)

lemma sound_inv_stop: "sound_inv fits rate n T v \<Longrightarrow> sound_inv fits rate n T' (internal_stop v)"
  by (rule sound_inv_idle) (simp_all add: sound_inv_def)

lemma sound_inv_later: "sound_inv fits rate n T v \<Longrightarrow> T \<le> T' \<Longrightarrow> sound_inv fits rate n T' v"
  by (force simp: sound_inv_def)

text \<open>Fields that the invariant does not mention.\<close>

definition same_sound :: "'p vr \<Rightarrow> 'p vr \<Rightarrow> bool" where
  "same_sound w v \<longleftrightarrow> vr_frame_samples w = vr_frame_samples v \<and> vr_clock_rate w = vr_clock_rate v \<and> vr_effect w = vr_effect v \<and>
     vr_effect_param w = vr_effect_param v \<and> vr_effect_start_time w = vr_effect_start_time v \<and>
     vr_getport w = vr_getport v \<and> vr_getbuffer w = vr_getbuffer v \<and> vr_getresample w = vr_getresample v"

lemma same_sound_inv: "same_sound w v \<Longrightarrow> sound_inv fits rate n T w = sound_inv fits rate n T v"
  by (simp add: same_sound_def sound_inv_def)

lemma get_frame_ok:
  assumes md: "media_ok fits rate n md" and inv: "sound_inv fits rate n T v" and n: "2 \<le> n"
    and now: "T \<le> now" "now < 2147483648"
  shows "\<exists>w r. get_frame md now k v = Some (w, r) \<and> sound_inv fits rate n now w \<and>
    (\<forall>out. r = Some out \<longrightarrow> length out = n \<and> s16s out)"
proof (cases "vr_state v \<noteq> VRS_IDLE \<and> k = vr_frame_samples v")
  case active: True
  then have k: "k = n" using sound_invD(1) [OF inv] by simp
  show ?thesis
  proof (cases "vr_getport v = None \<or> vr_getbuffer v = None")
    case True
    have "get_frame md now k v = Some (if check_terminate_cond now v then internal_stop v else v, None)"
      using True active by (cases "vr_getport v"; cases "vr_getbuffer v") (simp_all add: get_frame_def)
    moreover have "sound_inv fits rate n now (if check_terminate_cond now v then internal_stop v else v)"
      using sound_inv_stop [OF inv] sound_inv_later [OF inv now(1)] by simp
    ultimately show ?thesis by blast
  next
    case False
    then obtain p b where pb: "vr_getport v = Some p" "vr_getbuffer v = Some b" by auto
    note fb = sound_invD(4) [OF inv pb]
    obtain h s where hs: "md_get md (pl_handle p) = (h, s)" by (cases "md_get md (pl_handle p)")
    have fh: "fits (p\<lparr>pl_handle := h\<rparr>)" using media_okD(2) [OF md _ hs] fb by simp
    let ?v = "v\<lparr>vr_getport := Some (p\<lparr>pl_handle := h\<rparr>)\<rparr>"
    have iv: "sound_inv fits rate n T ?v"
      using inv fh fb pb sound_invD(5) [OF inv pb] unfolding sound_inv_def by simp
    show ?thesis
    proof (cases s)
      case None
      then have "get_frame md now k v = Some (internal_stop ?v, None)" using active pb hs by (simp add: get_frame_def)
      then show ?thesis using sound_inv_stop [OF iv] by blast
    next
      case (Some samples)
      have sm: "length samples \<le> buffer_length p" "s16s samples" using media_okD(3) [OF md] fb hs Some by auto
      obtain w r where w: "file_frame md now n p b samples ?v = Some (w, r)" "sound_inv fits rate n now w"
        "\<forall>out. r = Some out \<longrightarrow> length out = n \<and> s16s out"
        using file_frame_ok [OF md iv n _ _ _ sm now, of h b] pb fb by auto
      have run: "get_frame md now k v = Some (case r of None \<Rightarrow> (internal_stop w, None) | Some out \<Rightarrow> (w, Some out))"
        using active pb hs Some w(1) k by (simp add: get_frame_def)
      show ?thesis
      proof (cases r)
        case None
        then show ?thesis using run sound_inv_stop [OF w(2)] by simp
      next
        case r: (Some out)
        then show ?thesis using run w by simp
      qed
    qed
  qed
next
  case False
  then have "get_frame md now k v = Some (v, None)" by (auto simp: get_frame_def)
  then show ?thesis using sound_inv_later [OF inv now(1)] by simp
qed

lemma open_player_ok:
  assumes md: "media_ok fits rate n md" and idle: "vr_frame_samples v = n" "vr_clock_rate v = rate" "vr_effect v = VRE_NONE"
    "vr_getport v = None" "\<not> vr_getresample v" "vr_getbuffer v = None"
  shows "0 \<le> snd (open_player md f l v) \<longrightarrow> sound_inv fits rate n T (fst (open_player md f l v))"
proof (cases "md_pool_ok md \<and> md_open md f (vr_ptime v) l \<noteq> None \<and> md_buffer_ok md")
  case True
  then obtain p where p: "md_open md f (vr_ptime v) l = Some p" by auto
  have "fits p" using media_okD(1) [OF md p] .
  moreover have "s16s (replicate k 0)" for k by (simp add: s16s_def is_s16_def)
  ultimately show ?thesis
    using True p idle by (simp add: open_player_def Let_def sound_inv_def buffer_length_def) 
next
  case False
  have "vr_getport (fst (open_player md f l v)) = None \<or> vr_getbuffer (fst (open_player md f l v)) = None"
    using False idle by (auto simp: open_player_def Let_def split: option.split)
  then have "sound_inv fits rate n T (fst (open_player md f l v))" using idle by (intro sound_inv_idle) simp_all
  then show ?thesis ..
qed

section \<open>Time\<close>

text \<open>The time of an event, given the time before; time does not go back and stays below 2^31 ms.\<close>

fun event_time :: "int \<Rightarrow> vr_event \<Rightarrow> int" where
  "event_time T (Wait_input m cond t it async p1 p2 now) = now"
| "event_time T (Play_file f cond loop async p1 p2 now) = now"
| "event_time T (On_input s now) = now"
| "event_time T (On_digit c now) = now"
| "event_time T (Fade_out d now) = now"
| "event_time T (Get_frame now n) = now"
| "event_time T e = T"

fun times_ok :: "int \<Rightarrow> vr_event list \<Rightarrow> bool" where
  "times_ok T [] \<longleftrightarrow> True"
| "times_ok T (e # es) \<longleftrightarrow> T \<le> event_time T e \<and> event_time T e < 2147483648 \<and> times_ok (event_time T e) es"

text \<open>The fades asked for are at most 32767 ms.\<close>

fun fade_ok :: "vr_event \<Rightarrow> bool" where
  "fade_ok (Fade_out d now) \<longleftrightarrow> 0 \<le> d \<and> d \<le> 32767"
| "fade_ok e \<longleftrightarrow> True"

lemma wait_input_sound:
  "vr_frame_samples (fst (wait_input m c t it a p1 p2 now v)) = vr_frame_samples v"
  "vr_clock_rate (fst (wait_input m c t it a p1 p2 now v)) = vr_clock_rate v"
  "vr_effect (fst (wait_input m c t it a p1 p2 now v)) = VRE_NONE"
  "vr_getport (fst (wait_input m c t it a p1 p2 now v)) = None"
  by (auto simp: wait_input_def Let_def split_beta)

lemma step_sound:
  assumes md: "media_ok fits rate n md" and inv: "sound_inv fits rate n T v" and n: "2 \<le> n" and T: "0 \<le> T"
    and t: "T \<le> event_time T e" "event_time T e < 2147483648" and f: "fade_ok e"
  shows "\<exists>w. vr_step md e v = Some w \<and> sound_inv fits rate n (event_time T e) w"
proof (cases e)
  case (Wait_input m cond t it async p1 p2 now)
  have "sound_inv fits rate n now (fst (wait_input m cond t it async p1 p2 now v))"
    using sound_invD(1,2) [OF inv] by (intro sound_inv_idle) (simp_all add: wait_input_sound)
  then show ?thesis using Wait_input by simp
next
  case (Wait_over m cond)
  have "same_sound (fst (internal_get_input m cond v)) v" by (simp add: same_sound_def internal_get_input_def split_beta Let_def)
  from same_sound_inv [OF this, of fits rate n T] show ?thesis
    using Wait_over inv by (simp add: wait_input_finish_def)
next
  case (Play_file f cond loop async p1 p2 now)
  let ?v = "internal_stop v\<lparr>vr_terminate_cond := cond, vr_async := async\<rparr>"
  let ?w = "if async then ?v\<lparr>vr_async_param1 := Some p1, vr_async_param2 := Some p2\<rparr> else ?v"
  have w: "vr_frame_samples ?w = n" "vr_clock_rate ?w = rate" "vr_effect ?w = VRE_NONE" "vr_getport ?w = None"
    "\<not> vr_getresample ?w" "vr_getbuffer ?w = None"
    using sound_invD(1,2) [OF inv] by simp_all
  define q where "q = vr_sounds_path (internal_stop v) @ f"
  note o = open_player_ok [OF md w, of q loop now]
  define u where "u = fst (open_player md q loop ?w)"
  have i1: "sound_inv fits rate n now (internal_stop u)"
    unfolding u_def using w by (intro sound_inv_idle) simp_all
  have i2: "sound_inv fits rate n now (u\<lparr>vr_state := VRS_PLAY_FILE\<rparr>)" if "0 \<le> snd (open_player md q loop ?w)"
    using o that by (subst same_sound_inv [of _ u]) (simp_all add: same_sound_def u_def)
  have i3: "sound_inv fits rate n now (async_completed VRS_PLAY_FILE ?w)"
    using w by (intro sound_inv_idle) simp_all
  have "fst (play_file md f cond loop async p1 p2 now v) =
      (if \<not> check_terminate_cond now ?w \<and> \<not> vr_exit ?w then
         (if snd (open_player md q loop ?w) < 0 then internal_stop u else u\<lparr>vr_state := VRS_PLAY_FILE\<rparr>)
       else async_completed VRS_PLAY_FILE ?w)"
    unfolding u_def q_def play_file_def Let_def split_beta by simp
  then have "sound_inv fits rate n now (fst (play_file md f cond loop async p1 p2 now v))" using i1 i2 i3 by simp
  then show ?thesis using Play_file by simp
next
  case (On_input s now)
  have i: "sound_inv fits rate n now (v\<lparr>vr_last_digits_time := now, vr_input_buffer := vr_input_buffer v @ s\<rparr>)"
    using sound_inv_later [OF inv] t On_input by (subst same_sound_inv [of _ v]) (simp_all add: same_sound_def)
  show ?thesis using On_input i sound_inv_stop [OF i] by (simp add: on_input_def Let_def)
next
  case (On_digit c now)
  have i: "sound_inv fits rate n now (v\<lparr>vr_last_digits_time := now, vr_input_buffer := vr_input_buffer v @ [c]\<rparr>)"
    using sound_inv_later [OF inv] t On_digit by (subst same_sound_inv [of _ v]) (simp_all add: same_sound_def)
  show ?thesis using On_digit i sound_inv_stop [OF i] by (simp add: on_digit_def Let_def)
next
  case Stop
  then show ?thesis using sound_inv_stop [OF inv] by (simp add: stop_def)
next
  case (Fade_out d now)
  have "sound_inv fits rate n now (fade_out d now v)"
    using sound_inv_later [OF inv, of now] inv t f T Fade_out unfolding fade_out_def sound_inv_def by (simp add: to_s32_id)
  then show ?thesis using Fade_out by simp
next
  case (Get_frame now k)
  obtain w r where "get_frame md now k v = Some (w, r)" "sound_inv fits rate n now w"
    using get_frame_ok [OF md inv n, of now k] t Get_frame by auto
  then show ?thesis using Get_frame by simp
next
  case Clear_input
  then show ?thesis using inv same_sound_inv [of "clear_input v" v] by (simp add: clear_input_def same_sound_def)
next
  case Get_input
  then show ?thesis using inv same_sound_inv [of "fst (get_input v)" v] by (simp add: get_input_def same_sound_def)
next
  case Exits
  then show ?thesis using inv same_sound_inv [of "v\<lparr>vr_exit := True\<rparr>" v] by (simp add: same_sound_def)
qed

lemma run_sound:
  assumes "media_ok fits rate n md" "2 \<le> n" "sound_inv fits rate n T v" "0 \<le> T" "times_ok T es" "\<forall>e \<in> set es. fade_ok e"
  shows "\<exists>w T'. vr_run md es v = Some w \<and> sound_inv fits rate n T' w \<and> T' = fold (\<lambda>e T. event_time T e) es T"
  using assms(3-6)
proof (induction es arbitrary: T v)
  case (Cons e es)
  have t: "T \<le> event_time T e" "event_time T e < 2147483648" "times_ok (event_time T e) es" using Cons.prems(3) by simp_all
  have f: "fade_ok e" "\<forall>e \<in> set es. fade_ok e" using Cons.prems(4) by simp_all
  obtain w where w: "vr_step md e v = Some w" "sound_inv fits rate n (event_time T e) w"
    using step_sound [OF assms(1) Cons.prems(1) assms(2) Cons.prems(2) t(1,2) f(1)] by blast
  have "0 \<le> event_time T e" using Cons.prems(2) t(1) by linarith
  from Cons.IH [OF w(2) this t(3) f(2)] show ?case using w(1) by simp
qed simp

text \<open>
  For every sequence of calls, digits and frames in which time does not go back and no fade is
  longer than 32767 ms, with players whose frames fit the buffers, no frame is read or written
  outside its buffer and no gain overflows, and a frame with sound is a whole frame of 16-bit samples.
\<close>

theorem vr_sound_in_bounds:
  assumes "media_ok fits rate n md" "2 \<le> n" "times_ok 0 (es @ [Get_frame now n])" "\<forall>e \<in> set es. fade_ok e"
  shows "\<exists>v w r. vr_run md es (new_vr path rate n callback) = Some v \<and> get_frame md now n v = Some (w, r) \<and>
    (\<forall>out. r = Some out \<longrightarrow> length out = n \<and> s16s out)"
proof -
  have t: "times_ok T (es @ [e]) \<longleftrightarrow> times_ok T es \<and> fold (\<lambda>e T. event_time T e) es T \<le> event_time (fold (\<lambda>e T. event_time T e) es T) e \<and>
      event_time (fold (\<lambda>e T. event_time T e) es T) e < 2147483648" for T e
    by (induction es arbitrary: T) auto
  have "sound_inv fits rate n 0 (new_vr path rate n callback)" by (rule sound_inv_idle) (simp_all add: new_vr_def)
  then obtain v where v: "vr_run md es (new_vr path rate n callback) = Some v"
    "sound_inv fits rate n (fold (\<lambda>e T. event_time T e) es 0) v"
    using run_sound [OF assms(1,2) _ _ _ assms(4), of 0 "new_vr path rate n callback"] assms(3) t by auto
  have "fold (\<lambda>e T. event_time T e) es 0 \<le> now" "now < 2147483648" using assms(3) t by auto
  then obtain w r where "get_frame md now n v = Some (w, r)" "\<forall>out. r = Some out \<longrightarrow> length out = n \<and> s16s out"
    using get_frame_ok [OF assms(1) v(2) assms(2)] by blast
  then show ?thesis using v(1) by blast
qed

theorem vr_sound_in_bounds_witness:
  "\<exists>v w r. vr_run demo_media [Play_file ''tone.wav'' [] False False 0 0 1, Get_frame 20 2, Fade_out 30000 25]
      (new_vr [] 8000 2 True) = Some v \<and> get_frame demo_media 40 2 v = Some (w, r) \<and>
    (\<forall>out. r = Some out \<longrightarrow> length out = 2 \<and> s16s out)"
proof (rule vr_sound_in_bounds)
  show "media_ok (\<lambda>p. pl_samples_per_frame p = 2 \<and> pl_channel_count p = 1 \<and> pl_bits_per_sample p = 16) 8000 2 demo_media"
    by (auto simp: media_ok_def demo_media_def buffer_length_def get_size_def to_s16_id s16s_def is_s16_def split: if_splits)
qed simp_all

text \<open>
  A fade of 32768 ms or more overflows. While such a fade has at least 32768 ms to go, the first
  frame that has sound multiplies the remaining time by 65536 in 32 bits, which is undefined.
\<close>

theorem long_fade_overflows:
  assumes "vr_state v = VRS_PLAY_FILE" "vr_getport v = Some p" "vr_getbuffer v = Some b"
    and "snd (md_get md (pl_handle p)) = Some samples"
    and "t \<le> now" "32768 \<le> d - (now - t)" "d < 2147483648"
  shows "get_frame md now (vr_frame_samples v) (fade_out d t v) = None"
proof -
  have e: "elapsed_msec t now = now - t" using assms(5-7) by (simp add: elapsed_msec_def to_u32_id)
  have n: "s32 ((d - (now - t)) * 65536) = None" using assms(6) by (simp add: s32_def is_s32_def)
  have a: "apply_effect now w out = None" if "vr_effect w = VRE_FADE_OUT" "vr_effect_param w = d" "vr_effect_start_time w = t" for w out
    using that assms(5-7) e n by (simp add: apply_effect_def agc_DIV_def to_s32_id)
  have "file_frame md now k p b samples (fade_out d t v\<lparr>vr_getport := q\<rparr>) = None" for q k
    using assms(1,5-7) by (simp add: file_frame_def fade_out_def Let_def to_s32_id a bind_eq_None_conv)
  then show ?thesis
    using assms(1-4) by (simp add: get_frame_def fade_out_def split_beta Let_def)
qed

definition demo_playing :: "nat vr" where
  "demo_playing = fst (play_file demo_media ''tone.wav'' [] False True 1 2 0 (new_vr [] 8000 2 True))"

theorem long_fade_overflows_witness:
  "get_frame demo_media 1000 (vr_frame_samples demo_playing) (fade_out 40000 0 demo_playing) = None"
proof (rule long_fade_overflows)
  show "vr_state demo_playing = VRS_PLAY_FILE" by code_simp
  show "vr_getport demo_playing = Some \<lparr>pl_channel_count = 1, pl_clock_rate = 8000, pl_samples_per_frame = 2, pl_bits_per_sample = 16, pl_handle = 2\<rparr>"
    by code_simp
  show "vr_getbuffer demo_playing = Some [0, 0]" by code_simp
  show "snd (md_get demo_media (pl_handle \<lparr>pl_channel_count = 1, pl_clock_rate = 8000, pl_samples_per_frame = 2, pl_bits_per_sample = 16, pl_handle = 2\<rparr>)) = Some [100, -32768]"
    by (simp add: demo_media_def)
qed simp_all

end
