(* ===== verification/Arduino_Link.thy ===== *)
theory Arduino_Link
  imports Comm_Protocol Http_Text
begin

text \<open>
  The host's end of the link to the Arduino, \<open>pjs_arduino_controller\<close>
  (intercom/pjs_arduino_controller.cpp): opening the serial port and waiting for the board's first
  answer, keeping the link alive, reading packets, and setting the outputs. One round of the
  thread's loop is a function of what the round observes; all its clock readings are one. None is an
  access outside a block.
\<close>

section \<open>Constants\<close>

definition MAX_PACKET_SIZE :: nat where "MAX_PACKET_SIZE = 32"
definition ACC_VER :: byte where "ACC_VER = 1"
definition ACC_ISTAT :: byte where "ACC_ISTAT = 2"
definition ACC_SET_RELAY :: byte where "ACC_SET_RELAY = 3"
definition ACC_SET_BTN_LED :: byte where "ACC_SET_BTN_LED = 5"
definition ACC_SET_FAN_TEMP :: byte where "ACC_SET_FAN_TEMP = 8"
definition ACC_GET_ISTAT :: byte where "ACC_GET_ISTAT = 10"
definition ACC_PING :: byte where "ACC_PING = 12"
definition ACC_SET_BTN2_LED :: byte where "ACC_SET_BTN2_LED = 13"
definition ACC_ULTRASONIC_DATA :: byte where "ACC_ULTRASONIC_DATA = 14"

definition AIM_BTN :: byte where "AIM_BTN = 1"
definition AIM_INP1 :: byte where "AIM_INP1 = 2"
definition AIM_INP2 :: byte where "AIM_INP2 = 4"

definition ECO_MAIN_LED :: byte where "ECO_MAIN_LED = 0"
definition ECO_BELL :: byte where "ECO_BELL = 1"
definition ECO_SECOND_LED :: byte where "ECO_SECOND_LED = 2"

text \<open>The messages the controller fires, with \<open>param1\<close> (\<open>IBS_DOWN\<close> is 1, \<open>IBS_UP\<close> is 0).\<close>

datatype im_message = IM_MAIN_BUTTON | IM_INPUT1 | IM_INPUT2 | IM_ULTRASONIC_DATA

section \<open>State\<close>

text \<open>\<open>Opened\<close> and \<open>Closed\<close> are the port's openings and closings, \<open>Sent\<close> what is written to it.\<close>

datatype wire_event = Opened | Closed | Sent "byte list"

record controller =
  ac_parser :: cp_parser
  ac_open :: bool
  ac_just_opened :: bool
  ac_input :: byte
  ac_last_input :: byte
  ac_relay :: byte
  ac_btn_led :: byte
  ac_btn2_led :: byte
  ac_buffer :: "byte list"
  ac_last_activity_time :: int
  ac_last_temp_time :: int
  ac_last_response_time :: int
  ac_open_time :: int
  ac_last_check_time :: int
  ac_has_temp_sensor :: bool
  ac_wire :: "wire_event list"
  ac_messages :: "(im_message \<times> int) list"

text \<open>
  What a round observes: the time, whether the port is alive, can be opened and has input, what
  \<open>RawRead\<close> finds (None for its error -1; it takes as many bytes as it is asked for at most), what opening and reading the temperature sensor give
  (the outer None when it cannot be opened, the inner one when the read fails), what the stack holds
  where the sensor's text goes, and whether a sensor is configured.
\<close>

record round =
  rd_now :: int
  rd_alive :: bool
  rd_opens :: bool
  rd_ready :: bool
  rd_read :: "byte list option"
  rd_sensor :: "string option option"
  rd_stack :: string
  rd_sensor_path :: bool

text \<open>The constructor and the start of the thread; \<open>block\<close> is the parser's block, \<open>stack\<close> its read buffer.\<close>

definition new_controller :: "byte list \<Rightarrow> byte list \<Rightarrow> controller" where
  "new_controller block stack =
     \<lparr>ac_parser = new_parser \<lparr>prefix_a = 0x55, prefix_b = 0xBB\<rparr> 64 block, ac_open = False, ac_just_opened = False,
      ac_input = 0, ac_last_input = 0, ac_relay = 0, ac_btn_led = 0, ac_btn2_led = 0, ac_buffer = stack,
      ac_last_activity_time = 0, ac_last_temp_time = 0, ac_last_response_time = 0, ac_open_time = 0,
      ac_last_check_time = 0, ac_has_temp_sensor = True, ac_wire = [], ac_messages = []\<rparr>"

section \<open>Inputs\<close>

definition fire_on_message :: "im_message \<Rightarrow> int \<Rightarrow> controller \<Rightarrow> controller" where
  "fire_on_message m param1 c = c\<lparr>ac_messages := ac_messages c @ [(m, param1)]\<rparr>"

definition check_bit :: "byte \<Rightarrow> im_message \<Rightarrow> controller \<Rightarrow> controller" where
  "check_bit m msg c =
     (if ac_input c AND m \<noteq> ac_last_input c AND m then
        fire_on_message msg (if ac_input c AND m \<noteq> 0 then 1 else 0) c
      else c)"

definition check_input :: "controller \<Rightarrow> controller" where
  "check_input c =
     (if ac_input c \<noteq> ac_last_input c then
        (let c = check_bit AIM_INP2 IM_INPUT2 (check_bit AIM_INP1 IM_INPUT1 (check_bit AIM_BTN IM_MAIN_BUTTON c))
         in c\<lparr>ac_last_input := ac_input c\<rparr>)
      else c)"

section \<open>Outputs\<close>

definition serial_write :: "byte list \<Rightarrow> controller \<Rightarrow> controller" where
  "serial_write bytes c = c\<lparr>ac_wire := ac_wire c @ [Sent bytes]\<rparr>"

text \<open>A packet in a buffer of \<open>MAX_PACKET_SIZE + 4\<close> bytes.\<close>

definition packet :: "byte \<Rightarrow> byte list \<Rightarrow> controller \<Rightarrow> byte list option" where
  "packet cmd data c =
     do {
       (b, n) \<leftarrow> create_packet_cmd (ac_parser c) (replicate (MAX_PACKET_SIZE + 4) 0) (of_nat (MAX_PACKET_SIZE + 4))
         cmd data (of_nat (length data));
       Some (take (unat n) b)
     }"

text \<open>The macros \<open>sendPacket\<close> and \<open>sendPacketN\<close> of the thread.\<close>

definition sendPacket :: "byte \<Rightarrow> byte list \<Rightarrow> controller \<Rightarrow> controller option" where
  "sendPacket cmd data c = map_option (\<lambda>b. serial_write b c) (packet cmd data c)"

definition send_buffer :: "byte list \<Rightarrow> controller \<Rightarrow> controller" where
  "send_buffer bytes c = (if ac_open c \<and> \<not> ac_just_opened c then serial_write bytes c else c)"

definition send_relay :: "controller \<Rightarrow> controller option" where
  "send_relay c = map_option (\<lambda>b. send_buffer b c) (packet ACC_SET_RELAY [ac_relay c] c)"

definition send_btn_led :: "controller \<Rightarrow> controller option" where
  "send_btn_led c = map_option (\<lambda>b. send_buffer b c) (packet ACC_SET_BTN_LED [ac_btn_led c] c)"

definition send_btn2_led :: "controller \<Rightarrow> controller option" where
  "send_btn2_led c = map_option (\<lambda>b. send_buffer b c) (packet ACC_SET_BTN2_LED [ac_btn2_led c] c)"

definition update_inputs :: "controller \<Rightarrow> controller option" where
  "update_inputs c = map_option (\<lambda>b. send_buffer b c) (packet ACC_GET_ISTAT [] c)"

text \<open>\<open>RC_OK\<close> is True.\<close>

definition set_output :: "byte \<Rightarrow> byte \<Rightarrow> controller \<Rightarrow> (controller \<times> bool) option" where
  "set_output out_id value c =
     (if out_id = ECO_BELL then map_option (\<lambda>c. (c, True)) (send_relay (c\<lparr>ac_relay := value\<rparr>))
      else if out_id = ECO_MAIN_LED then map_option (\<lambda>c. (c, True)) (send_btn_led (c\<lparr>ac_btn_led := value\<rparr>))
      else if out_id = ECO_SECOND_LED then map_option (\<lambda>c. (c, True)) (send_btn2_led (c\<lparr>ac_btn2_led := value\<rparr>))
      else Some (c, False))"

section \<open>Opening and keeping the link\<close>

definition elapsed :: "int \<Rightarrow> int \<Rightarrow> int" where
  "elapsed start now = to_u32 (now - start)"

definition close_serial :: "controller \<Rightarrow> controller" where
  "close_serial c = c\<lparr>ac_open := False, ac_wire := ac_wire c @ [Closed]\<rparr>"

definition check_alive :: "round \<Rightarrow> controller \<Rightarrow> controller" where
  "check_alive rd c =
     (if ac_open c \<and> elapsed (ac_last_check_time c) (rd_now rd) \<ge> 1000 then
        (let c = c\<lparr>ac_last_check_time := rd_now rd\<rparr>
         in if \<not> rd_alive rd then close_serial c else c)
      else c)"

definition open_serial :: "round \<Rightarrow> controller \<Rightarrow> controller option" where
  "open_serial rd c =
     (if \<not> ac_open c then
        (if rd_opens rd then
           sendPacket ACC_VER []
             (c\<lparr>ac_open := True, ac_wire := ac_wire c @ [Opened], ac_parser := reset (ac_parser c),
                ac_last_activity_time := rd_now rd, ac_open_time := rd_now rd,
                ac_last_response_time := rd_now rd, ac_last_temp_time := 0, ac_just_opened := True\<rparr>)
         else Some c)
      else Some c)"

text \<open>The temperature in the sensor's text, as the thread reads it into 32 bytes.\<close>

definition sensor_text :: "round \<Rightarrow> string option \<Rightarrow> string" where
  "sensor_text rd r =
     (case r of
        Some s \<Rightarrow> take 31 s
      | None \<Rightarrow> take 31 (rd_stack rd))"

definition sensor_temp :: "string \<Rightarrow> int" where
  "sensor_temp s = (let itemp = atoi s in if itemp > 1000 then itemp sdiv 1000 else itemp)"

definition send_temp :: "round \<Rightarrow> controller \<Rightarrow> controller option" where
  "send_temp rd c =
     (if ac_has_temp_sensor c \<and> elapsed (ac_last_temp_time c) (rd_now rd) \<ge> 1000 \<and> rd_sensor_path rd then
        (let c = c\<lparr>ac_last_temp_time := rd_now rd\<rparr>
         in case rd_sensor rd of
              Some r \<Rightarrow>
                (let itemp = sensor_temp (sensor_text rd r)
                 in if 30 < itemp \<and> itemp < 100 then
                      map_option (\<lambda>c. c\<lparr>ac_last_activity_time := rd_now rd\<rparr>)
                        (sendPacket ACC_SET_FAN_TEMP [word_of_int itemp] c)
                    else Some c)
            | None \<Rightarrow> Some (c\<lparr>ac_has_temp_sensor := False\<rparr>))
      else Some c)"

text \<open>The timeouts and the periodic packets; the flag says that the port has been closed.\<close>

definition keep_alive :: "round \<Rightarrow> controller \<Rightarrow> (controller \<times> bool) option" where
  "keep_alive rd c =
     (if ac_just_opened c then
        (if elapsed (ac_open_time c) (rd_now rd) \<ge> 10500 then Some (close_serial c, True)
         else if elapsed (ac_last_response_time c) (rd_now rd) \<ge> 2000 then
           map_option (\<lambda>c. (c\<lparr>ac_last_response_time := rd_now rd\<rparr>, False)) (sendPacket ACC_VER [] c)
         else Some (c, False))
      else
        (if elapsed (ac_last_response_time c) (rd_now rd) \<ge> 10000 then Some (close_serial c, True)
         else do {
           c \<leftarrow> (if elapsed (ac_last_activity_time c) (rd_now rd) \<ge> 5000
                 then sendPacket ACC_PING [] (c\<lparr>ac_last_activity_time := rd_now rd\<rparr>) else Some c);
           c \<leftarrow> send_temp rd c;
           Some (c, False)
         }))"

section \<open>Reading packets\<close>

definition handle_command :: "byte \<Rightarrow> byte \<Rightarrow> controller \<Rightarrow> controller option" where
  "handle_command command sz c =
     (if command = ACC_VER then
        map_option (\<lambda>b. c\<lparr>ac_buffer := b\<rparr>) (mem_set (ac_buffer c) (unat sz) 0)
      else if command = ACC_ISTAT then
        (if 2 \<le> sz then
           do { b \<leftarrow> mem_get (ac_buffer c) 1; Some (check_input (c\<lparr>ac_input := b\<rparr>)) }
         else Some c)
      else if command = ACC_ULTRASONIC_DATA then
        (if 3 \<le> sz then
           do {
             lo \<leftarrow> mem_get (ac_buffer c) 1;
             hi \<leftarrow> mem_get (ac_buffer c) 2;
             Some (fire_on_message IM_ULTRASONIC_DATA (uint lo + 256 * uint hi) c)
           }
         else Some c)
      else Some c)"

definition handle_packet :: "controller \<Rightarrow> byte \<Rightarrow> controller option" where
  "handle_packet c sz =
     (if 1 \<le> sz then
        do {
          command \<leftarrow> mem_get (ac_buffer c) 0;
          if ac_just_opened c then
            (if command \<noteq> ACC_VER \<and> command \<noteq> ACC_ISTAT then Some c
             else do {
               c \<leftarrow> send_relay (c\<lparr>ac_just_opened := False\<rparr>);
               c \<leftarrow> send_btn_led c;
               c \<leftarrow> send_btn2_led c;
               handle_command command sz c
             })
          else handle_command command sz c
        }
      else Some c)"

text \<open>\<open>RawRead\<close>'s result goes into a byte, so that its error -1 is 255.\<close>

definition read_input :: "round \<Rightarrow> controller \<Rightarrow> controller option" where
  "read_input rd c =
     (if rd_ready rd then
        (if unat (get_expected_data_size (ac_parser c)) \<le> MAX_PACKET_SIZE + 4 then
           do {
             (c, ret) \<leftarrow>
               (case rd_read rd of
                  None \<Rightarrow> Some (c, 255)
                | Some avail \<Rightarrow>
                    (let xs = take (unat (get_expected_data_size (ac_parser c))) avail
                     in do {
                          b \<leftarrow> mem_write (ac_buffer c) 0 xs;
                          Some (c\<lparr>ac_buffer := b\<rparr>, of_nat (length xs))
                        }));
             if 0 < ret then
               do {
                 (p, r) \<leftarrow> post_data (ac_parser c) (ac_buffer c) ret;
                 let c = c\<lparr>ac_parser := p\<rparr>;
                 if r = PACKET_READY then
                   do {
                     (b, sz) \<leftarrow> get_packet p (ac_buffer c) (of_nat (MAX_PACKET_SIZE + 4));
                     handle_packet (c\<lparr>ac_buffer := b, ac_parser := reset p, ac_last_response_time := rd_now rd\<rparr>) sz
                   }
                 else Some c
               }
             else Some c
           }
         else Some (c\<lparr>ac_parser := reset (ac_parser c)\<rparr>))
      else Some c)"

section \<open>The loop\<close>

definition thread_round :: "round \<Rightarrow> controller \<Rightarrow> controller option" where
  "thread_round rd c =
     do {
       c \<leftarrow> open_serial rd (check_alive rd c);
       if ac_open c then
         do {
           (c, closed) \<leftarrow> keep_alive rd c;
           if closed then Some c else read_input rd c
         }
       else Some c
     }"

section \<open>The link as a machine\<close>

datatype link_input = Round round | Set_output byte byte | Update_inputs

fun link_step :: "controller \<Rightarrow> link_input \<Rightarrow> (controller \<times> bool) option" where
  "link_step c (Round rd) = map_option (\<lambda>c. (c, True)) (thread_round rd c)"
| "link_step c (Set_output out_id v) = set_output out_id v c"
| "link_step c Update_inputs = map_option (\<lambda>c. (c, True)) (update_inputs c)"

text \<open>No read fails.\<close>

fun reads_ok :: "link_input \<Rightarrow> bool" where
  "reads_ok (Round rd) \<longleftrightarrow> (rd_ready rd \<longrightarrow> rd_read rd \<noteq> None)"
| "reads_ok i \<longleftrightarrow> True"

text \<open>
  Between two rounds the parser waits for the prefix, for the length, or for a packet; a packet that
  has begun to arrive fits the read buffer.
\<close>

definition waiting :: "cp_parser \<Rightarrow> bool" where
  "waiting p \<longleftrightarrow> m_state p \<le> 3 \<and> (m_state p \<le> 2 \<longrightarrow> m_buffer_pos p = 0) \<and>
     (m_state p = 3 \<longrightarrow> m_buffer_pos p < m_payload_size p \<and> (m_buffer_pos p = 0 \<or> m_payload_size p \<le> 36))"

definition parser_ok :: "cp_parser \<Rightarrow> bool" where
  "parser_ok p \<longleftrightarrow> cp_block_ok p \<and> m_max_cmd_size p = 64"

definition link_inv :: "controller \<Rightarrow> bool" where
  "link_inv c \<longleftrightarrow> parser_ok (ac_parser c) \<and> waiting (ac_parser c) \<and> length (ac_buffer c) = 36"

lemma waiting_reset [simp]: "waiting (reset p)" "parser_ok (reset p) = parser_ok p"
  by (simp_all add: waiting_def parser_ok_def)

section \<open>Packets\<close>

lemma packet_frame:
  assumes "length data \<le> 31"
  shows "packet cmd data c = Some (frame (m_prefix (ac_parser c)) (cmd # data))"
proof -
  have n: "length data = unat (of_nat (length data) :: byte)" using assms by simp
  have sz: "unat (of_nat (MAX_PACKET_SIZE + 4) :: byte) = 36" by (simp add: MAX_PACKET_SIZE_def)
  have "unat (of_nat (length data) + 5 :: byte) = length data + 5"
    using assms by (subst unat_add_byte) simp_all
  then show ?thesis
    unfolding packet_def
    using create_packet_cmd_frame [OF n, of "of_nat (MAX_PACKET_SIZE + 4)" "replicate (MAX_PACKET_SIZE + 4) 0"] assms sz
    by (simp add: MAX_PACKET_SIZE_def)
qed

lemma sends:
  "sendPacket cmd [] c = Some (serial_write (frame (m_prefix (ac_parser c)) [cmd]) c)"
  "sendPacket cmd [x] c = Some (serial_write (frame (m_prefix (ac_parser c)) [cmd, x]) c)"
  "send_relay c = Some (send_buffer (frame (m_prefix (ac_parser c)) [ACC_SET_RELAY, ac_relay c]) c)"
  "send_btn_led c = Some (send_buffer (frame (m_prefix (ac_parser c)) [ACC_SET_BTN_LED, ac_btn_led c]) c)"
  "send_btn2_led c = Some (send_buffer (frame (m_prefix (ac_parser c)) [ACC_SET_BTN2_LED, ac_btn2_led c]) c)"
  "update_inputs c = Some (send_buffer (frame (m_prefix (ac_parser c)) [ACC_GET_ISTAT]) c)"
  by (simp_all add: sendPacket_def send_relay_def send_btn_led_def send_btn2_led_def update_inputs_def packet_frame)

lemma write_simps [simp]:
  "ac_parser (serial_write b c) = ac_parser c" "ac_buffer (serial_write b c) = ac_buffer c"
  "ac_parser (send_buffer b c) = ac_parser c" "ac_buffer (send_buffer b c) = ac_buffer c"
  "ac_relay (send_buffer b c) = ac_relay c" "ac_btn_led (send_buffer b c) = ac_btn_led c"
  "ac_btn2_led (send_buffer b c) = ac_btn2_led c" "ac_open (send_buffer b c) = ac_open c"
  "ac_just_opened (send_buffer b c) = ac_just_opened c"
  "ac_relay (serial_write b c) = ac_relay c" "ac_btn_led (serial_write b c) = ac_btn_led c"
  "ac_btn2_led (serial_write b c) = ac_btn2_led c" "ac_open (serial_write b c) = ac_open c"
  "ac_just_opened (serial_write b c) = ac_just_opened c"
  "ac_wire (serial_write b c) = ac_wire c @ [Sent b]"
  "ac_wire (send_buffer b c) = (if ac_open c \<and> \<not> ac_just_opened c then ac_wire c @ [Sent b] else ac_wire c)"
  by (simp_all add: serial_write_def send_buffer_def)

section \<open>The reader keeps to its buffers\<close>

lemma post_data_longer:
  assumes "m_state p = 3" "unat sz \<le> length data"
  shows "post_data p data sz = post_data p (take (unat sz) data) (of_nat (length (take (unat sz) data)))"
  using assms by (simp add: post_defs mem_read_def)

definition read_result :: "cp_parser \<Rightarrow> cp_result \<Rightarrow> bool" where
  "read_result p r \<longleftrightarrow> parser_ok p \<and>
     (if r = PACKET_READY then m_state p = 4 \<and> 0 < m_payload_size p \<and> m_payload_size p \<le> 36 else waiting p)"

lemma post_read:
  assumes p: "waiting p" "parser_ok p" and e: "unat (get_expected_data_size p) \<le> 36"
    and ret: "0 < ret" "ret \<le> get_expected_data_size p" and d: "length data = 36"
  shows "\<exists>p' r. post_data p data ret = Some (p', r) \<and> read_result p' r"
proof -
  obtain x xs where data: "data = x # xs" using d by (cases data) auto
  have "m_state p \<le> 3" using p(1) by (simp add: waiting_def)
  then have st: "m_state p \<le> 4" by (simp add: byte_le_nat)
  then show ?thesis
  proof (cases rule: cp_state_cases)
    case 4
    let ?c = "take (unat ret) data" and ?dn = "take (unat (m_buffer_pos p)) (m_buffer p)"
    have w: "cp_block_ok p" "m_buffer_pos p < m_payload_size p" "m_max_cmd_size p = 64"
      using p 4 by (auto simp: waiting_def parser_ok_def)
    have ex: "get_expected_data_size p = m_payload_size p - m_buffer_pos p"
      using 4 by (simp add: get_expected_data_size_def CP_PREFIX_SIZE_def)
    have pay: "m_payload_size p \<le> 36"
      using p(1) 4 e by (auto simp: waiting_def ex byte_le_nat)
    have pay64: "m_payload_size p \<le> m_max_cmd_size p" using pay w(3) by (simp add: byte_le_nat)
    have le: "unat ret \<le> unat (m_payload_size p - m_buffer_pos p)" using ret(2) ex by (simp add: byte_le_nat)
    have fits: "unat (m_buffer_pos p) + unat ret \<le> unat (m_payload_size p)"
      using le w(2) by (simp add: byte_less_nat unat_sub_byte byte_le_nat)
    have "unat ret \<le> length data" using le ex e d by simp
    then have lens: "length ?c = unat ret" "length ?dn = unat (m_buffer_pos p)"
      using w pay64 by (auto simp: cp_block_ok_def byte_le_nat byte_less_nat)
    have run: "post_data p data ret = post_data p ?c (of_nat (length ?c))"
      using 4 \<open>unat ret \<le> length data\<close> by (rule post_data_longer)
    have "m_payload_size p \<noteq> 0" using w(2) by auto
    then show ?thesis
      unfolding run using post_data_payload [OF 4 w(1), of ?dn ?c] w lens fits 4 pay pay64
      by (auto simp: read_result_def parser_ok_def waiting_def cp_block_ok_def byte_less_nat byte_le_nat unat_add_below word_gt_0)
  qed (use p ret data in \<open>auto simp: post_defs waiting_def parser_ok_def cp_block_ok_def read_result_def byte_le_nat word_gt_0\<close>)
qed

text \<open>Steps that leave the parser and the read buffer alone.\<close>

definition same_reader :: "controller \<Rightarrow> controller \<Rightarrow> bool" where
  "same_reader c' c \<longleftrightarrow> ac_parser c' = ac_parser c \<and> length (ac_buffer c') = length (ac_buffer c)"

lemma same_reader_inv: "same_reader c' c \<Longrightarrow> link_inv c' = link_inv c"
  by (simp add: same_reader_def link_inv_def)

lemma check_input_reader: "same_reader (check_input c) c"
  by (simp add: same_reader_def check_input_def check_bit_def fire_on_message_def Let_def)

lemma handle_command_ok:
  assumes "unat sz < 36" "length (ac_buffer c) = 36"
  shows "\<exists>c'. handle_command command sz c = Some c' \<and> same_reader c' c"
  using assms check_input_reader [of "c\<lparr>ac_input := b\<rparr>" for b]
  by (auto simp: handle_command_def mem_set_in mem_get_in same_reader_def fire_on_message_def)

lemma handle_packet_ok:
  assumes "unat sz < 36" "length (ac_buffer c) = 36"
  shows "\<exists>c'. handle_packet c sz = Some c' \<and> same_reader c' c"
proof -
  have up: "\<exists>c'. handle_command command sz d = Some c' \<and> same_reader c' c" if "same_reader d c" for command d
    using handle_command_ok [OF assms(1), of d command] assms(2) that by (auto simp: same_reader_def)
  have "same_reader (send_buffer p3 (send_buffer p2 (send_buffer p1 (c\<lparr>ac_just_opened := False\<rparr>)))) c" for p1 p2 p3
    by (simp add: same_reader_def)
  then show ?thesis
    using up [of c] up assms(2) by (auto simp: handle_packet_def sends mem_get_in same_reader_def)
qed

lemma get_packet_read:
  assumes "read_result p PACKET_READY" "length buf = 36"
  shows "\<exists>b sz. get_packet p buf (of_nat (MAX_PACKET_SIZE + 4)) = Some (b, sz) \<and> length b = 36 \<and> unat sz < 36"
proof -
  have p: "m_state p = 4" "0 < m_payload_size p" "m_payload_size p \<le> 36" "length (m_buffer p) = 64"
    using assms(1) by (simp_all add: read_result_def parser_ok_def cp_block_ok_def)
  have n: "unat (m_payload_size p - 1) = unat (m_payload_size p) - 1"
    using p(2) by (intro unat_minus_one) auto
  have "unat (m_payload_size p) \<le> 36" "0 < unat (m_payload_size p)"
    using p(2,3) by (simp_all add: byte_le_nat word_less_nat_alt)
  then show ?thesis
    using p n assms(2)
    by (auto simp: get_packet_def get_packet_size_def CP_PREFIX_SIZE_def MAX_PACKET_SIZE_def mem_read_def mem_write_def
        byte_le_nat Let_def)
qed

lemma read_input_ok:
  assumes inv: "link_inv c" and rd: "rd_ready rd \<longrightarrow> rd_read rd \<noteq> None"
  shows "\<exists>c'. read_input rd c = Some c' \<and> link_inv c'"
proof (cases "rd_ready rd \<and> unat (get_expected_data_size (ac_parser c)) \<le> 36")
  case True
  let ?p = "ac_parser c"
  let ?e = "get_expected_data_size ?p"
  from True rd obtain avail where av: "rd_read rd = Some avail" by auto
  let ?xs = "take (unat ?e) avail"
  let ?b = "?xs @ drop (length ?xs) (ac_buffer c)"
  have p: "waiting ?p" "parser_ok ?p" "length (ac_buffer c) = 36" using inv by (simp_all add: link_inv_def)
  have len: "length ?xs \<le> 36" "length ?xs < 256" using True by auto
  have w: "mem_write (ac_buffer c) 0 ?xs = Some ?b" using p(3) len(1) by (simp add: mem_write_def)
  let ?ret = "of_nat (length ?xs) :: byte"
  have ret: "unat ?ret = length ?xs" using len(2) by simp
  then have le: "?ret \<le> ?e" by (simp add: byte_le_nat)
  have lb: "length ?b = 36" using p(3) len(1) by simp
  show ?thesis
  proof (cases "0 < ?ret")
    case pos: True
    obtain p' r where pr: "post_data ?p ?b ?ret = Some (p', r)" "read_result p' r"
      using post_read [OF p(1,2) _ pos le lb] True by auto
    let ?c = "c\<lparr>ac_buffer := ?b, ac_parser := p'\<rparr>"
    show ?thesis
    proof (cases "r = PACKET_READY")
      case ready: True
      obtain b sz where g: "get_packet p' ?b (of_nat (MAX_PACKET_SIZE + 4)) = Some (b, sz)" "length b = 36" "unat sz < 36"
        using get_packet_read [OF _ lb] pr(2) ready by blast
      let ?d = "?c\<lparr>ac_buffer := b, ac_parser := reset p', ac_last_response_time := rd_now rd\<rparr>"
      obtain c' where c': "handle_packet ?d sz = Some c'" "same_reader c' ?d"
        using handle_packet_ok [OF g(3), of ?d] g(2) by auto
      have "link_inv ?d" using g(2) pr(2) by (simp add: link_inv_def read_result_def)
      then have "link_inv c'" using same_reader_inv [OF c'(2)] by simp
      moreover have "read_input rd c = Some c'"
        using True av w pos pr(1) ready g(1) c'(1) by (simp add: read_input_def Let_def MAX_PACKET_SIZE_def)
      ultimately show ?thesis by blast
    next
      case False
      then have "link_inv ?c" using pr(2) lb by (simp add: link_inv_def read_result_def)
      moreover have "read_input rd c = Some ?c"
        using True av w pos pr(1) False by (simp add: read_input_def Let_def MAX_PACKET_SIZE_def)
      ultimately show ?thesis by blast
    qed
  next
    case False
    have "read_input rd c = Some (c\<lparr>ac_buffer := ?b\<rparr>)"
      using True av w False by (simp add: read_input_def Let_def MAX_PACKET_SIZE_def)
    moreover have "link_inv (c\<lparr>ac_buffer := ?b\<rparr>)" using p lb by (simp add: link_inv_def)
    ultimately show ?thesis by blast
  qed
next
  case False
  have "link_inv (c\<lparr>ac_parser := reset (ac_parser c)\<rparr>)" using inv by (simp add: link_inv_def)
  then show ?thesis using False inv by (auto simp: read_input_def MAX_PACKET_SIZE_def)
qed

lemma check_alive_reader: "same_reader (check_alive rd c) c"
  by (simp add: same_reader_def check_alive_def close_serial_def Let_def)

lemma open_serial_ok: "link_inv c \<Longrightarrow> \<exists>c'. open_serial rd c = Some c' \<and> link_inv c'"
  by (auto simp: open_serial_def sends link_inv_def)

lemma send_temp_ok: "\<exists>c'. send_temp rd c = Some c' \<and> same_reader c' c"
  by (auto simp: send_temp_def sends same_reader_def Let_def split: option.split)

lemma keep_alive_ok: "\<exists>c' b. keep_alive rd c = Some (c', b) \<and> same_reader c' c"
proof -
  let ?d = "if elapsed (ac_last_activity_time c) (rd_now rd) \<ge> 5000
    then serial_write (frame (m_prefix (ac_parser c)) [ACC_PING]) (c\<lparr>ac_last_activity_time := rd_now rd\<rparr>) else c"
  obtain c' where c': "send_temp rd ?d = Some c'" "same_reader c' ?d" using send_temp_ok by blast
  then have "same_reader c' c" by (simp add: same_reader_def split: if_splits)
  moreover have "(if elapsed (ac_last_activity_time c) (rd_now rd) \<ge> 5000
      then sendPacket ACC_PING [] (c\<lparr>ac_last_activity_time := rd_now rd\<rparr>) else Some c) = Some ?d"
    by (simp add: sends)
  ultimately show ?thesis
    using c'(1) by (auto simp: keep_alive_def sends same_reader_def close_serial_def)
qed

lemma thread_round_ok:
  assumes "link_inv c" "rd_ready rd \<longrightarrow> rd_read rd \<noteq> None"
  shows "\<exists>c'. thread_round rd c = Some c' \<and> link_inv c'"
proof -
  have "link_inv (check_alive rd c)" using assms(1) same_reader_inv [OF check_alive_reader] by simp
  then obtain c1 where c1: "open_serial rd (check_alive rd c) = Some c1" "link_inv c1" using open_serial_ok by blast
  obtain c2 b where c2: "keep_alive rd c1 = Some (c2, b)" "same_reader c2 c1" using keep_alive_ok by blast
  have i2: "link_inv c2" using c1(2) same_reader_inv [OF c2(2)] by simp
  obtain c3 where "read_input rd c2 = Some c3" "link_inv c3" using read_input_ok [OF i2 assms(2)] by blast
  then show ?thesis using c1 c2(1) i2 by (auto simp: thread_round_def)
qed

lemma link_step_ok:
  assumes "link_inv c" "reads_ok i"
  shows "\<exists>c' b. link_step c i = Some (c', b) \<and> link_inv c'"
proof (cases i)
  case (Round rd)
  then show ?thesis using thread_round_ok [OF assms(1)] assms(2) by fastforce
next
  case (Set_output out_id v)
  have "link_inv (send_buffer b (c\<lparr>ac_relay := v\<rparr>))" "link_inv (send_buffer b (c\<lparr>ac_btn_led := v\<rparr>))"
    "link_inv (send_buffer b (c\<lparr>ac_btn2_led := v\<rparr>))" for b
    using assms(1) by (simp_all add: link_inv_def)
  then show ?thesis using Set_output assms(1) by (auto simp: set_output_def sends)
next
  case Update_inputs
  have "link_inv (send_buffer b c)" for b using assms(1) by (simp add: link_inv_def)
  then show ?thesis using Update_inputs by (auto simp: sends)
qed

interpretation link: guarded_machine link_step link_inv "\<lambda>c. reads_ok"
  by unfold_locales (rule link_step_ok)

lemma run_ok_reads: "\<forall>i \<in> set is. reads_ok i \<Longrightarrow> run_ok (\<lambda>c. reads_ok) link_step c is"
  by (induction "is" arbitrary: c) (auto split: option.split)

lemma new_controller_inv: "length block = 64 \<Longrightarrow> length stack = 36 \<Longrightarrow> link_inv (new_controller block stack)"
  by (simp add: new_controller_def link_inv_def new_parser_def parser_ok_def cp_block_ok_def waiting_def)

text \<open>
  C17: whatever the board sends and whatever outputs are set, as long as no read of the port fails the
  reader never leaves its 36-byte buffer nor the parser its 64-byte block: a packet whose length
  byte exceeds the buffer is dropped before any of it is read, which is what the parser by
  itself does not do.
\<close>

theorem link_never_overflows:
  assumes "\<forall>i \<in> set is. reads_ok i" "length block = 64" "length stack = 36"
  shows "\<exists>c outs. run_steps link_step (new_controller block stack) is = Some (c, outs) \<and> link_inv c \<and> length outs = length is"
  using link.run_safe [OF new_controller_inv run_ok_reads] assms by blast

definition demo_round :: "int \<Rightarrow> byte list \<Rightarrow> round" where
  "demo_round now bytes = \<lparr>rd_now = now, rd_alive = True, rd_opens = True, rd_ready = True, rd_read = Some bytes,
     rd_sensor = None, rd_stack = [], rd_sensor_path = False\<rparr>"

theorem link_never_overflows_witness:
  "\<exists>c outs. run_steps link_step (new_controller (replicate 64 0) (replicate 36 0))
     [Round (demo_round 1 [0x55]), Round (demo_round 2 [0xBB]), Round (demo_round 3 [0xFF]), Round (demo_round 4 [1, 2, 3])] = Some (c, outs)
     \<and> link_inv c \<and> length outs = length [Round (demo_round 1 [0x55]), Round (demo_round 2 [0xBB]), Round (demo_round 3 [0xFF]), Round (demo_round 4 [1, 2, 3])]"
  by (rule link_never_overflows) (simp_all add: demo_round_def)

text \<open>
  A read that fails while a packet is arriving is taken for one of 255 bytes: the parser copies
  255 bytes from the 36-byte buffer into its 64-byte block.
\<close>

theorem read_error_overflows:
  assumes "link_inv c" "m_state (ac_parser c) = 3" "unat (get_expected_data_size (ac_parser c)) \<le> 36"
    and "rd_ready rd" "rd_read rd = None"
  shows "read_input rd c = None"
proof -
  have "mem_read (ac_buffer c) 0 255 = None" using assms(1) by (simp add: link_inv_def mem_read_def)
  then have "post_data (ac_parser c) (ac_buffer c) 255 = None"
    using assms(2) by (simp add: post_data_def post_payload_def CP_PREFIX_SIZE_def)
  then show ?thesis using assms by (simp add: read_input_def MAX_PACKET_SIZE_def)
qed

definition demo_arriving :: controller where
  "demo_arriving = fst (the (run_steps link_step (new_controller (replicate 64 0) (replicate 36 0))
     [Round (demo_round 1 [0x55]), Round (demo_round 2 [0xBB]), Round (demo_round 3 [10]), Round (demo_round 4 [1, 2, 3])]))"

theorem read_error_overflows_witness:
  "read_input ((demo_round 5 [])\<lparr>rd_read := None\<rparr>) demo_arriving = None"
proof (rule read_error_overflows)
  show "link_inv demo_arriving" by code_simp
  show "m_state (ac_parser demo_arriving) = 3" by code_simp
  show "unat (get_expected_data_size (ac_parser demo_arriving)) \<le> 36" by code_simp
qed (simp_all add: demo_round_def)

section \<open>The board's outputs\<close>

text \<open>
  What the board knows of an output: the value in the last packet with this command since the port
  was opened.
\<close>

definition board_step :: "byte \<Rightarrow> wire_event \<Rightarrow> byte option \<Rightarrow> byte option" where
  "board_step cmd e v =
     (case e of
        Opened \<Rightarrow> None
      | Closed \<Rightarrow> None
      | Sent bytes \<Rightarrow> if length bytes = 6 \<and> bytes ! 3 = cmd then Some (bytes ! 4) else v)"

definition board_value :: "byte \<Rightarrow> wire_event list \<Rightarrow> byte option" where
  "board_value cmd wire = fold (board_step cmd) wire None"

lemma board_append [simp]: "board_value cmd (w @ es) = fold (board_step cmd) es (board_value cmd w)"
  by (simp add: board_value_def)

lemma board_step_frame [simp]:
  "board_step cmd (Sent (frame pre [cmd'])) v = v"
  "board_step cmd (Sent (frame pre [cmd', x])) v = (if cmd' = cmd then Some x else v)"
  "board_step cmd Opened v = None" "board_step cmd Closed v = None"
  by (simp_all add: board_step_def frame_def frame_tail_def)

lemmas acc_defs = ACC_VER_def ACC_ISTAT_def ACC_SET_RELAY_def ACC_SET_BTN_LED_def ACC_SET_FAN_TEMP_def ACC_GET_ISTAT_def
  ACC_PING_def ACC_SET_BTN2_LED_def ACC_ULTRASONIC_DATA_def

text \<open>While the link is up the board's outputs are the controller's.\<close>

definition mirrored :: "controller \<Rightarrow> bool" where
  "mirrored c \<longleftrightarrow> (ac_open c \<and> \<not> ac_just_opened c \<longrightarrow>
     board_value ACC_SET_RELAY (ac_wire c) = Some (ac_relay c) \<and>
     board_value ACC_SET_BTN_LED (ac_wire c) = Some (ac_btn_led c) \<and>
     board_value ACC_SET_BTN2_LED (ac_wire c) = Some (ac_btn2_led c))"

definition same_outputs :: "controller \<Rightarrow> controller \<Rightarrow> bool" where
  "same_outputs c' c \<longleftrightarrow> ac_open c' = ac_open c \<and> ac_just_opened c' = ac_just_opened c \<and> ac_wire c' = ac_wire c \<and>
     ac_relay c' = ac_relay c \<and> ac_btn_led c' = ac_btn_led c \<and> ac_btn2_led c' = ac_btn2_led c"

lemma same_outputs_mirrored: "same_outputs c' c \<Longrightarrow> mirrored c' = mirrored c"
  by (simp add: same_outputs_def mirrored_def)

lemma mirrored_closed: "\<not> ac_open c \<Longrightarrow> mirrored c" "ac_just_opened c \<Longrightarrow> mirrored c"
  by (simp_all add: mirrored_def)

text \<open>A packet that sets no output changes nothing.\<close>

lemma mirrored_other:
  "mirrored (serial_write (frame pre [cmd]) c) = mirrored c"
  "mirrored (send_buffer (frame pre [cmd]) c) = mirrored c"
  "mirrored (serial_write (frame pre [ACC_SET_FAN_TEMP, x]) c) = mirrored c"
  by (simp_all add: mirrored_def acc_defs)

lemma set_output_mirrored:
  assumes "mirrored c" "set_output out_id v c = Some (c', b)"
  shows "mirrored c'"
  using assms by (auto simp: set_output_def sends mirrored_def acc_defs split: if_splits)

lemma handshake_mirrored:
  assumes "ac_open c"
  shows "mirrored (send_buffer (frame p3 [ACC_SET_BTN2_LED, ac_btn2_led c]) (send_buffer (frame p2 [ACC_SET_BTN_LED, ac_btn_led c])
    (send_buffer (frame p1 [ACC_SET_RELAY, ac_relay c]) (c\<lparr>ac_just_opened := False\<rparr>))))"
  using assms by (simp add: mirrored_def acc_defs)

lemma check_input_outputs: "same_outputs (check_input c) c"
  by (simp add: same_outputs_def check_input_def check_bit_def fire_on_message_def Let_def)

lemma handle_command_outputs:
  assumes "handle_command command sz c = Some c'"
  shows "same_outputs c' c"
  using assms check_input_outputs [of "c\<lparr>ac_input := b\<rparr>" for b]
  by (auto simp: handle_command_def same_outputs_def fire_on_message_def bind_eq_Some_conv split: if_splits)

lemma handle_packet_mirrored:
  assumes "ac_open c" "mirrored c" "handle_packet c sz = Some c'"
  shows "mirrored c'"
proof (cases "1 \<le> sz")
  case True
  obtain command where cmd: "mem_get (ac_buffer c) 0 = Some command"
    using assms(3) True by (auto simp: handle_packet_def bind_eq_Some_conv)
  show ?thesis
  proof (cases "ac_just_opened c")
    case just: True
    show ?thesis
    proof (cases "command \<noteq> ACC_VER \<and> command \<noteq> ACC_ISTAT")
      case True
      then show ?thesis using assms cmd just \<open>1 \<le> sz\<close> by (simp add: handle_packet_def)
    next
      case False
      let ?d = "send_buffer (frame (m_prefix (ac_parser c)) [ACC_SET_BTN2_LED, ac_btn2_led c])
        (send_buffer (frame (m_prefix (ac_parser c)) [ACC_SET_BTN_LED, ac_btn_led c])
          (send_buffer (frame (m_prefix (ac_parser c)) [ACC_SET_RELAY, ac_relay c]) (c\<lparr>ac_just_opened := False\<rparr>)))"
      have "handle_command command sz ?d = Some c'"
        using assms(3) cmd just \<open>1 \<le> sz\<close> False by (simp add: handle_packet_def sends)
      then show ?thesis
        using handshake_mirrored [OF assms(1)] same_outputs_mirrored [OF handle_command_outputs] by blast
    qed
  next
    case False
    then show ?thesis
      using assms cmd True same_outputs_mirrored [OF handle_command_outputs] by (auto simp: handle_packet_def)
  qed
qed (use assms in \<open>simp add: handle_packet_def\<close>)

lemma read_input_mirrored:
  assumes op: "ac_open c" and m: "mirrored c" and run: "read_input rd c = Some c'"
  shows "mirrored c'"
proof -
  have keep: "same_outputs (c\<lparr>ac_buffer := b, ac_parser := p\<rparr>) c" "same_outputs (c\<lparr>ac_parser := p\<rparr>) c"
    "same_outputs (c\<lparr>ac_buffer := b\<rparr>) c"
    "same_outputs (c\<lparr>ac_parser := p, ac_buffer := b, ac_last_response_time := t\<rparr>) c"
    "same_outputs (c\<lparr>ac_buffer := b, ac_parser := p, ac_last_response_time := t\<rparr>) c" for b p t
    by (simp_all add: same_outputs_def)
  have mm: "mirrored (c\<lparr>ac_buffer := b, ac_parser := p\<rparr>)" "mirrored (c\<lparr>ac_parser := p\<rparr>)" "mirrored (c\<lparr>ac_buffer := b\<rparr>)"
    "mirrored (c\<lparr>ac_buffer := b, ac_parser := p, ac_last_response_time := t\<rparr>)" for b p t
    using m keep [THEN same_outputs_mirrored] by blast+
  show ?thesis
    using run m mm handle_packet_mirrored [OF _ mm(4)] op
    by (auto simp: read_input_def Let_def bind_eq_Some_conv split: if_splits option.splits)
qed

lemma send_temp_mirrored: "mirrored c \<Longrightarrow> send_temp rd c = Some c' \<Longrightarrow> mirrored c' \<and> ac_open c' = ac_open c"
proof -
  assume m: "mirrored c" and run: "send_temp rd c = Some c'"
  have k: "mirrored (c\<lparr>ac_last_temp_time := t\<rparr>)" "mirrored (c\<lparr>ac_last_temp_time := t, ac_has_temp_sensor := b\<rparr>)" for t b
    using m by (simp_all add: mirrored_def)
  have j: "mirrored (d\<lparr>ac_last_activity_time := t\<rparr>) = mirrored d" for d t by (simp add: mirrored_def)
  show "mirrored c' \<and> ac_open c' = ac_open c"
    using run m k by (auto simp: send_temp_def sends mirrored_other j Let_def split: if_splits option.splits)
qed

lemma keep_alive_mirrored:
  assumes "mirrored c" "keep_alive rd c = Some (c', closed)" "ac_open c"
  shows "mirrored c' \<and> (closed \<or> ac_open c')"
proof -
  have cl: "mirrored (close_serial c)" by (rule mirrored_closed) (simp add: close_serial_def)
  have j: "mirrored (d\<lparr>ac_last_response_time := t\<rparr>) = mirrored d" "mirrored (d\<lparr>ac_last_activity_time := t\<rparr>) = mirrored d" for d t
    by (simp_all add: mirrored_def)
  let ?ping = "serial_write (frame (m_prefix (ac_parser c)) [ACC_PING]) (c\<lparr>ac_last_activity_time := rd_now rd\<rparr>)"
  have ping: "mirrored ?ping" "ac_open ?ping = ac_open c" using assms(1) by (simp_all add: mirrored_other j)
  show ?thesis
    using assms cl send_temp_mirrored [OF assms(1), of rd c'] send_temp_mirrored [OF ping(1), of rd c'] ping(2)
    by (auto simp: keep_alive_def sends mirrored_other j bind_eq_Some_conv split: if_splits)
qed

lemma thread_round_mirrored:
  assumes "mirrored c" "thread_round rd c = Some c'"
  shows "mirrored c'"
proof -
  have a: "mirrored (check_alive rd c)"
    using assms(1) by (auto simp: check_alive_def close_serial_def mirrored_def Let_def)
  obtain c1 where c1: "open_serial rd (check_alive rd c) = Some c1"
    using assms(2) by (auto simp: thread_round_def bind_eq_Some_conv)
  have m1: "mirrored c1"
    using c1 a by (auto simp: open_serial_def sends mirrored_other mirrored_closed split: if_splits)
  show ?thesis
  proof (cases "ac_open c1")
    case True
    obtain c2 closed where c2: "keep_alive rd c1 = Some (c2, closed)"
      using assms(2) c1 True by (auto simp: thread_round_def bind_eq_Some_conv)
    have m2: "mirrored c2" "closed \<or> ac_open c2" using keep_alive_mirrored [OF m1 c2 True] by simp_all
    show ?thesis
    proof (cases closed)
      case True
      then show ?thesis using assms(2) c1 c2 m2 \<open>ac_open c1\<close> by (simp add: thread_round_def)
    next
      case False
      then have "read_input rd c2 = Some c'" using assms(2) c1 c2 \<open>ac_open c1\<close> by (simp add: thread_round_def)
      then show ?thesis using read_input_mirrored [OF _ m2(1)] m2(2) False by simp
    qed
  next
    case False
    then show ?thesis using assms(2) c1 m1 by (simp add: thread_round_def)
  qed
qed

lemma link_step_mirrored:
  assumes "mirrored c" "link_step c i = Some (c', b)"
  shows "mirrored c'"
proof (cases i)
  case (Round rd)
  then show ?thesis using thread_round_mirrored [OF assms(1)] assms(2) by auto
next
  case (Set_output out_id v)
  then show ?thesis using set_output_mirrored [OF assms(1)] assms(2) by auto
next
  case Update_inputs
  then show ?thesis using assms by (auto simp: sends mirrored_other)
qed

lemma run_mirrored: "mirrored c \<Longrightarrow> run_steps link_step c is = Some (c', outs) \<Longrightarrow> mirrored c'"
proof (induction "is" arbitrary: c outs)
  case (Cons i "is")
  then show ?case using link_step_mirrored by (fastforce simp: bind_eq_Some_conv split_beta)
qed simp


text \<open>A board that answers with its version, before and after which the relay is set.\<close>

definition demo_inputs :: "link_input list" where
  "demo_inputs = [Set_output ECO_BELL 7, Round (demo_round 1 [0x55]), Round (demo_round 2 [0xBB]), Round (demo_round 3 [3]),
     Round (demo_round 4 [ACC_VER, 0x31, 3 XOR ACC_VER XOR 0x31]), Set_output ECO_MAIN_LED 9]"

definition demo_up :: controller where
  "demo_up = fst (the (run_steps link_step (new_controller (replicate 64 0) (replicate 36 0)) demo_inputs))"

lemma demo_up_run:
  "run_steps link_step (new_controller (replicate 64 0) (replicate 36 0)) demo_inputs = Some (demo_up, replicate 6 True)"
  by code_simp


text \<open>
  The packets of an output are built outside the lock. When the thread, answering the board,
  has built the relay packet but not written it yet, a \<open>set_output\<close> of another value in between
  leaves the board with the old value for good, although the link is up.
\<close>

theorem resync_race_leaves_old_output:
  assumes "ac_open c" "\<not> ac_just_opened c" "v \<noteq> ac_relay c"
  shows "\<exists>old c1. packet ACC_SET_RELAY [ac_relay c] c = Some old \<and> set_output ECO_BELL v c = Some (c1, True) \<and>
    ac_relay (send_buffer old c1) = v \<and>
    board_value ACC_SET_RELAY (ac_wire (send_buffer old c1)) = Some (ac_relay c) \<and>
    board_value ACC_SET_RELAY (ac_wire (send_buffer old c1)) \<noteq> Some v"
  using assms by (auto simp: packet_frame set_output_def sends)

theorem resync_race_leaves_old_output_witness:
  "\<exists>old c1. packet ACC_SET_RELAY [ac_relay demo_up] demo_up = Some old \<and> set_output ECO_BELL 1 demo_up = Some (c1, True) \<and>
    ac_relay (send_buffer old c1) = 1 \<and>
    board_value ACC_SET_RELAY (ac_wire (send_buffer old c1)) = Some (ac_relay demo_up) \<and>
    board_value ACC_SET_RELAY (ac_wire (send_buffer old c1)) \<noteq> Some 1"
proof (rule resync_race_leaves_old_output)
  show "ac_open demo_up" by code_simp
  show "\<not> ac_just_opened demo_up" by code_simp
  show "1 \<noteq> ac_relay demo_up" by code_simp
qed

section \<open>The inputs\<close>

definition level :: "byte \<Rightarrow> byte \<Rightarrow> int" where
  "level m b = (if b AND m \<noteq> 0 then 1 else 0)"

lemma single_bit:
  fixes a b :: byte
  assumes "m \<in> {AIM_BTN, AIM_INP1, AIM_INP2}"
  shows "a AND m \<noteq> b AND m \<longleftrightarrow> level m a \<noteq> level m b"
proof -
  obtain k where k: "m = push_bit k 1"
    using assms that [of 0] that [of 1] that [of 2] by (auto simp: AIM_BTN_def AIM_INP1_def AIM_INP2_def)
  have "a AND push_bit k 1 = (if bit a k then push_bit k 1 else 0)" for a :: byte
    by (rule bit_word_eqI) (auto simp: bit_simps)
  then show ?thesis by (auto simp: k level_def)
qed

text \<open>The levels fired for one kind of message.\<close>

definition fired :: "im_message \<Rightarrow> controller \<Rightarrow> int list" where
  "fired msg c = List.map snd (filter (\<lambda>(m, p). m = msg) (ac_messages c))"

definition input_mask :: "im_message \<Rightarrow> byte" where
  "input_mask msg = (case msg of IM_MAIN_BUTTON \<Rightarrow> AIM_BTN | IM_INPUT1 \<Rightarrow> AIM_INP1 | IM_INPUT2 \<Rightarrow> AIM_INP2 | IM_ULTRASONIC_DATA \<Rightarrow> 0)"

definition report_input :: "byte \<Rightarrow> controller \<Rightarrow> controller" where
  "report_input b c = check_input (c\<lparr>ac_input := b\<rparr>)"

lemma report_input_fired:
  assumes "msg \<noteq> IM_ULTRASONIC_DATA"
  shows "fired msg (report_input b c) = fired msg c @
      (if level (input_mask msg) b \<noteq> level (input_mask msg) (ac_last_input c) then [level (input_mask msg) b] else [])"
    and "ac_last_input (report_input b c) = b"
proof -
  note bits = single_bit [of AIM_BTN b "ac_last_input c"] single_bit [of AIM_INP1 b "ac_last_input c"]
    single_bit [of AIM_INP2 b "ac_last_input c"]
  show "fired msg (report_input b c) = fired msg c @
      (if level (input_mask msg) b \<noteq> level (input_mask msg) (ac_last_input c) then [level (input_mask msg) b] else [])"
    using assms bits
    by (cases msg) (simp_all add: fired_def report_input_def check_input_def check_bit_def fire_on_message_def Let_def
        input_mask_def level_def)
  show "ac_last_input (report_input b c) = b" by (simp add: report_input_def check_input_def check_bit_def fire_on_message_def Let_def)
qed

text \<open>
  C34: for any sequence of input states reported by the board, the messages fired for the main button
  (and for each of the two inputs) are its changes of level in order: each change is reported
  exactly once with the new level, starting from the state the controller knew.
\<close>

theorem inputs_reported:
  assumes "msg \<noteq> IM_ULTRASONIC_DATA"
  shows "fired msg (fold report_input bs c) =
    fired msg c @ tl (remdups_adj (List.map (level (input_mask msg)) (ac_last_input c # bs)))"
proof (induction bs arbitrary: c)
  case (Cons b bs)
  let ?l = "level (input_mask msg)"
  have "?l b # tl (remdups_adj (?l b # List.map ?l bs)) = remdups_adj (?l b # List.map ?l bs)" by simp
  then show ?case using Cons [of "report_input b c"] report_input_fired [OF assms, of b c] by simp
qed simp

theorem inputs_reported_witness:
  "fired IM_INPUT1 (fold report_input [2, 3, 1, 0, 2] (new_controller [] [])) = [] @ tl (remdups_adj [0, 1, 1, 0, 0, 1])"
  using inputs_reported [of IM_INPUT1 "[2, 3, 1, 0, 2]" "new_controller [] []"]
  by (simp add: fired_def new_controller_def level_def input_mask_def AIM_INP1_def)

end
