(* ===== verification/Base64.thy ===== *)
theory Base64
  imports Prelude
begin

text \<open>
  The Base64 routines behind the scripts' \<open>encode\<close>, \<open>decode\<close> and \<open>base64_encode\<close>
  (intercom/pjs_lua_libs.cpp): \<open>base64_encode\<close> and \<open>base64_decode\<close> on blocks of bytes, with the
  sizes the code allocates. None is a write outside the allocated block.
\<close>

section \<open>The table\<close>

definition base64_table :: "byte list" where
  "base64_table = List.map (\<lambda>c. of_char c)
     ''ABCDEFGHIJKLMNOPQRSTUVWXYZabcdefghijklmnopqrstuvwxyz0123456789+/''"

definition PAD :: byte where "PAD = 61"

section \<open>Encoding\<close>

text \<open>The main loop from the bytes that remain: four characters for each three bytes.\<close>

fun encode_loop :: "byte list \<Rightarrow> byte list \<Rightarrow> nat \<Rightarrow> (byte list \<times> byte list \<times> nat) option" where
  "encode_loop (a # b # c # src) out pos =
     do {
       out \<leftarrow> mem_set out pos (base64_table ! unat (drop_bit 2 a));
       out \<leftarrow> mem_set out (pos + 1) (base64_table ! unat (push_bit 4 (a AND 3) OR drop_bit 4 b));
       out \<leftarrow> mem_set out (pos + 2) (base64_table ! unat (push_bit 2 (b AND 15) OR drop_bit 6 c));
       out \<leftarrow> mem_set out (pos + 3) (base64_table ! unat (c AND 63));
       encode_loop src out (pos + 4)
     }"
| "encode_loop src out pos = Some (src, out, pos)"

definition encode_tail :: "byte list \<Rightarrow> byte list \<Rightarrow> nat \<Rightarrow> (byte list \<times> nat) option" where
  "encode_tail src out pos =
     (case src of
        [] \<Rightarrow> Some (out, pos)
      | a # r \<Rightarrow>
          do {
            out \<leftarrow> mem_set out pos (base64_table ! unat (drop_bit 2 a));
            (case r of
               [] \<Rightarrow>
                 do {
                   out \<leftarrow> mem_set out (pos + 1) (base64_table ! unat (push_bit 4 (a AND 3)));
                   out \<leftarrow> mem_set out (pos + 2) PAD;
                   out \<leftarrow> mem_set out (pos + 3) PAD;
                   Some (out, pos + 4)
                 }
             | b # r \<Rightarrow>
                 do {
                   out \<leftarrow> mem_set out (pos + 1) (base64_table ! unat (push_bit 4 (a AND 3) OR drop_bit 4 b));
                   out \<leftarrow> mem_set out (pos + 2) (base64_table ! unat (push_bit 2 (b AND 15)));
                   out \<leftarrow> mem_set out (pos + 3) PAD;
                   Some (out, pos + 4)
                 })
          })"

text \<open>The size of the block, in 64-bit \<open>size_t\<close> arithmetic.\<close>

definition encode_size :: "nat \<Rightarrow> nat" where
  "encode_size len =
     (let olen = (len * 4) mod 2 ^ 64 div 3 + 4; olen = olen + olen div 72 in olen + 1)"

text \<open>The block with its terminating 0, and \<open>out_len\<close>.\<close>

definition base64_encode :: "byte list \<Rightarrow> (byte list \<times> nat) option" where
  "base64_encode src =
     do {
       (rest, out, pos) \<leftarrow> encode_loop src (replicate (encode_size (length src)) 0) 0;
       (out, pos) \<leftarrow> encode_tail rest out pos;
       out \<leftarrow> mem_set out pos 0;
       Some (out, pos)
     }"

section \<open>Decoding\<close>

definition dtable :: "byte list" where
  "dtable =
     (fold (\<lambda>i t. t[unat (base64_table ! i) := of_nat i]) [0..<64] (replicate 256 0x80))[unat PAD := 0]"

definition decode_count :: "byte list \<Rightarrow> nat" where
  "decode_count src = length (filter (\<lambda>c. dtable ! unat c \<noteq> 0x80) src)"

text \<open>
  The loop with \<open>in\<close> and \<open>block\<close>, the characters and values of the group so far; the result holds
  the last \<open>in\<close>.
\<close>

fun decode_loop :: "byte list \<Rightarrow> byte list \<Rightarrow> byte list \<Rightarrow> nat \<Rightarrow> byte list \<Rightarrow> nat
    \<Rightarrow> (byte list \<times> byte list \<times> nat) option" where
  "decode_loop [] inn block count out pos = Some (inn, out, pos)"
| "decode_loop (c # src) inn block count out pos =
     (let tmp = dtable ! unat c
      in if tmp = 0x80 then decode_loop src inn block count out pos
         else (let inn = inn[count := c]; block = block[count := tmp]; count = count + 1
               in if count = 4 then
                    do {
                      out \<leftarrow> mem_set out pos (push_bit 2 (block ! 0) OR drop_bit 4 (block ! 1));
                      out \<leftarrow> mem_set out (pos + 1) (push_bit 4 (block ! 1) OR drop_bit 2 (block ! 2));
                      out \<leftarrow> mem_set out (pos + 2) (push_bit 6 (block ! 2) OR block ! 3);
                      decode_loop src inn block 0 out (pos + 3)
                    }
                  else decode_loop src inn block count out pos))"

text \<open>\<open>Some None\<close> is NULL; otherwise the block and \<open>out_len\<close>.\<close>

definition base64_decode :: "byte list \<Rightarrow> (byte list \<times> nat) option option" where
  "base64_decode src =
     (let count = decode_count src
      in if count = 0 \<or> count mod 4 \<noteq> 0 then Some None
         else do {
           (inn, out, pos) \<leftarrow> decode_loop src [0, 0, 0, 0] [0, 0, 0, 0] 0 (replicate (count div 4 * 3) 0) 0;
           let pos = (if 0 < pos then (if inn ! 2 = PAD then pos - 2 else if inn ! 3 = PAD then pos - 1 else pos) else pos);
           Some (Some (out, pos))
         })"

section \<open>Bits\<close>

lemma byte_eqI:
  fixes a b :: byte
  assumes "bit a 0 = bit b 0" "bit a (Suc 0) = bit b (Suc 0)" "bit a 2 = bit b 2" "bit a 3 = bit b 3"
    "bit a 4 = bit b 4" "bit a 5 = bit b 5" "bit a 6 = bit b 6" "bit a 7 = bit b 7"
  shows "a = b"
proof (rule bit_word_eqI)
  fix n assume "n < LENGTH(8)"
  then have "n \<in> {0, Suc 0, 2, 3, 4, 5, 6, 7}" by auto
  then show "bit a n = bit b n" using assms by auto
qed

lemma no_bit: "8 \<le> n \<Longrightarrow> \<not> bit (a :: byte) n"
  using bit_imp_le_length [of a n] by auto

lemma and_mask: "a AND 3 = take_bit 2 a" "a AND 15 = take_bit 4 a" "a AND 63 = take_bit 6 (a :: byte)"
  by (simp_all add: take_bit_eq_mask mask_eq_exp_minus_1)

lemma sextet:
  fixes x :: byte
  assumes "\<not> bit x 6" "\<not> bit x 7"
  shows "unat x < 64"
proof -
  have "x = take_bit 6 x" by (rule byte_eqI) (simp_all add: bit_simps assms)
  moreover have "unat (take_bit 6 x) < 2 ^ 6" unfolding unsigned_take_bit_eq by (rule take_bit_nat_less_exp)
  ultimately show ?thesis by simp
qed

lemma sextets_less:
  "unat (drop_bit 2 (a :: byte)) < 64" "unat (push_bit 4 (a AND 3) OR drop_bit 4 (b :: byte)) < 64"
  "unat (push_bit 2 (b AND 15) OR drop_bit 6 (c :: byte)) < 64" "unat (c AND 63) < 64"
  "unat (push_bit 4 (a AND 3)) < 64" "unat (push_bit 2 (b AND 15)) < 64"
  by (rule sextet; simp add: bit_simps and_mask no_bit)+

lemma reassemble:
  fixes a b c :: byte
  shows "push_bit 2 (drop_bit 2 a) OR drop_bit 4 (push_bit 4 (a AND 3) OR drop_bit 4 b) = a"
    and "push_bit 4 (push_bit 4 (a AND 3) OR drop_bit 4 b) OR drop_bit 2 (push_bit 2 (b AND 15) OR drop_bit 6 c) = b"
    and "push_bit 6 (push_bit 2 (b AND 15) OR drop_bit 6 c) OR (c AND 63) = c"
  by (rule byte_eqI; simp add: bit_simps and_mask no_bit)+

section \<open>The tables\<close>

lemma dtable_length [simp]: "length dtable = 256"
proof -
  have "length (fold (\<lambda>i t. t[unat (base64_table ! i) := of_nat i]) is t) = length t" for "is" and t :: "byte list"
    by (induction "is" arbitrary: t) simp_all
  then show ?thesis by (simp add: dtable_def)
qed

text \<open>Decoding a character of the table gives its index; the padding is 0, and 0 is no character.\<close>

lemma dtable_all: "list_all (\<lambda>i. dtable ! unat (base64_table ! i) = of_nat i) [0..<64]"
  by code_simp

lemma dtable_value: "i < 64 \<Longrightarrow> dtable ! unat (base64_table ! i) = of_nat i"
  using dtable_all by (simp add: list_all_iff)

lemma table_not_pad: "list_all (\<lambda>c. c \<noteq> PAD) base64_table" "length base64_table = 64"
  by code_simp+

lemma table_pad: "i < 64 \<Longrightarrow> base64_table ! i \<noteq> PAD"
  using table_not_pad by (simp add: list_all_length)

lemma dtable_pad: "dtable ! unat PAD = 0" "dtable ! 0 = 0x80"
  by code_simp+

text \<open>The character of a six-bit value, and what the decoder makes of it.\<close>

definition enc :: "byte \<Rightarrow> byte" where "enc v = base64_table ! unat v"

lemma enc_dec:
  assumes "unat v < 64"
  shows "dtable ! unat (enc v) = v" "enc v \<noteq> PAD" "v \<noteq> 0x80"
  using assms dtable_value [OF assms] table_pad [OF assms] by (auto simp: enc_def)

section \<open>Encoding as a function\<close>

fun encoding :: "byte list \<Rightarrow> byte list" where
  "encoding [] = []"
| "encoding [a] = [enc (drop_bit 2 a), enc (push_bit 4 (a AND 3)), PAD, PAD]"
| "encoding [a, b] = [enc (drop_bit 2 a), enc (push_bit 4 (a AND 3) OR drop_bit 4 b), enc (push_bit 2 (b AND 15)), PAD]"
| "encoding (a # b # c # r) = enc (drop_bit 2 a) # enc (push_bit 4 (a AND 3) OR drop_bit 4 b)
     # enc (push_bit 2 (b AND 15) OR drop_bit 6 c) # enc (c AND 63) # encoding r"

lemma encoding_length: "length (encoding src) = (length src + 2) div 3 * 4"
proof (induction src rule: encoding.induct)
  case (4 a b c r)
  have "(length r + 5) div 3 = (length r + 2) div 3 + 1" by presburger
  then show ?case using 4 by (simp add: add.commute)
qed simp_all

lemma four_more:
  assumes "4 \<le> length (junk :: 'a list)"
  obtains y0 y1 y2 y3 ys where "junk = y0 # y1 # y2 # y3 # ys"
  using assms that by (auto simp: numeral_eq_Suc Suc_le_length_iff)

text \<open>Setting four characters in a row.\<close>

lemma set_next:
  "mem_set (xs @ y # ys) (length xs) v = Some ((xs @ [v]) @ ys)"
  by (simp add: mem_set_def)

lemma set_four:
  assumes "length out = pos"
  shows "mem_set (out @ y0 # y1 # y2 # y3 # ys) pos v0 = Some (out @ v0 # y1 # y2 # y3 # ys)"
    "mem_set (out @ v0 # y1 # y2 # y3 # ys) (pos + 1) v1 = Some (out @ v0 # v1 # y2 # y3 # ys)"
    "mem_set (out @ v0 # v1 # y2 # y3 # ys) (pos + 2) v2 = Some (out @ v0 # v1 # v2 # y3 # ys)"
    "mem_set (out @ v0 # v1 # v2 # y3 # ys) (pos + 3) v3 = Some (out @ v0 # v1 # v2 # v3 # ys)"
  using assms by (simp_all add: mem_set_def list_update_append eval_nat_numeral)

lemma encode_run:
  assumes "length out = pos" "length (encoding src) < length junk"
  shows "\<exists>rest out1 pos1 z. encode_loop src (out @ junk) pos = Some (rest, out1, pos1) \<and>
    encode_tail rest out1 pos1 = Some (out @ encoding src @ z, pos + length (encoding src)) \<and>
    length z = length junk - length (encoding src)"
  using assms
proof (induction src arbitrary: out pos junk rule: encoding.induct)
  case 1
  then show ?case by (simp add: encode_tail_def)
next
  case (2 a)
  then obtain y0 y1 y2 y3 ys where "junk = y0 # y1 # y2 # y3 # ys" by (auto intro: four_more [of junk])
  then show ?case using set_four [OF 2(1)] by (simp add: encode_tail_def enc_def del: One_nat_def)
next
  case (3 a b)
  then obtain y0 y1 y2 y3 ys where "junk = y0 # y1 # y2 # y3 # ys" by (auto intro: four_more [of junk])
  then show ?case using set_four [OF 3(1)] by (simp add: encode_tail_def enc_def del: One_nat_def)
next
  case (4 a b c r)
  then obtain y0 y1 y2 y3 ys where junk: "junk = y0 # y1 # y2 # y3 # ys"
    by (auto intro: four_more [of junk])
  let ?v = "[enc (drop_bit 2 a), enc (push_bit 4 (a AND 3) OR drop_bit 4 b), enc (push_bit 2 (b AND 15) OR drop_bit 6 c), enc (c AND 63)]"
  have step: "encode_loop (a # b # c # r) (out @ junk) pos = encode_loop r ((out @ ?v) @ ys) (pos + 4)"
    using set_four [OF 4(2)] junk by (simp add: enc_def del: One_nat_def)
  have "length (out @ ?v) = pos + 4" "length (encoding r) < length ys" using 4(2,3) junk by simp_all
  from 4(1) [OF this] obtain rest out1 pos1 z where
    "encode_loop r ((out @ ?v) @ ys) (pos + 4) = Some (rest, out1, pos1)"
    "encode_tail rest out1 pos1 = Some ((out @ ?v) @ encoding r @ z, pos + 4 + length (encoding r))"
    "length z = length ys - length (encoding r)" by blast
  then show ?case using step junk by simp
qed

lemma encode_size_enough:
  assumes "n < 2 ^ 62"
  shows "(n + 2) div 3 * 4 < encode_size n"
proof -
  have m: "(n * 4) mod 2 ^ 64 = n * 4" using assms by simp
  have "(n + 2) div 3 * 4 \<le> n * 4 div 3 + 4" by presburger
  then show ?thesis unfolding encode_size_def m Let_def by simp
qed

lemma base64_encode_is:
  assumes "length src < 2 ^ 62"
  shows "\<exists>z. base64_encode src = Some (encoding src @ 0 # z, length (encoding src))"
proof -
  let ?junk = "replicate (encode_size (length src)) 0 :: byte list"
  have "length (encoding src) < length ?junk" using encode_size_enough [OF assms] by (simp add: encoding_length)
  from encode_run [of "[]" 0 src ?junk, OF _ this] obtain rest out1 pos1 z where
    e: "encode_loop src ?junk 0 = Some (rest, out1, pos1)"
      "encode_tail rest out1 pos1 = Some (encoding src @ z, length (encoding src))"
      "length z = length ?junk - length (encoding src)" by auto
  with \<open>length (encoding src) < length ?junk\<close> obtain z0 z' where "z = z0 # z'" by (cases z) auto
  then show ?thesis using e by (auto simp: base64_encode_def mem_set_def)
qed

section \<open>Decoding\<close>

text \<open>A group of four characters, none of them skipped.\<close>

lemma decode_group:
  assumes d: "dtable ! unat c0 = v0" "dtable ! unat c1 = v1" "dtable ! unat c2 = v2" "dtable ! unat c3 = v3"
    and v: "v0 \<noteq> 0x80" "v1 \<noteq> 0x80" "v2 \<noteq> 0x80" "v3 \<noteq> 0x80"
    and out: "length out = pos" and four: "length inn = 4" "length block = 4"
  shows "decode_loop (c0 # c1 # c2 # c3 # src) inn block 0 (out @ y0 # y1 # y2 # ys) pos =
    decode_loop src [c0, c1, c2, c3] [v0, v1, v2, v3] 0
      ((out @ [push_bit 2 v0 OR drop_bit 4 v1, push_bit 4 v1 OR drop_bit 2 v2, push_bit 6 v2 OR v3]) @ ys) (pos + 3)"
proof -
  obtain i0 i1 i2 i3 where inn: "inn = [i0, i1, i2, i3]" using four(1) by (auto simp: numeral_eq_Suc length_Suc_conv)
  obtain b0 b1 b2 b3 where block: "block = [b0, b1, b2, b3]" using four(2) by (auto simp: numeral_eq_Suc length_Suc_conv)
  show ?thesis
    using out by (simp add: inn block d v mem_set_def Let_def list_update_append eval_nat_numeral)
qed

lemma sextets_not_skipped: "unat v < 64 \<Longrightarrow> v \<noteq> (0x80 :: byte)"
  by auto

lemma decode_pad_values:
  "push_bit 2 (drop_bit 2 a) OR drop_bit 4 (push_bit 4 (a AND 3)) = (a :: byte)"
  "push_bit 4 (push_bit 4 (a AND 3) OR drop_bit 4 b) OR drop_bit 2 (push_bit 2 (b AND 15)) = (b :: byte)"
  by (rule byte_eqI; simp add: bit_simps and_mask no_bit)+

text \<open>The result of decoding an encoding, with what the last group leaves in \<open>in\<close>.\<close>

definition decodes_to :: "byte list \<Rightarrow> byte list \<Rightarrow> byte list \<Rightarrow> byte list \<Rightarrow> nat \<Rightarrow> byte list \<Rightarrow> byte list \<Rightarrow> bool" where
  "decodes_to cs inn block out pos junk src \<longleftrightarrow>
     (\<exists>inn1 out1 pos1. decode_loop cs inn block 0 (out @ junk) pos = Some (inn1, out1, pos1) \<and>
       pos + length src = (if inn1 ! 2 = PAD then pos1 - 2 else if inn1 ! 3 = PAD then pos1 - 1 else pos1) \<and>
       take (pos + length src) out1 = out @ src \<and> 0 < pos1)"

lemma decodes_toI:
  assumes "decode_loop cs inn block 0 (out @ junk) pos = Some (inn1, out1, pos1)"
    and "pos + length src = (if inn1 ! 2 = PAD then pos1 - 2 else if inn1 ! 3 = PAD then pos1 - 1 else pos1)"
    and "take (pos + length src) out1 = out @ src" "0 < pos1"
  shows "decodes_to cs inn block out pos junk src"
  using assms unfolding decodes_to_def by blast

text \<open>The terminating 0 is skipped.\<close>

lemma decode_NUL: "decode_loop [0] inn block count out pos = Some (inn, out, pos)"
  by (simp add: dtable_pad)

lemma decode_one:
  assumes "length out = pos" "length inn = 4" "length block = 4"
  shows "decodes_to (encoding [a] @ [0]) inn block out pos [y0, y1, y2] [a]"
proof (rule decodes_toI)
  note s = sextets_less(1,5) [of a]
  have z: "(0 :: byte) \<noteq> 0x80" by simp
  show "decode_loop (encoding [a] @ [0]) inn block 0 (out @ [y0, y1, y2]) pos =
      Some ([enc (drop_bit 2 a), enc (push_bit 4 (a AND 3)), PAD, PAD], (out @ [a, push_bit 4 (push_bit 4 (a AND 3)) OR drop_bit 2 0, push_bit 6 0 OR 0]) @ [], pos + 3)"
    unfolding encoding.simps append_Cons append_Nil decode_group [OF enc_dec(1) [OF s(1)] enc_dec(1) [OF s(2)] dtable_pad(1) dtable_pad(1)
      enc_dec(3) [OF s(1)] enc_dec(3) [OF s(2)] z z assms] decode_NUL decode_pad_values by (rule refl)
qed (use assms(1) in simp_all)

lemma decode_two:
  assumes "length out = pos" "length inn = 4" "length block = 4"
  shows "decodes_to (encoding [a, b] @ [0]) inn block out pos [y0, y1, y2] [a, b]"
proof (rule decodes_toI)
  note s = sextets_less(1) [of a] sextets_less(2) [of a b] sextets_less(6) [of b]
  have z: "(0 :: byte) \<noteq> 0x80" by simp
  show "decode_loop (encoding [a, b] @ [0]) inn block 0 (out @ [y0, y1, y2]) pos =
      Some ([enc (drop_bit 2 a), enc (push_bit 4 (a AND 3) OR drop_bit 4 b), enc (push_bit 2 (b AND 15)), PAD],
        (out @ [a, b, push_bit 6 (push_bit 2 (b AND 15)) OR 0]) @ [], pos + 3)"
    unfolding encoding.simps append_Cons append_Nil decode_group [OF enc_dec(1) [OF s(1)] enc_dec(1) [OF s(2)] enc_dec(1) [OF s(3)] dtable_pad(1)
      enc_dec(3) [OF s(1)] enc_dec(3) [OF s(2)] enc_dec(3) [OF s(3)] z assms] decode_NUL decode_pad_values reassemble by (rule refl)
  show "pos + length [a, b] = (if [enc (drop_bit 2 a), enc (push_bit 4 (a AND 3) OR drop_bit 4 b), enc (push_bit 2 (b AND 15)), PAD] ! 2 = PAD
      then pos + 3 - 2 else if [enc (drop_bit 2 a), enc (push_bit 4 (a AND 3) OR drop_bit 4 b), enc (push_bit 2 (b AND 15)), PAD] ! 3 = PAD
      then pos + 3 - 1 else pos + 3)"
    using enc_dec(2) [OF s(3)] by simp
qed (use assms(1) in simp_all)

lemma decode_three:
  assumes "length out = pos" "length inn = 4" "length block = 4"
  shows "decode_loop (encoding (a # b # c # r) @ [0]) inn block 0 (out @ y0 # y1 # y2 # ys) pos =
    decode_loop (encoding r @ [0]) [enc (drop_bit 2 a), enc (push_bit 4 (a AND 3) OR drop_bit 4 b),
      enc (push_bit 2 (b AND 15) OR drop_bit 6 c), enc (c AND 63)]
      [drop_bit 2 a, push_bit 4 (a AND 3) OR drop_bit 4 b, push_bit 2 (b AND 15) OR drop_bit 6 c, c AND 63] 0
      ((out @ [a, b, c]) @ ys) (pos + 3)"
proof -
  note s = sextets_less(1) [of a] sextets_less(2) [of a b] sextets_less(3) [of b c] sextets_less(4) [of c]
  show ?thesis
    unfolding encoding.simps append_Cons
      decode_group [OF enc_dec(1) [OF s(1)] enc_dec(1) [OF s(2)] enc_dec(1) [OF s(3)] enc_dec(1) [OF s(4)]
        enc_dec(3) [OF s(1)] enc_dec(3) [OF s(2)] enc_dec(3) [OF s(3)] enc_dec(3) [OF s(4)] assms] reassemble by (rule refl)
qed

lemma three_more:
  assumes "3 \<le> length (junk :: 'a list)"
  obtains y0 y1 y2 ys where "junk = y0 # y1 # y2 # ys"
  using assms that by (auto simp: numeral_eq_Suc Suc_le_length_iff)

lemma decode_encoding:
  assumes "length out = pos" "length junk = length (encoding src) div 4 * 3" "src \<noteq> []" "length inn = 4" "length block = 4"
  shows "decodes_to (encoding src @ [0]) inn block out pos junk src"
  using assms
proof (induction src arbitrary: out pos junk inn block rule: encoding.induct)
  case (2 a)
  have j: "length junk = 3" using 2(2) by simp
  then obtain y0 y1 y2 ys where "junk = y0 # y1 # y2 # ys" by (auto intro: three_more [of junk])
  then have "junk = [y0, y1, y2]" using j by simp
  with decode_one [OF 2(1,4,5), of a y0 y1 y2] show ?case by (simp only:)
next
  case (3 a b)
  have j: "length junk = 3" using 3(2) by simp
  then obtain y0 y1 y2 ys where "junk = y0 # y1 # y2 # ys" by (auto intro: three_more [of junk])
  then have "junk = [y0, y1, y2]" using j by simp
  with decode_two [OF 3(1,4,5), of a b y0 y1 y2] show ?case by (simp only:)
next
  case (4 a b c r)
  have "3 \<le> length junk" using 4(3) by simp
  then obtain y0 y1 y2 ys where junk: "junk = y0 # y1 # y2 # ys" by (rule three_more)
  let ?inn = "[enc (drop_bit 2 a), enc (push_bit 4 (a AND 3) OR drop_bit 4 b), enc (push_bit 2 (b AND 15) OR drop_bit 6 c), enc (c AND 63)]"
  let ?block = "[drop_bit 2 a, push_bit 4 (a AND 3) OR drop_bit 4 b, push_bit 2 (b AND 15) OR drop_bit 6 c, c AND 63]"
  note step = decode_three [OF 4(2,5,6), of a b c r y0 y1 y2 ys]
  have "(4 + length (encoding r)) div 4 = length (encoding r) div 4 + 1" by presburger
  then have l: "length (out @ [a, b, c]) = pos + 3" "length ys = length (encoding r) div 4 * 3" using 4(2,3) junk by simp_all
  show ?case
  proof (cases "r = []")
    case True
    have ys: "ys = []" using l(2) True by simp
    have "enc (push_bit 2 (b AND 15) OR drop_bit 6 c) \<noteq> PAD" "enc (c AND 63) \<noteq> PAD"
      by (rule enc_dec(2) [OF sextets_less(3)], rule enc_dec(2) [OF sextets_less(4)])
    note ne = this
    have run: "decode_loop (encoding [a, b, c] @ [0]) inn block 0 (out @ junk) pos = Some (?inn, (out @ [a, b, c]) @ [], pos + 3)"
      using step unfolding junk True ys encoding.simps(1) append_Nil decode_NUL .
    show ?thesis
      unfolding True by (rule decodes_toI [OF run]) (use ne 4(2) in simp_all)
  next
    case False
    have len: "pos + 3 + length r = pos + length (a # b # c # r)" by simp
    have app: "(out @ [a, b, c]) @ r = out @ a # b # c # r" by simp
    have "decodes_to (encoding r @ [0]) ?inn ?block (out @ [a, b, c]) (pos + 3) ys r" by (rule 4(1) [OF l False]) simp_all
    then show ?thesis unfolding decodes_to_def junk step len app .
  qed
qed simp

lemma decode_count_encoding: "decode_count (encoding src @ [0]) = length (encoding src)"
proof (induction src rule: encoding.induct)
  case (4 a b c r)
  then show ?case
    using sextets_less(1) [of a] sextets_less(2) [of a b] sextets_less(3) [of b c] sextets_less(4) [of c]
    by (simp add: decode_count_def enc_dec)
qed (use sextets_less in \<open>simp_all add: decode_count_def enc_dec dtable_pad\<close>)

lemma decode_of_encoding:
  assumes "src \<noteq> []" "length src < 2 ^ 62"
  shows "\<exists>dec. base64_decode (encoding src @ [0]) = Some (Some (dec, length src)) \<and> take (length src) dec = src"
proof -
  have m: "length (encoding src) mod 4 = 0" by (simp add: encoding_length)
  have ne: "length (encoding src) \<noteq> 0" using assms(1) by (cases src rule: encoding.cases) simp_all
  show ?thesis
    using decode_encoding [of "[]" 0 "replicate (length (encoding src) div 4 * 3) 0" src "[0, 0, 0, 0]" "[0, 0, 0, 0]"] assms(1) m ne
    unfolding decodes_to_def append_Nil base64_decode_def decode_count_encoding by (auto simp: Let_def)
qed

text \<open>
  C40: decoding what the scripts' \<open>encode\<close> hands on, the encoding with its terminating 0, gives back
  exactly the encoded bytes, for every non-empty block.
\<close>

theorem base64_roundtrip:
  assumes "src \<noteq> []" "length src < 2 ^ 62"
  shows "\<exists>out n dec. base64_encode src = Some (out, n) \<and> base64_decode (take (n + 1) out) = Some (Some (dec, length src)) \<and>
    take (length src) dec = src"
proof -
  obtain z where "base64_encode src = Some (encoding src @ 0 # z, length (encoding src))"
    using base64_encode_is [OF assms(2)] by blast
  then show ?thesis using decode_of_encoding [OF assms] by auto
qed

theorem base64_roundtrip_witness:
  "\<exists>out n dec. base64_encode [77, 97, 110, 0, 255] = Some (out, n) \<and>
    base64_decode (take (n + 1) out) = Some (Some (dec, length [77, 97, 110, 0, 255 :: byte])) \<and>
    take (length [77, 97, 110, 0, 255 :: byte]) dec = [77, 97, 110, 0, 255]"
  by (rule base64_roundtrip) simp_all

section \<open>Any input\<close>

lemma decode_loop_safe:
  assumes "length inn = 4" "length block = 4" "count < 4"
    and "pos + 3 * ((count + length (filter (\<lambda>c. dtable ! unat c \<noteq> 0x80) src)) div 4) \<le> length out"
  shows "\<exists>inn1 out1 pos1. decode_loop src inn block count out pos = Some (inn1, out1, pos1) \<and> length out1 = length out \<and>
    pos1 \<le> length out \<and> (pos1 = pos \<or> pos + 3 \<le> pos1)"
  using assms
proof (induction src arbitrary: inn block count out pos)
  case (Cons c src)
  show ?case
  proof (cases "dtable ! unat c = 0x80")
    case True
    then show ?thesis using Cons.IH [OF Cons.prems(1-3)] Cons.prems(4) by simp
  next
    case False
    let ?n = "length (filter (\<lambda>c. dtable ! unat c \<noteq> 0x80) src)"
    let ?b = "block[count := dtable ! unat c]"
    have len: "length (inn[count := c]) = 4" "length ?b = 4" using Cons.prems(1,2) by simp_all
    show ?thesis
    proof (cases "count + 1 = 4")
      case four: True
      have "(4 + ?n) div 4 = ?n div 4 + 1" by presburger
      then have room: "pos + 3 + 3 * (?n div 4) \<le> length out" using Cons.prems(4) False four by simp
      let ?o1 = "out[pos := push_bit 2 (?b ! 0) OR drop_bit 4 (?b ! 1)]"
      let ?o2 = "?o1[pos + 1 := push_bit 4 (?b ! 1) OR drop_bit 2 (?b ! 2)]"
      let ?o3 = "?o2[pos + 2 := push_bit 6 (?b ! 2) OR ?b ! 3]"
      have s: "mem_set out pos (push_bit 2 (?b ! 0) OR drop_bit 4 (?b ! 1)) = Some ?o1"
        "mem_set ?o1 (pos + 1) (push_bit 4 (?b ! 1) OR drop_bit 2 (?b ! 2)) = Some ?o2"
        "mem_set ?o2 (pos + 2) (push_bit 6 (?b ! 2) OR ?b ! 3) = Some ?o3"
        using room by (simp_all add: mem_set_def)
      have run: "decode_loop (c # src) inn block count out pos = decode_loop src (inn[count := c]) ?b 0 ?o3 (pos + 3)"
        unfolding decode_loop.simps Let_def s bind.bind_lunit using False four by simp
      have "pos + 3 + 3 * ((0 + ?n) div 4) \<le> length ?o3" using room by simp
      from Cons.IH [OF len _ this] show ?thesis unfolding run by force
    next
      case False': False
      have "pos + 3 * ((count + 1 + ?n) div 4) \<le> length out" "count + 1 < 4" using Cons.prems(3,4) False False' by simp_all
      from Cons.IH [OF len this(2,1)] show ?thesis using False False' by (simp add: Let_def del: One_nat_def)
    qed
  qed
qed simp

text \<open>
  On every input \<open>base64_decode\<close> writes only inside the block it allocates, and the length it
  reports lies inside that block; \<open>base64_encode\<close> writes only inside its block too.
\<close>

theorem base64_in_bounds:
  "\<exists>r. base64_decode src = Some r \<and> (case r of None \<Rightarrow> True | Some (out, n) \<Rightarrow> n \<le> length out)
    \<and> (length src < 2 ^ 62 \<longrightarrow> (\<exists>out n. base64_encode src = Some (out, n) \<and> n < length out))"
proof -
  let ?k = "decode_count src"
  obtain inn1 out1 pos1 where d: "decode_loop src [0, 0, 0, 0] [0, 0, 0, 0] 0 (replicate (?k div 4 * 3) 0) 0 = Some (inn1, out1, pos1)"
    "length out1 = ?k div 4 * 3" "pos1 \<le> length out1"
    using decode_loop_safe [of "[0, 0, 0, 0]" "[0, 0, 0, 0]" 0 0 src "replicate (?k div 4 * 3) 0"]
    by (auto simp: decode_count_def)
  have "\<exists>r. base64_decode src = Some r \<and> (case r of None \<Rightarrow> True | Some (out, n) \<Rightarrow> n \<le> length out)"
    using d by (auto simp: base64_decode_def Let_def)
  moreover have "\<exists>out n. base64_encode src = Some (out, n) \<and> n < length out" if "length src < 2 ^ 62"
    using base64_encode_is [OF that] by auto
  ultimately show ?thesis by blast
qed

theorem base64_in_bounds_witness:
  "\<exists>r. base64_decode [61, 61, 61, 61] = Some r \<and> (case r of None \<Rightarrow> True | Some (out, n) \<Rightarrow> n \<le> length out)
    \<and> (length [61, 61, 61, 61 :: byte] < 2 ^ 62 \<longrightarrow> (\<exists>out n. base64_encode [61, 61, 61, 61] = Some (out, n) \<and> n < length out))"
  by (rule base64_in_bounds)

end
