(* ===== verification/Lua_Utils.thy ===== *)
theory Lua_Utils
  imports Base64 Sha256
begin

text \<open>
  The utilities scripts get as \<open>utils\<close>, \<open>pjs_lua_utils\<close> (intercom/pjs_lua_libs.h): the Base64 text
  of a block, the SHA-256 digest of a string as Base64 text, and \<open>sleep\<close>.
\<close>

text \<open>The string made from the block ends at its first 0.\<close>

definition lua_base64_encode :: "byte list \<Rightarrow> byte list option" where
  "lua_base64_encode src = map_option (\<lambda>(out, n). takeWhile (\<lambda>c. c \<noteq> 0) out) (base64_encode src)"

text \<open>The argument is a C string: its bytes up to the first 0.\<close>

definition lua_sha256 :: "byte list \<Rightarrow> byte list option" where
  "lua_sha256 str = do { md \<leftarrow> SHA256 (takeWhile (\<lambda>c. c \<noteq> 0) str); lua_base64_encode md }"

text \<open>
  The waits of \<open>sleep\<close>, given for each round the time after it and the exit flag; times are
  milliseconds since the start, unsigned. The result is the waits asked for; a list that ends before
  the loop does gives None.
\<close>

fun sleep_loop :: "int \<Rightarrow> int \<Rightarrow> bool \<Rightarrow> (int \<times> bool) list \<Rightarrow> int list option" where
  "sleep_loop msec diff exit obs =
     (if \<not> exit \<and> diff < msec then
        (let delay = to_s32 (msec - diff); delay = (if delay > 100 then 100 else delay)
         in case obs of
              [] \<Rightarrow> None
            | (now, exit') # obs \<Rightarrow> map_option (\<lambda>ws. delay # ws) (sleep_loop msec (to_u32 now) exit' obs))
      else Some [])"

definition lua_sleep :: "int \<Rightarrow> bool \<Rightarrow> (int \<times> bool) list \<Rightarrow> int list option" where
  "lua_sleep msec exit obs = (if msec \<noteq> 0 \<and> \<not> exit then sleep_loop msec 0 exit obs else Some [])"

section \<open>Lemmas\<close>

lemma sextet_not_NUL: "unat v < 64 \<Longrightarrow> enc v \<noteq> 0"
proof
  assume v: "unat v < 64" and "enc v = 0"
  then have "dtable ! unat (enc v) = 0x80" using dtable_pad(2) by simp
  then show False using enc_dec(1,3) [OF v] by simp
qed

lemma encoding_no_NUL: "0 \<notin> set (encoding src)"
proof (induction src rule: encoding.induct)
  case (4 a b c r)
  then show ?case
    using sextet_not_NUL [OF sextets_less(1) [of a]] sextet_not_NUL [OF sextets_less(2) [of a b]]
      sextet_not_NUL [OF sextets_less(3) [of b c]] sextet_not_NUL [OF sextets_less(4) [of c]] by auto
next
  case (2 a)
  then show ?case using sextet_not_NUL [OF sextets_less(1) [of a]] sextet_not_NUL [OF sextets_less(5) [of a]] by (auto simp: PAD_def)
next
  case (3 a b)
  then show ?case
    using sextet_not_NUL [OF sextets_less(1) [of a]] sextet_not_NUL [OF sextets_less(2) [of a b]]
      sextet_not_NUL [OF sextets_less(6) [of b]] by (auto simp: PAD_def)
qed simp

lemma lua_encoding:
  assumes "length src < 2 ^ 62"
  shows "lua_base64_encode src = Some (encoding src)"
proof -
  obtain z where "base64_encode src = Some (encoding src @ 0 # z, length (encoding src))"
    using base64_encode_is [OF assms] by blast
  moreover have "takeWhile (\<lambda>c. c \<noteq> 0) (encoding src @ 0 # z) = encoding src"
    using encoding_no_NUL [of src] by (subst takeWhile_append2) auto
  ultimately show ?thesis by (simp add: lua_base64_encode_def)
qed

lemma fips_digest_length: "length (fips_digest (ctx_h SHA256_Init) 8 msg) = 32"
proof -
  have "length (ctx_h SHA256_Init) = 8" by (simp add: SHA256_Init_def)
  then have "length (fips_blocks (length (md_pad msg) div 64) (ctx_h SHA256_Init) (md_pad msg)) = 8"
    using sha_blocks_fips by simp
  moreover have "length (concat (List.map HOST_l2c xs)) = 4 * length xs" for xs by (induction xs) (simp_all add: HOST_l2c_def)
  ultimately show ?thesis by (simp add: fips_digest_def)
qed

text \<open>
  The script function \<open>sha256\<close> returns 44 characters of Base64 text, and decoding that text
  gives exactly the 32 bytes of the FIPS 180-2 digest of the string.
\<close>

theorem lua_sha256_text:
  assumes "0 \<notin> set str"
  shows "\<exists>t dec. lua_sha256 str = Some t \<and> length t = 44 \<and> base64_decode (t @ [0]) = Some (Some (dec, 32)) \<and>
    take 32 dec = fips_digest (ctx_h SHA256_Init) 8 str"
proof -
  let ?d = "fips_digest (ctx_h SHA256_Init) 8 str"
  have str: "takeWhile (\<lambda>c. c \<noteq> 0) str = str" using assms by (auto simp: takeWhile_eq_all_conv)
  have "lua_sha256 str = Some (encoding ?d)"
    using sha_digests [of str] lua_encoding [of ?d] unfolding lua_sha256_def str by (simp add: fips_digest_length)
  moreover have "length (encoding ?d) = 44" by (simp add: encoding_length fips_digest_length)
  moreover have "?d \<noteq> []" using fips_digest_length [of str] by auto
  ultimately show ?thesis using decode_of_encoding [of ?d] by (simp add: fips_digest_length)
qed

theorem lua_sha256_text_witness:
  "\<exists>t dec. lua_sha256 [97, 98, 99] = Some t \<and> length t = 44 \<and> base64_decode (t @ [0]) = Some (Some (dec, 32)) \<and>
    take 32 dec = fips_digest (ctx_h SHA256_Init) 8 [97, 98, 99]"
  by (rule lua_sha256_text) simp

text \<open>Each wait of \<open>sleep\<close> is at most 100 ms, and positive when the time asked for is below 2^31.\<close>

lemma sleep_waits:
  "sleep_loop msec diff exit obs = Some ws \<Longrightarrow> 0 \<le> diff \<Longrightarrow> msec < 2147483648 \<Longrightarrow> \<forall>w \<in> set ws. 0 < w \<and> w \<le> 100"
proof (induction msec diff exit obs arbitrary: ws rule: sleep_loop.induct)
  case (1 msec diff exit obs)
  show ?case
  proof (cases "\<not> exit \<and> diff < msec")
    case True
    have d: "to_s32 (msec - diff) = msec - diff" using True 1(3,4) by (intro to_s32_id) auto
    obtain now exit' obs' where obs: "obs = (now, exit') # obs'" using 1(2) True by (cases obs) (auto simp: Let_def)
    then obtain ws' where ws: "sleep_loop msec (to_u32 now) exit' obs' = Some ws'" "ws = (if msec - diff > 100 then 100 else msec - diff) # ws'"
      using 1(2) True d by (auto simp: Let_def)
    have "0 \<le> to_u32 now" by (simp add: to_u32_def)
    then have "\<forall>w \<in> set ws'. 0 < w \<and> w \<le> 100"
      using 1(1) [OF True refl refl obs refl] ws(1) 1(4) by blast
    then show ?thesis using ws(2) True by auto
  next
    case False
    then show ?thesis using 1(2) by auto
  qed
qed

end
