(* ===== verification/Circ_Buf.thy ===== *)
theory Circ_Buf
  imports Prelude
begin

text \<open>
  The circular sample buffer \<open>pjmedia_circ_buf\<close> (3rdparty/pjproject/pjmedia/include/pjmedia/circbuf.h)
  that decouples the sound device from the threads that process its frames, and the contract of a
  sample queue it is shown to meet. A pointer is an offset, and None is an access outside the
  buffer.
\<close>

section \<open>The buffer\<close>

record cbuf =
  cb_buf :: "int list"
  cb_capacity :: nat
  cb_start :: nat
  cb_len :: nat

definition circ_buf_create :: "nat \<Rightarrow> cbuf" where
  "circ_buf_create capacity = \<lparr>cb_buf = replicate capacity 0, cb_capacity = capacity, cb_start = 0, cb_len = 0\<rparr>"

definition circ_buf_reset :: "cbuf \<Rightarrow> cbuf" where
  "circ_buf_reset cb = cb\<lparr>cb_start := 0, cb_len := 0\<rparr>"

definition circ_buf_get_len :: "cbuf \<Rightarrow> nat" where
  "circ_buf_get_len cb = cb_len cb"

definition circ_buf_adv_read_ptr :: "cbuf \<Rightarrow> nat \<Rightarrow> cbuf" where
  "circ_buf_adv_read_ptr cb count =
     (if cb_len cb \<le> count then circ_buf_reset cb
      else
        (let start = cb_start cb + count;
             start = (if cb_capacity cb \<le> start then start - cb_capacity cb else start)
         in cb\<lparr>cb_start := start, cb_len := cb_len cb - count\<rparr>))"

text \<open>\<open>PJ_ETOOBIG\<close> is False.\<close>

definition circ_buf_adv_write_ptr :: "cbuf \<Rightarrow> nat \<Rightarrow> cbuf \<times> bool" where
  "circ_buf_adv_write_ptr cb count =
     (if cb_capacity cb < count + cb_len cb then (cb, False) else (cb\<lparr>cb_len := cb_len cb + count\<rparr>, True))"

text \<open>The two regions as offset and length; there is no second one when its length is 0.\<close>

definition circ_buf_get_read_regions :: "cbuf \<Rightarrow> nat \<times> nat \<times> nat \<times> nat" where
  "circ_buf_get_read_regions cb =
     (if cb_capacity cb < cb_start cb + cb_len cb then
        (cb_start cb, cb_capacity cb - cb_start cb, 0, cb_len cb - (cb_capacity cb - cb_start cb))
      else (cb_start cb, cb_len cb, 0, 0))"

definition circ_buf_get_write_regions :: "cbuf \<Rightarrow> nat \<times> nat \<times> nat \<times> nat" where
  "circ_buf_get_write_regions cb =
     (let reg1 = cb_start cb + cb_len cb;
          reg1 = (if cb_capacity cb \<le> reg1 then reg1 - cb_capacity cb else reg1);
          reg1_len = cb_capacity cb - cb_len cb
      in if cb_capacity cb < reg1 + reg1_len then (reg1, cb_capacity cb - reg1, 0, cb_start cb)
         else (reg1, reg1_len, 0, 0))"

text \<open>The samples read, or None inside for \<open>PJ_ETOOBIG\<close>.\<close>

definition circ_buf_read :: "cbuf \<Rightarrow> nat \<Rightarrow> (cbuf \<times> int list option) option" where
  "circ_buf_read cb count =
     (if cb_len cb < count then Some (cb, None)
      else
        (let (reg1, reg1cnt, reg2, reg2cnt) = circ_buf_get_read_regions cb
         in do {
              data \<leftarrow> (if count \<le> reg1cnt then mem_read (cb_buf cb) reg1 count
                       else do {
                         a \<leftarrow> mem_read (cb_buf cb) reg1 reg1cnt;
                         b \<leftarrow> mem_read (cb_buf cb) reg2 (count - reg1cnt);
                         Some (a @ b)
                       });
              Some (circ_buf_adv_read_ptr cb count, Some data)
            }))"

definition circ_buf_write :: "cbuf \<Rightarrow> int list \<Rightarrow> (cbuf \<times> bool) option" where
  "circ_buf_write cb data =
     (let count = length data
      in if cb_capacity cb - cb_len cb < count then Some (cb, False)
         else
           (let (reg1, reg1cnt, reg2, reg2cnt) = circ_buf_get_write_regions cb
            in do {
                 buf \<leftarrow> (if count \<le> reg1cnt then mem_write (cb_buf cb) reg1 data
                         else do {
                           buf \<leftarrow> mem_write (cb_buf cb) reg1 (take reg1cnt data);
                           mem_write buf reg2 (drop reg1cnt data)
                         });
                 Some (circ_buf_adv_write_ptr (cb\<lparr>cb_buf := buf\<rparr>) count)
               }))"

section \<open>The contract of a sample queue\<close>

locale sample_queue =
  fixes wr :: "'q \<Rightarrow> int list \<Rightarrow> ('q \<times> bool) option"
    and rd :: "'q \<Rightarrow> nat \<Rightarrow> ('q \<times> int list option) option"
    and len :: "'q \<Rightarrow> nat"
    and ok :: "'q \<Rightarrow> bool"
    and contents :: "'q \<Rightarrow> int list"
    and room :: "'q \<Rightarrow> nat"
  assumes len: "ok q \<Longrightarrow> len q = length (contents q)"
    and wr: "ok q \<Longrightarrow> \<exists>q'. wr q xs = Some (q', length xs \<le> room q) \<and> ok q' \<and>
      contents q' = (if length xs \<le> room q then contents q @ xs else contents q)"
    and rd: "ok q \<Longrightarrow> n \<le> length (contents q) \<Longrightarrow> \<exists>q'. rd q n = Some (q', Some (take n (contents q))) \<and> ok q' \<and>
      contents q' = drop n (contents q)"
begin

text \<open>A thread takes a frame of \<open>n\<close> samples as soon as there is one.\<close>

lemma take_round:
  assumes "ok q"
  shows "\<exists>q'. (if n \<le> len q then rd q n else Some (q, None)) =
      Some (q', if n \<le> length (contents q) then Some (take n (contents q)) else None) \<and> ok q' \<and>
      contents q' = (if n \<le> length (contents q) then drop n (contents q) else contents q)"
  using rd [OF assms, of n] len [OF assms] assms by auto

end

section \<open>The buffer is a queue\<close>

definition cb_ok :: "cbuf \<Rightarrow> bool" where
  "cb_ok cb \<longleftrightarrow> length (cb_buf cb) = cb_capacity cb \<and> cb_len cb \<le> cb_capacity cb \<and> 0 < cb_capacity cb \<and>
     cb_start cb < cb_capacity cb"

text \<open>The samples in order: from the start to the end of the block, and on from its beginning.\<close>

definition cb_contents :: "cbuf \<Rightarrow> int list" where
  "cb_contents cb = take (cb_len cb) (drop (cb_start cb) (cb_buf cb) @ cb_buf cb)"

definition cb_room :: "cbuf \<Rightarrow> nat" where
  "cb_room cb = cb_capacity cb - cb_len cb"

lemma cb_contents_length: "cb_ok cb \<Longrightarrow> length (cb_contents cb) = cb_len cb"
  by (auto simp: cb_contents_def cb_ok_def)

text \<open>Reading \<open>n\<close> samples of the ring from \<open>start\<close>.\<close>

definition ring :: "int list \<Rightarrow> nat \<Rightarrow> nat \<Rightarrow> int list" where
  "ring buf start n = List.map (\<lambda>i. buf ! ((start + i) mod length buf)) [0..<n]"

lemma ring_take:
  assumes "start < length buf" "n \<le> length buf"
  shows "take n (drop start buf @ buf) = ring buf start n"
proof (rule nth_equalityI)
  fix i assume "i < length (take n (drop start buf @ buf))"
  then have i: "i < n" by simp
  have "(start + i) mod length buf = (if start + i < length buf then start + i else start + i - length buf)"
    using assms i by (simp add: mod_if)
  then show "take n (drop start buf @ buf) ! i = ring buf start n ! i"
    using assms i by (auto simp: ring_def nth_append less_diff_conv add.commute)
qed (use assms in \<open>simp add: ring_def\<close>)

lemma cb_contents_ring: "cb_ok cb \<Longrightarrow> cb_contents cb = ring (cb_buf cb) (cb_start cb) (cb_len cb)"
  unfolding cb_contents_def cb_ok_def by (intro ring_take) simp_all

lemma ring_drop:
  assumes "0 < length buf" "n \<le> k"
  shows "drop n (ring buf start k) = ring buf ((start + n) mod length buf) (k - n)"
  by (rule nth_equalityI) (use assms in \<open>auto simp: ring_def add.assoc mod_add_left_eq\<close>)

lemma circ_read_ok:
  assumes ok: "cb_ok cb" and n: "n \<le> cb_len cb"
  shows "\<exists>cb'. circ_buf_read cb n = Some (cb', Some (take n (cb_contents cb))) \<and> cb_ok cb' \<and>
    cb_contents cb' = drop n (cb_contents cb)"
proof -
  let ?cap = "cb_capacity cb" and ?s = "cb_start cb"
  have wf: "length (cb_buf cb) = ?cap" "cb_len cb \<le> ?cap" "?s < ?cap" using ok by (simp_all add: cb_ok_def)
  have t: "take n (cb_contents cb) = take n (drop ?s (cb_buf cb) @ cb_buf cb)"
    unfolding cb_contents_def take_take using n by (simp only: min_absorb1)
  have read: "circ_buf_read cb n = Some (circ_buf_adv_read_ptr cb n, Some (take n (cb_contents cb)))"
  proof (cases "?cap < ?s + cb_len cb")
    case wrap: True
    show ?thesis
    proof (cases "n \<le> ?cap - ?s")
      case True
      then show ?thesis using wf wrap n t by (simp add: circ_buf_read_def circ_buf_get_read_regions_def mem_read_def)
    next
      case False
      then show ?thesis using wf wrap n t by (simp add: circ_buf_read_def circ_buf_get_read_regions_def mem_read_def)
    qed
  next
    case False
    then show ?thesis using wf n t by (simp add: circ_buf_read_def circ_buf_get_read_regions_def mem_read_def)
  qed
  have "cb_ok (circ_buf_adv_read_ptr cb n) \<and> cb_contents (circ_buf_adv_read_ptr cb n) = drop n (cb_contents cb)"
  proof (cases "cb_len cb \<le> n")
    case True
    then show ?thesis
      using ok n cb_contents_length [OF ok] by (auto simp: circ_buf_adv_read_ptr_def circ_buf_reset_def cb_ok_def cb_contents_def)
  next
    case False
    have m: "(if ?cap \<le> ?s + n then ?s + n - ?cap else ?s + n) = (?s + n) mod ?cap"
      using wf n by (simp add: mod_if)
    let ?cb = "circ_buf_adv_read_ptr cb n"
    have cb: "?cb = cb\<lparr>cb_start := (?s + n) mod ?cap, cb_len := cb_len cb - n\<rparr>"
      using False m by (simp add: circ_buf_adv_read_ptr_def Let_def)
    have ok': "cb_ok ?cb" using ok unfolding cb by (auto simp: cb_ok_def)
    show ?thesis
      using ok' wf n ring_drop [of "cb_buf cb" n "cb_len cb" ?s] ok
      unfolding cb_contents_ring [OF ok'] cb_contents_ring [OF ok] unfolding cb by (auto simp: cb_ok_def)
  qed
  with read show ?thesis by blast
qed

text \<open>What a write does to the block: \<open>data\<close> from \<open>w\<close> on, around the end.\<close>

definition ring_written :: "int list \<Rightarrow> nat \<Rightarrow> int list \<Rightarrow> int list \<Rightarrow> bool" where
  "ring_written buf w data buf' \<longleftrightarrow> length buf' = length buf \<and>
     (\<forall>j < length data. buf' ! ((w + j) mod length buf) = data ! j) \<and>
     (\<forall>k < length buf. (\<forall>j < length data. k \<noteq> (w + j) mod length buf) \<longrightarrow> buf' ! k = buf ! k)"

lemma write_once:
  assumes "w + length data \<le> length buf" "w < length buf"
  shows "\<exists>buf'. mem_write buf w data = Some buf' \<and> ring_written buf w data buf'"
proof -
  let ?b = "take w buf @ data @ drop (w + length data) buf"
  have "(w + j) mod length buf = w + j" if "j < length data" for j using that assms by simp
  moreover have "?b ! k = buf ! k" if "k < length buf" "\<forall>j < length data. k \<noteq> w + j" for k
  proof (cases "k < w")
    case False
    then have "w + length data \<le> k" using that(2) by (metis add_diff_inverse_nat add_less_cancel_left not_less)
    then obtain m where "k = w + (length data + m)" using le_Suc_ex by (metis add.assoc)
    then show ?thesis using that(1) assms by (simp add: nth_append add.assoc)
  qed (use assms in \<open>simp add: nth_append\<close>)
  ultimately have "ring_written buf w data ?b"
    using assms by (auto simp: ring_written_def nth_append)
  then show ?thesis using assms by (simp add: mem_write_def)
qed

lemma nth_over_drop: "k \<le> i \<Longrightarrow> i < length xs \<Longrightarrow> length ys = k \<Longrightarrow> (ys @ drop k xs) ! i = xs ! i"
  by (simp add: nth_append)

lemma write_twice:
  assumes w: "w < length buf" and r: "r = length buf - w" "r < length data" and fits: "length data - r \<le> w"
  shows "\<exists>b1 buf'. mem_write buf w (take r data) = Some b1 \<and> mem_write b1 0 (drop r data) = Some buf' \<and> ring_written buf w data buf'"
proof -
  let ?b1 = "take w buf @ take r data"
  let ?b2 = "drop r data @ drop (length data - r) ?b1"
  have one: "mem_write buf w (take r data) = Some ?b1" using w r by (simp add: mem_write_def)
  have l1: "length ?b1 = length buf" using w r by simp
  have two: "mem_write ?b1 0 (drop r data) = Some ?b2" using w r fits by (simp add: mem_write_def)
  have l2: "length ?b2 = length buf" using w r fits by simp
  have new: "?b2 ! ((w + j) mod length buf) = data ! j" if j: "j < length data" for j
  proof (cases "j < r")
    case True
    then have m: "(w + j) mod length buf = w + j" using w r by simp
    have "w + j < length ?b1" unfolding l1 using True r w by linarith
    then have "?b2 ! (w + j) = ?b1 ! (w + j)" using fits by (intro nth_over_drop) simp_all
    also have "\<dots> = data ! j" using True w by (simp add: nth_append)
    finally show ?thesis unfolding m .
  next
    case False
    have "w + j - length buf < length buf" using j fits r w by linarith
    moreover have "w + j = (j - r) + length buf" using False w r by linarith
    ultimately have m: "(w + j) mod length buf = j - r" by simp
    have "j - r < length (drop r data)" using False j by simp
    then have "?b2 ! (j - r) = drop r data ! (j - r)" by (simp only: nth_append if_True)
    then show ?thesis unfolding m using False j by simp
  qed
  have old: "?b2 ! k = buf ! k" if k: "k < length buf" "\<forall>j < length data. k \<noteq> (w + j) mod length buf" for k
  proof -
    have "k < w"
    proof (rule ccontr)
      assume "\<not> k < w"
      then have "k - w < length data" "(w + (k - w)) mod length buf = k" using k(1) r by simp_all
      then show False using k(2) by metis
    qed
    moreover have "length data - r \<le> k"
    proof (rule ccontr)
      assume c: "\<not> length data - r \<le> k"
      have "(w + (k + r)) mod length buf = (k + length buf) mod length buf" using r w by (simp add: add.commute)
      then have "(w + (k + r)) mod length buf = k" using k(1) by simp
      moreover have "k + r < length data" using c r(2) by linarith
      ultimately show False using k(2) by metis
    qed
    ultimately have "?b2 ! k = ?b1 ! k" using k(1) by (intro nth_over_drop) (simp_all only: l1 length_drop)
    then show ?thesis using \<open>k < w\<close> w by (simp add: nth_append)
  qed
  have "ring_written buf w data ?b2" using l2 new old by (simp only: ring_written_def) blast
  then show ?thesis using one two by blast
qed

lemma mod_inj:
  assumes "i < (cap :: nat)" "j < cap" "(s + i) mod cap = (s + j) mod cap"
  shows "i = j"
proof -
  have *: "a = b" if "a \<le> b" "b < cap" "(s + b) mod cap = (s + a) mod cap" for a b
  proof -
    have "cap dvd (s + b) - (s + a)" using that by (intro mod_eq_dvd_iff_nat [THEN iffD1]) auto
    then have "cap dvd b - a" by simp
    then show ?thesis using that(1,2) dvd_imp_le [of cap "b - a"] by (cases "b - a = 0") auto
  qed
  show ?thesis using * [of i j] * [of j i] assms by (cases "i \<le> j") auto
qed

lemma ring_after_write:
  assumes "ring_written buf ((s + n) mod length buf) data buf'" "n + length data \<le> length buf"
  shows "ring buf' s (n + length data) = ring buf s n @ data"
proof (rule nth_equalityI)
  have len: "length buf' = length buf" using assms(1) by (simp add: ring_written_def)
  fix i assume "i < length (ring buf' s (n + length data))"
  then have i: "i < n + length data" by (simp add: ring_def)
  show "ring buf' s (n + length data) ! i = (ring buf s n @ data) ! i"
  proof (cases "i < n")
    case True
    have "(s + i) mod length buf \<noteq> ((s + n) mod length buf + j) mod length buf" if "j < length data" for j
    proof
      assume "(s + i) mod length buf = ((s + n) mod length buf + j) mod length buf"
      then have "(s + i) mod length buf = (s + (n + j)) mod length buf" by (simp add: mod_add_left_eq add.assoc)
      then have "i = n + j" using mod_inj [of i "length buf" "n + j" s] True that assms(2) by simp
      then show False using True by simp
    qed
    moreover have "(s + i) mod length buf < length buf" using assms(2) i by (intro mod_less_divisor) auto
    ultimately have "buf' ! ((s + i) mod length buf) = buf ! ((s + i) mod length buf)"
      using assms(1) by (simp add: ring_written_def)
    then show ?thesis using True len by (simp add: ring_def nth_append)
  next
    case False
    then have "i - n < length data" using i by simp
    then have "buf' ! (((s + n) mod length buf + (i - n)) mod length buf) = data ! (i - n)"
      using assms(1) unfolding ring_written_def by blast
    moreover have "((s + n) mod length buf + (i - n)) mod length buf = (s + n + (i - n)) mod length buf" by (rule mod_add_left_eq)
    ultimately have "buf' ! ((s + i) mod length buf) = data ! (i - n)" using False by simp
    then show ?thesis using False i len by (simp add: ring_def nth_append)
  qed
qed (simp add: ring_def)

lemma circ_write_ok:
  assumes ok: "cb_ok cb"
  shows "\<exists>cb'. circ_buf_write cb data = Some (cb', length data \<le> cb_room cb) \<and> cb_ok cb' \<and>
    cb_contents cb' = (if length data \<le> cb_room cb then cb_contents cb @ data else cb_contents cb)"
proof (cases "length data \<le> cb_room cb")
  case fits: True
  let ?cap = "cb_capacity cb" and ?s = "cb_start cb" and ?n = "cb_len cb"
  let ?w = "(?s + ?n) mod ?cap"
  have wf: "length (cb_buf cb) = ?cap" "?n \<le> ?cap" "?s < ?cap" "0 < ?cap" using ok by (simp_all add: cb_ok_def)
  have room: "length data \<le> ?cap - ?n" using fits by (simp add: cb_room_def)
  have w: "(if ?cap \<le> ?s + ?n then ?s + ?n - ?cap else ?s + ?n) = ?w" using wf by (simp add: mod_if)
  have wl: "?w < ?cap" using wf by simp
  obtain r1 r2 rs where regs: "circ_buf_get_write_regions cb = (?w, r1, 0, rs)"
    "r1 = (if ?cap < ?w + (?cap - ?n) then ?cap - ?w else ?cap - ?n)"
    using w by (cases "?cap < ?w + (?cap - ?n)") (simp_all add: circ_buf_get_write_regions_def Let_def)
  have "\<exists>buf'. (if length data \<le> r1 then mem_write (cb_buf cb) ?w data
      else do { buf \<leftarrow> mem_write (cb_buf cb) ?w (take r1 data); mem_write buf 0 (drop r1 data) }) = Some buf' \<and>
      ring_written (cb_buf cb) ?w data buf'"
  proof (cases "length data \<le> r1")
    case True
    have "?w + r1 \<le> ?cap" using regs(2) wl by (auto split: if_splits)
    then have "?w + length data \<le> length (cb_buf cb)" using True wf(1) by simp
    then show ?thesis using write_once [of ?w data "cb_buf cb"] True wl wf(1) by auto
  next
    case False
    then have r1: "r1 = ?cap - ?w" using regs(2) room by (auto split: if_splits)
    have "?w = ?s + ?n"
    proof (rule ccontr)
      assume "?w \<noteq> ?s + ?n"
      then have "?w = ?s + ?n - ?cap" "?cap \<le> ?s + ?n" using w by (auto split: if_splits)
      then show False using False room r1 wf by linarith
    qed
    then have "length data - r1 \<le> ?w" using room r1 wl by linarith
    then show ?thesis
      using write_twice [of ?w "cb_buf cb" r1 data] False r1 wl wf(1) by auto
  qed
  then obtain buf' where buf': "(if length data \<le> r1 then mem_write (cb_buf cb) ?w data
      else do { buf \<leftarrow> mem_write (cb_buf cb) ?w (take r1 data); mem_write buf 0 (drop r1 data) }) = Some buf'"
    "ring_written (cb_buf cb) ?w data buf'" by blast
  let ?cb = "cb\<lparr>cb_buf := buf', cb_len := ?n + length data\<rparr>"
  have run: "circ_buf_write cb data = Some (?cb, True)"
    using buf'(1) regs(1) room wf(2) by (simp add: circ_buf_write_def circ_buf_adv_write_ptr_def Let_def)
  have ok': "cb_ok ?cb" using ok buf'(2) room by (auto simp: cb_ok_def ring_written_def)
  have "ring buf' ?s (?n + length data) = ring (cb_buf cb) ?s ?n @ data"
    using buf'(2) room wf by (intro ring_after_write) simp_all
  then have "cb_contents ?cb = cb_contents cb @ data"
    unfolding cb_contents_ring [OF ok'] cb_contents_ring [OF ok] by simp
  then show ?thesis using run ok' fits by simp
next
  case False
  then show ?thesis using ok by (simp add: circ_buf_write_def cb_room_def)
qed

interpretation cb: sample_queue circ_buf_write circ_buf_read circ_buf_get_len cb_ok cb_contents cb_room
proof
  fix q n
  assume "cb_ok q"
  then show "circ_buf_get_len q = length (cb_contents q)" by (simp add: circ_buf_get_len_def cb_contents_length)
next
  fix q xs
  assume "cb_ok q"
  then show "\<exists>q'. circ_buf_write q xs = Some (q', length xs \<le> cb_room q) \<and> cb_ok q' \<and>
      cb_contents q' = (if length xs \<le> cb_room q then cb_contents q @ xs else cb_contents q)" by (rule circ_write_ok)
next
  fix q n
  assume "cb_ok q" "n \<le> length (cb_contents q)"
  then show "\<exists>q'. circ_buf_read q n = Some (q', Some (take n (cb_contents q))) \<and> cb_ok q' \<and> cb_contents q' = drop n (cb_contents q)"
    by (intro circ_read_ok) (simp_all add: cb_contents_length)
qed

lemma circ_buf_create_ok: "0 < n \<Longrightarrow> cb_ok (circ_buf_create n)" "cb_contents (circ_buf_create n) = []"
  by (simp_all add: cb_ok_def circ_buf_create_def cb_contents_def)

end
