(* ===== verification/Ulaw.thy ===== *)
theory Ulaw
  imports Prelude
begin

text \<open>
  The mu-law encoding of the audio client: its table of 16384 codes, kept as its runs of equal
  codes (audio_client/alaw_ulaw_table.c), and the encoder of pjmedia that computes a code
  (3rdparty/pjproject/pjmedia/src/pjmedia/alaw_ulaw.c). The table is the encoder applied to the
  sample without its two lowest bits.
\<close>

section \<open>The table\<close>

text \<open>\<open>k\<close> codes from \<open>c\<close> down, or up, each \<open>n\<close> times.\<close>

definition codes_down :: "int \<Rightarrow> nat \<Rightarrow> nat \<Rightarrow> int list" where
  "codes_down c k n = concat (List.map (\<lambda>i. replicate n (c - int i)) [0..<k])"

definition codes_up :: "int \<Rightarrow> nat \<Rightarrow> nat \<Rightarrow> int list" where
  "codes_up c k n = concat (List.map (\<lambda>i. replicate n (c + int i)) [0..<k])"

definition ulaw_runs :: "int list list" where
  "ulaw_runs =
     [codes_down 0xff 1 1, codes_down 0xfe 15 2, codes_down 0xef 16 4, codes_down 0xdf 16 8, codes_down 0xcf 16 16,
      codes_down 0xbf 16 32, codes_down 0xaf 16 64, codes_down 0x9f 16 128, codes_down 0x8f 15 256,
      codes_down 0x80 1 289, codes_up 0x00 1 290,
      codes_up 0x01 15 256, codes_up 0x10 16 128, codes_up 0x20 16 64, codes_up 0x30 16 32, codes_up 0x40 16 16,
      codes_up 0x50 16 8, codes_up 0x60 16 4, codes_up 0x70 15 2]"

definition linear2ulaw_tab :: "int list" where
  "linear2ulaw_tab = concat ulaw_runs"

text \<open>The macro \<open>pjmedia_linear2ulaw\<close> of the client; a sample is a \<open>short\<close>.\<close>

definition client_linear2ulaw :: "int \<Rightarrow> int option" where
  "client_linear2ulaw pcm_val = mem_get linear2ulaw_tab (nat (drop_bit 2 (to_s16 pcm_val) AND 0x3fff))"

section \<open>The encoder\<close>

definition seg_end :: "int list" where
  "seg_end = [0xFF, 0x1FF, 0x3FF, 0x7FF, 0xFFF, 0x1FFF, 0x3FFF, 0x7FFF]"

fun search :: "int \<Rightarrow> int list \<Rightarrow> nat \<Rightarrow> nat" where
  "search val [] i = i"
| "search val (e # es) i = (if val \<le> e then i else search val es (i + 1))"

definition pj_linear2ulaw :: "int \<Rightarrow> int" where
  "pj_linear2ulaw pcm_val =
     (let (v, mask1) = (if pcm_val < 0 then (0x84 - pcm_val, 0x7F) else (pcm_val + 0x84, 0xFF));
          seg = search v seg_end 0
      in if 8 \<le> seg then 0x7F XOR mask1
         else to_u8 (push_bit 4 (int seg) OR (drop_bit (seg + 3) v AND 0xF)) XOR mask1)"

section \<open>Codes of the table\<close>

lemma concat_replicate_nth:
  "0 < n \<Longrightarrow> j < k * n \<Longrightarrow> concat (List.map (\<lambda>i. replicate n (f i)) [0..<k]) ! j = f (j div n)"
proof (induction k)
  case (Suc k)
  have l: "length (concat (List.map (\<lambda>i. replicate n (f i)) [0..<k])) = k * n"
    by (induction k) auto
  show ?case
  proof (cases "j < k * n")
    case True
    then show ?thesis using Suc l by (simp add: nth_append)
  next
    case False
    then have "j div n = k" using Suc.prems by (intro div_nat_eqI) (auto simp: algebra_simps)
    moreover have "j - k * n < n" using Suc.prems False by auto
    ultimately show ?thesis using False l by (simp add: nth_append)
  qed
qed simp

lemma codes_length [simp]: "length (codes_down c k n) = k * n" "length (codes_up c k n) = k * n"
  unfolding codes_down_def codes_up_def by (induction k) auto

lemma codes_nth:
  "0 < n \<Longrightarrow> j < k * n \<Longrightarrow> codes_down c k n ! j = c - int (j div n)"
  "0 < n \<Longrightarrow> j < k * n \<Longrightarrow> codes_up c k n ! j = c + int (j div n)"
  unfolding codes_down_def codes_up_def by (simp_all add: concat_replicate_nth)

lemma tab_length: "length linear2ulaw_tab = 16384"
  by (simp add: linear2ulaw_tab_def ulaw_runs_def)

text \<open>The code at place \<open>j\<close> of run \<open>k\<close>.\<close>

lemma nth_concat:
  "k < length xss \<Longrightarrow> j < length (xss ! k) \<Longrightarrow>
   concat xss ! (sum_list (List.map length (take k xss)) + j) = xss ! k ! j"
proof (induction xss arbitrary: k)
  case (Cons xs xss)
  then show ?case by (cases k) (auto simp: nth_append)
qed simp

lemma runs_length: "length ulaw_runs = 19"
  by (simp add: ulaw_runs_def)

lemma tab_run:
  assumes "k < 19" "j < length (ulaw_runs ! k)" "i = sum_list (List.map length (take k ulaw_runs)) + j"
  shows "linear2ulaw_tab ! i = ulaw_runs ! k ! j"
  unfolding linear2ulaw_tab_def assms(3) using assms(1,2) by (intro nth_concat) (simp_all add: runs_length)

text \<open>
  \<open>m\<close> is the biased magnitude of a sample in steps of 4; run \<open>k\<close> begins at \<open>p\<close>.
\<close>

lemma run_down:
  assumes "ulaw_runs ! k = codes_down c l n" "k < 19" "p = sum_list (List.map length (take k ulaw_runs))"
    and "p \<le> i" "i < p + l * n" "0 < n" and "P = int p" "N = int n"
  shows "linear2ulaw_tab ! i = c - (int i - P) div N"
proof -
  obtain j where j: "i = p + j" using assms(4) le_Suc_ex by blast
  have "linear2ulaw_tab ! i = codes_down c l n ! j"
    using tab_run [of k j i] assms j by simp
  then show ?thesis using codes_nth(1) [of n j l c] assms(5-) j by (simp add: zdiv_int)
qed

lemma run_up:
  assumes "ulaw_runs ! k = codes_up c l n" "k < 19" "p = sum_list (List.map length (take k ulaw_runs))"
    and "p \<le> i" "i < p + l * n" "0 < n" and "P = int p" "N = int n"
  shows "linear2ulaw_tab ! i = c + (int i - P) div N"
proof -
  obtain j where j: "i = p + j" using assms(4) le_Suc_ex by blast
  have "linear2ulaw_tab ! i = codes_up c l n ! j"
    using tab_run [of k j i] assms j by simp
  then show ?thesis using codes_nth(2) [of n j l c] assms(5-) j by (simp add: zdiv_int)
qed

text \<open>Where the runs begin.\<close>

lemma tab_down:
  "1 \<le> i \<Longrightarrow> i < 31 \<Longrightarrow> linear2ulaw_tab ! i = 254 - (int i - 1) div 2"
  "31 \<le> i \<Longrightarrow> i < 95 \<Longrightarrow> linear2ulaw_tab ! i = 239 - (int i - 31) div 4"
  "95 \<le> i \<Longrightarrow> i < 223 \<Longrightarrow> linear2ulaw_tab ! i = 223 - (int i - 95) div 8"
  "223 \<le> i \<Longrightarrow> i < 479 \<Longrightarrow> linear2ulaw_tab ! i = 207 - (int i - 223) div 16"
  "479 \<le> i \<Longrightarrow> i < 991 \<Longrightarrow> linear2ulaw_tab ! i = 191 - (int i - 479) div 32"
  "991 \<le> i \<Longrightarrow> i < 2015 \<Longrightarrow> linear2ulaw_tab ! i = 175 - (int i - 991) div 64"
  "2015 \<le> i \<Longrightarrow> i < 4063 \<Longrightarrow> linear2ulaw_tab ! i = 159 - (int i - 2015) div 128"
  "4063 \<le> i \<Longrightarrow> i < 7903 \<Longrightarrow> linear2ulaw_tab ! i = 143 - (int i - 4063) div 256"
  subgoal by (rule run_down [where k = 1 and l = 15 and n = 2 and p = 1]) (simp_all add: ulaw_runs_def)
  subgoal by (rule run_down [where k = 2 and l = 16 and n = 4 and p = 31]) (simp_all add: ulaw_runs_def)
  subgoal by (rule run_down [where k = 3 and l = 16 and n = 8 and p = 95]) (simp_all add: ulaw_runs_def)
  subgoal by (rule run_down [where k = 4 and l = 16 and n = 16 and p = 223]) (simp_all add: ulaw_runs_def)
  subgoal by (rule run_down [where k = 5 and l = 16 and n = 32 and p = 479]) (simp_all add: ulaw_runs_def)
  subgoal by (rule run_down [where k = 6 and l = 16 and n = 64 and p = 991]) (simp_all add: ulaw_runs_def)
  subgoal by (rule run_down [where k = 7 and l = 16 and n = 128 and p = 2015]) (simp_all add: ulaw_runs_def)
  subgoal by (rule run_down [where k = 8 and l = 15 and n = 256 and p = 4063]) (simp_all add: ulaw_runs_def)
  done

lemma tab_up:
  "8482 \<le> i \<Longrightarrow> i < 12322 \<Longrightarrow> linear2ulaw_tab ! i = 1 + (int i - 8482) div 256"
  "12322 \<le> i \<Longrightarrow> i < 14370 \<Longrightarrow> linear2ulaw_tab ! i = 16 + (int i - 12322) div 128"
  "14370 \<le> i \<Longrightarrow> i < 15394 \<Longrightarrow> linear2ulaw_tab ! i = 32 + (int i - 14370) div 64"
  "15394 \<le> i \<Longrightarrow> i < 15906 \<Longrightarrow> linear2ulaw_tab ! i = 48 + (int i - 15394) div 32"
  "15906 \<le> i \<Longrightarrow> i < 16162 \<Longrightarrow> linear2ulaw_tab ! i = 64 + (int i - 15906) div 16"
  "16162 \<le> i \<Longrightarrow> i < 16290 \<Longrightarrow> linear2ulaw_tab ! i = 80 + (int i - 16162) div 8"
  "16290 \<le> i \<Longrightarrow> i < 16354 \<Longrightarrow> linear2ulaw_tab ! i = 96 + (int i - 16290) div 4"
  "16354 \<le> i \<Longrightarrow> i < 16384 \<Longrightarrow> linear2ulaw_tab ! i = 112 + (int i - 16354) div 2"
  subgoal by (rule run_up [where k = 11 and l = 15 and n = 256 and p = 8482]) (simp_all add: ulaw_runs_def)
  subgoal by (rule run_up [where k = 12 and l = 16 and n = 128 and p = 12322]) (simp_all add: ulaw_runs_def)
  subgoal by (rule run_up [where k = 13 and l = 16 and n = 64 and p = 14370]) (simp_all add: ulaw_runs_def)
  subgoal by (rule run_up [where k = 14 and l = 16 and n = 32 and p = 15394]) (simp_all add: ulaw_runs_def)
  subgoal by (rule run_up [where k = 15 and l = 16 and n = 16 and p = 15906]) (simp_all add: ulaw_runs_def)
  subgoal by (rule run_up [where k = 16 and l = 16 and n = 8 and p = 16162]) (simp_all add: ulaw_runs_def)
  subgoal by (rule run_up [where k = 17 and l = 16 and n = 4 and p = 16290]) (simp_all add: ulaw_runs_def)
  subgoal by (rule run_up [where k = 18 and l = 15 and n = 2 and p = 16354]) (simp_all add: ulaw_runs_def)
  done

section \<open>The encoder on the table's samples\<close>

lemma code_bits:
  "\<forall>s \<in> set [0..<8]. \<forall>q \<in> set [0..15]. to_u8 (push_bit 4 (int s) OR q) XOR 0xFF = 255 - (16 * int s + q) \<and>
     to_u8 (push_bit 4 (int s) OR q) XOR 0x7F = 127 - (16 * int s + q)"
  by code_simp

lemma code_xor:
  assumes "s < 8" "0 \<le> q" "q < 16"
  shows "to_u8 (push_bit 4 (int s) OR q) XOR 0xFF = 255 - (16 * int s + q)"
    and "to_u8 (push_bit 4 (int s) OR q) XOR 0x7F = 127 - (16 * int s + q)"
  using code_bits assms by auto

lemma search_seg:
  assumes "s < 8" "s = 0 \<or> 2 ^ (s + 7) \<le> v" "v < 2 ^ (s + 8)"
  shows "search v seg_end 0 = s"
proof -
  consider "s = 0" | "s = 1" | "s = 2" | "s = 3" | "s = 4" | "s = 5" | "s = 6" | "s = 7" using assms(1) by linarith
  then show ?thesis by cases (use assms(2,3) in \<open>simp_all add: seg_end_def\<close>)
qed

lemma div_between:
  fixes v d k :: int
  assumes "0 < d"
  shows "k * d \<le> v \<Longrightarrow> k \<le> v div d" and "v < k * d \<Longrightarrow> v div d < k"
proof -
  assume "k * d \<le> v"
  then have "k * d div d \<le> v div d" using assms by (intro zdiv_mono1)
  then show "k \<le> v div d" using assms by simp
next
  assume v: "v < k * d"
  show "v div d < k"
  proof (rule ccontr)
    assume "\<not> v div d < k"
    then have "k * d \<le> v div d * d" using assms by (intro mult_right_mono) auto
    also have "\<dots> \<le> v" using assms pos_mod_sign [of d v] div_mult_mod_eq [of v d] by linarith
    finally show False using v by simp
  qed
qed

lemma mod_16: "16 \<le> q \<Longrightarrow> q < 32 \<Longrightarrow> q mod 16 = q - 16" for q :: int
  by presburger

text \<open>The magnitude with its bias is \<open>v\<close>.\<close>

lemma pj_segment:
  assumes "s < 8" "2 ^ (s + 7) \<le> v" "v < 2 ^ (s + 8)"
  shows "132 \<le> v \<Longrightarrow> pj_linear2ulaw (v - 132) = 255 - (16 * int s + (v div 2 ^ (s + 3) - 16))"
    and "132 < v \<Longrightarrow> pj_linear2ulaw (132 - v) = 127 - (16 * int s + (v div 2 ^ (s + 3) - 16))"
proof -
  have sr: "search v seg_end 0 = s" using assms by (intro search_seg) auto
  let ?q = "v div 2 ^ (s + 3)"
  have "16 * 2 ^ (s + 3) \<le> v" "v < 32 * 2 ^ (s + 3)" using assms(2,3) by (simp_all add: power_add)
  then have q: "16 \<le> ?q" "?q < 32" by (intro div_between, simp_all)+
  have "drop_bit (s + 3) v AND 0xF = ?q mod 16"
    using take_bit_eq_mask [of 4 "?q"] by (simp add: drop_bit_eq_div take_bit_eq_mod mask_eq_exp_minus_1)
  also have "?q mod 16 = ?q - 16" using q by (rule mod_16)
  finally have n: "drop_bit (s + 3) v AND 0xF = ?q - 16" .
  show "132 \<le> v \<Longrightarrow> pj_linear2ulaw (v - 132) = 255 - (16 * int s + (v div 2 ^ (s + 3) - 16))"
    using sr n assms(1) q code_xor(1) [of s "?q - 16"] by (simp add: pj_linear2ulaw_def)
  show "132 < v \<Longrightarrow> pj_linear2ulaw (132 - v) = 127 - (16 * int s + (v div 2 ^ (s + 3) - 16))"
    using sr n assms(1) q code_xor(2) [of s "?q - 16"] by (simp add: pj_linear2ulaw_def)
qed

lemma pj_clip: "32635 < x \<Longrightarrow> pj_linear2ulaw x = 128" "x < - 32635 \<Longrightarrow> pj_linear2ulaw x = 0"
  by (simp_all add: pj_linear2ulaw_def seg_end_def Let_def)

lemma div_shift: "0 < d \<Longrightarrow> (m - c * d) div d = m div d - c" for d :: int
  using div_mult_self1 [of d m "- c"] by simp

lemma div_four: "4 * m div (4 * d) = m div d" for d :: int
  by simp

text \<open>Counting down rounds up.\<close>

lemma div_flip:
  fixes d :: int
  assumes "0 < d"
  shows "(c * d + (d - 1 - z)) div d = c - z div d"
proof -
  have e: "c * d + (d - 1 - z) = (d - 1 - z mod d) + (c - z div d) * d"
    using div_mult_mod_eq [of z d] by (simp add: algebra_simps)
  have "0 \<le> z mod d" "z mod d < d" using assms by simp_all
  then have "(d - 1 - z mod d) div d = 0" by (intro div_pos_pos_trivial) linarith+
  then show ?thesis unfolding e using assms by simp
qed

lemma pj_down:
  "1 \<le> y \<Longrightarrow> y < 31 \<Longrightarrow> pj_linear2ulaw (4 * y) = 254 - (y - 1) div 2"
  "31 \<le> y \<Longrightarrow> y < 95 \<Longrightarrow> pj_linear2ulaw (4 * y) = 239 - (y - 31) div 4"
  "95 \<le> y \<Longrightarrow> y < 223 \<Longrightarrow> pj_linear2ulaw (4 * y) = 223 - (y - 95) div 8"
  "223 \<le> y \<Longrightarrow> y < 479 \<Longrightarrow> pj_linear2ulaw (4 * y) = 207 - (y - 223) div 16"
  "479 \<le> y \<Longrightarrow> y < 991 \<Longrightarrow> pj_linear2ulaw (4 * y) = 191 - (y - 479) div 32"
  "991 \<le> y \<Longrightarrow> y < 2015 \<Longrightarrow> pj_linear2ulaw (4 * y) = 175 - (y - 991) div 64"
  "2015 \<le> y \<Longrightarrow> y < 4063 \<Longrightarrow> pj_linear2ulaw (4 * y) = 159 - (y - 2015) div 128"
  "4063 \<le> y \<Longrightarrow> y < 7903 \<Longrightarrow> pj_linear2ulaw (4 * y) = 143 - (y - 4063) div 256"
  subgoal using pj_segment(1) [of 0 "4 * y + 132"] div_shift [of 2 17 "y + 33"] div_four [of "y + 33" 2] by simp
  subgoal using pj_segment(1) [of 1 "4 * y + 132"] div_shift [of 4 16 "y + 33"] div_four [of "y + 33" 4] by simp
  subgoal using pj_segment(1) [of 2 "4 * y + 132"] div_shift [of 8 16 "y + 33"] div_four [of "y + 33" 8] by simp
  subgoal using pj_segment(1) [of 3 "4 * y + 132"] div_shift [of 16 16 "y + 33"] div_four [of "y + 33" 16] by simp
  subgoal using pj_segment(1) [of 4 "4 * y + 132"] div_shift [of 32 16 "y + 33"] div_four [of "y + 33" 32] by simp
  subgoal using pj_segment(1) [of 5 "4 * y + 132"] div_shift [of 64 16 "y + 33"] div_four [of "y + 33" 64] by simp
  subgoal using pj_segment(1) [of 6 "4 * y + 132"] div_shift [of 128 16 "y + 33"] div_four [of "y + 33" 128] by simp
  subgoal using pj_segment(1) [of 7 "4 * y + 132"] div_shift [of 256 16 "y + 33"] div_four [of "y + 33" 256] by simp
  done

lemma pj_up:
  "8482 - 16384 \<le> y \<Longrightarrow> y < 12322 - 16384 \<Longrightarrow> pj_linear2ulaw (4 * y) = 1 + (y + 16384 - 8482) div 256"
  "12322 - 16384 \<le> y \<Longrightarrow> y < 14370 - 16384 \<Longrightarrow> pj_linear2ulaw (4 * y) = 16 + (y + 16384 - 12322) div 128"
  "14370 - 16384 \<le> y \<Longrightarrow> y < 15394 - 16384 \<Longrightarrow> pj_linear2ulaw (4 * y) = 32 + (y + 16384 - 14370) div 64"
  "15394 - 16384 \<le> y \<Longrightarrow> y < 15906 - 16384 \<Longrightarrow> pj_linear2ulaw (4 * y) = 48 + (y + 16384 - 15394) div 32"
  "15906 - 16384 \<le> y \<Longrightarrow> y < 16162 - 16384 \<Longrightarrow> pj_linear2ulaw (4 * y) = 64 + (y + 16384 - 15906) div 16"
  "16162 - 16384 \<le> y \<Longrightarrow> y < 16290 - 16384 \<Longrightarrow> pj_linear2ulaw (4 * y) = 80 + (y + 16384 - 16162) div 8"
  "16290 - 16384 \<le> y \<Longrightarrow> y < 16354 - 16384 \<Longrightarrow> pj_linear2ulaw (4 * y) = 96 + (y + 16384 - 16290) div 4"
  "16354 - 16384 \<le> y \<Longrightarrow> y < 16384 - 16384 \<Longrightarrow> pj_linear2ulaw (4 * y) = 112 + (y + 16384 - 16354) div 2"
  subgoal using pj_segment(2) [of 7 "132 - 4 * y"] div_flip [of 256 30 "y + 16384 - 8482"] div_four [of "33 - y" 256] by simp
  subgoal using pj_segment(2) [of 6 "132 - 4 * y"] div_flip [of 128 31 "y + 16384 - 12322"] div_four [of "33 - y" 128] by simp
  subgoal using pj_segment(2) [of 5 "132 - 4 * y"] div_flip [of 64 31 "y + 16384 - 14370"] div_four [of "33 - y" 64] by simp
  subgoal using pj_segment(2) [of 4 "132 - 4 * y"] div_flip [of 32 31 "y + 16384 - 15394"] div_four [of "33 - y" 32] by simp
  subgoal using pj_segment(2) [of 3 "132 - 4 * y"] div_flip [of 16 31 "y + 16384 - 15906"] div_four [of "33 - y" 16] by simp
  subgoal using pj_segment(2) [of 2 "132 - 4 * y"] div_flip [of 8 31 "y + 16384 - 16162"] div_four [of "33 - y" 8] by simp
  subgoal using pj_segment(2) [of 1 "132 - 4 * y"] div_flip [of 4 31 "y + 16384 - 16290"] div_four [of "33 - y" 4] by simp
  subgoal using pj_segment(2) [of 0 "132 - 4 * y"] div_flip [of 2 31 "y + 16384 - 16354"] div_four [of "33 - y" 2] by simp
  done

lemma pj_ends:
  "y = 0 \<Longrightarrow> pj_linear2ulaw (4 * y) = 255"
  "7903 \<le> y \<Longrightarrow> y < 8192 \<Longrightarrow> pj_linear2ulaw (4 * y) = 128"
  "- 8192 \<le> y \<Longrightarrow> y < - 7902 \<Longrightarrow> pj_linear2ulaw (4 * y) = 0"
proof -
  show "pj_linear2ulaw (4 * y) = 255" if "y = 0" using pj_segment(1) [of 0 132] that by simp
  have d: "v div 1024 = 31" if "31744 \<le> v" "v < 32768" for v :: int using that by (intro int_div_pos_eq [where r = "v - 31744"]) auto
  show "pj_linear2ulaw (4 * y) = 128" if "7903 \<le> y" "y < 8192"
    using pj_segment(1) [of 7 "4 * y + 132"] d [of "4 * y + 132"] pj_clip(1) [of "4 * y"] that by (cases "y < 8159") auto
  show "pj_linear2ulaw (4 * y) = 0" if "- 8192 \<le> y" "y < - 7902"
    using pj_segment(2) [of 7 "132 - 4 * y"] d [of "132 - 4 * y"] pj_clip(2) [of "4 * y"] that by (cases "- 8159 < y") auto
qed

lemma tab_ends:
  "linear2ulaw_tab ! 0 = 255"
  "7903 \<le> i \<Longrightarrow> i < 8192 \<Longrightarrow> linear2ulaw_tab ! i = 128"
  "8192 \<le> i \<Longrightarrow> i < 8482 \<Longrightarrow> linear2ulaw_tab ! i = 0"
proof -
  show "linear2ulaw_tab ! 0 = 255" using run_down [of 0 255 1 1 0 0 0 1] by (simp add: ulaw_runs_def)
  show "linear2ulaw_tab ! i = 128" if "7903 \<le> i" "i < 8192"
    using run_down [of 9 128 1 289 7903 i 7903 289] that by (simp add: ulaw_runs_def div_pos_pos_trivial)
  show "linear2ulaw_tab ! i = 0" if "8192 \<le> i" "i < 8482"
    using run_up [of 10 0 1 290 8192 i 8192 290] that by (simp add: ulaw_runs_def div_pos_pos_trivial)
qed

lemma tab_is_pj:
  assumes "- 8192 \<le> y" "y < 8192"
  shows "linear2ulaw_tab ! nat (y mod 16384) = pj_linear2ulaw (4 * y)"
proof (cases "0 \<le> y")
  case True
  then obtain i where i: "y = int i" "i < 8192" using assms(2) by (auto elim: nonneg_int_cases)
  consider "i = 0" | "1 \<le> i" "i < 31" | "31 \<le> i" "i < 95" | "95 \<le> i" "i < 223" | "223 \<le> i" "i < 479" | "479 \<le> i" "i < 991"
    | "991 \<le> i" "i < 2015" | "2015 \<le> i" "i < 4063" | "4063 \<le> i" "i < 7903" | "7903 \<le> i" "i < 8192" using i(2) by linarith
  then have "linear2ulaw_tab ! i = pj_linear2ulaw (4 * int i)"
    by cases (use pj_ends(1) [of 0] in \<open>simp_all add: tab_down pj_down tab_ends pj_ends\<close>)
  then show ?thesis using i by simp
next
  case False
  then obtain i where i: "y + 16384 = int i" "8192 \<le> i" "i < 16384"
    using assms by (intro that [of "nat (y + 16384)"]) auto
  have y: "int i = y + 16384" using i(1) by simp
  consider "8192 \<le> i" "i < 8482" | "8482 \<le> i" "i < 12322" | "12322 \<le> i" "i < 14370" | "14370 \<le> i" "i < 15394" | "15394 \<le> i" "i < 15906"
    | "15906 \<le> i" "i < 16162" | "16162 \<le> i" "i < 16290" | "16290 \<le> i" "i < 16354" | "16354 \<le> i" "i < 16384" using i by linarith
  then have "linear2ulaw_tab ! i = pj_linear2ulaw (4 * y)" 
    by cases (use y in \<open>simp_all add: tab_up pj_up tab_ends pj_ends\<close>)
  moreover have "y mod 16384 = int i" using i by (metis mod_add_self2 mod_pos_pos_trivial of_nat_0_le_iff of_nat_less_iff of_nat_numeral)
  ultimately show ?thesis by simp
qed

lemma client_code:
  assumes "is_s16 x"
  shows "client_linear2ulaw x = Some (pj_linear2ulaw (4 * (x div 4)))"
proof -
  have y: "- 8192 \<le> x div 4" "x div 4 < 8192" using assms by (auto simp: is_s16_def)
  have "drop_bit 2 (to_s16 x) AND 0x3fff = x div 4 mod 16384"
    using assms take_bit_eq_mask [of 14 "x div 4"]
    by (simp add: to_s16_id is_s16_def drop_bit_eq_div take_bit_eq_mod mask_eq_exp_minus_1)
  moreover have "nat (x div 4 mod 16384) < 16384" by simp
  ultimately show ?thesis using tab_is_pj [OF y] by (simp add: client_linear2ulaw_def mem_get_in tab_length)
qed

text \<open>
  For every 16-bit sample the client's table holds the code that pjmedia's encoder computes for
  the sample without its two lowest bits; no sample indexes it outside.
\<close>

theorem table_is_encoder:
  assumes "is_s16 x"
  shows "client_linear2ulaw x = Some (pj_linear2ulaw (4 * (x div 4)))"
  using assms by (rule client_code)

theorem table_is_encoder_witness: "client_linear2ulaw (-1234) = Some (pj_linear2ulaw (-1236)) \<and> pj_linear2ulaw (-1236) = 0x4a"
proof (rule conjI)
  show "client_linear2ulaw (-1234) = Some (pj_linear2ulaw (-1236))" using table_is_encoder [of "-1234"] by (simp add: is_s16_def)
  show "pj_linear2ulaw (-1236) = 0x4a" by code_simp
qed

end
