(* ===== verification/Audio_Monitor.thy ===== *)
theory Audio_Monitor
  imports Circ_Buf Gain_Control Ulaw
begin

text \<open>
  Listening in from another machine: the thread that cuts the sound into frames
  (intercom/pjs_frame_processor.cpp), the port that amplifies the sound for it
  (intercom/pjs_audio_monitor.cpp), the messages it publishes (intercom/pjs_audio_monitor_zeromq.cpp,
  pjs_zeromq_common.h) and the client that receives them (audio_client/audio_client.cpp). Samples and
  bytes are ints, ints in messages little-endian; ZeroMQ delivers messages unchanged and in order.
\<close>

section \<open>The frame processor\<close>

record frame_processor =
  fp_buffer :: "cbuf option"
  fp_samples_per_frame :: nat
  fp_thread :: bool
  fp_ready :: bool
  fp_started :: bool
  fp_exit :: bool

text \<open>\<open>buffer_made\<close> and \<open>thread_made\<close> are what pjlib answers.\<close>

definition new_frame_processor :: "bool \<Rightarrow> bool \<Rightarrow> nat \<Rightarrow> nat \<Rightarrow> frame_processor" where
  "new_frame_processor buffer_made thread_made capacity samples =
     \<lparr>fp_buffer = (if buffer_made then Some (circ_buf_create capacity) else None), fp_samples_per_frame = samples,
      fp_thread = (buffer_made \<and> thread_made), fp_ready = (buffer_made \<and> thread_made), fp_started = False, fp_exit = False\<rparr>"

text \<open>None is the use of a missing buffer.\<close>

definition fp_process_frame :: "bool \<Rightarrow> int list \<Rightarrow> frame_processor \<Rightarrow> frame_processor option" where
  "fp_process_frame audio samples fp =
     (if audio then
        do {
          cb \<leftarrow> fp_buffer fp;
          (cb, status) \<leftarrow> circ_buf_write cb samples;
          Some (fp\<lparr>fp_buffer := Some cb\<rparr>)
        }
      else Some fp)"

definition fp_start :: "frame_processor \<Rightarrow> frame_processor" where
  "fp_start fp = (if fp_thread fp \<and> \<not> fp_started fp then fp\<lparr>fp_started := True\<rparr> else fp)"

definition fp_stop :: "frame_processor \<Rightarrow> frame_processor" where
  "fp_stop fp =
     (if fp_thread fp \<and> fp_started fp then fp\<lparr>fp_started := False, fp_exit := True, fp_thread := False\<rparr> else fp)"

text \<open>One round of \<open>thread_proc\<close>, with the frame it hands to \<open>on_process_frame\<close>; \<open>frame_size\<close> has 16 bits.\<close>

definition fp_round :: "frame_processor \<Rightarrow> (frame_processor \<times> int list option) option" where
  "fp_round fp =
     (if fp_started fp \<and> \<not> fp_exit fp then
        (let frame_size = fp_samples_per_frame fp mod 65536
         in do {
              cb \<leftarrow> fp_buffer fp;
              (cb, frame) \<leftarrow> (if frame_size \<le> circ_buf_get_len cb then circ_buf_read cb frame_size else Some (cb, None));
              Some (fp\<lparr>fp_buffer := Some cb\<rparr>, frame)
            })
      else Some (fp, None))"

section \<open>The monitor\<close>

record audio_monitor =
  am_fp :: frame_processor
  am_clock_rate :: int
  am_ready :: bool
  am_processor :: "agc option"

text \<open>
  The constructor; \<open>resample_made\<close> and \<open>port_added\<close> are what pjmedia and pjsua answer. None is the
  division by \<open>input_clock_rate\<close>, or the gain control's.
\<close>

definition new_audio_monitor ::
    "bool \<Rightarrow> bool \<Rightarrow> bool \<Rightarrow> bool \<Rightarrow> nat \<Rightarrow> nat \<Rightarrow> nat \<Rightarrow> int \<Rightarrow> audio_monitor option" where
  "new_audio_monitor buffer_made thread_made resample_made port_added output_clock_rate input_clock_rate input_samples gain_max =
     (if input_clock_rate = 0 then None
      else
        (let samples = input_samples * output_clock_rate mod 2 ^ 32 div input_clock_rate;
             fp = new_frame_processor buffer_made thread_made (samples * 4 mod 2 ^ 32) samples;
             b = (input_clock_rate = output_clock_rate \<or> resample_made);
             am = \<lparr>am_fp = fp, am_clock_rate = int output_clock_rate, am_ready = False, am_processor = None\<rparr>
         in if fp_ready fp \<and> b \<and> port_added then
              do {
                a \<leftarrow> new_agc ''audio monitor agc'' gain_max 1 32760 32760;
                Some (am\<lparr>am_processor := Some a, am_ready := True\<rparr>)
              }
            else Some am))"

definition start_monitor :: "audio_monitor \<Rightarrow> audio_monitor \<times> bool" where
  "start_monitor am =
     (let am = (if am_ready am then am\<lparr>am_fp := fp_start (am_fp am)\<rparr> else am)
      in (am, am_ready am \<and> fp_started (am_fp am)))"

definition stop_monitor :: "audio_monitor \<Rightarrow> audio_monitor" where
  "stop_monitor am = am\<lparr>am_fp := fp_stop (am_fp am)\<rparr>"

text \<open>\<open>put_frame\<close>: the gain control changes the caller's frame; its size argument has 16 bits.\<close>

definition am_put_frame :: "bool \<Rightarrow> int list \<Rightarrow> audio_monitor \<Rightarrow> audio_monitor option" where
  "am_put_frame audio samples am =
     (case am_processor am of
        Some a \<Rightarrow>
          if samples \<noteq> [] \<and> audio then
            (let n = length samples mod 65536
             in do {
                  (a, out) \<leftarrow> process_frame a (take n samples) 0 False False;
                  fp \<leftarrow> fp_process_frame audio (out_data out @ drop n samples) (am_fp am);
                  Some (am\<lparr>am_processor := Some a, am_fp := fp\<rparr>)
                })
          else map_option (\<lambda>fp. am\<lparr>am_fp := fp\<rparr>) (fp_process_frame audio samples (am_fp am))
      | None \<Rightarrow> map_option (\<lambda>fp. am\<lparr>am_fp := fp\<rparr>) (fp_process_frame audio samples (am_fp am)))"

section \<open>Messages\<close>

definition PJSAMZ_TYPE_WAVE :: int where "PJSAMZ_TYPE_WAVE = 0x57"

definition HEADER_SIZE :: nat where "HEADER_SIZE = 6"

definition int_bytes :: "int \<Rightarrow> int list" where
  "int_bytes v = [to_u8 v, to_u8 (v div 2 ^ 8), to_u8 (v div 2 ^ 16), to_u8 (v div 2 ^ 24)]"

definition short_bytes :: "int \<Rightarrow> int list" where
  "short_bytes v = [to_u8 v, to_u8 (v div 2 ^ 8)]"

text \<open>\<open>pjs_audio_monitor_zeromq::on_process_frame\<close>, when the socket exists: the message, if any.\<close>

definition zeromq_on_process_frame :: "int \<Rightarrow> int list \<Rightarrow> int list option" where
  "zeromq_on_process_frame clock_rate frame =
     (if frame \<noteq> [] \<and> 2 * length frame < 1400 then
        Some ([PJSAMZ_TYPE_WAVE] @ int_bytes clock_rate @ [1] @ concat (List.map short_bytes frame))
      else None)"

section \<open>The client\<close>

text \<open>The conversion loop: \<open>k\<close> samples from \<open>off\<close> on, the next one to place \<open>i\<close> of the buffer.\<close>

fun client_loop :: "int list \<Rightarrow> nat \<Rightarrow> nat \<Rightarrow> nat \<Rightarrow> int list \<Rightarrow> int list option" where
  "client_loop msg off 0 i buffer = Some buffer"
| "client_loop msg off (Suc k) i buffer =
     do {
       lo \<leftarrow> mem_get msg off;
       hi \<leftarrow> mem_get msg (off + 1);
       c \<leftarrow> client_linear2ulaw (to_s16 (lo + 256 * hi));
       buffer \<leftarrow> mem_set buffer i c;
       client_loop msg (off + 2) k (i + 1) buffer
     }"

text \<open>The buffer after a message, and the bytes written to the standard output.\<close>

definition client_message :: "int list \<Rightarrow> int list \<Rightarrow> (int list \<times> int list) option" where
  "client_message buffer msg =
     (if HEADER_SIZE < length msg then
        (let count = (length msg - HEADER_SIZE) div 2
         in do {
              buffer \<leftarrow> client_loop msg HEADER_SIZE count 0 buffer;
              Some (buffer, take count buffer)
            })
      else Some (buffer, []))"

section \<open>The chain\<close>

datatype chain_input = Sound bool "int list" | Round

text \<open>The bridge puts a frame, or the monitor's thread runs a round; the output is what the client writes.\<close>

fun chain_step :: "audio_monitor \<times> int list \<Rightarrow> chain_input \<Rightarrow> ((audio_monitor \<times> int list) \<times> int list) option" where
  "chain_step (am, buffer) (Sound audio samples) = map_option (\<lambda>am. ((am, buffer), [])) (am_put_frame audio samples am)"
| "chain_step (am, buffer) Round =
     do {
       (fp, frame) \<leftarrow> fp_round (am_fp am);
       let am = am\<lparr>am_fp := fp\<rparr>;
       case frame of
         None \<Rightarrow> Some ((am, buffer), [])
       | Some f \<Rightarrow>
           (case zeromq_on_process_frame (am_clock_rate am) f of
              None \<Rightarrow> Some ((am, buffer), [])
            | Some msg \<Rightarrow> do { (buffer, out) \<leftarrow> client_message buffer msg; Some ((am, buffer), out) })
     }"

text \<open>
  What it should do, for frames of \<open>n\<close> samples: a queue of amplified samples, no more than four
  frames of them, cut into frames and encoded.
\<close>

fun spec_step :: "nat \<Rightarrow> agc \<times> int list \<Rightarrow> chain_input \<Rightarrow> ((agc \<times> int list) \<times> int list) option" where
  "spec_step n (a, q) (Sound audio samples) =
     (if audio \<and> samples \<noteq> [] then
        do {
          (a, out) \<leftarrow> process_frame a samples 0 False False;
          Some ((a, if length q + length (out_data out) \<le> 4 * n then q @ out_data out else q), [])
        }
      else Some ((a, q), []))"
| "spec_step n (a, q) Round =
     Some (if n \<le> length q then ((a, drop n q), List.map (\<lambda>x. pj_linear2ulaw (4 * (x div 4))) (take n q)) else ((a, q), []))"

fun sound_ok :: "chain_input \<Rightarrow> bool" where
  "sound_ok (Sound audio samples) \<longleftrightarrow> audio \<longrightarrow> samples = [] \<or> frame_ok samples"
| "sound_ok Round \<longleftrightarrow> True"

section \<open>Messages are read as they were written\<close>

lemma two_bytes: "is_s16 x \<Longrightarrow> to_s16 (to_u8 x + 256 * to_u8 (x div 256)) = x"
proof -
  assume x: "is_s16 x"
  have "to_u8 x + 256 * to_u8 (x div 256) = x mod 65536"
    using zmod_zmult2_eq [of 256 x 256] by (simp add: to_u8_def)
  moreover have "to_s16 (x mod 65536) = to_s16 x" by (simp add: to_s16_def mod_add_left_eq)
  ultimately show ?thesis using x by (simp add: to_s16_id is_s16_def)
qed

lemma client_loop_ok:
  assumes "\<forall>x \<in> set xs. is_s16 x" "i + length xs \<le> length buffer" "length pre = off"
  shows "client_loop (pre @ concat (List.map short_bytes xs) @ rest) off (length xs) i buffer =
    Some (take i buffer @ List.map (\<lambda>x. pj_linear2ulaw (4 * (x div 4))) xs @ drop (i + length xs) buffer)"
  using assms
proof (induction xs arbitrary: pre off i buffer)
  case (Cons x xs)
  let ?c = "pj_linear2ulaw (4 * (x div 4))"
  let ?msg = "pre @ concat (List.map short_bytes (x # xs)) @ rest"
  have get: "mem_get ?msg off = Some (to_u8 x)" "mem_get ?msg (off + 1) = Some (to_u8 (x div 256))"
    using Cons.prems(3) by (auto simp: mem_get_def short_bytes_def nth_append)
  have code: "client_linear2ulaw (to_s16 (to_u8 x + 256 * to_u8 (x div 256))) = Some ?c"
    using two_bytes client_code Cons.prems(1) by simp
  have set: "mem_set buffer i ?c = Some (buffer[i := ?c])" using Cons.prems(2) by (intro mem_set_in) simp
  have "client_loop ((pre @ short_bytes x) @ concat (List.map short_bytes xs) @ rest) (off + 2) (length xs) (i + 1) (buffer[i := ?c])
      = Some (take (i + 1) (buffer[i := ?c]) @ List.map (\<lambda>x. pj_linear2ulaw (4 * (x div 4))) xs @ drop (i + 1 + length xs) (buffer[i := ?c]))"
    using Cons.prems by (intro Cons.IH) (simp_all add: short_bytes_def)
  moreover have "take (i + 1) (buffer[i := ?c]) = take i buffer @ [?c]" "drop (i + 1 + length xs) (buffer[i := ?c]) = drop (i + 1 + length xs) buffer"
    using Cons.prems(2) by (simp_all add: take_Suc_conv_app_nth)
  ultimately show ?case using get code set by simp
qed simp

lemma short_bytes_length: "length (concat (List.map short_bytes xs)) = 2 * length xs"
  by (induction xs) (simp_all add: short_bytes_def)

lemma client_reads:
  assumes "0 < length xs" "\<forall>x \<in> set xs. is_s16 x" "length xs \<le> length buffer" "length pre = 6"
  shows "client_message buffer (pre @ concat (List.map short_bytes xs)) =
    Some (List.map (\<lambda>x. pj_linear2ulaw (4 * (x div 4))) xs @ drop (length xs) buffer, List.map (\<lambda>x. pj_linear2ulaw (4 * (x div 4))) xs)"
  using client_loop_ok [OF assms(2), of 0 buffer pre 6 "[]"] assms
  by (simp add: client_message_def HEADER_SIZE_def short_bytes_length)

lemma client_reads_message:
  assumes "0 < length xs" "2 * length xs < 1400" "\<forall>x \<in> set xs. is_s16 x" "length buffer = 4096"
  shows "\<exists>msg buffer'. zeromq_on_process_frame rate xs = Some msg \<and>
    client_message buffer msg = Some (buffer', List.map (\<lambda>x. pj_linear2ulaw (4 * (x div 4))) xs) \<and> length buffer' = 4096"
proof -
  let ?pre = "[PJSAMZ_TYPE_WAVE] @ int_bytes rate @ [1]"
  have "length ?pre = 6" by (simp add: int_bytes_def)
  then have "client_message buffer (?pre @ concat (List.map short_bytes xs)) = Some (List.map (\<lambda>x. pj_linear2ulaw (4 * (x div 4))) xs @ drop (length xs) buffer,
      List.map (\<lambda>x. pj_linear2ulaw (4 * (x div 4))) xs)"
    using assms by (intro client_reads) simp_all
  moreover have "zeromq_on_process_frame rate xs = Some (?pre @ concat (List.map short_bytes xs))"
    using assms(1,2) by (simp add: zeromq_on_process_frame_def)
  moreover have "length (List.map (\<lambda>x. pj_linear2ulaw (4 * (x div 4))) xs @ drop (length xs) buffer) = 4096"
    using assms(2,4) by simp
  ultimately show ?thesis by blast
qed

lemma sample_s16: "sample_ok x \<Longrightarrow> is_s16 x"
  by (simp add: sample_ok_def is_s16_def)

section \<open>The chain implements its specification\<close>

definition am_inv :: "nat \<Rightarrow> audio_monitor \<Rightarrow> agc \<Rightarrow> int list \<Rightarrow> bool" where
  "am_inv n am a q \<longleftrightarrow> am_processor am = Some a \<and> agc_inv a \<and> fp_started (am_fp am) \<and> \<not> fp_exit (am_fp am) \<and>
     fp_samples_per_frame (am_fp am) = n \<and>
     (\<exists>cb. fp_buffer (am_fp am) = Some cb \<and> cb_ok cb \<and> cb_capacity cb = 4 * n \<and> cb_contents cb = q) \<and> (\<forall>x \<in> set q. sample_ok x)"

lemma cb_room_contents: "cb_ok cb \<Longrightarrow> cb_room cb = cb_capacity cb - length (cb_contents cb)"
  by (simp add: cb_room_def cb_contents_length)

lemma circ_write_capacity: "circ_buf_write cb xs = Some (cb', b) \<Longrightarrow> cb_capacity cb' = cb_capacity cb"
  by (auto simp: circ_buf_write_def circ_buf_adv_write_ptr_def Let_def split_beta bind_eq_Some_conv split: if_splits)

lemma circ_read_capacity: "circ_buf_read cb n = Some (cb', d) \<Longrightarrow> cb_capacity cb' = cb_capacity cb"
  by (auto simp: circ_buf_read_def circ_buf_adv_read_ptr_def circ_buf_reset_def Let_def split_beta bind_eq_Some_conv split: if_splits)

lemma fp_put_ok:
  assumes "fp_buffer fp = Some cb" "cb_ok cb" "cb_capacity cb = 4 * n"
  shows "\<exists>cb'. fp_process_frame True xs fp = Some (fp\<lparr>fp_buffer := Some cb'\<rparr>) \<and> cb_ok cb' \<and> cb_capacity cb' = 4 * n \<and>
    cb_contents cb' = (if length (cb_contents cb) + length xs \<le> 4 * n then cb_contents cb @ xs else cb_contents cb)"
proof -
  obtain cb' where w: "circ_buf_write cb xs = Some (cb', length xs \<le> cb_room cb)" "cb_ok cb'"
    "cb_contents cb' = (if length xs \<le> cb_room cb then cb_contents cb @ xs else cb_contents cb)"
    using cb.wr [OF assms(2)] by blast
  have "length (cb_contents cb) \<le> 4 * n" using assms(2,3) by (simp add: cb_contents_length cb_ok_def)
  then have "length xs \<le> cb_room cb \<longleftrightarrow> length (cb_contents cb) + length xs \<le> 4 * n"
    using cb_room_contents [OF assms(2)] assms(3) by linarith
  then show ?thesis
    using w circ_write_capacity [OF w(1)] assms by (intro exI [of _ cb']) (simp add: fp_process_frame_def)
qed

lemma sound_refines:
  assumes inv: "am_inv n am a q" and ok: "sound_ok (Sound audio xs)"
  shows "\<exists>am' a' q'. am_put_frame audio xs am = Some am' \<and> spec_step n (a, q) (Sound audio xs) = Some ((a', q'), []) \<and> am_inv n am' a' q'"
proof (cases "audio \<and> xs \<noteq> []")
  case True
  then have f: "frame_ok xs" using ok by simp
  obtain cb where cb: "fp_buffer (am_fp am) = Some cb" "cb_ok cb" "cb_capacity cb = 4 * n" "cb_contents cb = q"
    using inv by (auto simp: am_inv_def)
  have a: "am_processor am = Some a" "agc_inv a" using inv by (auto simp: am_inv_def)
  obtain a' out where p: "process_frame a xs 0 False False = Some (a', out)" "agc_inv a'" "frame_ok (out_data out)"
    using process_frame_ok [OF a(2) f, of 0 False False] by blast
  obtain cb' where cb': "fp_process_frame True (out_data out) (am_fp am) = Some ((am_fp am)\<lparr>fp_buffer := Some cb'\<rparr>)" "cb_ok cb'"
    "cb_capacity cb' = 4 * n" "cb_contents cb' = (if length q + length (out_data out) \<le> 4 * n then q @ out_data out else q)"
    using fp_put_ok [OF cb(1-3), of "out_data out"] cb(4) by auto
  have "length xs mod 65536 = length xs" using f by (simp add: frame_ok_def)
  then have "am_put_frame audio xs am = Some (am\<lparr>am_processor := Some a', am_fp := (am_fp am)\<lparr>fp_buffer := Some cb'\<rparr>\<rparr>)"
    using True a(1) p(1) cb'(1) by (simp add: am_put_frame_def)
  moreover have "spec_step n (a, q) (Sound audio xs) = Some ((a', cb_contents cb'), [])"
    using True p(1) cb'(4) by simp
  moreover have "am_inv n (am\<lparr>am_processor := Some a', am_fp := (am_fp am)\<lparr>fp_buffer := Some cb'\<rparr>\<rparr>) a' (cb_contents cb')"
    using inv p(2,3) cb'(2,3,4) unfolding am_inv_def by (auto simp: frame_ok_def)
  ultimately show ?thesis by blast
next
  case False
  obtain cb where cb: "fp_buffer (am_fp am) = Some cb" "cb_ok cb" "cb_capacity cb = 4 * n" "cb_contents cb = q"
    using inv by (auto simp: am_inv_def)
  have len: "length q \<le> 4 * n" using cb cb_contents_length [OF cb(2)] by (simp add: cb_ok_def)
  obtain cb' where cb': "fp_process_frame audio xs (am_fp am) = Some ((am_fp am)\<lparr>fp_buffer := Some cb'\<rparr>)" "cb_ok cb'"
    "cb_capacity cb' = 4 * n" "cb_contents cb' = q"
  proof (cases audio)
    case True
    then show ?thesis using that fp_put_ok [OF cb(1-3), of xs] cb(4) False len by auto
  next
    case False
    then show ?thesis using that [of cb] cb by (simp add: fp_process_frame_def)
  qed
  then have "am_put_frame audio xs am = Some (am\<lparr>am_fp := (am_fp am)\<lparr>fp_buffer := Some cb'\<rparr>\<rparr>)"
    using False inv by (auto simp: am_put_frame_def am_inv_def)
  moreover have "am_inv n (am\<lparr>am_fp := (am_fp am)\<lparr>fp_buffer := Some cb'\<rparr>\<rparr>) a q"
    using inv cb' unfolding am_inv_def by auto
  ultimately show ?thesis using False by auto
qed

lemma round_refines:
  assumes inv: "am_inv n am a q" and n: "0 < n" "n < 700" and buf: "length buffer = 4096"
  shows "\<exists>am' buffer' q' out. chain_step (am, buffer) Round = Some ((am', buffer'), out) \<and>
    spec_step n (a, q) Round = Some ((a, q'), out) \<and> am_inv n am' a q' \<and> length buffer' = 4096"
proof -
  obtain cb where cb: "fp_buffer (am_fp am) = Some cb" "cb_ok cb" "cb_capacity cb = 4 * n" "cb_contents cb = q"
    using inv by (auto simp: am_inv_def)
  obtain cb' where r: "(if n \<le> circ_buf_get_len cb then circ_buf_read cb n else Some (cb, None)) =
      Some (cb', if n \<le> length q then Some (take n q) else None)" "cb_ok cb'"
      "cb_contents cb' = (if n \<le> length q then drop n q else q)"
    using cb.take_round [OF cb(2), of n] cb(4) by blast
  have cap: "cb_capacity cb' = 4 * n" using r(1) cb(3) circ_read_capacity [of cb n cb'] by (auto split: if_splits)
  let ?am = "am\<lparr>am_fp := (am_fp am)\<lparr>fp_buffer := Some cb'\<rparr>\<rparr>"
  have round: "fp_round (am_fp am) = Some ((am_fp am)\<lparr>fp_buffer := Some cb'\<rparr>, if n \<le> length q then Some (take n q) else None)"
    using inv r(1) cb(1) n by (simp add: fp_round_def am_inv_def)
  have inv': "am_inv n ?am a (cb_contents cb')"
    using inv r(2,3) cap set_drop_subset [of n q] unfolding am_inv_def by auto
  show ?thesis
  proof (cases "n \<le> length q")
    case True
    have "\<forall>x \<in> set (take n q). is_s16 x"
      using inv by (auto simp: am_inv_def intro: sample_s16 dest: in_set_takeD)
    then obtain msg buffer' where m: "zeromq_on_process_frame (am_clock_rate am) (take n q) = Some msg"
      "client_message buffer msg = Some (buffer', List.map (\<lambda>x. pj_linear2ulaw (4 * (x div 4))) (take n q))" "length buffer' = 4096"
      using client_reads_message [of "take n q" buffer "am_clock_rate am"] True n buf by auto
    then have "chain_step (am, buffer) Round = Some ((?am, buffer'), List.map (\<lambda>x. pj_linear2ulaw (4 * (x div 4))) (take n q))"
      using round True by simp
    then show ?thesis using True inv' m(3) r(3) by auto
  next
    case False
    then show ?thesis using round inv' r(3) buf by auto
  qed
qed

lemma chain_refines:
  assumes "am_inv n am a q" "0 < n" "n < 700" "length buffer = 4096" "\<forall>i \<in> set is. sound_ok i"
  shows "\<exists>s' t' outs. run_steps chain_step (am, buffer) is = Some (s', outs) \<and> run_steps (spec_step n) (a, q) is = Some (t', outs)"
  using assms(1,4,5)
proof (induction "is" arbitrary: am a q buffer)
  case (Cons i "is")
  obtain am1 buffer1 a1 q1 out where s: "chain_step (am, buffer) i = Some ((am1, buffer1), out)"
    "spec_step n (a, q) i = Some ((a1, q1), out)" "am_inv n am1 a1 q1" "length buffer1 = 4096"
  proof (cases i)
    case (Sound audio xs)
    then obtain am' a' q' where "am_put_frame audio xs am = Some am'" "spec_step n (a, q) i = Some ((a', q'), [])" "am_inv n am' a' q'"
      using sound_refines [OF Cons.prems(1), of audio xs] Cons.prems(3) by auto
    then show ?thesis using that [of am' buffer "[]" a' q'] Sound Cons.prems(2) by simp
  next
    case Round
    then show ?thesis using that round_refines [OF Cons.prems(1) assms(2,3) Cons.prems(2)] by blast
  qed
  show ?case using Cons.IH [OF s(3,4)] Cons.prems(3) s(1,2) by fastforce
qed auto

lemma new_monitor_ok:
  assumes rates: "0 < in_rate" "samples * out_rate < 2 ^ 32" and n: "n = samples * out_rate div in_rate" "0 < n" "n < 700"
    and g: "1 \<le> gain_max" "gain_max \<le> 29"
  shows "\<exists>am a. new_audio_monitor True True True True out_rate in_rate samples gain_max = Some am \<and>
    new_agc ''audio monitor agc'' gain_max 1 32760 32760 = Some a \<and> snd (start_monitor am) \<and> am_inv n (fst (start_monitor am)) a []"
proof -
  obtain a where a: "new_agc ''audio monitor agc'' gain_max 1 32760 32760 = Some a" "agc_inv a"
    using new_agc_inv [of gain_max 1 32760 32760] g by auto
  have n32: "samples * out_rate mod 2 ^ 32 div in_rate = n" "n * 4 mod 2 ^ 32 = n * 4" using rates n by simp_all
  let ?fp = "new_frame_processor True True (n * 4) n"
  let ?am = "\<lparr>am_fp = ?fp, am_clock_rate = int out_rate, am_ready = True, am_processor = Some a\<rparr>"
  have new: "new_audio_monitor True True True True out_rate in_rate samples gain_max = Some ?am"
    unfolding new_audio_monitor_def n32 by (use rates(1) a(1) n(3) in \<open>simp add: Let_def new_frame_processor_def\<close>)
  have "snd (start_monitor ?am) \<and> am_inv n (fst (start_monitor ?am)) a []"
    using n(2) a(2) by (simp add: start_monitor_def fp_start_def new_frame_processor_def am_inv_def circ_buf_create_def cb_ok_def cb_contents_def)
  then show ?thesis using new a(1) by blast
qed

lemma fp_samples_fixed:
  "fp_process_frame audio xs fp = Some fp' \<Longrightarrow> fp_samples_per_frame fp' = fp_samples_per_frame fp"
  "fp_round fp = Some (fp', f) \<Longrightarrow> fp_samples_per_frame fp' = fp_samples_per_frame fp"
  by (auto simp: fp_process_frame_def fp_round_def Let_def split_beta bind_eq_Some_conv split: if_splits)

lemma am_samples_fixed:
  "am_put_frame audio xs am = Some am' \<Longrightarrow> fp_samples_per_frame (am_fp am') = fp_samples_per_frame (am_fp am)"
  by (auto simp: am_put_frame_def Let_def split_beta bind_eq_Some_conv fp_samples_fixed split: if_splits option.splits)

lemma round_frame_length:
  assumes "fp_round fp = Some (fp', Some f)"
  shows "length f = fp_samples_per_frame fp mod 65536"
  using assms
  by (auto simp: fp_round_def circ_buf_read_def mem_read_def Let_def split_beta bind_eq_Some_conv split: if_splits)

lemma long_round_silent:
  assumes "chain_step s i = Some (s', out)" "700 \<le> fp_samples_per_frame (am_fp (fst s)) mod 65536"
  shows "out = [] \<and> fp_samples_per_frame (am_fp (fst s')) = fp_samples_per_frame (am_fp (fst s))"
proof (cases i)
  case (Sound audio xs)
  then show ?thesis using assms by (cases s) (auto simp: am_samples_fixed)
next
  case Round
  obtain am buffer where s: "s = (am, buffer)" by (cases s)
  obtain fp f where r: "fp_round (am_fp am) = Some (fp, f)" using assms(1) Round s by (auto simp: bind_eq_Some_conv)
  have "zeromq_on_process_frame (am_clock_rate am) g = None" if "f = Some g" for g
    using round_frame_length [of "am_fp am" fp g] r that assms(2) s by (auto simp: zeromq_on_process_frame_def)
  then have "chain_step s i = Some ((am\<lparr>am_fp := fp\<rparr>, buffer), [])" using r s Round by (cases f) simp_all
  then show ?thesis using assms(1) s fp_samples_fixed(2) [OF r] by auto
qed

lemma long_round_ok:
  assumes "fp_buffer (am_fp am) = Some cb" "cb_ok cb" "700 \<le> fp_samples_per_frame (am_fp am) mod 65536"
  shows "\<exists>s'. chain_step (am, buffer) Round = Some (s', [])"
proof -
  obtain fp f where r: "fp_round (am_fp am) = Some (fp, f)"
    using cb.take_round [OF assms(2), of "fp_samples_per_frame (am_fp am) mod 65536"] assms(1)
    by (cases "fp_started (am_fp am) \<and> \<not> fp_exit (am_fp am)") (auto simp: fp_round_def Let_def)
  have "zeromq_on_process_frame (am_clock_rate am) g = None" if "f = Some g" for g
    using round_frame_length [of "am_fp am" fp g] r that assms(3) by (auto simp: zeromq_on_process_frame_def)
  then show ?thesis using r by (cases f) auto
qed

lemma client_loop_overflows:
  "length buffer < i + k \<Longrightarrow> i \<le> length buffer \<Longrightarrow> client_loop msg off k i buffer = None"
proof (induction k arbitrary: off i buffer)
  case (Suc k)
  show ?case
  proof (cases "i < length buffer")
    case True
    then have "client_loop msg (off + 2) k (i + 1) (buffer[i := c]) = None" for c using Suc by simp
    then show ?thesis by (auto simp: bind_eq_None_conv mem_set_def)
  next
    case False
    then show ?thesis by (auto simp: bind_eq_None_conv mem_set_def)
  qed
qed simp

section \<open>Properties\<close>


definition demo_sounds :: "chain_input list" where
  "demo_sounds = [Sound True [100, -200], Round, Sound False [5], Sound True [7, 7, 30000, 1], Round, Round, Round]"


text \<open>
  When a frame has 700 samples or more, as with 20 ms at 44100 Hz, the monitor starts and takes
  the sound, but no message is ever published.
\<close>

theorem long_frames_never_heard:
  assumes "700 \<le> fp_samples_per_frame (am_fp am) mod 65536" "run_steps chain_step (am, buffer) is = Some (s', outs)"
  shows "concat outs = []"
  using assms
proof (induction "is" arbitrary: am buffer outs)
  case (Cons i "is")
  then obtain s1 out1 outs1 where s: "chain_step (am, buffer) i = Some (s1, out1)" "run_steps chain_step s1 is = Some (s', outs1)"
    "outs = out1 # outs1" by (auto simp: bind_eq_Some_conv)
  obtain am1 b1 where s1: "s1 = (am1, b1)" by (cases s1)
  have "out1 = []" "700 \<le> fp_samples_per_frame (am_fp am1) mod 65536"
    using long_round_silent [OF s(1)] Cons.prems(1) s1 by auto
  then show ?case using Cons.IH [of am1 b1 outs1] s s1 by simp
qed simp

text \<open>A whole frame is in the queue.\<close>

definition demo_long_monitor :: audio_monitor where
  "demo_long_monitor =
     \<lparr>am_fp = \<lparr>fp_buffer = Some \<lparr>cb_buf = replicate 2800 5, cb_capacity = 2800, cb_start = 0, cb_len = 700\<rparr>,
        fp_samples_per_frame = 700, fp_thread = True, fp_ready = True, fp_started = True, fp_exit = False\<rparr>,
      am_clock_rate = 35000, am_ready = True, am_processor = None\<rparr>"

theorem long_frames_never_heard_witness:
  "\<exists>s' outs. run_steps chain_step (demo_long_monitor, []) [Round] = Some (s', outs) \<and> concat outs = []"
proof -
  have n: "700 \<le> fp_samples_per_frame (am_fp demo_long_monitor) mod 65536" by (simp add: demo_long_monitor_def)
  obtain cb where "fp_buffer (am_fp demo_long_monitor) = Some cb" "cb_ok cb"
    by (simp add: demo_long_monitor_def cb_ok_def)
  then obtain s' where "chain_step (demo_long_monitor, []) Round = Some (s', [])"
    using long_round_ok [OF _ _ n] by blast
  then have "run_steps chain_step (demo_long_monitor, []) [Round] = Some (s', [[]])" by simp
  then show ?thesis using long_frames_never_heard [OF n] by blast
qed

text \<open>
  The client trusts the length of a message: one with more than 4096 samples overruns its buffer.
\<close>

theorem long_message_overflows_client:
  assumes "HEADER_SIZE + 2 * 4097 \<le> length msg" "length buffer = 4096"
  shows "client_message buffer msg = None"
proof -
  have "4097 \<le> (length msg - HEADER_SIZE) div 2" using assms(1) by linarith
  then have "client_loop msg HEADER_SIZE ((length msg - HEADER_SIZE) div 2) 0 buffer = None"
    using assms(2) by (intro client_loop_overflows) auto
  then show ?thesis using assms(1) by (simp add: client_message_def HEADER_SIZE_def)
qed

theorem long_message_overflows_client_witness: "client_message (replicate 4096 0) (0x57 # replicate 8199 0) = None"
  by (rule long_message_overflows_client) (simp_all add: HEADER_SIZE_def)


end
