(* ===== verification/Echo_Canceller.thy ===== *)
theory Echo_Canceller
  imports Prelude
begin

text \<open>
  The echo canceller \<open>pjs_echo_canceller\<close> (intercom/echo_canceller.cpp, .h): the high-pass filters
  of the captured sound and the queue of played frames that the adaptive filter gets as reference.
  \<open>capture\<close> gives up its lock while the adaptive filter runs, so it is two steps. Speex, pjmedia's
  delay buffer and the sum of the single-precision filter are parameters.
\<close>

section \<open>The high-pass filter\<close>

definition PJS_FMATH_SHIFT :: nat where "PJS_FMATH_SHIFT = 14"

text \<open>\<open>PJS_FMATH_EXT_CONST(0.01f)\<close>.\<close>

definition iir_a0 :: int where "iir_a0 = 163"

text \<open>\<open>IIR_HP::highpass\<close>: the low-pass value \<open>x\<close> follows the input; None is an overflow of 32 bits.\<close>

definition s32_value :: "int \<Rightarrow> int option" where
  "s32_value v = (if is_s32 v then Some v else None)"

definition iir_highpass :: "int \<Rightarrow> int \<Rightarrow> (int \<times> int) option" where
  "iir_highpass x inp =
     do {
       ii \<leftarrow> s32_value (inp * 2 ^ PJS_FMATH_SHIFT);
       d \<leftarrow> s32_value (ii - x);
       let x = to_s32 (x + iir_a0 * d div 2 ^ PJS_FMATH_SHIFT);
       r \<leftarrow> s32_value (ii - x);
       Some (x, to_s16 (r div 2 ^ PJS_FMATH_SHIFT))
     }"

text \<open>
  \<open>FIR_HP13::highpass\<close>: the 14 last inputs, newest first; \<open>fir_sum\<close> is the sum in single precision,
  rounded.
\<close>

definition fir_highpass :: "(int list \<Rightarrow> int) \<Rightarrow> int list \<Rightarrow> int \<Rightarrow> int list \<times> int" where
  "fir_highpass fir_sum z inp = (let z = inp # take 13 z in (z, to_s16 (fir_sum z)))"

fun highpass_frame :: "(int list \<Rightarrow> int) \<Rightarrow> int \<Rightarrow> int list \<Rightarrow> int list \<Rightarrow> (int \<times> int list \<times> int list) option" where
  "highpass_frame fir_sum x z [] = Some (x, z, [])"
| "highpass_frame fir_sum x z (s # ss) =
     do {
       (x, f) \<leftarrow> iir_highpass x s;
       let (z, y) = fir_highpass fir_sum z f;
       (x, z, ys) \<leftarrow> highpass_frame fir_sum x z ss;
       Some (x, z, y # ys)
     }"

section \<open>State\<close>

text \<open>
  The delay buffer: putting a frame, and taking one, which may fail; the adaptive filter: its state,
  the captured and the reference frame give the new state and the result.
\<close>

record ('d, 's) audio =
  au_put :: "'d \<Rightarrow> int list \<Rightarrow> 'd"
  au_get :: "'d \<Rightarrow> 'd \<times> int list option"
  au_reset :: "'d \<Rightarrow> 'd"
  au_cancel :: "'s \<Rightarrow> int list \<Rightarrow> int list \<Rightarrow> 's \<times> int list"
  au_cancel_reset :: "'s \<Rightarrow> 's"
  au_fir_sum :: "int list \<Rightarrow> int"

text \<open>
  Of the free frames only their number matters. \<open>ec_pending\<close> is the frame a running \<open>capture\<close> has
  taken out of the queue; \<open>ec_refs\<close> records the reference frames used.
\<close>

record ('d, 's) echo =
  ec_samples :: nat
  ec_lat_ready :: bool
  ec_lat_buf :: "int list list"
  ec_lat_free :: nat
  ec_delay :: 'd
  ec_state :: 's
  ec_hp00 :: int
  ec_hp0 :: "int list"
  ec_pending :: bool
  ec_refs :: "int list list"

text \<open>The constructor: None when the frame time is 0 ms, by which it divides.\<close>

definition new_echo :: "nat \<Rightarrow> nat \<Rightarrow> nat \<Rightarrow> 'd \<Rightarrow> 's \<Rightarrow> ('d, 's) echo option" where
  "new_echo clock_rate samples latency_ms d s =
     (let ptime = samples * 1000 div clock_rate;
          latency_ms = (if latency_ms < ptime then ptime else latency_ms)
      in if ptime = 0 then None
         else Some \<lparr>ec_samples = samples, ec_lat_ready = False, ec_lat_buf = [], ec_lat_free = latency_ms div ptime,
                    ec_delay = d, ec_state = s, ec_hp00 = 0, ec_hp0 = replicate 14 0, ec_pending = False,
                    ec_refs = []\<rparr>)"

section \<open>Operations\<close>

definition reset_echo :: "('d, 's) audio \<Rightarrow> ('d, 's) echo \<Rightarrow> ('d, 's) echo" where
  "reset_echo au e =
     e\<lparr>ec_lat_free := ec_lat_free e + length (ec_lat_buf e), ec_lat_buf := [], ec_lat_ready := False,
       ec_state := au_cancel_reset au (ec_state e), ec_delay := au_reset au (ec_delay e)\<rparr>"

text \<open>
  \<open>playback\<close>: -1 for a frame of another size. A frame taken from an empty delay buffer while the
  queue is filled holds what \<open>pjmedia_delay_buf_get\<close> left in \<open>frm_buf\<close>, the frame just played.
\<close>

definition playback :: "('d, 's) audio \<Rightarrow> int list \<Rightarrow> ('d, 's) echo \<Rightarrow> ('d, 's) echo \<times> int" where
  "playback au play_frm e =
     (if length play_frm \<noteq> ec_samples e then (e, -1)
      else
        (let e = e\<lparr>ec_delay := au_put au (ec_delay e) play_frm\<rparr>
         in if \<not> ec_lat_ready e then
              (if ec_lat_free e = 0 then (e\<lparr>ec_lat_ready := True\<rparr>, 0)
               else
                 (let (d, f) = au_get au (ec_delay e)
                  in (e\<lparr>ec_delay := d, ec_lat_free := ec_lat_free e - 1,
                        ec_lat_buf := ec_lat_buf e @ [case f of Some f \<Rightarrow> f | None \<Rightarrow> play_frm]\<rparr>, 0)))
            else (e, 0)))"

text \<open>
  \<open>capture\<close> up to where it takes the lock again: the status, the frame, and whether there is a
  second part. None is an overflow, or taking a frame from an empty queue.
\<close>

definition capture_begin :: "('d, 's) audio \<Rightarrow> int list \<Rightarrow> ('d, 's) echo \<Rightarrow> (('d, 's) echo \<times> int \<times> int list) option" where
  "capture_begin au rec_frm e =
     (if length rec_frm \<noteq> ec_samples e then Some (e, -1, rec_frm)
      else do {
        (x, z, frm) \<leftarrow> highpass_frame (au_fir_sum au) (ec_hp00 e) (ec_hp0 e) rec_frm;
        let e = e\<lparr>ec_hp00 := x, ec_hp0 := z\<rparr>;
        if \<not> ec_lat_ready e then Some (e, 0, frm)
        else
          (case ec_lat_buf e of
             [] \<Rightarrow> None
           | oldest # rest \<Rightarrow>
               (let (s, out) = au_cancel au (ec_state e) frm oldest
                in Some (e\<lparr>ec_lat_buf := rest, ec_state := s, ec_pending := True, ec_refs := ec_refs e @ [oldest]\<rparr>,
                         0, out)))
      })"

definition capture_end :: "('d, 's) audio \<Rightarrow> ('d, 's) echo \<Rightarrow> ('d, 's) echo" where
  "capture_end au e =
     (if ec_pending e then
        (let (d, f) = au_get au (ec_delay e)
         in e\<lparr>ec_delay := d, ec_pending := False,
              ec_lat_buf := ec_lat_buf e @ [case f of Some f \<Rightarrow> f | None \<Rightarrow> replicate (ec_samples e) 0]\<rparr>)
      else e)"

section \<open>Runs\<close>

datatype echo_input = Playback "int list" | Capture_begin "int list" | Capture_end | Reset_echo

text \<open>The output is the frame \<open>capture\<close> leaves to its caller.\<close>

fun echo_step :: "('d, 's) audio \<Rightarrow> ('d, 's) echo \<Rightarrow> echo_input \<Rightarrow> (('d, 's) echo \<times> int list) option" where
  "echo_step au e (Playback f) = Some (fst (playback au f e), [])"
| "echo_step au e (Capture_begin f) = map_option (\<lambda>(e, r, out). (e, out)) (capture_begin au f e)"
| "echo_step au e Capture_end = Some (capture_end au e, [])"
| "echo_step au e Reset_echo = Some (reset_echo au e, [])"

text \<open>One thread captures, and its frames are 16-bit samples.\<close>

fun echo_ok :: "('d, 's) echo \<Rightarrow> echo_input \<Rightarrow> bool" where
  "echo_ok e (Capture_begin f) \<longleftrightarrow> \<not> ec_pending e \<and> (\<forall>s \<in> set f. is_s16 s)"
| "echo_ok e i \<longleftrightarrow> True"

section \<open>The filter\<close>

definition low_ok :: "int \<Rightarrow> bool" where
  "low_ok x \<longleftrightarrow> - 536870912 \<le> x \<and> x \<le> 536854528"

text \<open>The low-pass value stays between its old value and the input.\<close>

lemma follow_between:
  fixes x i :: int
  shows "min x i \<le> x + 163 * (i - x) div 16384 \<and> x + 163 * (i - x) div 16384 \<le> max x i"
proof (cases "x \<le> i")
  case True
  have "0 \<le> 163 * (i - x) div 16384" using True by (simp add: pos_imp_zdiv_nonneg_iff)
  moreover have "163 * (i - x) div 16384 \<le> 16384 * (i - x) div 16384" using True by (intro zdiv_mono1) auto
  ultimately show ?thesis using True by auto
next
  case False
  have "163 * (i - x) div 16384 < 0" using False by (intro div_neg_pos_less0) auto
  moreover have "16384 * (i - x) div 16384 \<le> 163 * (i - x) div 16384" using False by (intro zdiv_mono1) auto
  ultimately show ?thesis using False by auto
qed

lemma iir_ok:
  assumes "low_ok x" "is_s16 s"
  shows "\<exists>x' y. iir_highpass x s = Some (x', y) \<and> low_ok x' \<and> is_s16 y
    \<and> x' = x + 163 * (s * 16384 - x) div 16384 \<and> y = to_s16 ((s * 16384 - x') div 16384)"
proof -
  let ?x = "x + 163 * (s * 16384 - x) div 16384"
  have ii: "- 536870912 \<le> s * 16384" "s * 16384 \<le> 536854528" using assms(2) by (auto simp: is_s16_def)
  have x: "low_ok ?x" using follow_between [of x "s * 16384"] assms(1) ii by (auto simp: low_ok_def)
  have "s32_value (s * 16384) = Some (s * 16384)" "s32_value (s * 16384 - x) = Some (s * 16384 - x)"
    "s32_value (s * 16384 - ?x) = Some (s * 16384 - ?x)" "to_s32 ?x = ?x"
    using ii x assms(1) by (auto simp: s32_value_def is_s32_def low_ok_def to_s32_id)
  then have "iir_highpass x s = Some (?x, to_s16 ((s * 16384 - ?x) div 16384))"
    by (simp add: iir_highpass_def PJS_FMATH_SHIFT_def iir_a0_def Let_def)
  then show ?thesis using x to_s16_range by blast
qed

lemma highpass_frame_ok:
  assumes "low_ok x" "\<forall>s \<in> set ss. is_s16 s"
  shows "\<exists>x' z' ys. highpass_frame fs x z ss = Some (x', z', ys) \<and> low_ok x' \<and> length ys = length ss"
  using assms
proof (induction ss arbitrary: x z)
  case (Cons s ss)
  obtain x1 y where s: "iir_highpass x s = Some (x1, y)" "low_ok x1" using iir_ok [of x s] Cons.prems by auto
  obtain x2 z2 ys where "highpass_frame fs x1 (fst (fir_highpass fs z y)) ss = Some (x2, z2, ys)" "low_ok x2" "length ys = length ss"
    using Cons.IH [OF s(2), of "fst (fir_highpass fs z y)"] Cons.prems(2) by auto
  then show ?case using s(1) by (simp add: split_beta Let_def)
qed simp

section \<open>The queue\<close>

text \<open>
  No frame is lost, and playing is done filling the queue only when no frame is free; \<open>cnt\<close> is the
  number of frames.
\<close>

definition echo_inv :: "nat \<Rightarrow> ('d, 's) echo \<Rightarrow> bool" where
  "echo_inv cnt e \<longleftrightarrow> 1 \<le> cnt \<and> length (ec_lat_buf e) + ec_lat_free e + (if ec_pending e then 1 else 0) = cnt \<and>
     (ec_lat_ready e \<longrightarrow> ec_lat_free e = 0) \<and> low_ok (ec_hp00 e)"

lemma playback_inv: "echo_inv cnt e \<Longrightarrow> echo_inv cnt (fst (playback au f e))"
  by (auto simp: playback_def echo_inv_def Let_def split_beta)

lemma reset_inv: "echo_inv cnt e \<Longrightarrow> echo_inv cnt (reset_echo au e)"
  by (auto simp: reset_echo_def echo_inv_def)

lemma capture_end_inv: "echo_inv cnt e \<Longrightarrow> echo_inv cnt (capture_end au e)"
  by (auto simp: capture_end_def echo_inv_def Let_def split_beta)

lemma capture_begin_inv:
  assumes inv: "echo_inv cnt e" and p: "\<not> ec_pending e" and s: "\<forall>s \<in> set f. is_s16 s"
  shows "\<exists>e' r out. capture_begin au f e = Some (e', r, out) \<and> echo_inv cnt e'"
proof (cases "length f = ec_samples e")
  case True
  obtain x z ys where h: "highpass_frame (au_fir_sum au) (ec_hp00 e) (ec_hp0 e) f = Some (x, z, ys)" "low_ok x"
    using highpass_frame_ok [OF _ s] inv by (fastforce simp: echo_inv_def)
  show ?thesis
  proof (cases "ec_lat_ready e")
    case ready: True
    then have "length (ec_lat_buf e) = cnt" "1 \<le> cnt" using inv p by (auto simp: echo_inv_def)
    then obtain o1 rest where "ec_lat_buf e = o1 # rest" by (cases "ec_lat_buf e") auto
    then show ?thesis using True h ready inv p by (auto simp: capture_begin_def echo_inv_def Let_def split_beta)
  next
    case False
    then show ?thesis using True h inv by (auto simp: capture_begin_def echo_inv_def)
  qed
next
  case False
  then show ?thesis using inv by (simp add: capture_begin_def)
qed

lemma echo_step_ok:
  assumes "echo_inv cnt e" "echo_ok e i"
  shows "\<exists>e' out. echo_step au e i = Some (e', out) \<and> echo_inv cnt e'"
proof (cases i)
  case (Capture_begin f)
  then show ?thesis using capture_begin_inv [OF assms(1), of f au] assms(2) by fastforce
qed (use assms playback_inv reset_inv capture_end_inv in \<open>auto\<close>)

interpretation echo: guarded_machine "echo_step au" "echo_inv cnt" echo_ok for au cnt
  by unfold_locales (rule echo_step_ok)

lemma new_echo_inv:
  assumes "new_echo clock_rate samples latency_ms d s = Some e"
  shows "echo_inv (ec_lat_free e) e"
proof -
  let ?p = "samples * 1000 div clock_rate"
  have p: "0 < ?p" using assms by (auto simp: new_echo_def Let_def split: if_splits)
  have "1 \<le> (if latency_ms < ?p then ?p else latency_ms) div ?p" using p by (auto simp: Suc_le_eq div_greater_zero_iff)
  then show ?thesis using assms by (auto simp: new_echo_def Let_def echo_inv_def low_ok_def split: if_splits)
qed

text \<open>
  C27: playing, capturing and resetting may interleave in any way, also while a capture is running
  its adaptive filter without the lock: the queue's frames are never lost or duplicated, a capture
  never takes a frame from an empty queue, and the filter never overflows.
\<close>

theorem echo_queue_safe:
  assumes "new_echo clock_rate samples latency_ms d s = Some e" "run_ok echo_ok (echo_step au) e is"
  shows "\<exists>e' outs. run_steps (echo_step au) e is = Some (e', outs) \<and>
    length (ec_lat_buf e') + ec_lat_free e' + (if ec_pending e' then 1 else 0) = ec_lat_free e"
  using echo.run_safe [OF new_echo_inv [OF assms(1)] assms(2)] by (auto simp: echo_inv_def)

text \<open>Delay buffer: a plain queue; no cancellation.\<close>

definition demo_audio :: "(int list list, nat) audio" where
  "demo_audio = \<lparr>au_put = (\<lambda>d f. d @ [f]), au_get = (\<lambda>d. case d of [] \<Rightarrow> ([], None) | f # fs \<Rightarrow> (fs, Some f)),
     au_reset = (\<lambda>d. []), au_cancel = (\<lambda>s f r. (s, f)), au_cancel_reset = (\<lambda>s. s), au_fir_sum = hd\<rparr>"

definition demo_echo :: "(int list list, nat) echo" where
  "demo_echo = the (new_echo 1000 2 4 [] (0 :: nat))"

definition demo_echo_inputs :: "echo_input list" where
  "demo_echo_inputs = [Playback [1, 1], Playback [2, 2], Playback [3, 3], Capture_begin [100, -100], Playback [4, 4], Capture_end,
     Capture_begin [-32768, 32767], Capture_end]"

theorem echo_queue_safe_witness:
  "\<exists>e' outs. run_steps (echo_step demo_audio) demo_echo demo_echo_inputs = Some (e', outs) \<and>
    length (ec_lat_buf e') + ec_lat_free e' + (if ec_pending e' then 1 else 0) = ec_lat_free demo_echo"
proof (rule echo_queue_safe)
  show "new_echo 1000 2 4 [] (0 :: nat) = Some demo_echo" by (simp add: demo_echo_def new_echo_def)
  show "run_ok echo_ok (echo_step demo_audio) demo_echo demo_echo_inputs" by code_simp
qed

section \<open>The reference\<close>

text \<open>
  The delay buffer in its simple mode: a queue \<open>q\<close> of frames, as documented by pjmedia, when it
  neither runs full nor empty.
\<close>

definition simple_fifo :: "('d, 's) audio \<Rightarrow> ('d \<Rightarrow> int list list) \<Rightarrow> bool" where
  "simple_fifo au q \<longleftrightarrow> (\<forall>d f. q (au_put au d f) = q d @ [f]) \<and>
     (\<forall>d f fs. q d = f # fs \<longrightarrow> snd (au_get au d) = Some f \<and> q (fst (au_get au d)) = fs)"

text \<open>The delay buffer holds a frame when the end of a capture takes one; there is no reset.\<close>

fun in_step :: "('d \<Rightarrow> int list list) \<Rightarrow> ('d, 's) echo \<Rightarrow> echo_input \<Rightarrow> bool" where
  "in_step q e (Capture_begin f) \<longleftrightarrow> \<not> ec_pending e"
| "in_step q e Capture_end \<longleftrightarrow> (ec_pending e \<longrightarrow> q (ec_delay e) \<noteq> [])"
| "in_step q e (Playback f) \<longleftrightarrow> True"
| "in_step q e Reset_echo \<longleftrightarrow> False"

fun played :: "nat \<Rightarrow> echo_input list \<Rightarrow> int list list" where
  "played n [] = []"
| "played n (Playback f # is) = (if length f = n then f # played n is else played n is)"
| "played n (i # is) = played n is"

definition all_frames :: "('d \<Rightarrow> int list list) \<Rightarrow> ('d, 's) echo \<Rightarrow> int list list" where
  "all_frames q e = ec_refs e @ ec_lat_buf e @ q (ec_delay e)"

lemma step_frames:
  assumes fifo: "simple_fifo au q" and ok: "in_step q e i" and run: "echo_step au e i = Some (e', out)"
  shows "all_frames q e' = all_frames q e @ played (ec_samples e) [i] \<and> ec_samples e' = ec_samples e"
proof (cases i)
  case (Playback f)
  let ?d = "au_put au (ec_delay e) f"
  have put: "q ?d = q (ec_delay e) @ [f]" using fifo by (simp add: simple_fifo_def)
  then have "q ?d \<noteq> []" by simp
  then obtain g gs where g: "q ?d = g # gs" by (auto simp: neq_Nil_conv)
  then have "snd (au_get au ?d) = Some g" "q (fst (au_get au ?d)) = gs" using fifo by (simp_all add: simple_fifo_def)
  then show ?thesis
    using run Playback put g by (auto simp: playback_def all_frames_def Let_def split_beta)
next
  case (Capture_begin f)
  then show ?thesis
    using run by (auto simp: capture_begin_def all_frames_def Let_def split_beta bind_eq_Some_conv split: if_splits list.splits)
next
  case Capture_end
  show ?thesis
  proof (cases "ec_pending e")
    case True
    then obtain g gs where g: "q (ec_delay e) = g # gs" using ok Capture_end by (cases "q (ec_delay e)") auto
    then have "snd (au_get au (ec_delay e)) = Some g" "q (fst (au_get au (ec_delay e))) = gs"
      using fifo by (simp_all add: simple_fifo_def)
    then show ?thesis using run Capture_end True g by (auto simp: capture_end_def all_frames_def Let_def split_beta)
  next
    case False
    then show ?thesis using run Capture_end by (auto simp: capture_end_def)
  qed
next
  case Reset_echo
  then show ?thesis using ok by simp
qed

lemma played_append: "played n (is @ js) = played n is @ played n js"
  by (induction n "is" rule: played.induct) auto

lemma run_frames:
  assumes "simple_fifo au q" "run_ok (in_step q) (echo_step au) e is" "run_steps (echo_step au) e is = Some (e', outs)"
  shows "all_frames q e' = all_frames q e @ played (ec_samples e) is"
  using assms(2,3)
proof (induction "is" arbitrary: e outs)
  case (Cons i "is")
  then obtain e1 out1 outs1 where s: "echo_step au e i = Some (e1, out1)" "run_steps (echo_step au) e1 is = Some (e', outs1)"
    by (auto simp: bind_eq_Some_conv)
  have one: "all_frames q e1 = all_frames q e @ played (ec_samples e) [i]" "ec_samples e1 = ec_samples e"
    using step_frames [OF assms(1) _ s(1)] Cons.prems(1) by auto
  have "run_ok (in_step q) (echo_step au) e1 is" using Cons.prems(1) s(1) by simp
  then show ?case using Cons.IH [OF _ s(2)] one played_append [of "ec_samples e" "[i]" "is"] by simp
qed simp

text \<open>
  With a delay buffer that is a queue and never runs empty, the reference frames the adaptive
  filter gets are the played frames, in order, each once: none is skipped, repeated or replaced,
  however playing and capturing interleave.
\<close>

theorem references_follow_playback:
  assumes "new_echo clock_rate samples latency_ms d s = Some e" "simple_fifo au q" "q d = []"
    and "run_ok (in_step q) (echo_step au) e is" "run_steps (echo_step au) e is = Some (e', outs)"
  shows "ec_refs e' = take (length (ec_refs e')) (played samples is)"
proof -
  have e: "ec_samples e = samples" "all_frames q e = []"
    using assms(1,3) by (auto simp: new_echo_def Let_def all_frames_def split: if_splits)
  have "played samples is = ec_refs e' @ ec_lat_buf e' @ q (ec_delay e')"
    using run_frames [OF assms(2,4,5)] e by (simp add: all_frames_def)
  then show ?thesis by simp
qed

theorem references_follow_playback_witness:
  "ec_refs (fst (the (run_steps (echo_step demo_audio) demo_echo demo_echo_inputs))) =
    take (length (ec_refs (fst (the (run_steps (echo_step demo_audio) demo_echo demo_echo_inputs))))) (played 2 demo_echo_inputs)"
proof (rule references_follow_playback [where q = "\<lambda>d. d"])
  show "new_echo 1000 2 4 [] (0 :: nat) = Some demo_echo" by (simp add: demo_echo_def new_echo_def)
  show "simple_fifo demo_audio (\<lambda>d. d)" by (simp add: simple_fifo_def demo_audio_def)
  show "run_ok (in_step (\<lambda>d. d)) (echo_step demo_audio) demo_echo demo_echo_inputs" by code_simp
  have "run_steps (echo_step demo_audio) demo_echo demo_echo_inputs \<noteq> None" by code_simp
  then show "run_steps (echo_step demo_audio) demo_echo demo_echo_inputs =
      Some (fst (the (run_steps (echo_step demo_audio) demo_echo demo_echo_inputs)),
        snd (the (run_steps (echo_step demo_audio) demo_echo demo_echo_inputs)))" by auto
qed simp

lemma above_mod: "32768 \<le> v \<Longrightarrow> v \<le> 65535 \<Longrightarrow> (v + 32768) mod 65536 = v - 32768" for v :: int
  using mod_pos_pos_trivial [of "v - 32768" 65536] mod_add_self2 [of "v - 32768" 65536] by (simp add: add.commute)

text \<open>
  The first high-pass filter wraps around. Once its low-pass value is 332 or more below zero, the
  largest sample gives a negative value instead of a large positive one.
\<close>

theorem highpass_wraps:
  assumes "- 536870912 \<le> x" "x \<le> - 332 * 16384"
  shows "\<exists>x' y. iir_highpass x 32767 = Some (x', y) \<and> y < 0 \<and> (32767 * 16384 - x') div 16384 = y + 65536"
proof -
  obtain x' y where h: "iir_highpass x 32767 = Some (x', y)" "low_ok x'" "x' = x + 163 * (32767 * 16384 - x) div 16384"
    "y = to_s16 ((32767 * 16384 - x') div 16384)"
    using iir_ok [of x 32767] assms by (auto simp: low_ok_def is_s16_def)
  have "x' \<le> - 16384" "- 536870912 \<le> x'" using h(2,3) assms by (auto simp: low_ok_def)
  then have "32768 \<le> (32767 * 16384 - x') div 16384" "(32767 * 16384 - x') div 16384 \<le> 65535" by linarith+
  then have "to_s16 ((32767 * 16384 - x') div 16384) = (32767 * 16384 - x') div 16384 - 65536"
    unfolding to_s16_def using above_mod [of "(32767 * 16384 - x') div 16384"] by simp
  then show ?thesis using h \<open>32768 \<le> _\<close> \<open>_ \<le> 65535\<close> by auto
qed

theorem highpass_wraps_witness:
  "\<exists>x' y. iir_highpass (- 649 * 16384) 32767 = Some (x', y) \<and> y < 0 \<and> (32767 * 16384 - x') div 16384 = y + 65536"
  by (rule highpass_wraps) simp_all

end
