(* ===== verification/Master_Port.thy ===== *)
theory Master_Port
  imports Circ_Buf Gain_Control Echo_Canceller
begin

text \<open>
  The master port \<open>pjs_master_port\<close> (intercom/pjs_intercom.cpp, .h) between the sound card and the
  conference bridge: it controls the gain of both directions, gives the played sound to the echo
  canceller and passes the recorded sound through a circular buffer to a thread that cancels the
  echo and puts it into the bridge. The sound card's two callbacks and the thread run concurrently:
  \<open>get_frame\<close> and \<open>put_frame\<close> are a step each, and so is each of the thread's actions between two
  points where it takes or gives up a lock. The resampler and the bridge are parameters, calls of
  the media synchronisation are left out.
\<close>

section \<open>State\<close>

datatype frame_type = FT_none | FT_audio | FT_other

text \<open>What \<open>pjmedia_port_get_frame\<close> leaves: status, type, contents of the buffer and its size in bytes.\<close>

record up_frame =
  uf_status :: bool
  uf_type :: frame_type
  uf_data :: "int list"
  uf_size :: nat

text \<open>
  Where the thread is: waiting, cancelling the echo of a frame from sample \<open>off\<close> on (in the middle of
  \<open>capture\<close> or not), or about to deliver a frame.
\<close>

datatype put_state = Waiting | Cancelling "int list" nat bool | Delivering "int list"

text \<open>
  \<open>mp_agcs\<close> are \<open>m_tx_preprocessor\<close> and \<open>m_rx_preprocessor\<close>, None as long as the pointers are not
  initialised. The sizes are \<open>samples_per_frame\<close> of the bridge's ports and of the sound streams.
\<close>

record ('d, 's, 'r) master_port =
  mp_rx_mute :: bool
  mp_tx_mute :: bool
  mp_rx_timestamp :: int
  mp_tx_timestamp :: int
  mp_rx_inc :: nat
  mp_tx_inc :: nat
  mp_ok :: bool
  mp_rx_up :: nat
  mp_tx_up :: nat
  mp_rx_aud :: nat
  mp_tx_aud :: nat
  mp_agcs :: "(agc \<times> agc) option"
  mp_tx_power :: int
  mp_rx_power :: int
  mp_rx_resample :: "'r option"
  mp_tx_resample :: "'r option"
  mp_echo :: "('d, 's) echo option"
  mp_echo_samples :: nat
  mp_put_thread :: bool
  mp_put_buffer :: "cbuf option"
  mp_last_frame_ts :: int
  mp_put_state :: put_state

definition PJS_ECHO_PERIOD_MS :: nat where "PJS_ECHO_PERIOD_MS = 10"

text \<open>
  The port's and streams' parameters, and what the constructor's calls answer: \<open>su_param_ok\<close> for
  \<open>pjmedia_aud_stream_get_param\<close>, then the circular buffer, the thread and the resamplers.
\<close>

record 'r port_setup =
  su_rx_up :: nat
  su_tx_up :: nat
  su_rx_channels :: nat
  su_tx_channels :: nat
  su_rx_rate :: nat
  su_tx_rate :: nat
  su_param_ok :: bool
  su_rx_aud :: nat
  su_tx_aud :: nat
  su_rx_aud_rate :: nat
  su_tx_aud_rate :: nat
  su_buffer_ok :: bool
  su_thread_ok :: bool
  su_rx_resampler :: "'r option"
  su_tx_resampler :: "'r option"

record gains =
  ga_target :: int
  ga_max :: int
  ga_min :: int

text \<open>None is a division by zero. A resampler that cannot be made leaves the port as it is by then.\<close>

definition new_master_port ::
    "'r port_setup \<Rightarrow> gains \<Rightarrow> gains \<Rightarrow> nat \<Rightarrow> bool \<Rightarrow> 'd \<Rightarrow> 's \<Rightarrow> ('d, 's, 'r) master_port option" where
  "new_master_port su tx rx latency_ms disable_echo d s =
     (if su_rx_channels su = 0 \<or> su_tx_channels su = 0 then None
      else
        (let mp = \<lparr>mp_rx_mute = False, mp_tx_mute = False, mp_rx_timestamp = 0, mp_tx_timestamp = 0,
               mp_rx_inc = su_rx_up su div su_rx_channels su, mp_tx_inc = su_tx_up su div su_tx_channels su, mp_ok = False,
               mp_rx_up = su_rx_up su, mp_tx_up = su_tx_up su, mp_rx_aud = su_rx_aud su, mp_tx_aud = su_tx_aud su,
               mp_agcs = None, mp_tx_power = 0, mp_rx_power = 0, mp_rx_resample = None, mp_tx_resample = None,
               mp_echo = None, mp_echo_samples = 0, mp_put_thread = False, mp_put_buffer = None,
               mp_last_frame_ts = 0, mp_put_state = Waiting\<rparr>
         in if \<not> su_param_ok su then Some mp
            else do {
              let buffer_made = (\<not> disable_echo \<and> su_buffer_ok su);
              let echo_samples = nat16 (su_tx_rate su * PJS_ECHO_PERIOD_MS div 1000);
              let mp = mp\<lparr>mp_put_buffer := (if buffer_made then Some (circ_buf_create (su_tx_up su * 4)) else None),
                          mp_put_thread := (buffer_made \<and> su_thread_ok su), mp_echo_samples := echo_samples\<rparr>;
              echo \<leftarrow> (if disable_echo then Some None
                       else map_option Some (new_echo (su_tx_rate su) echo_samples latency_ms d s));
              let mp = mp\<lparr>mp_echo := echo\<rparr>;
              if su_tx_rate su \<noteq> su_tx_aud_rate su \<and> su_tx_resampler su = None then Some mp
              else do {
                let mp = mp\<lparr>mp_tx_resample := (if su_tx_rate su \<noteq> su_tx_aud_rate su then su_tx_resampler su else None)\<rparr>;
                if su_rx_rate su \<noteq> su_rx_aud_rate su \<and> su_rx_resampler su = None then Some mp
                else do {
                  let mp = mp\<lparr>mp_rx_resample := (if su_rx_rate su \<noteq> su_rx_aud_rate su then su_rx_resampler su else None)\<rparr>;
                  txa \<leftarrow> new_agc ''tx'' (ga_max tx) (ga_min tx) (ga_target tx div 2) (ga_target tx);
                  rxa \<leftarrow> new_agc ''rx'' (ga_max rx) (ga_min rx) (ga_target rx div 2) (ga_target rx);
                  Some (mp\<lparr>mp_agcs := Some (txa, rxa), mp_ok := True\<rparr>)
                }
              }
            }))"

text \<open>The destructor deletes both gain controls; None is the deletion of a pointer that was never set.\<close>

definition delete_master_port :: "('d, 's, 'r) master_port \<Rightarrow> unit option" where
  "delete_master_port mp = map_option (\<lambda>_. ()) (mp_agcs mp)"

section \<open>The loudspeaker's side\<close>

text \<open>
  The macro \<open>echo_process_p\<close> from sample \<open>off\<close> on; \<open>size\<close> has 16 bits. None is an access outside the
  buffer, or the loop that never ends when \<open>m_echo_samples\<close> is 0.
\<close>

fun echo_loop_p :: "('d, 's) audio \<Rightarrow> nat \<Rightarrow> int list \<Rightarrow> nat \<Rightarrow> nat \<Rightarrow> ('d, 's) echo \<Rightarrow> ('d, 's) echo option" where
  "echo_loop_p au n buf off sz e =
     (if n = 0 then None
      else if sz < n then Some e
      else do {
        chunk \<leftarrow> mem_read buf off n;
        echo_loop_p au n buf (off + n) (sz - n) (fst (playback au chunk e))
      })"

declare echo_loop_p.simps [simp del]

definition echo_process_p ::
    "('d, 's) audio \<Rightarrow> int list \<Rightarrow> nat \<Rightarrow> ('d, 's, 'r) master_port \<Rightarrow> ('d, 's, 'r) master_port option" where
  "echo_process_p au buf sz mp =
     (case mp_echo mp of
        None \<Rightarrow> Some mp
      | Some e \<Rightarrow> map_option (\<lambda>e. mp\<lparr>mp_echo := Some e\<rparr>) (echo_loop_p au (mp_echo_samples mp) buf 0 (nat16 sz) e))"

text \<open>\<open>m_rx_preprocessor->process\<close> on the first \<open>n\<close> samples of the buffer.\<close>

definition rx_process :: "int list \<Rightarrow> nat \<Rightarrow> ('d, 's, 'r) master_port \<Rightarrow> (('d, 's, 'r) master_port \<times> int list) option" where
  "rx_process buf n mp =
     do {
       (txa, rxa) \<leftarrow> mp_agcs mp;
       data \<leftarrow> mem_read buf 0 n;
       (rxa, out) \<leftarrow> process_frame rxa data (mp_tx_power mp) False False;
       buf \<leftarrow> mem_write buf 0 (out_data out);
       Some (mp\<lparr>mp_agcs := Some (txa, rxa), mp_rx_power := out_power out\<rparr>, buf)
     }"

text \<open>
  \<open>get_frame\<close> with a resampler; \<open>fbuf\<close> is the caller's buffer. The result has the status, the type and
  the buffer.
\<close>

definition get_resampled ::
    "('d, 's) audio \<Rightarrow> ('r \<Rightarrow> int list \<Rightarrow> 'r \<times> int list) \<Rightarrow> 'r \<Rightarrow> frame_type \<Rightarrow> int list \<Rightarrow> up_frame \<Rightarrow>
     ('d, 's, 'r) master_port \<Rightarrow> (('d, 's, 'r) master_port \<times> bool \<times> frame_type \<times> int list) option" where
  "get_resampled au run_resample r ft fbuf up mp =
     (if length fbuf \<noteq> mp_rx_aud mp \<or> \<not> uf_status up then Some (mp, False, ft, fbuf)
      else if mp_rx_mute mp \<or> uf_type up \<noteq> FT_audio then
        do {
          buf \<leftarrow> mem_write (uf_data up) 0 (replicate (uf_size up div 2) 0);
          mp \<leftarrow> echo_process_p au buf (uf_size up div 2) mp;
          Some (mp, True, uf_type up, replicate (length fbuf) 0)
        }
      else if uf_size up \<noteq> mp_rx_up mp * 2 then Some (mp, False, uf_type up, fbuf)
      else
        do {
          (mp, buf) \<leftarrow> rx_process (uf_data up) (mp_rx_up mp) mp;
          mp \<leftarrow> echo_process_p au buf (uf_size up div 2) mp;
          let (r, out) = run_resample r buf;
          fbuf \<leftarrow> mem_write fbuf 0 out;
          Some (mp\<lparr>mp_rx_resample := Some r\<rparr>, True, uf_type up, fbuf)
        })"

text \<open>Without one the bridge fills the caller's buffer, which is \<open>uf_data\<close>.\<close>

definition get_direct ::
    "('d, 's) audio \<Rightarrow> frame_type \<Rightarrow> up_frame \<Rightarrow> ('d, 's, 'r) master_port \<Rightarrow>
     (('d, 's, 'r) master_port \<times> bool \<times> frame_type \<times> int list) option" where
  "get_direct au ft up mp =
     (if \<not> uf_status up then Some (mp, False, ft, uf_data up)
      else
        do {
          (mp, buf) \<leftarrow> (if mp_rx_mute mp \<or> uf_type up \<noteq> FT_audio
                       then map_option (\<lambda>buf. (mp, buf)) (mem_write (uf_data up) 0 (replicate (uf_size up div 2) 0))
                       else rx_process (uf_data up) (mp_rx_up mp) mp);
          mp \<leftarrow> echo_process_p au buf (uf_size up div 2) mp;
          Some (mp, True, uf_type up, buf)
        })"

definition get_frame ::
    "('d, 's) audio \<Rightarrow> ('r \<Rightarrow> int list \<Rightarrow> 'r \<times> int list) \<Rightarrow> frame_type \<Rightarrow> int list \<Rightarrow> up_frame \<Rightarrow>
     ('d, 's, 'r) master_port \<Rightarrow> (('d, 's, 'r) master_port \<times> bool \<times> frame_type \<times> int list) option" where
  "get_frame au run_resample ft fbuf up mp =
     (if mp_ok mp then
        do {
          let mp = mp\<lparr>mp_rx_timestamp := (mp_rx_timestamp mp + int (mp_rx_inc mp)) mod 2 ^ 64\<rparr>;
          (mp, status, ft, buf) \<leftarrow> (case mp_rx_resample mp of
                                    Some r \<Rightarrow> get_resampled au run_resample r ft fbuf up mp
                                  | None \<Rightarrow> get_direct au ft up mp);
          Some (mp, status, ft, if \<not> status \<or> ft = FT_none then replicate (length buf) 0 else buf)
        }
      else Some (mp, False, ft, replicate (length fbuf) 0))"

section \<open>The microphone's side\<close>

definition tx_process :: "int list \<Rightarrow> ('d, 's, 'r) master_port \<Rightarrow> (('d, 's, 'r) master_port \<times> int list) option" where
  "tx_process data mp =
     do {
       (txa, rxa) \<leftarrow> mp_agcs mp;
       (txa, out) \<leftarrow> process_frame txa data (mp_rx_power mp) False True;
       Some (mp\<lparr>mp_agcs := Some (txa, rxa), mp_tx_power := out_power out\<rparr>, out_data out)
     }"

text \<open>The macro \<open>echo_process_c\<close> in one go, as \<open>put_frame\<close> runs it when there is no thread.\<close>

fun echo_loop_c ::
    "('d, 's) audio \<Rightarrow> nat \<Rightarrow> int list \<Rightarrow> nat \<Rightarrow> nat \<Rightarrow> ('d, 's) echo \<Rightarrow> (('d, 's) echo \<times> int list) option" where
  "echo_loop_c au n buf off sz e =
     (if n = 0 then None
      else if sz < n then Some (e, buf)
      else do {
        chunk \<leftarrow> mem_read buf off n;
        (e, status, out) \<leftarrow> capture_begin au chunk e;
        buf \<leftarrow> mem_write buf off out;
        echo_loop_c au n buf (off + n) (sz - n) (capture_end au e)
      })"

declare echo_loop_c.simps [simp del]

definition echo_process_c ::
    "('d, 's) audio \<Rightarrow> int list \<Rightarrow> ('d, 's, 'r) master_port \<Rightarrow> (('d, 's, 'r) master_port \<times> int list) option" where
  "echo_process_c au buf mp =
     (case mp_echo mp of
        None \<Rightarrow> Some (mp, buf)
      | Some e \<Rightarrow> map_option (\<lambda>(e, buf). (mp\<lparr>mp_echo := Some e\<rparr>, buf))
                   (echo_loop_c au (mp_echo_samples mp) buf 0 (nat16 (length buf)) e))"

text \<open>
  What \<open>put_frame\<close> does with the frame after the gain control: to the thread's buffer, where a
  frame that does not fit is lost, or straight into the bridge. The result has the frames delivered,
  with their timestamps.
\<close>

definition pass_on ::
    "('d, 's) audio \<Rightarrow> int \<Rightarrow> int list \<Rightarrow> ('d, 's, 'r) master_port \<Rightarrow>
     (('d, 's, 'r) master_port \<times> (int \<times> int list) list) option" where
  "pass_on au ts buf mp =
     (if mp_put_thread mp then
        do {
          cb \<leftarrow> mp_put_buffer mp;
          (cb, status) \<leftarrow> circ_buf_write cb buf;
          Some (mp\<lparr>mp_put_buffer := Some cb\<rparr>, [])
        }
      else
        do {
          (mp, buf) \<leftarrow> echo_process_c au buf mp;
          Some (mp, [(ts, buf)])
        })"

definition put_frame ::
    "('d, 's) audio \<Rightarrow> ('r \<Rightarrow> int list \<Rightarrow> 'r \<times> int list) \<Rightarrow> int \<Rightarrow> int list \<Rightarrow> ('d, 's, 'r) master_port \<Rightarrow>
     (('d, 's, 'r) master_port \<times> (int \<times> int list) list) option" where
  "put_frame au run_resample ts frame mp =
     (if mp_tx_mute mp then Some (mp\<lparr>mp_tx_power := 0\<rparr>, [])
      else
        (case mp_tx_resample mp of
           Some r \<Rightarrow>
             if length frame = mp_tx_aud mp then
               do {
                 let ts = mp_tx_timestamp mp;
                 let mp = mp\<lparr>mp_tx_timestamp := (ts + int (mp_tx_inc mp)) mod 2 ^ 64\<rparr>;
                 let (r, buf) = run_resample r frame;
                 let mp = mp\<lparr>mp_tx_resample := Some r\<rparr>;
                 (mp, buf) \<leftarrow> tx_process buf mp;
                 pass_on au ts buf mp
               }
             else Some (mp, [])
         | None \<Rightarrow>
             if mp_agcs mp = None then None
             else if length frame = mp_tx_up mp then
               do {
                 (mp, buf) \<leftarrow> tx_process frame mp;
                 pass_on au ts buf mp
               }
             else pass_on au ts frame mp))"

text \<open>An action of \<open>put_thread_proc\<close>; \<open>frame_size\<close> has 16 bits.\<close>

definition put_thread_step ::
    "('d, 's) audio \<Rightarrow> ('d, 's, 'r) master_port \<Rightarrow> (('d, 's, 'r) master_port \<times> (int \<times> int list) list) option" where
  "put_thread_step au mp =
     (let frame_size = nat16 (mp_tx_up mp); n = mp_echo_samples mp
      in if \<not> mp_put_thread mp then Some (mp, [])
         else
           (case mp_put_state mp of
              Waiting \<Rightarrow>
                do {
                  cb \<leftarrow> mp_put_buffer mp;
                  (cb, frame) \<leftarrow> (if frame_size \<le> circ_buf_get_len cb then circ_buf_read cb frame_size else Some (cb, None));
                  Some (mp\<lparr>mp_put_buffer := Some cb,
                           mp_put_state := (case frame of
                                              None \<Rightarrow> Waiting
                                            | Some f \<Rightarrow> if mp_echo mp = None then Delivering f else Cancelling f 0 False)\<rparr>, [])
                }
            | Cancelling buf off False \<Rightarrow>
                (if n = 0 then None
                 else if frame_size - off < n then Some (mp\<lparr>mp_put_state := Delivering buf\<rparr>, [])
                 else
                   do {
                     e \<leftarrow> mp_echo mp;
                     chunk \<leftarrow> mem_read buf off n;
                     (e, status, out) \<leftarrow> capture_begin au chunk e;
                     buf \<leftarrow> mem_write buf off out;
                     Some (mp\<lparr>mp_echo := Some e, mp_put_state := Cancelling buf off True\<rparr>, [])
                   })
            | Cancelling buf off True \<Rightarrow>
                do {
                  e \<leftarrow> mp_echo mp;
                  Some (mp\<lparr>mp_echo := Some (capture_end au e), mp_put_state := Cancelling buf (off + n) False\<rparr>, [])
                }
            | Delivering buf \<Rightarrow>
                Some (mp\<lparr>mp_last_frame_ts := (mp_last_frame_ts mp + int frame_size) mod 2 ^ 64, mp_put_state := Waiting\<rparr>,
                      [(mp_last_frame_ts mp, buf)])))"

section \<open>Runs\<close>

datatype master_input =
    Get frame_type "int list" up_frame
  | Put int "int list"
  | Put_thread
  | Set_rx_mute bool
  | Set_tx_mute bool

datatype master_output = Played bool "int list" | Recorded "(int \<times> int list) list"

fun master_step ::
    "('d, 's) audio \<Rightarrow> ('r \<Rightarrow> int list \<Rightarrow> 'r \<times> int list) \<Rightarrow> ('d, 's, 'r) master_port \<Rightarrow> master_input \<Rightarrow>
     (('d, 's, 'r) master_port \<times> master_output) option" where
  "master_step au rs mp (Get ft fbuf up) = map_option (\<lambda>(mp, status, ft, buf). (mp, Played status buf)) (get_frame au rs ft fbuf up mp)"
| "master_step au rs mp (Put ts frame) = map_option (\<lambda>(mp, fs). (mp, Recorded fs)) (put_frame au rs ts frame mp)"
| "master_step au rs mp Put_thread = map_option (\<lambda>(mp, fs). (mp, Recorded fs)) (put_thread_step au mp)"
| "master_step au rs mp (Set_rx_mute b) = Some (mp\<lparr>mp_rx_mute := b\<rparr>, Recorded [])"
| "master_step au rs mp (Set_tx_mute b) = Some (mp\<lparr>mp_tx_mute := b\<rparr>, Recorded [])"

section \<open>Chunks\<close>

function chunks :: "nat \<Rightarrow> int list \<Rightarrow> int list list" where
  "chunks n xs = (if n = 0 \<or> length xs < n then [] else take n xs # chunks n (drop n xs))"
  by pat_completeness auto
termination by (relation "measure (\<lambda>(n, xs). length xs)") auto

declare chunks.simps [simp del]

definition play_all :: "('d, 's) audio \<Rightarrow> int list list \<Rightarrow> ('d, 's) echo \<Rightarrow> ('d, 's) echo" where
  "play_all au fs e = foldl (\<lambda>e f. fst (playback au f e)) e fs"

lemma echo_loop_p_chunks:
  "0 < n \<Longrightarrow> off + sz \<le> length buf \<Longrightarrow> echo_loop_p au n buf off sz e = Some (play_all au (chunks n (take sz (drop off buf))) e)"
proof (induction sz arbitrary: off e rule: less_induct)
  case (less sz)
  show ?case
  proof (cases "sz < n")
    case True
    then have "chunks n (take sz (drop off buf)) = []" by (subst chunks.simps) simp
    then show ?thesis using less.prems True by (subst echo_loop_p.simps) (simp add: play_all_def)
  next
    case False
    let ?xs = "take sz (drop off buf)"
    have r: "mem_read buf off n = Some (take n (drop off buf))" using less.prems False by (intro mem_read_in) simp
    have "take n ?xs = take n (drop off buf)" "drop n ?xs = take (sz - n) (drop (off + n) buf)"
      using False by (simp_all add: min_def drop_take add.commute)
    then have c: "chunks n ?xs = take n (drop off buf) # chunks n (take (sz - n) (drop (off + n) buf))"
      using less.prems False by (subst chunks.simps) simp
    show ?thesis
      using less.IH [of "sz - n" "off + n"] less.prems False r unfolding c
      by (subst echo_loop_p.simps) (simp add: play_all_def)
  qed
qed

lemma play_all_inv: "echo_inv cnt e \<Longrightarrow> echo_inv cnt (play_all au fs e)"
  unfolding play_all_def by (induction fs arbitrary: e) (simp_all add: playback_inv)

lemma playback_keeps [simp]:
  "ec_pending (fst (playback au f e)) = ec_pending e"
  "ec_samples (fst (playback au f e)) = ec_samples e"
  by (auto simp: playback_def Let_def split_beta)

lemma play_all_keeps [simp]:
  "ec_pending (play_all au fs e) = ec_pending e"
  "ec_samples (play_all au fs e) = ec_samples e"
  unfolding play_all_def by (induction fs arbitrary: e) simp_all

text \<open>The adaptive filter returns a frame of the size it was given.\<close>

definition cancel_length :: "('d, 's) audio \<Rightarrow> bool" where
  "cancel_length au \<longleftrightarrow> (\<forall>s f r. length (snd (au_cancel au s f r)) = length f)"

lemma capture_ok:
  assumes "cancel_length au" "echo_inv cnt e" "\<not> ec_pending e" "\<forall>s \<in> set f. is_s16 s"
  shows "\<exists>e' r out. capture_begin au f e = Some (e', r, out) \<and> echo_inv cnt e' \<and> length out = length f"
proof -
  obtain e' r out where c: "capture_begin au f e = Some (e', r, out)" "echo_inv cnt e'"
    using capture_begin_inv [OF assms(2-4), of au] by blast
  obtain x z ys where h: "highpass_frame (au_fir_sum au) (ec_hp00 e) (ec_hp0 e) f = Some (x, z, ys)" "length ys = length f"
    using highpass_frame_ok [OF _ assms(4), of "ec_hp00 e" "au_fir_sum au" "ec_hp0 e"] assms(2) by (auto simp: echo_inv_def)
  have "length out = length f"
  proof (cases "length f = ec_samples e \<and> ec_lat_ready e")
    case True
    then obtain o1 rest where l: "ec_lat_buf e = o1 # rest" using c(1) h(1) by (cases "ec_lat_buf e") (auto simp: capture_begin_def)
    have "out = snd (au_cancel au (ec_state e) ys o1)"
      using c(1) h(1) True l by (simp add: capture_begin_def Let_def split_beta)
    then show ?thesis using assms(1) h(2) by (simp add: cancel_length_def)
  next
    case False
    then have "out = f \<or> out = ys" using c(1) h(1) by (auto simp: capture_begin_def Let_def split: if_splits)
    then show ?thesis using h(2) by auto
  qed
  then show ?thesis using c by blast
qed

lemma capture_end_pending [simp]: "\<not> ec_pending (capture_end au e)"
  by (simp add: capture_end_def Let_def split_beta)

lemma echo_loop_c_ok:
  assumes au: "cancel_length au" and n: "0 < n"
  shows "echo_inv cnt e \<Longrightarrow> \<not> ec_pending e \<Longrightarrow> \<forall>s \<in> set (drop off buf). is_s16 s \<Longrightarrow> off + sz \<le> length buf \<Longrightarrow>
    \<exists>e' buf'. echo_loop_c au n buf off sz e = Some (e', buf') \<and> echo_inv cnt e' \<and> \<not> ec_pending e' \<and> length buf' = length buf"
proof (induction sz arbitrary: off e buf rule: less_induct)
  case (less sz)
  show ?case
  proof (cases "sz < n")
    case True
    then show ?thesis using less.prems n by (subst echo_loop_c.simps) simp
  next
    case False
    let ?f = "take n (drop off buf)"
    have r: "mem_read buf off n = Some ?f" using less.prems False by (intro mem_read_in) simp
    have "\<forall>s \<in> set ?f. is_s16 s" using less.prems(3) by (auto dest: in_set_takeD)
    then obtain e' st out where c: "capture_begin au ?f e = Some (e', st, out)" "echo_inv cnt e'" "length out = length ?f"
      using capture_ok [OF au less.prems(1,2), of ?f] by blast
    have lo: "length out = n" using c(3) False less.prems(4) by simp
    define buf1 where "buf1 = take off buf @ out @ drop (off + n) buf"
    have w: "mem_write buf off out = Some buf1" using lo False less.prems(4) by (simp add: mem_write_def buf1_def)
    have l1: "length buf1 = length buf" using w by (rule mem_write_length)
    have d1: "drop (off + n) buf1 = drop (off + n) buf" using lo False less.prems(4) by (simp add: buf1_def)
    have "\<exists>e'' buf'. echo_loop_c au n buf1 (off + n) (sz - n) (capture_end au e') = Some (e'', buf') \<and> echo_inv cnt e'' \<and>
        \<not> ec_pending e'' \<and> length buf' = length buf1"
    proof (rule less.IH)
      show "\<forall>s \<in> set (drop (off + n) buf1). is_s16 s"
        unfolding d1 using less.prems(3) by (metis drop_drop in_set_dropD add.commute)
    qed (use n False less.prems(4) l1 c(2) capture_end_inv in \<open>auto\<close>)
    then show ?thesis using r c(1) w n False l1 by (subst echo_loop_c.simps) simp
  qed
qed

section \<open>Every interleaving is safe\<close>

definition pending :: "('d, 's, 'r) master_port \<Rightarrow> bool" where
  "pending mp = (case mp_echo mp of None \<Rightarrow> False | Some e \<Rightarrow> ec_pending e)"

fun put_state_ok :: "nat \<Rightarrow> nat \<Rightarrow> bool \<Rightarrow> put_state \<Rightarrow> bool" where
  "put_state_ok fs n p Waiting \<longleftrightarrow> \<not> p"
| "put_state_ok fs n p (Delivering buf) \<longleftrightarrow> \<not> p \<and> length buf = fs"
| "put_state_ok fs n p (Cancelling buf off c) \<longleftrightarrow> (p \<longrightarrow> c) \<and> length buf = fs \<and> off + (if c then n else 0) \<le> fs \<and>
     (\<forall>s \<in> set (drop (off + (if c then n else 0)) buf). is_s16 s)"

text \<open>The resampler's output has the size it was made for; \<open>out_len\<close> is that size.\<close>

definition resampler_ok :: "('r \<Rightarrow> int list \<Rightarrow> 'r \<times> int list) \<Rightarrow> ('r \<Rightarrow> nat) \<Rightarrow> bool" where
  "resampler_ok rs out_len \<longleftrightarrow> (\<forall>r xs. length (snd (rs r xs)) = out_len r \<and> out_len (fst (rs r xs)) = out_len r)"

definition agcs_ok :: "(agc \<times> agc) option \<Rightarrow> bool" where
  "agcs_ok g \<longleftrightarrow> (\<exists>txa rxa. g = Some (txa, rxa) \<and> agc_inv txa \<and> agc_inv rxa)"

definition buffer_ok :: "cbuf option \<Rightarrow> bool" where
  "buffer_ok b \<longleftrightarrow> (\<exists>cb. b = Some cb \<and> cb_ok cb \<and> (\<forall>s \<in> set (cb_contents cb). is_s16 s))"

definition master_inv :: "nat \<Rightarrow> ('r \<Rightarrow> nat) \<Rightarrow> ('d, 's, 'r) master_port \<Rightarrow> bool" where
  "master_inv cnt out_len mp \<longleftrightarrow> mp_ok mp \<and> agcs_ok (mp_agcs mp) \<and>
     (\<forall>e. mp_echo mp = Some e \<longrightarrow> echo_inv cnt e \<and> 0 < mp_echo_samples mp) \<and>
     (mp_put_thread mp \<longrightarrow> mp_echo mp \<noteq> None \<and> buffer_ok (mp_put_buffer mp)) \<and>
     put_state_ok (mp_tx_up mp mod 65536) (mp_echo_samples mp) (pending mp) (mp_put_state mp) \<and>
     (\<not> mp_put_thread mp \<longrightarrow> mp_put_state mp = Waiting) \<and>
     (\<forall>r. mp_rx_resample mp = Some r \<longrightarrow> out_len r = mp_rx_aud mp)"

text \<open>
  The bridge fills a buffer of a frame and reports no more than its size; sound to be amplified has
  from 2 to 65535 samples above -32768, also after resampling.
\<close>

definition up_ok :: "('d, 's, 'r) master_port \<Rightarrow> up_frame \<Rightarrow> bool" where
  "up_ok mp up \<longleftrightarrow> length (uf_data up) = mp_rx_up mp \<and> uf_size up \<le> 2 * mp_rx_up mp \<and>
     (uf_status up \<and> uf_type up = FT_audio \<and> \<not> mp_rx_mute mp \<longrightarrow> frame_ok (uf_data up))"

fun master_ok :: "('r \<Rightarrow> int list \<Rightarrow> 'r \<times> int list) \<Rightarrow> ('d, 's, 'r) master_port \<Rightarrow> master_input \<Rightarrow> bool" where
  "master_ok rs mp (Get ft fbuf up) \<longleftrightarrow> up_ok mp up"
| "master_ok rs mp (Put ts frame) \<longleftrightarrow>
     frame_ok (case mp_tx_resample mp of None \<Rightarrow> frame | Some r \<Rightarrow> snd (rs r frame))"
| "master_ok rs mp i \<longleftrightarrow> True"

lemma echo_process_p_ok:
  assumes "\<forall>e. mp_echo mp = Some e \<longrightarrow> 0 < mp_echo_samples mp" "sz \<le> length buf"
  shows "echo_process_p au buf sz mp =
    Some (mp\<lparr>mp_echo := map_option (play_all au (chunks (mp_echo_samples mp) (take (sz mod 65536) buf))) (mp_echo mp)\<rparr>)"
proof (cases "mp_echo mp")
  case (Some e)
  have "sz mod 65536 \<le> length buf" using assms(2) mod_less_eq_dividend le_trans by blast
  then show ?thesis
    using Some assms(1) echo_loop_p_chunks [of "mp_echo_samples mp" 0 "sz mod 65536" buf au e] by (simp add: echo_process_p_def)
qed (simp add: echo_process_p_def)

lemma rx_process_ok:
  assumes "agcs_ok (mp_agcs mp)" "n = length buf" "frame_ok buf"
  shows "\<exists>g p buf'. rx_process buf n mp = Some (mp\<lparr>mp_agcs := g, mp_rx_power := p\<rparr>, buf') \<and> agcs_ok g \<and> length buf' = n"
proof -
  obtain txa rxa where g: "mp_agcs mp = Some (txa, rxa)" "agc_inv txa" "agc_inv rxa" using assms(1) by (auto simp: agcs_ok_def)
  obtain a out where p: "process_frame rxa buf (mp_tx_power mp) False False = Some (a, out)" "agc_inv a"
    "list_all2 (not_louder (f_targetLevel rxa)) buf (out_data out)"
    using process_frame_ok [OF g(3) assms(3), of "mp_tx_power mp" False False] by blast
  have "length (out_data out) = length buf" using p(3) by (simp add: list_all2_lengthD)
  then show ?thesis using g p(1,2) assms(2)
    by (intro exI [of _ "Some (txa, a)"] exI [of _ "out_power out"] exI [of _ "out_data out"])
      (simp add: rx_process_def agcs_ok_def mem_write_def)
qed

lemma tx_process_ok:
  assumes "agcs_ok (mp_agcs mp)" "frame_ok data"
  shows "\<exists>g p buf'. tx_process data mp = Some (mp\<lparr>mp_agcs := g, mp_tx_power := p\<rparr>, buf') \<and> agcs_ok g \<and>
    length buf' = length data \<and> (\<forall>s \<in> set buf'. is_s16 s)"
proof -
  obtain txa rxa where g: "mp_agcs mp = Some (txa, rxa)" "agc_inv txa" "agc_inv rxa" using assms(1) by (auto simp: agcs_ok_def)
  obtain a out where p: "process_frame txa data (mp_rx_power mp) False True = Some (a, out)" "agc_inv a"
    "list_all2 (not_louder (f_targetLevel txa)) data (out_data out)" "frame_ok (out_data out)"
    using process_frame_ok [OF g(2) assms(2), of "mp_rx_power mp" False True] by blast
  have "length (out_data out) = length data" using p(3) by (simp add: list_all2_lengthD)
  moreover have "\<forall>s \<in> set (out_data out). is_s16 s" using p(4) by (auto simp: frame_ok_def sample_ok_def is_s16_def)
  ultimately show ?thesis using g p(1,2)
    by (intro exI [of _ "Some (a, rxa)"] exI [of _ "out_power out"] exI [of _ "out_data out"])
      (simp add: tx_process_def agcs_ok_def)
qed

text \<open>What \<open>get_frame\<close> changes: the played frames are \<open>fs\<close>.\<close>

definition got :: "('d, 's) audio \<Rightarrow> int \<Rightarrow> (agc \<times> agc) option \<Rightarrow> int \<Rightarrow> 'r option \<Rightarrow> int list list \<Rightarrow>
    ('d, 's, 'r) master_port \<Rightarrow> ('d, 's, 'r) master_port" where
  "got au ts g p r fs mp =
     mp\<lparr>mp_rx_timestamp := ts, mp_agcs := g, mp_rx_power := p, mp_rx_resample := r,
        mp_echo := map_option (play_all au fs) (mp_echo mp)\<rparr>"

lemma got_idle: "got au ts (mp_agcs mp) (mp_rx_power mp) (mp_rx_resample mp) [] mp = mp\<lparr>mp_rx_timestamp := ts\<rparr>"
  by (cases "mp_echo mp") (auto simp: got_def play_all_def intro: master_port.equality)

lemma got_inv:
  assumes "master_inv cnt ol mp" "agcs_ok g" "\<forall>x. r = Some x \<longrightarrow> ol x = mp_rx_aud mp"
  shows "master_inv cnt ol (got au ts g p r fs mp)"
  using assms by (auto simp: got_def master_inv_def pending_def play_all_inv split: option.splits)

lemma get_direct_ok:
  assumes inv: "master_inv cnt ol mp" and up: "up_ok mp up" and r: "mp_rx_resample mp = None"
  shows "\<exists>g p fs ft' buf. get_direct au ft up (mp\<lparr>mp_rx_timestamp := ts\<rparr>) = Some (got au ts g p None fs mp, uf_status up, ft', buf) \<and>
    agcs_ok g \<and> length buf = mp_rx_up mp \<and> (\<not> uf_status up \<longrightarrow> fs = []) \<and>
    (uf_status up \<longrightarrow> fs = chunks (mp_echo_samples mp) (take (uf_size up div 2 mod 65536) buf) \<and>
      (ft' = FT_none \<and> uf_size up = 2 * mp_rx_up mp \<longrightarrow> buf = replicate (mp_rx_up mp) 0))"
proof (cases "uf_status up")
  case False
  then show ?thesis using inv r up got_idle [of au ts mp]
    by (intro exI [of _ "mp_agcs mp"] exI [of _ "mp_rx_power mp"] exI [of _ "[]"])
      (simp add: get_direct_def master_inv_def up_ok_def)
next
  case True
  let ?mp = "mp\<lparr>mp_rx_timestamp := ts\<rparr>"
  have e: "\<forall>e. mp_echo mp = Some e \<longrightarrow> 0 < mp_echo_samples mp" and g0: "agcs_ok (mp_agcs mp)" using inv by (simp_all add: master_inv_def)
  have sz: "uf_size up div 2 \<le> mp_rx_up mp" "length (uf_data up) = mp_rx_up mp" using up by (auto simp: up_ok_def)
  show ?thesis
  proof (cases "mp_rx_mute mp \<or> uf_type up \<noteq> FT_audio")
    case m: True
    let ?buf = "replicate (uf_size up div 2) 0 @ drop (uf_size up div 2) (uf_data up)"
    have w: "mem_write (uf_data up) 0 (replicate (uf_size up div 2) 0) = Some ?buf" using sz by (simp add: mem_write_def)
    show ?thesis using True m w sz e g0 r echo_process_p_ok [of ?mp "uf_size up div 2" ?buf au]
      by (intro exI [of _ "mp_agcs mp"] exI [of _ "mp_rx_power mp"] exI [of _ "chunks (mp_echo_samples mp) (take (uf_size up div 2 mod 65536) ?buf)"]
          exI [of _ "uf_type up"] exI [of _ ?buf]) (auto simp: get_direct_def got_def)
  next
    case m: False
    then have f: "frame_ok (uf_data up)" using up True by (simp add: up_ok_def)
    obtain g p buf where rx: "rx_process (uf_data up) (mp_rx_up mp) ?mp = Some (?mp\<lparr>mp_agcs := g, mp_rx_power := p\<rparr>, buf)" "agcs_ok g" "length buf = mp_rx_up mp"
      using rx_process_ok [of ?mp "mp_rx_up mp" "uf_data up"] g0 sz(2) f by auto
    show ?thesis using True m rx sz e r echo_process_p_ok [of "?mp\<lparr>mp_agcs := g, mp_rx_power := p\<rparr>" "uf_size up div 2" buf au]
      by (intro exI [of _ g] exI [of _ p] exI [of _ "chunks (mp_echo_samples mp) (take (uf_size up div 2 mod 65536) buf)"]
          exI [of _ "uf_type up"] exI [of _ buf]) (auto simp: get_direct_def got_def)
  qed
qed

lemma get_resampled_ok:
  assumes inv: "master_inv cnt ol mp" and up: "up_ok mp up" and r: "mp_rx_resample mp = Some r" and rs: "resampler_ok rs ol"
  shows "\<exists>g p r' fs st ft' buf. get_resampled au rs r ft fbuf up (mp\<lparr>mp_rx_timestamp := ts\<rparr>) = Some (got au ts g p (Some r') fs mp, st, ft', buf) \<and>
    agcs_ok g \<and> ol r' = mp_rx_aud mp"
proof -
  let ?mp = "mp\<lparr>mp_rx_timestamp := ts\<rparr>"
  have e: "\<forall>e. mp_echo mp = Some e \<longrightarrow> 0 < mp_echo_samples mp" and g0: "agcs_ok (mp_agcs mp)" and ol: "ol r = mp_rx_aud mp"
    using inv r by (simp_all add: master_inv_def)
  have sz: "uf_size up div 2 \<le> mp_rx_up mp" "length (uf_data up) = mp_rx_up mp" using up by (auto simp: up_ok_def)
  have idle: "mp\<lparr>mp_rx_timestamp := ts\<rparr> = got au ts (mp_agcs mp) (mp_rx_power mp) (Some r) [] mp"
    using r got_idle [of au ts mp] by simp
  consider "length fbuf \<noteq> mp_rx_aud mp \<or> \<not> uf_status up"
    | "\<not> (length fbuf \<noteq> mp_rx_aud mp \<or> \<not> uf_status up)" "mp_rx_mute mp \<or> uf_type up \<noteq> FT_audio"
    | "\<not> (length fbuf \<noteq> mp_rx_aud mp \<or> \<not> uf_status up)" "\<not> (mp_rx_mute mp \<or> uf_type up \<noteq> FT_audio)" "uf_size up \<noteq> mp_rx_up mp * 2"
    | "\<not> (length fbuf \<noteq> mp_rx_aud mp \<or> \<not> uf_status up)" "\<not> (mp_rx_mute mp \<or> uf_type up \<noteq> FT_audio)" "uf_size up = mp_rx_up mp * 2" by blast
  then show ?thesis
  proof cases
    case 1
    then have "get_resampled au rs r ft fbuf up ?mp = Some (?mp, False, ft, fbuf)" by (auto simp: get_resampled_def)
    then show ?thesis using idle g0 ol by metis
  next
    case 2
    let ?buf = "replicate (uf_size up div 2) 0 @ drop (uf_size up div 2) (uf_data up)"
    have w: "mem_write (uf_data up) 0 (replicate (uf_size up div 2) 0) = Some ?buf" using sz by (simp add: mem_write_def)
    show ?thesis using 2 w sz e g0 r ol echo_process_p_ok [of ?mp "uf_size up div 2" ?buf au]
      by (intro exI [of _ "mp_agcs mp"] exI [of _ "mp_rx_power mp"] exI [of _ r]
          exI [of _ "chunks (mp_echo_samples mp) (take (uf_size up div 2 mod 65536) ?buf)"] exI [of _ True]
          exI [of _ "uf_type up"] exI [of _ "replicate (length fbuf) 0"]) (auto simp: get_resampled_def got_def)
  next
    case 3
    then have "get_resampled au rs r ft fbuf up ?mp = Some (?mp, False, uf_type up, fbuf)" by (auto simp: get_resampled_def)
    then show ?thesis using idle g0 ol by metis
  next
    case 4
    then have f: "frame_ok (uf_data up)" using up by (simp add: up_ok_def)
    obtain g p buf where rx: "rx_process (uf_data up) (mp_rx_up mp) ?mp = Some (?mp\<lparr>mp_agcs := g, mp_rx_power := p\<rparr>, buf)" "agcs_ok g" "length buf = mp_rx_up mp"
      using rx_process_ok [of ?mp "mp_rx_up mp" "uf_data up"] g0 sz(2) f by auto
    obtain r' out where o: "rs r buf = (r', out)" by (cases "rs r buf")
    have ro: "length out = mp_rx_aud mp" "ol r' = mp_rx_aud mp" using rs o ol unfolding resampler_ok_def by (metis fst_conv snd_conv)+
    show ?thesis using 4 rx sz e o ro echo_process_p_ok [of "?mp\<lparr>mp_agcs := g, mp_rx_power := p\<rparr>" "uf_size up div 2" buf au]
      by (intro exI [of _ g] exI [of _ p] exI [of _ r'] exI [of _ "chunks (mp_echo_samples mp) (take (uf_size up div 2 mod 65536) buf)"]
          exI [of _ True] exI [of _ "uf_type up"] exI [of _ out]) (auto simp: get_resampled_def got_def mem_write_def)
  qed
qed

lemma port_get_frame_ok:
  assumes inv: "master_inv cnt ol mp" and up: "up_ok mp up" and rs: "resampler_ok rs ol"
  shows "\<exists>mp' st ft' buf. get_frame au rs ft fbuf up mp = Some (mp', st, ft', buf) \<and> master_inv cnt ol mp'"
proof -
  have ok: "mp_ok mp" using inv by (simp add: master_inv_def)
  let ?ts = "(mp_rx_timestamp mp + int (mp_rx_inc mp)) mod 2 ^ 64"
  show ?thesis
  proof (cases "mp_rx_resample mp")
    case None
    obtain g p fs ft' buf where "get_direct au ft up (mp\<lparr>mp_rx_timestamp := ?ts\<rparr>) = Some (got au ?ts g p None fs mp, uf_status up, ft', buf)" "agcs_ok g"
      using get_direct_ok [OF inv up None, of au ft ?ts] by blast
    then show ?thesis using ok None got_inv [OF inv, of g None] by (simp add: get_frame_def)
  next
    case (Some r)
    obtain g p r' fs st ft' buf where "get_resampled au rs r ft fbuf up (mp\<lparr>mp_rx_timestamp := ?ts\<rparr>) = Some (got au ?ts g p (Some r') fs mp, st, ft', buf)"
      "agcs_ok g" "ol r' = mp_rx_aud mp"
      using get_resampled_ok [OF inv up Some rs, of au ft fbuf ?ts] by blast
    then show ?thesis using ok Some got_inv [OF inv, of g "Some r'"] by (simp add: get_frame_def)
  qed
qed

text \<open>The microphone's side: \<open>mp1\<close> is the port after the gain control.\<close>

lemma pass_on_ok:
  assumes au: "cancel_length au" and inv: "master_inv cnt ol mp" and s: "\<forall>s \<in> set buf. is_s16 s"
  shows "\<exists>mp' fs. pass_on au ts buf mp = Some (mp', fs) \<and> master_inv cnt ol mp'"
proof (cases "mp_put_thread mp")
  case True
  then obtain cb where cb: "mp_put_buffer mp = Some cb" "cb_ok cb" "\<forall>s \<in> set (cb_contents cb). is_s16 s"
    using inv by (auto simp: master_inv_def buffer_ok_def)
  obtain cb' b where w: "circ_buf_write cb buf = Some (cb', b)" "cb_ok cb'"
    "cb_contents cb' = (if b then cb_contents cb @ buf else cb_contents cb)"
    using cb.wr [OF cb(2), of buf] by auto
  then have "\<forall>s \<in> set (cb_contents cb'). is_s16 s" using cb(3) s by auto
  then have "master_inv cnt ol (mp\<lparr>mp_put_buffer := Some cb'\<rparr>)"
    using inv w(2) by (auto simp: master_inv_def buffer_ok_def pending_def)
  then show ?thesis using True cb(1) w(1) by (simp add: pass_on_def)
next
  case False
  then have wait: "mp_put_state mp = Waiting" "\<not> pending mp" using inv by (auto simp: master_inv_def)
  show ?thesis
  proof (cases "mp_echo mp")
    case None
    then show ?thesis using False inv by (simp add: pass_on_def echo_process_c_def)
  next
    case (Some e)
    have e: "echo_inv cnt e" "0 < mp_echo_samples mp" "\<not> ec_pending e"
      using inv Some wait(2) by (auto simp: master_inv_def pending_def)
    have l: "0 + length buf mod 65536 \<le> length buf" by simp
    obtain e' buf' where c: "echo_loop_c au (mp_echo_samples mp) buf 0 (length buf mod 65536) e = Some (e', buf')" "echo_inv cnt e'" "\<not> ec_pending e'"
      using echo_loop_c_ok [OF au e(2,1,3) _ l] s by auto
    have "master_inv cnt ol (mp\<lparr>mp_echo := Some e'\<rparr>)"
      using inv c(2,3) e(2) wait False by (auto simp: master_inv_def pending_def)
    then show ?thesis using False Some c(1) by (simp add: pass_on_def echo_process_c_def)
  qed
qed

lemma master_inv_tx:
  assumes "master_inv cnt ol mp" "agcs_ok g"
  shows "master_inv cnt ol (mp\<lparr>mp_tx_timestamp := t, mp_tx_resample := r, mp_agcs := g, mp_tx_power := p\<rparr>)"
  using assms by (auto simp: master_inv_def pending_def)

lemma put_frame_ok:
  assumes au: "cancel_length au" and inv: "master_inv cnt ol mp" and ok: "master_ok rs mp (Put ts frame)"
  shows "\<exists>mp' fs. put_frame au rs ts frame mp = Some (mp', fs) \<and> master_inv cnt ol mp'"
proof (cases "mp_tx_mute mp")
  case True
  then show ?thesis using inv by (auto simp: put_frame_def master_inv_def pending_def)
next
  case False
  have g0: "agcs_ok (mp_agcs mp)" using inv by (simp add: master_inv_def)
  show ?thesis
  proof (cases "mp_tx_resample mp")
    case (Some r)
    show ?thesis
    proof (cases "length frame = mp_tx_aud mp")
      case len: True
      obtain r' buf where o: "rs r frame = (r', buf)" by (cases "rs r frame")
      let ?mp = "mp\<lparr>mp_tx_timestamp := (mp_tx_timestamp mp + int (mp_tx_inc mp)) mod 2 ^ 64, mp_tx_resample := Some r'\<rparr>"
      obtain g p buf' where tx: "tx_process buf ?mp = Some (?mp\<lparr>mp_agcs := g, mp_tx_power := p\<rparr>, buf')" "agcs_ok g" "\<forall>s \<in> set buf'. is_s16 s"
        using tx_process_ok [of ?mp buf] g0 ok Some o by auto
      show ?thesis
        using pass_on_ok [OF au master_inv_tx [OF inv tx(2)] tx(3)] False Some len o tx(1) by (simp add: put_frame_def Let_def)
    next
      case False
      then show ?thesis using inv Some \<open>\<not> mp_tx_mute mp\<close> by (simp add: put_frame_def)
    qed
  next
    case None
    have f: "frame_ok frame" using ok None by simp
    show ?thesis
    proof (cases "length frame = mp_tx_up mp")
      case len: True
      obtain g p buf' where tx: "tx_process frame mp = Some (mp\<lparr>mp_agcs := g, mp_tx_power := p\<rparr>, buf')" "agcs_ok g" "\<forall>s \<in> set buf'. is_s16 s"
        using tx_process_ok [OF g0 f] by blast
      have "mp\<lparr>mp_agcs := g, mp_tx_power := p\<rparr> = mp\<lparr>mp_tx_timestamp := mp_tx_timestamp mp, mp_tx_resample := mp_tx_resample mp, mp_agcs := g, mp_tx_power := p\<rparr>"
        by simp
      then have inv': "master_inv cnt ol (mp\<lparr>mp_agcs := g, mp_tx_power := p\<rparr>)" using master_inv_tx [OF inv tx(2)] by metis
      show ?thesis
        using pass_on_ok [OF au inv' tx(3)] False None len tx(1) g0 by (auto simp: put_frame_def agcs_ok_def)
    next
      case wrong: False
      have "\<forall>s \<in> set frame. is_s16 s" using f by (auto simp: frame_ok_def sample_ok_def is_s16_def)
      then show ?thesis
        using pass_on_ok [OF au inv] False None wrong g0 by (auto simp: put_frame_def agcs_ok_def)
    qed
  qed
qed

text \<open>The thread runs only with an echo canceller and a buffer.\<close>

lemma thread_parts:
  assumes "master_inv cnt ol mp" "mp_put_thread mp"
  obtains cb e where "mp_put_buffer mp = Some cb" "cb_ok cb" "\<forall>s \<in> set (cb_contents cb). is_s16 s"
    "mp_echo mp = Some e" "echo_inv cnt e" "0 < mp_echo_samples mp"
    "put_state_ok (mp_tx_up mp mod 65536) (mp_echo_samples mp) (ec_pending e) (mp_put_state mp)"
  using assms unfolding master_inv_def buffer_ok_def pending_def by (cases "mp_echo mp") auto

lemma thread_moves:
  assumes "master_inv cnt ol mp" "mp_put_thread mp" "echo_inv cnt e" "buffer_ok b"
    "put_state_ok (mp_tx_up mp mod 65536) (mp_echo_samples mp) (ec_pending e) s"
  shows "master_inv cnt ol (mp\<lparr>mp_echo := Some e, mp_put_buffer := b, mp_put_state := s, mp_last_frame_ts := t\<rparr>)"
  using assms unfolding master_inv_def pending_def by auto

lemma thread_waiting_ok:
  assumes inv: "master_inv cnt ol mp" and thread: "mp_put_thread mp" and w: "mp_put_state mp = Waiting"
  shows "\<exists>mp' fs. put_thread_step au mp = Some (mp', fs) \<and> master_inv cnt ol mp'"
proof -
  let ?fs = "mp_tx_up mp mod 65536" and ?n = "mp_echo_samples mp"
  obtain cb e where cb: "mp_put_buffer mp = Some cb" "cb_ok cb" "\<forall>s \<in> set (cb_contents cb). is_s16 s"
    and e: "mp_echo mp = Some e" "echo_inv cnt e" "put_state_ok ?fs ?n (ec_pending e) (mp_put_state mp)"
    using thread_parts [OF inv thread] by metis
  obtain cb' where r: "(if ?fs \<le> circ_buf_get_len cb then circ_buf_read cb ?fs else Some (cb, None)) =
      Some (cb', if ?fs \<le> length (cb_contents cb) then Some (take ?fs (cb_contents cb)) else None)" "cb_ok cb'"
      "cb_contents cb' = (if ?fs \<le> length (cb_contents cb) then drop ?fs (cb_contents cb) else cb_contents cb)"
    using cb.take_round [OF cb(2), of ?fs] by blast
  define s where "s = (if ?fs \<le> length (cb_contents cb) then Cancelling (take ?fs (cb_contents cb)) 0 False else Waiting)"
  have b: "buffer_ok (Some cb')" using r(2,3) cb(3) by (auto simp: buffer_ok_def dest: in_set_dropD)
  have s: "put_state_ok ?fs ?n (ec_pending e) s" using e(3) w cb(3) by (auto simp: s_def dest: in_set_takeD)
  have "put_thread_step au mp = Some (mp\<lparr>mp_put_buffer := Some cb', mp_put_state := s\<rparr>, [])"
    using thread w cb(1) r(1) e(1) by (simp add: put_thread_step_def Let_def s_def)
  moreover have "mp\<lparr>mp_put_buffer := Some cb', mp_put_state := s\<rparr> =
      mp\<lparr>mp_echo := Some e, mp_put_buffer := Some cb', mp_put_state := s, mp_last_frame_ts := mp_last_frame_ts mp\<rparr>"
    using e(1) by simp
  ultimately show ?thesis using thread_moves [OF inv thread e(2) b s, of "mp_last_frame_ts mp"] by metis
qed

lemma thread_cancel_ok:
  assumes au: "cancel_length au" and inv: "master_inv cnt ol mp" and thread: "mp_put_thread mp" and c: "mp_put_state mp = Cancelling buf off False"
  shows "\<exists>mp' fs. put_thread_step au mp = Some (mp', fs) \<and> master_inv cnt ol mp'"
proof -
  let ?fs = "mp_tx_up mp mod 65536" and ?n = "mp_echo_samples mp"
  obtain cb e where cb: "mp_put_buffer mp = Some cb" "cb_ok cb" "\<forall>s \<in> set (cb_contents cb). is_s16 s"
    and e: "mp_echo mp = Some e" "echo_inv cnt e" "put_state_ok ?fs ?n (ec_pending e) (mp_put_state mp)" "0 < ?n"
    using thread_parts [OF inv thread] by metis
  have b: "buffer_ok (mp_put_buffer mp)" using cb by (simp add: buffer_ok_def)
  have np: "\<not> ec_pending e" and l: "length buf = ?fs" "off \<le> ?fs" and s: "\<forall>s \<in> set (drop off buf). is_s16 s"
    using e(3) c by auto
  have same: "mp\<lparr>mp_echo := Some e', mp_put_state := s\<rparr> =
      mp\<lparr>mp_echo := Some e', mp_put_buffer := mp_put_buffer mp, mp_put_state := s, mp_last_frame_ts := mp_last_frame_ts mp\<rparr>" for s e'
    by simp
  show ?thesis
  proof (cases "?fs - off < ?n")
    case True
    have "put_thread_step au mp = Some (mp\<lparr>mp_echo := Some e, mp_put_state := Delivering buf\<rparr>, [])"
      using c thread True e(1,4) by (simp add: put_thread_step_def Let_def)
    moreover have "put_state_ok ?fs ?n (ec_pending e) (Delivering buf)" using np l by simp
    ultimately show ?thesis using thread_moves [OF inv thread e(2) b] same by metis
  next
    case False
    let ?f = "take ?n (drop off buf)"
    have "\<forall>s \<in> set ?f. is_s16 s" using s by (auto dest: in_set_takeD)
    then obtain e' stt out where cap: "capture_begin au ?f e = Some (e', stt, out)" "echo_inv cnt e'" "length out = length ?f"
      using capture_ok [OF au e(2) np] by blast
    have lo: "length out = ?n" "off + ?n \<le> length buf" using cap(3) False l by simp_all
    define buf1 where "buf1 = take off buf @ out @ drop (off + ?n) buf"
    have w: "mem_write buf off out = Some buf1" using lo by (simp add: mem_write_def buf1_def)
    have l1: "length buf1 = ?fs" using mem_write_length [OF w] l by simp
    have d1: "drop (off + ?n) buf1 = drop (off + ?n) buf" using lo by (simp add: buf1_def)
    have s': "\<forall>s \<in> set (drop (off + ?n) buf). is_s16 s" using s by (metis add.commute drop_drop in_set_dropD)
    have "put_state_ok ?fs ?n (ec_pending e') (Cancelling buf1 off True)" using l1 lo l s' by (simp add: d1)
    moreover have "put_thread_step au mp = Some (mp\<lparr>mp_echo := Some e', mp_put_state := Cancelling buf1 off True\<rparr>, [])"
      using c thread False e(1,4) cap(1) w mem_read_in [OF lo(2)] by (simp add: put_thread_step_def Let_def)
    ultimately show ?thesis using thread_moves [OF inv thread cap(2) b] same by metis
  qed
qed

lemma thread_capture_end_ok:
  assumes inv: "master_inv cnt ol mp" and thread: "mp_put_thread mp" and c: "mp_put_state mp = Cancelling buf off True"
  shows "\<exists>mp' fs. put_thread_step au mp = Some (mp', fs) \<and> master_inv cnt ol mp'"
proof -
  let ?fs = "mp_tx_up mp mod 65536" and ?n = "mp_echo_samples mp"
  obtain cb e where cb: "mp_put_buffer mp = Some cb" "cb_ok cb" "\<forall>s \<in> set (cb_contents cb). is_s16 s"
    and e: "mp_echo mp = Some e" "echo_inv cnt e" "put_state_ok ?fs ?n (ec_pending e) (mp_put_state mp)"
    using thread_parts [OF inv thread] by metis
  have b: "buffer_ok (mp_put_buffer mp)" using cb by (simp add: buffer_ok_def)
  have "put_state_ok ?fs ?n (ec_pending (capture_end au e)) (Cancelling buf (off + ?n) False)" using e(3) c by simp
  moreover have "put_thread_step au mp = Some (mp\<lparr>mp_echo := Some (capture_end au e), mp_put_buffer := mp_put_buffer mp,
      mp_put_state := Cancelling buf (off + ?n) False, mp_last_frame_ts := mp_last_frame_ts mp\<rparr>, [])"
    using c thread e(1) by (simp add: put_thread_step_def Let_def)
  ultimately show ?thesis using thread_moves [OF inv thread capture_end_inv [OF e(2)] b] by metis
qed

lemma thread_delivers_ok:
  assumes inv: "master_inv cnt ol mp" and thread: "mp_put_thread mp" and d: "mp_put_state mp = Delivering buf"
  shows "\<exists>mp' fs. put_thread_step au mp = Some (mp', fs) \<and> master_inv cnt ol mp'"
proof -
  let ?fs = "mp_tx_up mp mod 65536" and ?n = "mp_echo_samples mp"
  obtain cb e where cb: "mp_put_buffer mp = Some cb" "cb_ok cb" "\<forall>s \<in> set (cb_contents cb). is_s16 s"
    and e: "mp_echo mp = Some e" "echo_inv cnt e" "put_state_ok ?fs ?n (ec_pending e) (mp_put_state mp)"
    using thread_parts [OF inv thread] by metis
  have b: "buffer_ok (mp_put_buffer mp)" using cb by (simp add: buffer_ok_def)
  let ?t = "(mp_last_frame_ts mp + int ?fs) mod 2 ^ 64"
  have "put_state_ok ?fs ?n (ec_pending e) Waiting" using e(3) d by simp
  moreover have "put_thread_step au mp = Some (mp\<lparr>mp_echo := Some e, mp_put_buffer := mp_put_buffer mp,
      mp_put_state := Waiting, mp_last_frame_ts := ?t\<rparr>, [(mp_last_frame_ts mp, buf)])"
    using d thread e(1) by (simp add: put_thread_step_def Let_def)
  ultimately show ?thesis using thread_moves [OF inv thread e(2) b] by metis
qed

lemma put_thread_ok:
  assumes au: "cancel_length au" and inv: "master_inv cnt ol mp"
  shows "\<exists>mp' fs. put_thread_step au mp = Some (mp', fs) \<and> master_inv cnt ol mp'"
proof (cases "mp_put_thread mp")
  case thread: True
  show ?thesis
  proof (cases "mp_put_state mp")
    case (Cancelling buf off c)
    then show ?thesis
      using thread_cancel_ok [OF au inv thread] thread_capture_end_ok [OF inv thread] by (cases c) auto
  qed (use thread_waiting_ok [OF inv thread] thread_delivers_ok [OF inv thread] in blast)+
qed (use inv in \<open>simp add: put_thread_step_def Let_def\<close>)

lemma master_step_ok:
  assumes "cancel_length au" "resampler_ok rs ol" "master_inv cnt ol mp" "master_ok rs mp i"
  shows "\<exists>mp' out. master_step au rs mp i = Some (mp', out) \<and> master_inv cnt ol mp'"
proof (cases i)
  case (Get ft fbuf up)
  then show ?thesis using port_get_frame_ok [OF assms(3) _ assms(2), of up au ft fbuf] assms(4) by fastforce
next
  case (Put ts frame)
  then show ?thesis using put_frame_ok [OF assms(1,3), of rs ts frame] assms(4) by fastforce
next
  case Put_thread
  then show ?thesis using put_thread_ok [OF assms(1,3)] by fastforce
qed (use assms(3) in \<open>auto simp: master_inv_def pending_def\<close>)

text \<open>The parameters are fixed, so the machine's contract holds for the steps of one port.\<close>

definition port_step ::
    "('d, 's) audio \<Rightarrow> ('r \<Rightarrow> int list \<Rightarrow> 'r \<times> int list) \<Rightarrow> ('r \<Rightarrow> nat) \<Rightarrow> ('d, 's, 'r) master_port \<Rightarrow> master_input \<Rightarrow> bool" where
  "port_step au rs ol mp i \<longleftrightarrow> cancel_length au \<and> resampler_ok rs ol \<and> master_ok rs mp i"

interpretation mport: guarded_machine "master_step au rs" "master_inv cnt ol" "port_step au rs ol" for au rs cnt ol
  by unfold_locales (unfold port_step_def, blast intro: master_step_ok)

lemma port_run_ok:
  "cancel_length au \<Longrightarrow> resampler_ok rs ol \<Longrightarrow> run_ok (master_ok rs) (master_step au rs) mp is \<Longrightarrow>
   run_ok (port_step au rs ol) (master_step au rs) mp is"
  by (induction "is" arbitrary: mp) (auto simp: port_step_def split: option.splits)

section \<open>The constructor\<close>

definition gains_ok :: "gains \<Rightarrow> bool" where
  "gains_ok g \<longleftrightarrow> 2 \<le> ga_target g \<and> ga_target g \<le> 32767 \<and> 1 \<le> ga_max g \<and> ga_max g \<le> 29 \<and> 1 \<le> ga_min g"

text \<open>Everything the constructor asks for is given; clock rates are usual ones.\<close>

definition setup_ok :: "('r \<Rightarrow> nat) \<Rightarrow> 'r port_setup \<Rightarrow> bool" where
  "setup_ok ol su \<longleftrightarrow> 0 < su_rx_channels su \<and> 0 < su_tx_channels su \<and> 0 < su_tx_up su \<and> su_param_ok su \<and>
     su_buffer_ok su \<and> su_thread_ok su \<and> 100 \<le> su_tx_rate su \<and> su_tx_rate su \<le> 192000 \<and>
     (su_tx_rate su \<noteq> su_tx_aud_rate su \<longrightarrow> su_tx_resampler su \<noteq> None) \<and>
     (su_rx_rate su \<noteq> su_rx_aud_rate su \<longrightarrow> (\<exists>r. su_rx_resampler su = Some r \<and> ol r = su_rx_aud su))"

lemma new_agc_gains:
  assumes "gains_ok g"
  shows "\<exists>a. new_agc name (ga_max g) (ga_min g) (ga_target g div 2) (ga_target g) = Some a \<and> agc_inv a"
proof -
  have "0 < ga_target g div 2" "ga_target g div 2 \<le> 32767" using assms by (auto simp: gains_ok_def)
  then show ?thesis using new_agc_inv [of "ga_max g" "ga_min g" "ga_target g div 2" "ga_target g" name] assms
    by (auto simp: gains_ok_def)
qed

lemma new_echo_rate:
  assumes "100 \<le> rate" "rate \<le> 192000"
  shows "rate * PJS_ECHO_PERIOD_MS div 1000 mod 65536 = rate div 100" "0 < rate div 100"
    "\<exists>e. new_echo rate (rate div 100) latency d s = Some e \<and> 1 \<le> ec_lat_free e \<and> \<not> ec_pending e \<and> ec_samples e = rate div 100 \<and>
       ec_refs e = [] \<and> ec_lat_buf e = [] \<and> ec_delay e = d"
proof -
  have "rate * 10 div 1000 = rate div 100" by simp
  then show r: "rate * PJS_ECHO_PERIOD_MS div 1000 mod 65536 = rate div 100" using assms(2) by (simp add: PJS_ECHO_PERIOD_MS_def)
  show p: "0 < rate div 100" using assms(1) by (simp add: div_greater_zero_iff)
  have "rate = rate div 100 * 100 + rate mod 100" "rate mod 100 < 100" by simp_all
  then have "rate \<le> rate div 100 * 1000" using p by linarith
  then have "rate div 100 * 1000 div rate \<noteq> 0" using assms(1) by (simp add: div_eq_0_iff)
  then obtain e where e: "new_echo rate (rate div 100) latency d s = Some e" by (auto simp: new_echo_def Let_def)
  then have "1 \<le> ec_lat_free e" using new_echo_inv [OF e] by (simp add: echo_inv_def new_echo_def Let_def split: if_splits)
  then show "\<exists>e. new_echo rate (rate div 100) latency d s = Some e \<and> 1 \<le> ec_lat_free e \<and> \<not> ec_pending e \<and> ec_samples e = rate div 100 \<and>
       ec_refs e = [] \<and> ec_lat_buf e = [] \<and> ec_delay e = d"
    using e by (auto simp: new_echo_def Let_def split: if_splits)
qed

lemma new_master_port_ok:
  assumes su: "setup_ok ol su" and g: "gains_ok tx" "gains_ok rx"
  shows "\<exists>mp e. new_master_port su tx rx latency_ms False d s = Some mp \<and> master_inv (ec_lat_free e) ol mp \<and>
    mp_echo mp = Some e \<and> ec_refs e = [] \<and> ec_lat_buf e = [] \<and> ec_delay e = d \<and> ec_samples e = mp_echo_samples mp \<and>
    mp_rx_resample mp = (if su_rx_rate su \<noteq> su_rx_aud_rate su then su_rx_resampler su else None) \<and> mp_put_thread mp \<and>
    mp_rx_up mp = su_rx_up su \<and> mp_echo_samples mp = su_tx_rate su div 100"
proof -
  have rate: "100 \<le> su_tx_rate su" "su_tx_rate su \<le> 192000" using su by (auto simp: setup_ok_def)
  obtain e where e: "new_echo (su_tx_rate su) (su_tx_rate su div 100) latency_ms d s = Some e" "\<not> ec_pending e"
    "ec_samples e = su_tx_rate su div 100" "ec_refs e = []" "ec_lat_buf e = []" "ec_delay e = d"
    using new_echo_rate(3) [OF rate, of latency_ms d s] by (elim exE conjE) (rule that)
  obtain txa where ta: "new_agc ''tx'' (ga_max tx) (ga_min tx) (ga_target tx div 2) (ga_target tx) = Some txa" "agc_inv txa"
    using new_agc_gains [OF g(1)] by blast
  obtain rxa where ra: "new_agc ''rx'' (ga_max rx) (ga_min rx) (ga_target rx div 2) (ga_target rx) = Some rxa" "agc_inv rxa"
    using new_agc_gains [OF g(2)] by blast
  have cb: "buffer_ok (Some (circ_buf_create (su_tx_up su * 4)))"
    using circ_buf_create_ok [of "su_tx_up su * 4"] su by (simp add: buffer_ok_def setup_ok_def)
  define rr where "rr = (if su_rx_rate su \<noteq> su_rx_aud_rate su then su_rx_resampler su else None)"
  define tr where "tr = (if su_tx_rate su \<noteq> su_tx_aud_rate su then su_tx_resampler su else None)"
  define mp where "mp = \<lparr>mp_rx_mute = False, mp_tx_mute = False, mp_rx_timestamp = 0, mp_tx_timestamp = 0,
      mp_rx_inc = su_rx_up su div su_rx_channels su, mp_tx_inc = su_tx_up su div su_tx_channels su, mp_ok = True,
      mp_rx_up = su_rx_up su, mp_tx_up = su_tx_up su, mp_rx_aud = su_rx_aud su, mp_tx_aud = su_tx_aud su,
      mp_agcs = Some (txa, rxa), mp_tx_power = 0, mp_rx_power = 0, mp_rx_resample = rr, mp_tx_resample = tr,
      mp_echo = Some e, mp_echo_samples = su_tx_rate su div 100, mp_put_thread = True,
      mp_put_buffer = Some (circ_buf_create (su_tx_up su * 4)), mp_last_frame_ts = 0, mp_put_state = Waiting\<rparr>"
  have "\<not> (su_tx_rate su \<noteq> su_tx_aud_rate su \<and> su_tx_resampler su = None)"
    "\<not> (su_rx_rate su \<noteq> su_rx_aud_rate su \<and> su_rx_resampler su = None)"
    "0 < su_rx_channels su" "0 < su_tx_channels su" "su_param_ok su" "su_buffer_ok su" "su_thread_ok su"
    using su by (auto simp: setup_ok_def)
  then have new: "new_master_port su tx rx latency_ms False d s = Some mp"
    unfolding new_master_port_def mp_def rr_def tr_def
    by (simp only: Let_def nat16_mod new_echo_rate(1) [OF rate] e(1) ta(1) ra(1) if_False if_True simp_thms) simp
  have "\<forall>r. rr = Some r \<longrightarrow> ol r = su_rx_aud su" using su by (auto simp: setup_ok_def rr_def)
  then have "master_inv (ec_lat_free e) ol mp"
    using ta(2) ra(2) cb e(2) new_echo_inv [OF e(1)] new_echo_rate(2) [OF rate]
    by (simp add: master_inv_def mp_def agcs_ok_def pending_def)
  then show ?thesis using new e(3-6) rr_def by (intro exI [of _ mp] exI [of _ e]) (simp add: mp_def)
qed

section \<open>The reference is what is played\<close>

lemma chunks_length: "f \<in> set (chunks n xs) \<Longrightarrow> length f = n"
proof (induction n xs rule: chunks.induct)
  case (1 n xs)
  then show ?case by (subst (asm) (2) chunks.simps) (auto split: if_splits)
qed

lemma chunks_Nil [simp]: "chunks n [] = []"
  by (subst chunks.simps) auto

lemma chunks_append:
  assumes "0 < n" "n dvd length xs"
  shows "chunks n (xs @ ys) = chunks n xs @ chunks n ys"
proof -
  obtain k where "length xs = n * k" using assms(2) by blast
  then show ?thesis
  proof (induction k arbitrary: xs)
    case 0
    then show ?case using assms(1) by simp
  next
    case (Suc k)
    have "chunks n (xs @ ys) = take n xs # chunks n (drop n xs @ ys)"
      using Suc.prems assms(1) by (subst chunks.simps) simp
    moreover have "chunks n xs = take n xs # chunks n (drop n xs)"
      using Suc.prems assms(1) by (subst chunks.simps) simp
    ultimately show ?case using Suc.IH [of "drop n xs"] Suc.prems by simp
  qed
qed

lemma chunks_concat:
  assumes "0 < n" "n dvd length xs"
  shows "concat (chunks n xs) = xs"
proof -
  obtain k where "length xs = n * k" using assms(2) by blast
  then show ?thesis
  proof (induction k arbitrary: xs)
    case (Suc k)
    have "chunks n xs = take n xs # chunks n (drop n xs)"
      using Suc.prems assms(1) by (subst chunks.simps) simp
    then show ?case using Suc.IH [of "drop n xs"] Suc.prems by simp
  qed (use assms(1) in \<open>simp add: chunks.simps\<close>)
qed

lemma play_all_frames:
  assumes "simple_fifo au q" "\<forall>f \<in> set fs. length f = ec_samples e"
  shows "all_frames q (play_all au fs e) = all_frames q e @ fs"
  using assms(2)
proof (induction fs arbitrary: e)
  case (Cons f fs)
  have "all_frames q (fst (playback au f e)) = all_frames q e @ [f]"
    using step_frames [OF assms(1), of e "Playback f"] Cons.prems by simp
  then show ?case using Cons.IH [of "fst (playback au f e)"] Cons.prems by (simp add: play_all_def)
qed (simp add: play_all_def)

text \<open>What the loudspeaker plays in a run.\<close>

definition speaker :: "master_output list \<Rightarrow> int list" where
  "speaker outs = concat (List.map (\<lambda>out. case out of Played True buf \<Rightarrow> buf | _ \<Rightarrow> []) outs)"

text \<open>The bridge gives whole frames, and the delay buffer has a frame when the end of a capture takes one.\<close>

fun paced :: "('d \<Rightarrow> int list list) \<Rightarrow> ('d, 's, 'r) master_port \<Rightarrow> master_input \<Rightarrow> bool" where
  "paced q mp (Get ft fbuf up) \<longleftrightarrow> uf_size up = 2 * mp_rx_up mp"
| "paced q mp Put_thread \<longleftrightarrow> (case mp_echo mp of None \<Rightarrow> True | Some e \<Rightarrow> ec_pending e \<longrightarrow> q (ec_delay e) \<noteq> [])"
| "paced q mp i \<longleftrightarrow> True"

text \<open>The parameters of the port a run does not change, and the frames of its echo canceller.\<close>

definition port_frames :: "('d \<Rightarrow> int list list) \<Rightarrow> nat \<Rightarrow> nat \<Rightarrow> ('d, 's, 'r) master_port \<Rightarrow> int list list \<Rightarrow> bool" where
  "port_frames q n m mp fs \<longleftrightarrow> mp_echo_samples mp = n \<and> mp_rx_up mp = m \<and> mp_put_thread mp \<and> mp_rx_resample mp = None \<and>
     (\<exists>e. mp_echo mp = Some e \<and> ec_samples e = n \<and> all_frames q e = fs)"

lemma get_speaker:
  assumes fifo: "simple_fifo au q" and inv: "master_inv cnt ol mp" and up: "up_ok mp up" and sz: "uf_size up = 2 * mp_rx_up mp"
    and fr: "port_frames q n m mp fs" and m: "m < 65536" and run: "get_frame au rs ft fbuf up mp = Some (mp', st, ft', buf)"
  shows "port_frames q n m mp' (fs @ (if st then chunks n buf else [])) \<and> (st \<longrightarrow> length buf = m)"
proof -
  have r: "mp_rx_resample mp = None" and ok: "mp_ok mp" and mm: "mp_rx_up mp = m" "mp_echo_samples mp = n"
    using fr inv by (simp_all add: port_frames_def master_inv_def)
  obtain e where e: "mp_echo mp = Some e" "ec_samples e = n" "all_frames q e = fs" using fr by (auto simp: port_frames_def)
  let ?ts = "(mp_rx_timestamp mp + int (mp_rx_inc mp)) mod 2 ^ 64"
  obtain g p gs ft1 buf1 where d: "get_direct au ft up (mp\<lparr>mp_rx_timestamp := ?ts\<rparr>) = Some (got au ?ts g p None gs mp, uf_status up, ft1, buf1)"
    "length buf1 = m" "\<not> uf_status up \<longrightarrow> gs = []"
    "uf_status up \<longrightarrow> gs = chunks n (take (uf_size up div 2 mod 65536) buf1) \<and> (ft1 = FT_none \<and> uf_size up = 2 * m \<longrightarrow> buf1 = replicate m 0)"
    using get_direct_ok [OF inv up r, of au ft ?ts] unfolding mm by blast
  have mp': "mp' = got au ?ts g p None gs mp" "st = uf_status up" "buf = (if \<not> st \<or> ft1 = FT_none then replicate (length buf1) 0 else buf1)"
    using run ok r d(1) by (auto simp: get_frame_def Let_def)
  have gs: "gs = (if st then chunks n buf else [])"
    using d(2-4) sz m mm mp'(2,3) by (cases "ft1 = FT_none") (auto simp: mm)
  then have "\<forall>f \<in> set gs. length f = ec_samples e" using e(2) by (auto simp: chunks_length split: if_splits)
  then have "all_frames q (play_all au gs e) = fs @ gs" using play_all_frames [OF fifo] e(3) by blast
  then have "port_frames q n m mp' (fs @ gs)" using fr e mp'(1) by (simp add: port_frames_def got_def)
  then show ?thesis using gs mp'(3) d(2) by simp
qed

lemma put_keeps_echo:
  assumes "put_frame au rs ts frame mp = Some (mp', out)" "mp_put_thread mp"
  shows "mp_echo mp' = mp_echo mp \<and> mp_put_thread mp' \<and> mp_echo_samples mp' = mp_echo_samples mp \<and> mp_rx_up mp' = mp_rx_up mp \<and>
    mp_rx_resample mp' = mp_rx_resample mp"
  using assms
  by (auto simp: put_frame_def tx_process_def pass_on_def Let_def split_beta bind_eq_Some_conv split: if_splits option.splits)

lemma thread_frames:
  assumes fifo: "simple_fifo au q" and inv: "master_inv cnt ol mp" and p: "paced q mp Put_thread"
    and fr: "port_frames q n m mp fs" and run: "put_thread_step au mp = Some (mp', out)"
  shows "port_frames q n m mp' fs"
proof -
  have t: "mp_put_thread mp" and n: "mp_echo_samples mp = n" using fr by (simp_all add: port_frames_def)
  obtain e where e: "mp_echo mp = Some e" "ec_samples e = n" "all_frames q e = fs" using fr by (auto simp: port_frames_def)
  have st: "put_state_ok (mp_tx_up mp mod 65536) n (ec_pending e) (mp_put_state mp)"
    using inv e(1) n by (simp add: master_inv_def pending_def)
  show ?thesis
  proof (cases "mp_put_state mp")
    case Waiting
    then show ?thesis using run t fr by (auto simp: put_thread_step_def port_frames_def Let_def split_beta bind_eq_Some_conv)
  next
    case (Delivering buf)
    then show ?thesis using run t fr by (auto simp: put_thread_step_def port_frames_def Let_def)
  next
    case (Cancelling buf off c)
    show ?thesis
    proof (cases c)
      case True
      have "in_step q e Capture_end" using p e(1) by simp
      then have "all_frames q (capture_end au e) = fs \<and> ec_samples (capture_end au e) = n"
        using step_frames [OF fifo, of e Capture_end "capture_end au e" "[]"] e by simp
      then show ?thesis using run t fr e(1) Cancelling True by (auto simp: put_thread_step_def port_frames_def Let_def)
    next
      case False
      have np: "\<not> ec_pending e" using st Cancelling False by simp
      have step: "all_frames q e' = fs \<and> ec_samples e' = n" if "capture_begin au f e = Some (e', r, o1)" for f e' r o1
        using step_frames [OF fifo, of e "Capture_begin f" e' o1] that np e by simp
      show ?thesis using run t fr e(1) Cancelling False step
        by (auto simp: put_thread_step_def port_frames_def Let_def split_beta bind_eq_Some_conv split: if_splits)
    qed
  qed
qed

lemma step_speaker:
  assumes fifo: "simple_fifo au q" and inv: "master_inv cnt ol mp" and ok: "master_ok rs mp i" and p: "paced q mp i"
    and fr: "port_frames q n m mp fs" and m: "m < 65536" "n dvd m" and run: "master_step au rs mp i = Some (mp', out)"
  shows "port_frames q n m mp' (fs @ chunks n (speaker [out])) \<and> n dvd length (speaker [out])"
proof (cases i)
  case (Get ft fbuf up)
  then obtain st ft' buf where g: "get_frame au rs ft fbuf up mp = Some (mp', st, ft', buf)" "out = Played st buf" using run by auto
  show ?thesis
    using get_speaker [OF fifo inv _ _ fr m(1) g(1)] ok p Get g(2) m(2)
    by (cases st) (auto simp: speaker_def)
next
  case (Put ts frame)
  then show ?thesis using run put_keeps_echo [of au rs ts frame mp mp'] fr
    by (auto simp: speaker_def port_frames_def)
next
  case Put_thread
  then show ?thesis using run thread_frames [OF fifo inv _ fr] p by (auto simp: speaker_def)
qed (use run fr in \<open>auto simp: speaker_def port_frames_def\<close>)

lemma run_speaker:
  assumes fifo: "simple_fifo au q" and au: "cancel_length au" and rs: "resampler_ok rs ol" and m: "m < 65536" "n dvd m" "0 < n"
  shows "master_inv cnt ol mp \<Longrightarrow> port_frames q n m mp fs \<Longrightarrow> run_ok (\<lambda>mp i. master_ok rs mp i \<and> paced q mp i) (master_step au rs) mp is \<Longrightarrow>
    run_steps (master_step au rs) mp is = Some (mp', outs) \<Longrightarrow> port_frames q n m mp' (fs @ chunks n (speaker outs))"
proof (induction "is" arbitrary: mp fs outs)
  case Nil
  then show ?case by (simp add: speaker_def)
next
  case (Cons i "is")
  then obtain mp1 out1 outs1 where s: "master_step au rs mp i = Some (mp1, out1)" "run_steps (master_step au rs) mp1 is = Some (mp', outs1)"
    "outs = out1 # outs1" by (auto simp: bind_eq_Some_conv)
  have g: "master_ok rs mp i" "paced q mp i" using Cons.prems(3) by auto
  have one: "port_frames q n m mp1 (fs @ chunks n (speaker [out1]))" "n dvd length (speaker [out1])"
    using step_speaker [OF fifo Cons.prems(1) g Cons.prems(2) m(1,2) s(1)] by auto
  have inv1: "master_inv cnt ol mp1" using master_step_ok [OF au rs Cons.prems(1) g(1)] s(1) by auto
  have "run_ok (\<lambda>mp i. master_ok rs mp i \<and> paced q mp i) (master_step au rs) mp1 is" using Cons.prems(3) s(1) by simp
  from Cons.IH [OF inv1 one(1) this s(2)]
  have "port_frames q n m mp' (fs @ chunks n (speaker [out1]) @ chunks n (speaker outs1))" by simp
  moreover have "speaker outs = speaker [out1] @ speaker outs1" using s(3) by (simp add: speaker_def)
  ultimately show ?case using chunks_append [OF m(3) one(2), of "speaker outs1"] by simp
qed

section \<open>Properties\<close>


definition demo_setup :: "unit port_setup" where
  "demo_setup = \<lparr>su_rx_up = 2, su_tx_up = 2, su_rx_channels = 1, su_tx_channels = 1, su_rx_rate = 100, su_tx_rate = 100,
     su_param_ok = True, su_rx_aud = 2, su_tx_aud = 2, su_rx_aud_rate = 100, su_tx_aud_rate = 100, su_buffer_ok = True,
     su_thread_ok = True, su_rx_resampler = None, su_tx_resampler = None\<rparr>"

definition demo_gains :: gains where
  "demo_gains = \<lparr>ga_target = 8000, ga_max = 4, ga_min = 2\<rparr>"

definition demo_port :: "(int list list, nat, unit) master_port" where
  "demo_port = the (new_master_port demo_setup demo_gains demo_gains 10 False [] 0)"

definition demo_resample :: "unit \<Rightarrow> int list \<Rightarrow> unit \<times> int list" where
  "demo_resample r xs = ((), [0, 0])"

definition demo_up :: "frame_type \<Rightarrow> int list \<Rightarrow> up_frame" where
  "demo_up ft xs = \<lparr>uf_status = True, uf_type = ft, uf_data = xs, uf_size = 2 * length xs\<rparr>"

definition demo_master_run :: "master_input list" where
  "demo_master_run = [Get FT_audio [0, 0] (demo_up FT_audio [100, -200]), Put 0 [300, 400], Put_thread,
     Set_rx_mute True, Get FT_audio [0, 0] (demo_up FT_audio [5, 5]), Put_thread, Put_thread, Put_thread, Put_thread, Put_thread, Put_thread]"

lemma demo_setup_ok: "setup_ok (\<lambda>_. 2) demo_setup"
  by (simp add: setup_ok_def demo_setup_def)

lemma demo_gains_ok: "gains_ok demo_gains"
  by (simp add: gains_ok_def demo_gains_def)

lemma demo_audio_ok: "cancel_length demo_audio" "simple_fifo demo_audio (\<lambda>d. d)"
  by (simp_all add: cancel_length_def demo_audio_def simple_fifo_def)

lemma demo_resample_ok: "resampler_ok demo_resample (\<lambda>_. 2)"
  by (simp add: resampler_ok_def demo_resample_def)

lemma demo_port_new: "new_master_port demo_setup demo_gains demo_gains 10 False [] 0 = Some demo_port"
proof -
  obtain mp where "new_master_port demo_setup demo_gains demo_gains 10 False ([] :: int list list) (0 :: nat) = Some mp"
    using new_master_port_ok [OF demo_setup_ok demo_gains_ok demo_gains_ok, of 10 "[]" "0 :: nat"] by (elim exE conjE) (rule that)
  then show ?thesis by (simp add: demo_port_def)
qed



definition demo_port_end :: "(int list list, nat, unit) master_port" where
  "demo_port_end = fst (the (run_steps (master_step demo_audio demo_resample) demo_port demo_master_run))"

definition demo_port_outs :: "master_output list" where
  "demo_port_outs = snd (the (run_steps (master_step demo_audio demo_resample) demo_port demo_master_run))"


text \<open>
  When the sound streams cannot be asked for their parameters, or a resampler that is needed
  cannot be made, the constructor returns before it sets the pointers to the gain controls, and
  nothing tells its caller: the next recorded frame follows a pointer that was never set when
  recording needs no resampler or lacks it, and so does the destructor in every case.
\<close>

theorem incomplete_port_misused:
  assumes "new_master_port su tx rx latency_ms disable_echo d s = Some mp"
    and "\<not> su_param_ok su \<or> su_tx_rate su \<noteq> su_tx_aud_rate su \<and> su_tx_resampler su = None \<or>
      su_rx_rate su \<noteq> su_rx_aud_rate su \<and> su_rx_resampler su = None"
  shows "delete_master_port mp = None \<and> (mp_tx_resample mp = None \<longrightarrow> put_frame au rs ts frame mp = None)"
proof -
  have "mp_agcs mp = None \<and> \<not> mp_tx_mute mp"
  proof (cases "su_param_ok su")
    case False
    then show ?thesis using assms(1) by (auto simp: new_master_port_def split: if_splits)
  next
    case True
    let ?n = "su_tx_rate su * PJS_ECHO_PERIOD_MS div 1000 mod 65536"
    obtain echo where e: "(if disable_echo then Some None else map_option Some (new_echo (su_tx_rate su) ?n latency_ms d s)) = Some echo"
      using assms(1) True by (cases "if disable_echo then Some None else map_option Some (new_echo (su_tx_rate su) ?n latency_ms d s)")
        (simp_all add: new_master_port_def Let_def split: if_splits)
    show ?thesis
      using assms(1) True assms(2) unfolding new_master_port_def Let_def nat16_mod e
      by (cases "su_tx_rate su \<noteq> su_tx_aud_rate su \<and> su_tx_resampler su = None") (auto split: if_splits)
  qed
  then show ?thesis by (simp add: delete_master_port_def put_frame_def)
qed

definition demo_no_resampler :: "unit port_setup" where
  "demo_no_resampler = demo_setup\<lparr>su_rx_aud_rate := 200\<rparr>"

definition demo_incomplete :: "(int list list, nat, unit) master_port" where
  "demo_incomplete = the (new_master_port demo_no_resampler demo_gains demo_gains 10 False [] 0)"

theorem incomplete_port_misused_witness:
  "delete_master_port demo_incomplete = None \<and> put_frame demo_audio demo_resample 0 [1, 2] demo_incomplete = None"
proof -
  have "new_master_port demo_no_resampler demo_gains demo_gains 10 False ([] :: int list list) (0 :: nat) \<noteq> None" by code_simp
  then have new: "new_master_port demo_no_resampler demo_gains demo_gains 10 False [] 0 = Some demo_incomplete" by (auto simp: demo_incomplete_def)
  have "mp_tx_resample demo_incomplete = None" by code_simp
  then show ?thesis
    using incomplete_port_misused [OF new, of demo_audio demo_resample 0 "[1, 2]"] by (simp add: demo_no_resampler_def demo_setup_def)
qed

end
