(* ===== verification/Camera_Usage.thy ===== *)
theory Camera_Usage
  imports Prelude
begin

text \<open>
  When a camera runs: \<open>WAPAHTTPCamera\<close>'s StartCamera, StopCamera, Tick and InternalStopCamera
  (src/wapa_httpd/wapa_http_server.cpp). Clients call the first two, the main thread's loop the
  third, which looks at the camera's state before it takes the mutex.
\<close>

section \<open>The state and its operations\<close>

datatype camera_kind = Uvc_Camera | Zmq_Sound | Ip_Camera

text \<open>\<open>m_extra.m_type\<close>: \<open>CT_UVC\<close> is 2, \<open>CT_SOUND_ZMQ\<close> is 3.\<close>

definition make_camera :: "nat \<Rightarrow> camera_kind" where
  "make_camera type = (if type = 2 then Uvc_Camera else if type = 3 then Zmq_Sound else Ip_Camera)"

record http_camera =
  hc_type :: nat
  hc_camera :: "camera_kind option"
  hc_usage :: int
  hc_stop_time :: int

definition new_http_camera :: "nat \<Rightarrow> int \<Rightarrow> http_camera" where
  "new_http_camera type now = \<lparr>hc_type = type, hc_camera = None, hc_usage = 0, hc_stop_time = now\<rparr>"

definition start_camera :: "http_camera \<Rightarrow> http_camera" where
  "start_camera hc =
     (let hc = (if hc_camera hc = None then hc\<lparr>hc_camera := Some (make_camera (hc_type hc))\<rparr> else hc)
      in hc\<lparr>hc_usage := hc_usage hc + 1\<rparr>)"

definition stop_camera :: "http_camera \<Rightarrow> int \<Rightarrow> http_camera" where
  "stop_camera hc now =
     (let hc = hc\<lparr>hc_usage := hc_usage hc - 1\<rparr>
      in if hc_usage hc = 0 then hc\<lparr>hc_stop_time := now\<rparr> else hc)"

definition internal_stop_camera :: "http_camera \<Rightarrow> http_camera" where
  "internal_stop_camera hc = (if hc_camera hc \<noteq> None then hc\<lparr>hc_camera := None, hc_usage := 0\<rparr> else hc)"

definition CAMERA_STOP_THRESHOLD_TIME :: int where "CAMERA_STOP_THRESHOLD_TIME = 20000"

text \<open>Tick's test, which it makes without the mutex.\<close>

definition tick_test :: "http_camera \<Rightarrow> int \<Rightarrow> bool" where
  "tick_test hc now \<longleftrightarrow> hc_camera hc \<noteq> None \<and> hc_usage hc \<le> 0 \<and> CAMERA_STOP_THRESHOLD_TIME \<le> now - hc_stop_time hc"

definition tick :: "http_camera \<Rightarrow> int \<Rightarrow> http_camera" where
  "tick hc now = (if tick_test hc now then internal_stop_camera hc else hc)"

section \<open>Clients and the main thread\<close>

text \<open>
  The state with the clients between StartCamera and StopCamera, and whether Tick is between
  its test and InternalStopCamera. A tick is either undisturbed or its two halves.
\<close>

datatype usage_event = Client_Start | Client_Stop int | Whole_Tick int | Tick_Begins int | Tick_Ends

fun usage_step :: "http_camera \<times> nat \<times> bool \<Rightarrow> usage_event \<Rightarrow> http_camera \<times> nat \<times> bool" where
  "usage_step (hc, users, t) Client_Start = (start_camera hc, users + 1, t)"
| "usage_step (hc, users, t) (Client_Stop now) = (if 0 < users then (stop_camera hc now, users - 1, t) else (hc, users, t))"
| "usage_step (hc, users, t) (Whole_Tick now) = (if t then (hc, users, t) else (tick hc now, users, t))"
| "usage_step (hc, users, t) (Tick_Begins now) = (if t then (hc, users, t) else (hc, users, tick_test hc now))"
| "usage_step (hc, users, t) Tick_Ends = (if t then (internal_stop_camera hc, users, False) else (hc, users, t))"

definition usage_run :: "http_camera \<times> nat \<times> bool \<Rightarrow> usage_event list \<Rightarrow> http_camera \<times> nat \<times> bool" where
  "usage_run = foldl usage_step"

fun undisturbed :: "usage_event \<Rightarrow> bool" where
  "undisturbed (Tick_Begins now) = False"
| "undisturbed Tick_Ends = False"
| "undisturbed _ = True"

fun usage_inv :: "http_camera \<times> nat \<times> bool \<Rightarrow> bool" where
  "usage_inv (hc, users, t) \<longleftrightarrow> \<not> t \<and> hc_usage hc = int users \<and> (0 < users \<longrightarrow> hc_camera hc \<noteq> None)"

lemma usage_step_inv: "usage_inv s \<Longrightarrow> undisturbed e \<Longrightarrow> usage_inv (usage_step s e)"
  by (cases s; cases e)
    (auto simp: start_camera_def stop_camera_def tick_def tick_test_def internal_stop_camera_def Let_def)

lemma usage_run_inv: "usage_inv s \<Longrightarrow> \<forall>e \<in> set es. undisturbed e \<Longrightarrow> usage_inv (usage_run s es)"
  unfolding usage_run_def by (induction es arbitrary: s) (simp_all add: usage_step_inv)

section \<open>Properties\<close>

text \<open>As long as no client comes or goes between Tick's test and its action, the camera's use
  count is the number of clients, the camera runs while there is one, and a tick stops it only
  when there is none.\<close>

theorem camera_runs_for_clients:
  assumes "\<forall>e \<in> set es. undisturbed e" "usage_run (new_http_camera type now, 0, False) es = (hc, users, t)"
  shows "hc_usage hc = int users \<and> (0 < users \<longrightarrow> hc_camera hc \<noteq> None \<and> tick hc now' = hc)"
proof -
  have "usage_inv (new_http_camera type now, 0, False)" by (simp add: new_http_camera_def)
  from usage_run_inv [OF this assms(1)] have "usage_inv (hc, users, t)" unfolding assms(2) .
  then show ?thesis by (simp add: tick_def tick_test_def)
qed

lemma camera_runs_for_clients_witness:
  "let es = [Client_Start, Client_Stop 100, Whole_Tick 20100, Client_Start, Whole_Tick 50000];
       s = usage_run (new_http_camera 1 0, 0, False) es
   in hc_usage (fst s) = 1 \<and> hc_camera (fst s) \<noteq> None"
proof -
  let ?es = "[Client_Start, Client_Stop 100, Whole_Tick 20100, Client_Start, Whole_Tick 50000]"
  have "snd (usage_run (new_http_camera 1 0, 0, False) ?es) = (1, False)"
    by (simp add: usage_run_def tick_def tick_test_def)
  then obtain hc where run: "usage_run (new_http_camera 1 0, 0, False) ?es = (hc, 1, False)"
    by (metis prod.collapse)
  have "\<forall>e \<in> set ?es. undisturbed e" by simp
  from camera_runs_for_clients [OF this run, of 0] show ?thesis unfolding Let_def run by simp
qed

text \<open>A client comes between the halves of a tick; and a client that is there for one tick.\<close>

definition race_events :: "int \<Rightarrow> usage_event list" where
  "race_events now = [Client_Start, Client_Stop now, Tick_Begins (now + 20000), Client_Start, Tick_Ends]"

definition session_events :: "int \<Rightarrow> usage_event list" where
  "session_events now = [Client_Start, Whole_Tick (now + 20002), Client_Stop (now + 20003)]"

lemma session_repeats:
  assumes "hc_usage hc = -1" "hc_camera hc = None" "hc_stop_time hc = now"
  shows "usage_run (hc, 0, False) (concat (replicate k (session_events now))) = (hc, 0, False)"
proof (induction k)
  case (Suc k)
  have "usage_run (hc, 0, False) (session_events now) = (hc, 0, False)"
    using assms by (cases hc) (simp add: usage_run_def session_events_def start_camera_def stop_camera_def
        tick_def tick_test_def internal_stop_camera_def CAMERA_STOP_THRESHOLD_TIME_def)
  then show ?case using Suc by (simp add: usage_run_def)
qed (simp add: usage_run_def)


end
