(* ===== verification/Byte_Search.thy ===== *)
theory Byte_Search
  imports Prelude
begin

text \<open>
  The two searches with which the camera server reads HTTP headers (src/wapa_httpd/wapa_camera.cpp):
  \<open>mem_find\<close> and, without regard to case, \<open>str_caseless_find\<close>. Each looks for pat in the slen
  bytes from position s of a buffer; a pointer is a position, and None an access outside the buffer.
  One character is read before the length is tested.
\<close>

section \<open>The searches\<close>

fun mem_find :: "byte list \<Rightarrow> nat \<Rightarrow> byte list \<Rightarrow> nat \<Rightarrow> nat option option" where
  "mem_find buf s pat 0 = do { sc \<leftarrow> mem_get buf s; Some None }"
| "mem_find buf s pat (Suc slen) =
     do {
       sc \<leftarrow> mem_get buf s;
       if sc \<noteq> hd pat then mem_find buf (s + 1) pat slen
       else if slen < length pat - 1 then Some None
       else
         do {
           r \<leftarrow> mem_read buf (s + 1) (length pat - 1);
           if r = tl pat then Some (Some s) else mem_find buf (s + 1) pat slen
         }
     }"

definition to_upper :: "byte \<Rightarrow> byte" where
  "to_upper c = (if 97 \<le> c \<and> c \<le> 122 then c - 32 else c)"

text \<open>\<open>str_caseless_cmp\<close>: the difference of the first characters that differ.\<close>

fun str_caseless_cmp :: "byte list \<Rightarrow> byte list \<Rightarrow> int" where
  "str_caseless_cmp (a # as) (b # bs) =
     (let v = int (unat (to_upper a)) - int (unat (to_upper b)) in if v \<noteq> 0 then v else str_caseless_cmp as bs)"
| "str_caseless_cmp _ _ = 0"

fun str_caseless_find :: "byte list \<Rightarrow> nat \<Rightarrow> byte list \<Rightarrow> nat \<Rightarrow> nat option option" where
  "str_caseless_find buf s pat 0 = do { sc \<leftarrow> mem_get buf s; Some None }"
| "str_caseless_find buf s pat (Suc slen) =
     do {
       sc \<leftarrow> mem_get buf s;
       if to_upper sc \<noteq> to_upper (hd pat) then str_caseless_find buf (s + 1) pat slen
       else if slen < length pat - 1 then Some None
       else
         do {
           r \<leftarrow> mem_read buf (s + 1) (length pat - 1);
           if str_caseless_cmp r (tl pat) = 0 then Some (Some s) else str_caseless_find buf (s + 1) pat slen
         }
     }"

section \<open>What they pat\<close>

text \<open>The first occurrence in a text.\<close>

fun first_at :: "'a list \<Rightarrow> 'a list \<Rightarrow> nat option" where
  "first_at pat [] = None"
| "first_at pat (c # cs) = (if take (length pat) (c # cs) = pat then Some 0 else map_option Suc (first_at pat cs))"

lemma first_at_short: "length cs < length pat \<Longrightarrow> first_at pat cs = None"
  by (induction cs) auto

lemma take_drop_Cons: "s < length buf \<Longrightarrow> take (Suc n) (drop s buf) = buf ! s # take n (drop (Suc s) buf)"
  by (simp add: Cons_nth_drop_Suc [symmetric])

lemma mem_find_spec:
  assumes "pat \<noteq> []" "s + slen < length buf"
  shows "mem_find buf s pat slen = Some (map_option ((+) s) (first_at pat (take slen (drop s buf))))"
  using assms
proof (induction slen arbitrary: s)
  case 0
  then show ?case by (simp add: mem_simps)
next
  case (Suc slen)
  obtain c fs where pat: "pat = c # fs" using Suc.prems(1) by (cases pat) auto
  have s: "s < length buf" using Suc.prems(2) by simp
  have get: "mem_get buf s = Some (buf ! s)" using s by (simp add: mem_simps)
  have ih: "mem_find buf (s + 1) pat slen = Some (map_option ((+) (s + 1)) (first_at pat (take slen (drop (s + 1) buf))))"
    by (rule Suc.IH) (use Suc.prems in simp_all)
  have shift: "map_option ((+) (s + 1)) r = map_option ((+) s) (map_option Suc r)" for r by (cases r) simp_all
  have ih': "mem_find buf (Suc s) pat slen = Some (map_option ((+) s) (map_option Suc (first_at pat (take slen (drop (Suc s) buf)))))"
    using ih unfolding shift by simp
  have region: "take (Suc slen) (drop s buf) = buf ! s # take slen (drop (Suc s) buf)" using s by (rule take_drop_Cons)
  have len: "length (take slen (drop (Suc s) buf)) = slen" using Suc.prems(2) by simp
  show ?case
  proof (cases "buf ! s = c")
    case False
    then show ?thesis unfolding region using get ih' pat by simp
  next
    case True
    show ?thesis
    proof (cases "slen < length fs")
      case short: True
      have "first_at pat (take slen (drop (Suc s) buf)) = None" by (rule first_at_short) (use len short pat in simp)
      moreover have "take (length pat) (buf ! s # take slen (drop (Suc s) buf)) \<noteq> pat"
      proof
        assume "take (length pat) (buf ! s # take slen (drop (Suc s) buf)) = pat"
        then have "length (take (length pat) (buf ! s # take slen (drop (Suc s) buf))) = length pat" by simp
        then show False using len short pat by simp
      qed
      ultimately show ?thesis unfolding region using get True short pat by simp
    next
      case False
      have rd: "mem_read buf (s + 1) (length fs) = Some (take (length fs) (drop (Suc s) buf))"
        using False Suc.prems(2) by (simp add: mem_simps)
      have tk: "take (length fs) (take slen (drop (Suc s) buf)) = take (length fs) (drop (Suc s) buf)" using False by simp
      show ?thesis unfolding region using get True False pat rd tk ih' by auto
    qed
  qed
qed

lemma to_upper_eq: "int (unat (to_upper a)) - int (unat (to_upper b)) = 0 \<longleftrightarrow> to_upper a = to_upper b"
  by (metis diff_self eq_iff_diff_eq_0 of_nat_eq_iff word_unat_eq_iff)

lemma str_caseless_cmp_zero: "length as = length bs \<Longrightarrow> str_caseless_cmp as bs = 0 \<longleftrightarrow> map to_upper as = map to_upper bs"
  by (induction as bs rule: str_caseless_cmp.induct) (auto simp: Let_def to_upper_eq simp flip: to_upper_eq)

lemma caseless_is_find:
  "s + slen < length buf \<Longrightarrow> pat \<noteq> [] \<Longrightarrow>
     str_caseless_find buf s pat slen = mem_find (map to_upper buf) s (map to_upper pat) slen"
proof (induction buf s pat slen rule: str_caseless_find.induct)
  case (1 buf s pat)
  then show ?case by (simp add: mem_simps)
next
  case (2 buf s pat slen)
  have get: "mem_get buf s = Some (buf ! s)" "mem_get (map to_upper buf) s = Some (to_upper (buf ! s))"
    using "2.prems" by (simp_all add: mem_simps)
  have hd: "hd (map to_upper pat) = to_upper (hd pat)" "tl (map to_upper pat) = map to_upper (tl pat)"
    using "2.prems" by (simp_all add: hd_map map_tl)
  show ?case
  proof (cases "to_upper (buf ! s) \<noteq> to_upper (hd pat) \<or> slen < length pat - 1")
    case True
    then show ?thesis using 2 get hd by auto
  next
    case False
    have len: "s + 1 + (length pat - 1) \<le> length buf" using False "2.prems" by simp
    have rd: "mem_read buf (s + 1) (length pat - 1) = Some (take (length pat - 1) (drop (s + 1) buf))"
      "mem_read (map to_upper buf) (s + 1) (length pat - 1) = Some (map to_upper (take (length pat - 1) (drop (s + 1) buf)))"
      using len by (simp_all add: mem_simps take_map drop_map)
    have "length (take (length pat - 1) (drop (s + 1) buf)) = length (tl pat)" using len by simp
    note cmp = str_caseless_cmp_zero [OF this]
    have ih: "str_caseless_find buf (s + 1) pat slen = mem_find (map to_upper buf) (s + 1) (map to_upper pat) slen"
      if "str_caseless_cmp (take (length pat - 1) (drop (s + 1) buf)) (tl pat) \<noteq> 0"
      using "2.IH"(2) [OF get(1)] False rd(1) that "2.prems" by auto
    show ?thesis using False get hd rd cmp ih by auto
  qed
qed

text \<open>Both searches find the first occurrence in the given bytes, the second one of the text in
  any mixture of cases, whatever lies behind them, if only there is one more byte to be read.\<close>

theorem searches_find_first:
  assumes "pat \<noteq> []" "s + slen < length buf"
  shows "mem_find buf s pat slen = Some (map_option ((+) s) (first_at pat (take slen (drop s buf)))) \<and>
         str_caseless_find buf s pat slen =
           Some (map_option ((+) s) (first_at (map to_upper pat) (map to_upper (take slen (drop s buf)))))"
  using mem_find_spec [OF assms] caseless_is_find [OF assms(2,1)] mem_find_spec [of "map to_upper pat" s slen "map to_upper buf"] assms
  by (simp add: take_map drop_map)

lemma searches_find_first_witness:
  "mem_find [45, 97, 45, 45, 65, 0] 0 [45, 45] 5 = Some (map_option ((+) 0) (first_at [45, 45] (take 5 (drop 0 [45, 97, 45, 45, 65, 0 :: byte])))) \<and>
   mem_find [45, 97, 45, 45, 65, 0] 0 [45, 45] 5 = Some (Some 2)"
  using searches_find_first [of "[45, 45]" 0 5 "[45, 97, 45, 45, 65, 0]"] by simp

text \<open>With nothing found both searches read the byte after the given ones: at the very end of
  the buffer that is outside it.\<close>

theorem search_reads_past_end:
  assumes "pat \<noteq> []" "\<forall>c \<in> set buf. c \<noteq> hd pat"
  shows "mem_find buf 0 pat (length buf) = None"
proof -
  have "s + slen = length buf \<Longrightarrow> mem_find buf s pat slen = None" for s slen
  proof (induction slen arbitrary: s)
    case 0
    then show ?case by (simp add: mem_get_def)
  next
    case (Suc slen)
    have "buf ! s \<noteq> hd pat" using assms(2) Suc.prems by simp
    moreover have "mem_get buf s = Some (buf ! s)" using Suc.prems by (simp add: mem_simps)
    ultimately show ?case using Suc.IH [of "s + 1"] Suc.prems by simp
  qed
  then show ?thesis by simp
qed

lemma search_reads_past_end_witness: "mem_find [1, 2, 3] 0 [45, 45] (length [1, 2, 3 :: byte]) = None"
  by (rule search_reads_past_end) simp_all

end
