(* ===== verification/Avr_Counter.thy ===== *)
theory Avr_Counter
  imports Prelude
begin

text \<open>
  The weighted moving average of the times between pictures: \<open>avr_counter\<close>
  (src/wapa_httpd/wapa_camera.cpp). Numbers are C's int; None is an overflow, a division by zero
  or an access outside the ring of old values.
\<close>

section \<open>The counter\<close>

definition checked_int :: "int \<Rightarrow> int option" where
  "checked_int x = (if is_s32 x then Some x else None)"

record avr_counter =
  ac_total :: int
  ac_num :: int
  ac_wma_div :: int
  ac_avr :: int
  ac_len :: nat
  ac_old_values :: "int list"
  ac_old_values_pos :: nat
  ac_empty :: bool

definition avr_reset :: "avr_counter \<Rightarrow> avr_counter" where
  "avr_reset c = c\<lparr>ac_avr := 0, ac_total := 0, ac_num := 0, ac_empty := True, ac_old_values_pos := 0,
     ac_old_values := replicate (ac_len c) 0\<rparr>"

definition new_avr_counter :: "nat \<Rightarrow> avr_counter" where
  "new_avr_counter len =
     avr_reset \<lparr>ac_total = 0, ac_num = 0, ac_wma_div = sum_list (map int [1..<len + 1]), ac_avr = 0, ac_len = len,
       ac_old_values = [], ac_old_values_pos = 0, ac_empty = True\<rparr>"

definition get_divider :: int where "get_divider = 256"

definition get_raw_value :: "avr_counter \<Rightarrow> int" where "get_raw_value c = ac_avr c"

definition avr_value :: "avr_counter \<Rightarrow> int" where "avr_value c = get_raw_value c sdiv get_divider"

definition avr_add :: "avr_counter \<Rightarrow> int \<Rightarrow> avr_counter option" where
  "avr_add c value =
     do {
       value \<leftarrow> checked_int (value * get_divider);
       c \<leftarrow>
         (if ac_empty c then
            do {
              total \<leftarrow> checked_int (value * int (ac_len c));
              num \<leftarrow> checked_int (value * ac_wma_div c);
              Some (c\<lparr>ac_total := total, ac_num := num, ac_old_values := replicate (ac_len c) value, ac_avr := value\<rparr>)
            }
          else
            do {
              old \<leftarrow> mem_get (ac_old_values c) (ac_old_values_pos c);
              diff \<leftarrow> checked_int (value - old);
              total \<leftarrow> checked_int (ac_total c + diff);
              olds \<leftarrow> mem_set (ac_old_values c) (ac_old_values_pos c) value;
              let pos = ac_old_values_pos c + 1;
              let pos = (if ac_len c \<le> pos then 0 else pos);
              lv \<leftarrow> checked_int (int (ac_len c) * value);
              d \<leftarrow> checked_int (lv - total);
              num \<leftarrow> checked_int (ac_num c + d);
              if ac_wma_div c = 0 then None
              else Some (c\<lparr>ac_total := total, ac_old_values := olds, ac_old_values_pos := pos, ac_num := num,
                          ac_avr := num sdiv ac_wma_div c\<rparr>)
            });
       let c = c\<lparr>ac_empty := False\<rparr>;
       Some (if ac_avr c < 0 then c\<lparr>ac_avr := 0\<rparr> else c)
     }"

fun avr_run :: "avr_counter \<Rightarrow> int list \<Rightarrow> avr_counter option" where
  "avr_run c [] = Some c"
| "avr_run c (v # vs) = do { c \<leftarrow> avr_add c v; avr_run c vs }"

section \<open>What it computes\<close>

text \<open>The last values, oldest first, and the numerator of their weighted mean.\<close>

definition window :: "avr_counter \<Rightarrow> int list" where
  "window c = drop (ac_old_values_pos c) (ac_old_values c) @ take (ac_old_values_pos c) (ac_old_values c)"

fun weighted :: "nat \<Rightarrow> int list \<Rightarrow> int" where
  "weighted w [] = 0"
| "weighted w (x # xs) = int w * x + weighted (w + 1) xs"

lemma weighted_Suc: "weighted (Suc w) xs = weighted w xs + sum_list xs"
  by (induction xs arbitrary: w) (simp_all add: algebra_simps)

lemma weighted_append: "weighted w (xs @ ys) = weighted w xs + weighted (w + length xs) ys"
  by (induction xs arbitrary: w) simp_all

lemma weighted_slide: "weighted 1 (xs @ [v]) = weighted 1 (x # xs) - sum_list (x # xs) + int (length xs + 1) * v"
  by (simp add: weighted_append weighted_Suc algebra_simps)

lemma weighted_bounds: "\<forall>x \<in> set xs. 0 \<le> x \<and> x \<le> b \<Longrightarrow> 0 \<le> weighted w xs \<and> weighted w xs \<le> weighted w (replicate (length xs) b)"
  by (induction xs arbitrary: w) (auto intro!: add_mono mult_left_mono)

lemma sum_bounds: "\<forall>x \<in> set xs. 0 \<le> x \<and> x \<le> b \<Longrightarrow> 0 \<le> sum_list xs \<and> sum_list xs \<le> int (length xs) * b" for xs :: "int list"
  by (induction xs) (auto simp: algebra_simps)

text \<open>
  The counter with 30 values, of at most 15 seconds each. Its numerator is off by the difference
  of the first and the present sum: the code subtracts the new sum where the old one belongs.
\<close>

definition avr_inv :: "int \<Rightarrow> avr_counter \<Rightarrow> bool" where
  "avr_inv first c \<longleftrightarrow> \<not> ac_empty c \<and> ac_len c = 30 \<and> ac_wma_div c = 465 \<and>
     length (ac_old_values c) = 30 \<and> ac_old_values_pos c < 30 \<and>
     (\<forall>x \<in> set (ac_old_values c). 0 \<le> x \<and> x \<le> 3840000) \<and> 0 \<le> first \<and> first \<le> 3840000 \<and>
     ac_total c = sum_list (window c) \<and> ac_num c = weighted 1 (window c) + 30 * first - ac_total c"

lemma window_length: "length (window c) = length (ac_old_values c)"
  by (simp add: window_def)

lemma window_set: "set (window c) = set (ac_old_values c)"
  by (metis append_take_drop_id set_append sup_commute window_def)

lemma wma_div_30: "sum_list (map int [1..<30 + 1]) = 465"
  by (simp add: upt_rec)

lemma weighted_30: "weighted 1 (replicate 30 b) = 465 * b"
  by (simp add: numeral_eq_Suc)

lemma avr_first:
  assumes "0 \<le> v" "v \<le> 15000"
  shows "\<exists>c. avr_add (new_avr_counter 30) v = Some c \<and> avr_inv (256 * v) c \<and> window c = replicate 30 (256 * v) \<and> ac_avr c = 256 * v"
proof -
  have "checked_int (v * 256) = Some (v * 256)" "checked_int (v * 256 * 30) = Some (v * 256 * 30)"
    "checked_int (v * 256 * 465) = Some (v * 256 * 465)"
    using assms by (simp_all add: checked_int_def is_s32_def)
  moreover have "sum_list (replicate 30 (256 * v)) = 7680 * v" by (simp add: sum_list_replicate)
  ultimately show ?thesis
    using assms weighted_30 [of "256 * v"] wma_div_30
    by (simp add: avr_add_def new_avr_counter_def avr_reset_def get_divider_def avr_inv_def window_def mult.commute)
qed

lemma window_update:
  assumes "pos < n" "length xs = n"
  shows "\<exists>x. drop pos xs @ take pos xs = x # tl (drop pos xs @ take pos xs) \<and> x = xs ! pos \<and>
           (let pos' = (if n \<le> pos + 1 then 0 else pos + 1); ys = xs[pos := v]
            in drop pos' ys @ take pos' ys = tl (drop pos xs @ take pos xs) @ [v])"
proof -
  have d: "drop pos xs = xs ! pos # drop (Suc pos) xs" using assms by (simp add: Cons_nth_drop_Suc)
  have u: "xs[pos := v] = take pos xs @ v # drop (Suc pos) xs" using assms by (simp add: upd_conv_take_nth_drop)
  show ?thesis
  proof (cases "n \<le> pos + 1")
    case True
    then have "drop (Suc pos) xs = []" using assms by simp
    then show ?thesis using True d u by (simp add: Let_def)
  next
    case False
    then show ?thesis using d u assms by (simp add: Let_def)
  qed
qed

lemma avr_next:
  assumes inv: "avr_inv first c" and v: "0 \<le> v" "v \<le> 15000"
  shows "\<exists>c'. avr_add c v = Some c' \<and> avr_inv first c' \<and> window c' = tl (window c) @ [256 * v] \<and>
           ac_avr c' = max 0 (ac_num c' sdiv 465)"
proof -
  let ?pos = "ac_old_values_pos c" and ?olds = "ac_old_values c" and ?v = "256 * v"
  let ?pos' = "if 30 \<le> ?pos + 1 then 0 else ?pos + 1" and ?olds' = "?olds[?pos := ?v]"
  have i: "\<not> ac_empty c" "ac_len c = 30" "ac_wma_div c = 465" "length ?olds = 30" "?pos < 30"
    "\<forall>x \<in> set ?olds. 0 \<le> x \<and> x \<le> 3840000" "0 \<le> first" "first \<le> 3840000"
    "ac_total c = sum_list (window c)" "ac_num c = weighted 1 (window c) + 30 * first - ac_total c"
    using inv by (simp_all add: avr_inv_def)
  obtain x where x: "window c = x # tl (window c)" "x = ?olds ! ?pos"
    and new: "drop ?pos' ?olds' @ take ?pos' ?olds' = tl (window c) @ [?v]"
    using window_update [OF i(5,4), of ?v] by (auto simp: window_def Let_def)
  have xb: "0 \<le> x" "x \<le> 3840000" using i(4-6) x(2) by simp_all
  have olds': "\<forall>y \<in> set ?olds'. 0 \<le> y \<and> y \<le> 3840000"
    using i(6) v by (auto dest!: set_update_subset_insert [THEN subsetD])
  have len: "length (window c) = 30" "length (tl (window c)) = 29" using window_length [of c] i(4) by simp_all
  define total where "total = ac_total c + (?v - x)"
  define num where "num = ac_num c + (30 * ?v - total)"
  define w' where "w' = tl (window c) @ [?v]"
  have total: "total = sum_list w'" using i(9) x(1) by (simp add: total_def w'_def) (metis sum_list.Cons add_diff_cancel_left')
  have num: "num = weighted 1 w' + 30 * first - total"
  proof -
    have "weighted 1 w' = weighted 1 (x # tl (window c)) - sum_list (x # tl (window c)) + int (length (tl (window c)) + 1) * ?v"
      unfolding w'_def by (rule weighted_slide)
    also have "\<dots> = weighted 1 (window c) - ac_total c + 30 * ?v" using x(1) i(9) len by simp
    finally show ?thesis using i(10) by (simp add: num_def)
  qed
  have w'b: "\<forall>y \<in> set w'. 0 \<le> y \<and> y \<le> 3840000"
  proof -
    have "set (window c) = set ?olds" by (rule window_set)
    then have "set (tl (window c)) \<subseteq> set ?olds" using x(1) by (metis set_subset_Cons)
    then show ?thesis using i(6) v by (auto simp: w'_def)
  qed
  have lw: "length w' = 30" by (simp add: w'_def len)
  have tb: "0 \<le> total" "total \<le> 115200000" using sum_bounds [OF w'b] lw total by simp_all
  have wb: "0 \<le> weighted 1 w'" "weighted 1 w' \<le> 1785600000"
    using weighted_bounds [OF w'b, of 1] weighted_30 [of 3840000] lw by simp_all
  have ck: "checked_int (v * 256) = Some ?v" "checked_int (?v - x) = Some (?v - x)" "checked_int total = Some total"
    "checked_int (30 * ?v) = Some (30 * ?v)" "checked_int (30 * ?v - total) = Some (30 * ?v - total)" "checked_int num = Some num"
    using v xb tb wb num i(7,8) by (simp_all add: checked_int_def is_s32_def)
  have gs: "mem_get ?olds ?pos = Some x" "mem_set ?olds ?pos ?v = Some ?olds'" using i(4,5) x(2) by (simp_all add: mem_simps)
  let ?c = "c\<lparr>ac_total := total, ac_old_values := ?olds', ac_old_values_pos := ?pos', ac_num := num,
    ac_avr := num sdiv 465, ac_empty := False\<rparr>"
  let ?c' = "if ac_avr ?c < 0 then ?c\<lparr>ac_avr := 0\<rparr> else ?c"
  have nf: "ac_num c + (7680 * v - total) = num" by (simp add: num_def)
  have step: "avr_add c v = Some ?c'"
    unfolding avr_add_def get_divider_def ck(1)
    using i(1-3) gs ck(2-6) by (simp add: Let_def total_def [symmetric] nf)
  have win: "window ?c' = w'" using new by (simp add: window_def w'_def)
  have "avr_inv first ?c'"
    using i(2-5,7,8) olds' win total num unfolding avr_inv_def by (simp add: i(1))
  then show ?thesis using step win by (intro exI [of _ ?c']) (simp add: w'_def)
qed

lemma avr_constant:
  assumes v: "0 \<le> v" "v \<le> 15000"
  shows "avr_inv first c \<Longrightarrow> \<exists>c'. avr_run c (replicate n v) = Some c' \<and> avr_inv first c' \<and>
           window c' = drop n (window c @ replicate n (256 * v)) \<and> (0 < n \<longrightarrow> ac_avr c' = max 0 (ac_num c' sdiv 465))"
proof (induction n arbitrary: c)
  case (Suc n)
  obtain c1 where c1: "avr_add c v = Some c1" "avr_inv first c1" "window c1 = tl (window c) @ [256 * v]"
    "ac_avr c1 = max 0 (ac_num c1 sdiv 465)"
    using avr_next [OF Suc.prems v] by blast
  obtain c2 where c2: "avr_run c1 (replicate n v) = Some c2" "avr_inv first c2"
    "window c2 = drop n (window c1 @ replicate n (256 * v))" "0 < n \<longrightarrow> ac_avr c2 = max 0 (ac_num c2 sdiv 465)"
    using Suc.IH [OF c1(2)] by blast
  have ne: "window c \<noteq> []" using window_length [of c] Suc.prems by (auto simp: avr_inv_def)
  have "window c2 = drop (Suc n) (window c @ replicate (Suc n) (256 * v))"
    unfolding drop_Suc c2(3) c1(3) using tl_append2 [OF ne] by simp
  moreover have "ac_avr c2 = max 0 (ac_num c2 sdiv 465)"
    using c2(1,4) c1(4) by (cases n) simp_all
  ultimately show ?case using c1(1) c2(1,2) by simp
qed simp

section \<open>Property\<close>

text \<open>The average never gets over a first interval that differs from the rest: with a first
  interval of v0 and then any number of intervals v, at least 30, it stays at v + 2(v0 - v)/31
  (scaled by 256), because the sum is updated before it is subtracted; nothing overflows.\<close>

theorem avr_counter_biased:
  assumes "0 \<le> v0" "v0 \<le> 15000" "0 \<le> v" "v \<le> 15000" "30 \<le> n"
  shows "\<exists>c. avr_run (new_avr_counter 30) (v0 # replicate n v) = Some c \<and>
           get_raw_value c = max 0 ((465 * (256 * v) + 30 * (256 * (v0 - v))) sdiv 465)"
proof -
  obtain c1 where c1: "avr_add (new_avr_counter 30) v0 = Some c1" "avr_inv (256 * v0) c1" "window c1 = replicate 30 (256 * v0)"
    using avr_first [OF assms(1,2)] by blast
  obtain c where c: "avr_run c1 (replicate n v) = Some c" "avr_inv (256 * v0) c"
    "window c = drop n (window c1 @ replicate n (256 * v))" "ac_avr c = max 0 (ac_num c sdiv 465)"
    using avr_constant [OF assms(3,4) c1(2), of n] assms(5) by auto
  have win: "window c = replicate 30 (256 * v)" using c(3) c1(3) assms(5) by simp
  have "ac_total c = 30 * (256 * v)" using c(2) win by (simp add: avr_inv_def sum_list_replicate)
  then have "ac_num c = 465 * (256 * v) + 30 * (256 * (v0 - v))"
    using c(2) win weighted_30 [of "256 * v"] by (simp add: avr_inv_def algebra_simps)
  then show ?thesis using c1(1) c(1,4) by (simp add: get_raw_value_def)
qed

lemma avr_counter_biased_witness:
  "\<exists>c. avr_run (new_avr_counter 30) (100 # replicate 50 40) = Some c \<and> get_raw_value c = 11230"
proof -
  have "max 0 ((465 * (256 * 40) + 30 * (256 * (100 - 40))) sdiv 465) = (11230 :: int)" by (simp add: sdiv_pos)
  then show ?thesis using avr_counter_biased [of 100 40 50] by simp
qed

end
