(* ===== verification/Object_Store.thy ===== *)
theory Object_Store
  imports Prelude "HOL-Library.Multiset"
begin

text \<open>
  Dynamically allocated objects. A store holds every object ever allocated, in the order of its
  allocation; a pointer is an index, and a deleted object is None, so that a use after a delete and
  a second delete are failures of \<open>obj_put\<close>, \<open>obj_get\<close> and \<open>obj_del\<close>. Pointers are never
  reused. Memory blocks are objects of bytes, a byte that nothing has written is None.
\<close>

section \<open>Objects\<close>

type_synonym 'a store = "'a option list"

definition obj_new :: "'a \<Rightarrow> 'a store \<Rightarrow> nat \<times> 'a store" where
  "obj_new x st = (length st, st @ [Some x])"

definition obj_get :: "'a store \<Rightarrow> nat \<Rightarrow> 'a option" where
  "obj_get st p = (if p < length st then st ! p else None)"

definition obj_put :: "'a store \<Rightarrow> nat \<Rightarrow> 'a \<Rightarrow> 'a store option" where
  "obj_put st p x = (case obj_get st p of None \<Rightarrow> None | Some _ \<Rightarrow> Some (st[p := Some x]))"

definition obj_del :: "'a store \<Rightarrow> nat \<Rightarrow> 'a store option" where
  "obj_del st p = (case obj_get st p of None \<Rightarrow> None | Some _ \<Rightarrow> Some (st[p := None]))"

definition live :: "'a store \<Rightarrow> nat set" where
  "live st = {p. obj_get st p \<noteq> None}"

named_theorems obj_simps \<open>what a store holds after an operation\<close>

lemma in_live: "p \<in> live st \<longleftrightarrow> (\<exists>x. obj_get st p = Some x)"
  by (simp add: live_def)

lemma obj_get_SomeD [dest]: "obj_get st p = Some x \<Longrightarrow> p \<in> live st"
  by (simp add: live_def)

lemma obj_get_less: "obj_get st p = Some x \<Longrightarrow> p < length st \<and> st ! p = Some x"
  by (simp add: obj_get_def split: if_splits)

lemma live_less: "p \<in> live st \<Longrightarrow> p < length st"
  by (auto simp: in_live dest: obj_get_less)

lemma live_finite [simp]: "finite (live st)"
  by (rule finite_subset [of _ "{..<length st}"]) (auto dest: live_less)

lemma live_nil [simp]: "live [] = {}"
  by (simp add: live_def obj_get_def)

lemma length_not_live [simp]: "length st \<notin> live st"
  using live_less by blast

lemma obj_get_append [obj_simps]:
  "obj_get (st @ [Some x]) q = (if q = length st then Some x else obj_get st q)"
  by (simp add: obj_get_def nth_append)

lemma obj_get_update [obj_simps]:
  "p < length st \<Longrightarrow> obj_get (st[p := y]) q = (if q = p then y else obj_get st q)"
  by (auto simp: obj_get_def)

lemma obj_put_Some: "obj_put st p x = Some st' \<longleftrightarrow> p \<in> live st \<and> st' = st[p := Some x]"
  by (auto simp: obj_put_def in_live split: option.splits)

lemma obj_del_Some: "obj_del st p = Some st' \<longleftrightarrow> p \<in> live st \<and> st' = st[p := None]"
  by (auto simp: obj_del_def in_live split: option.splits)

lemma obj_put_live [obj_simps]: "p \<in> live st \<Longrightarrow> obj_put st p x = Some (st[p := Some x])"
  by (simp add: obj_put_Some)

lemma obj_del_live [obj_simps]: "p \<in> live st \<Longrightarrow> obj_del st p = Some (st[p := None])"
  by (simp add: obj_del_Some)

lemma obj_put_dead [obj_simps]: "p \<notin> live st \<Longrightarrow> obj_put st p x = None"
  by (auto simp: obj_put_def live_def)

lemma obj_del_dead [obj_simps]: "p \<notin> live st \<Longrightarrow> obj_del st p = None"
  by (auto simp: obj_del_def live_def)

lemma live_append [simp]: "live (st @ [Some x]) = insert (length st) (live st)"
  by (auto simp: in_live obj_get_append split: if_splits)

lemma obj_get_put [obj_simps]:
  "p \<in> live st \<Longrightarrow> obj_get (st[p := Some x]) q = (if q = p then Some x else obj_get st q)"
  by (simp add: obj_get_update live_less)

lemma obj_get_del [obj_simps]:
  "p \<in> live st \<Longrightarrow> obj_get (st[p := None]) q = (if q = p then None else obj_get st q)"
  by (simp add: obj_get_update live_less)

lemma live_put [obj_simps]: "p \<in> live st \<Longrightarrow> live (st[p := Some x]) = live st"
  by (auto simp: live_def obj_get_put split: if_splits)

lemma live_del [obj_simps]: "p \<in> live st \<Longrightarrow> live (st[p := None]) = live st - {p}"
  by (auto simp: live_def obj_get_del split: if_splits)

section \<open>Memory blocks\<close>

type_synonym heap = "byte option list store"

definition malloc :: "nat \<Rightarrow> heap \<Rightarrow> nat \<times> heap" where
  "malloc n h = obj_new (replicate n None) h"

definition block_write :: "heap \<Rightarrow> nat \<Rightarrow> nat \<Rightarrow> byte list \<Rightarrow> heap option" where
  "block_write h p off bs =
     do {
       b \<leftarrow> obj_get h p;
       b \<leftarrow> mem_write b off (map Some bs);
       obj_put h p b
     }"

definition block_read :: "heap \<Rightarrow> nat \<Rightarrow> nat \<Rightarrow> nat \<Rightarrow> byte list option" where
  "block_read h p off n =
     do {
       b \<leftarrow> obj_get h p;
       bs \<leftarrow> mem_read b off n;
       those bs
     }"

lemma those_map_Some [simp]: "those (map Some xs) = Some xs"
  by (induction xs) auto

lemma block_write_get:
  "obj_get h p = Some b \<Longrightarrow> off + length bs \<le> length b
    \<Longrightarrow> block_write h p off bs = Some (h[p := Some (take off b @ map Some bs @ drop (off + length bs) b)])"
  using obj_get_SomeD [of h p b] by (simp add: block_write_def mem_simps obj_simps)

lemma block_read_get:
  "obj_get h p = Some b \<Longrightarrow> take n (drop off b) = map Some bs \<Longrightarrow> off + n \<le> length b
    \<Longrightarrow> block_read h p off n = Some bs"
  by (simp add: block_read_def mem_simps)

lemma block_read_prefix:
  assumes "obj_get h p = Some b" "take n b = map Some bs" "off + k \<le> n" "n \<le> length b"
  shows "block_read h p off k = Some (take k (drop off bs))"
proof (rule block_read_get [OF assms(1)])
  have "take k (drop off b) = take k (drop off (take n b))"
    using assms(3) by (simp add: drop_take)
  then show "take k (drop off b) = map Some (take k (drop off bs))"
    by (simp add: assms(2) take_map drop_map)
qed (use assms in simp)

section \<open>References\<close>

text \<open>The references that the objects of a store hold, with multiplicity.\<close>

definition refs_of :: "('a \<Rightarrow> 'b multiset) \<Rightarrow> 'a store \<Rightarrow> 'b multiset" where
  "refs_of f st = sum_list (map (\<lambda>ob. case ob of None \<Rightarrow> {#} | Some x \<Rightarrow> f x) st)"

lemma refs_of_nil [simp]: "refs_of f [] = {#}"
  by (simp add: refs_of_def)

lemma refs_of_append [simp]: "refs_of f (st @ [Some x]) = refs_of f st + f x"
  by (simp add: refs_of_def)

lemma sum_list_split_at:
  fixes g :: "'a \<Rightarrow> 'b multiset"
  assumes "p < length xs"
  shows "sum_list (map g xs) = g (xs ! p) + sum_list (map g (take p xs @ drop (Suc p) xs))"
proof -
  have "xs = take p xs @ xs ! p # drop (Suc p) xs" using assms by (rule id_take_nth_drop)
  then have "sum_list (map g xs) = sum_list (map g (take p xs @ xs ! p # drop (Suc p) xs))" by simp
  also have "\<dots> = g (xs ! p) + sum_list (map g (take p xs @ drop (Suc p) xs))"
    by (simp add: ac_simps)
  finally show ?thesis .
qed

lemma refs_of_update:
  assumes "obj_get st p = Some x"
  shows "refs_of f (st[p := y]) + f x = refs_of f st + (case y of None \<Rightarrow> {#} | Some z \<Rightarrow> f z)"
proof -
  let ?g = "\<lambda>ob. case ob of None \<Rightarrow> {#} | Some x \<Rightarrow> f x"
  let ?rest = "sum_list (map ?g (take p st @ drop (Suc p) st))"
  have p: "p < length st" "st ! p = Some x" using obj_get_less [OF assms] by auto
  have "refs_of f st = f x + ?rest"
    unfolding refs_of_def using sum_list_split_at [of p st ?g] p by simp
  moreover have "refs_of f (st[p := y]) = ?g y + ?rest"
    unfolding refs_of_def using sum_list_split_at [of p "st[p := y]" ?g] p
    by simp
  ultimately show ?thesis by (simp add: ac_simps)
qed

lemma refs_of_put:
  "obj_get st p = Some x \<Longrightarrow> refs_of f (st[p := Some z]) + f x = refs_of f st + f z"
  using refs_of_update [of st p x f "Some z"] by simp

lemma refs_of_del:
  "obj_get st p = Some x \<Longrightarrow> refs_of f (st[p := None]) + f x = refs_of f st"
  using refs_of_update [of st p x f None] by simp

lemma refs_of_ge: "obj_get st p = Some x \<Longrightarrow> f x \<subseteq># refs_of f st"
  by (metis refs_of_del mset_subset_eq_add_right)

end
