(* ===== verification/Frame_Memory.thy ===== *)
theory Frame_Memory
  imports Object_Store
begin

text \<open>
  The memory of the camera server's frames: \<open>FrameMemoryAllocator\<close>
  (src/wapa_httpd/wapa_http_server.h), which keeps up to \<open>m_max_count\<close> freed blocks for reuse, and
  the contract of a block allocator it is shown to meet. malloc always succeeds, as the code
  assumes. Operations hold \<open>m_lock\<close>, so each is one step.
\<close>

section \<open>The allocator\<close>

record memory_holder =
  mh_size :: nat
  mh_pointer :: nat

record frame_memory =
  fm_min_size :: nat
  fm_max_count :: nat
  fm_inc_bits :: nat
  fm_array :: "memory_holder list"
  fm_free :: nat
  fm_used :: nat
  fm_miss_cnt :: nat

text \<open>unsigned int wraps around.\<close>

definition uint_wrap :: "nat \<Rightarrow> nat" where
  "uint_wrap n = n mod 4294967296"

definition uint_dec :: "nat \<Rightarrow> nat" where
  "uint_dec n = (if n = 0 then 4294967295 else n - 1)"

definition new_frame_memory :: "nat \<Rightarrow> nat \<Rightarrow> nat \<Rightarrow> frame_memory" where
  "new_frame_memory min_size max_count inc_bits =
     \<lparr>fm_min_size = min_size, fm_max_count = max_count, fm_inc_bits = inc_bits,
      fm_array = replicate max_count \<lparr>mh_size = 0, mh_pointer = 0\<rparr>,
      fm_free = max_count, fm_used = 0, fm_miss_cnt = 0\<rparr>"

fun free_holders :: "memory_holder list \<Rightarrow> heap \<Rightarrow> (memory_holder list \<times> heap) option" where
  "free_holders [] h = Some ([], h)"
| "free_holders (m # ms) h =
     (if 0 < mh_size m then
        do {
          h \<leftarrow> obj_del h (mh_pointer m);
          (ms, h) \<leftarrow> free_holders ms h;
          Some (m\<lparr>mh_size := 0\<rparr> # ms, h)
        }
      else
        do {
          (ms, h) \<leftarrow> free_holders ms h;
          Some (m # ms, h)
        })"

definition fm_reset :: "frame_memory \<Rightarrow> heap \<Rightarrow> (frame_memory \<times> heap) option" where
  "fm_reset a h =
     do {
       (arr, h) \<leftarrow> free_holders (fm_array a) h;
       Some (a\<lparr>fm_array := arr, fm_free := fm_max_count a, fm_used := 0, fm_miss_cnt := 0\<rparr>, h)
     }"

definition projected_size :: "nat \<Rightarrow> nat \<Rightarrow> nat" where
  "projected_size inc_bits n = uint_wrap ((n div 2 ^ inc_bits + 1) * 2 ^ inc_bits)"

text \<open>
  The search for the smallest kept block that is large enough, from slot i on. The last argument
  is \<open>allocated_size\<close> and, once a block has been found, its slot.
\<close>

fun find_block ::
  "nat \<Rightarrow> nat \<Rightarrow> memory_holder list \<Rightarrow> nat \<Rightarrow> nat \<Rightarrow> nat \<times> nat option \<Rightarrow> nat \<times> nat option" where
  "find_block n projected [] i used best = best"
| "find_block n projected (m # ms) i used best =
     (if used = 0 then best
      else if 0 < mh_size m then
        (if n \<le> mh_size m \<and> (fst best = 0 \<or> mh_size m < fst best) then
           (if mh_size m = projected then (mh_size m, Some i)
            else find_block n projected ms (i + 1) (used - 1) (mh_size m, Some i))
         else find_block n projected ms (i + 1) (used - 1) best)
      else find_block n projected ms (i + 1) used best)"

text \<open>The pointer, the allocated size and the new state.\<close>

definition fm_alloc :: "frame_memory \<Rightarrow> heap \<Rightarrow> nat \<Rightarrow> (nat \<times> nat \<times> frame_memory \<times> heap) option" where
  "fm_alloc a h n =
     (if fm_min_size a \<le> n then
        (let projected = projected_size (fm_inc_bits a) n in
         case find_block n projected (fm_array a) 0 (fm_used a) (0, None) of
           (allocated, Some idx) \<Rightarrow>
             Some (mh_pointer (fm_array a ! idx), allocated,
                   a\<lparr>fm_used := uint_dec (fm_used a), fm_free := fm_free a + 1,
                     fm_array := (fm_array a)[idx := (fm_array a ! idx)\<lparr>mh_size := 0\<rparr>],
                     fm_miss_cnt := 0\<rparr>, h)
         | (_, None) \<Rightarrow>
             do {
               let a = (if fm_free a = 0 then a\<lparr>fm_miss_cnt := fm_miss_cnt a + 1\<rparr> else a);
               (a, h) \<leftarrow> (if 10 < fm_miss_cnt a then fm_reset a h else Some (a, h));
               let (p, h) = malloc projected h;
               Some (p, projected, a, h)
             })
      else let (p, h) = malloc n h in Some (p, n, a, h))"

text \<open>The first free slot.\<close>

fun free_slot :: "memory_holder list \<Rightarrow> nat \<Rightarrow> nat option" where
  "free_slot [] i = None"
| "free_slot (m # ms) i = (if mh_size m = 0 then Some i else free_slot ms (i + 1))"

definition fm_free_block :: "frame_memory \<Rightarrow> heap \<Rightarrow> nat \<Rightarrow> nat \<Rightarrow> (frame_memory \<times> heap) option" where
  "fm_free_block a h p allocated =
     (if fm_min_size a \<le> allocated then
        (case (if 0 < fm_free a then free_slot (fm_array a) 0 else None) of
           Some i \<Rightarrow>
             Some (a\<lparr>fm_free := uint_dec (fm_free a), fm_used := fm_used a + 1,
                     fm_array := (fm_array a)[i := \<lparr>mh_size = allocated, mh_pointer = p\<rparr>]\<rparr>, h)
         | None \<Rightarrow> do { h \<leftarrow> obj_del h p; Some (a, h) })
      else do { h \<leftarrow> obj_del h p; Some (a, h) })"

text \<open>The destructor: what remains is freed.\<close>

definition delete_frame_memory :: "frame_memory \<Rightarrow> heap \<Rightarrow> heap option" where
  "delete_frame_memory a h = map_option snd (fm_reset a h)"

section \<open>The contract of an allocator\<close>

text \<open>
  The blocks in use are the live ones that the allocator does not keep. An allocation gives a
  block that was not in use and is large enough, a release takes one out of use, and neither
  touches another block in use.
\<close>

locale block_allocator =
  fixes alloc :: "'a \<Rightarrow> heap \<Rightarrow> nat \<Rightarrow> (nat \<times> nat \<times> 'a \<times> heap) option"
    and release :: "'a \<Rightarrow> heap \<Rightarrow> nat \<Rightarrow> nat \<Rightarrow> ('a \<times> heap) option"
    and kept :: "'a \<Rightarrow> nat set"
    and ok :: "'a \<Rightarrow> heap \<Rightarrow> bool"
    and max_request :: nat
  assumes alloc_ok:
    "ok a h \<Longrightarrow> n \<le> max_request \<Longrightarrow>
       \<exists>p m a' h' b. alloc a h n = Some (p, m, a', h') \<and> ok a' h' \<and> n \<le> m \<and>
         obj_get h' p = Some b \<and> length b = m \<and> p \<notin> live h - kept a \<and>
         live h' - kept a' = insert p (live h - kept a) \<and>
         (\<forall>q \<in> live h - kept a. obj_get h' q = obj_get h q)"
    and release_ok:
    "ok a h \<Longrightarrow> p \<notin> kept a \<Longrightarrow> obj_get h p = Some b \<Longrightarrow>
       \<exists>a' h'. release a h p (length b) = Some (a', h') \<and> ok a' h' \<and>
         live h' - kept a' = live h - kept a - {p} \<and>
         (\<forall>q \<in> live h - kept a - {p}. obj_get h' q = obj_get h q)"
    and write_ok:
    "ok a h \<Longrightarrow> p \<notin> kept a \<Longrightarrow> obj_get h p = Some b \<Longrightarrow> length b' = length b
       \<Longrightarrow> ok a (h[p := Some b'])"

text \<open>A client that takes blocks and gives back, in any order, what it holds.\<close>

datatype client_op = Take_Block nat | Give_Back nat

fun client_step ::
  "('a \<Rightarrow> heap \<Rightarrow> nat \<Rightarrow> (nat \<times> nat \<times> 'a \<times> heap) option) \<Rightarrow> ('a \<Rightarrow> heap \<Rightarrow> nat \<Rightarrow> nat \<Rightarrow> ('a \<times> heap) option)
    \<Rightarrow> 'a \<times> heap \<times> (nat \<times> nat) list \<Rightarrow> client_op \<Rightarrow> (('a \<times> heap \<times> (nat \<times> nat) list) \<times> unit) option" where
  "client_step alloc release (a, h, held) (Take_Block n) =
     do {
       (p, m, a, h) \<leftarrow> alloc a h n;
       Some ((a, h, held @ [(p, m)]), ())
     }"
| "client_step alloc release (a, h, held) (Give_Back i) =
     (if i < length held then
        do {
          (a, h) \<leftarrow> release a h (fst (held ! i)) (snd (held ! i));
          Some ((a, h, take i held @ drop (i + 1) held), ())
        }
      else Some ((a, h, held), ()))"

fun client_op_ok :: "nat \<Rightarrow> 's \<Rightarrow> client_op \<Rightarrow> bool" where
  "client_op_ok max_request s (Take_Block n) = (n \<le> max_request)"
| "client_op_ok max_request s (Give_Back i) = True"

text \<open>What the client holds is in use, each block once and with its length, and nothing else is.\<close>

definition holds :: "heap \<Rightarrow> (nat \<times> nat) list \<Rightarrow> bool" where
  "holds h held \<longleftrightarrow> distinct (map fst held) \<and>
     (\<forall>(p, m) \<in> set held. \<exists>b. obj_get h p = Some b \<and> length b = m)"

lemma holds_nth:
  assumes "holds h held" "i < length held"
  shows "\<exists>b. obj_get h (fst (held ! i)) = Some b \<and> length b = snd (held ! i)"
proof -
  obtain p m where pm: "held ! i = (p, m)" by (cases "held ! i")
  have "(p, m) \<in> set held" using assms(2) pm by (metis nth_mem)
  then show ?thesis using assms(1) pm unfolding holds_def by fastforce
qed

lemma holds_subset:
  assumes "holds h held" "set r \<subseteq> set held" "distinct (map fst r)"
  shows "holds h r"
  unfolding holds_def
proof (intro conjI ballI)
  fix x assume "x \<in> set r"
  then have "x \<in> set held" using assms(2) by blast
  then show "case x of (p, m) \<Rightarrow> \<exists>b. obj_get h p = Some b \<and> length b = m"
    using assms(1) unfolding holds_def by fast
qed (rule assms(3))

context block_allocator
begin

definition client_inv :: "'a \<times> heap \<times> (nat \<times> nat) list \<Rightarrow> bool" where
  "client_inv s = (case s of (a, h, held) \<Rightarrow>
     ok a h \<and> holds h held \<and> live h - kept a = fst ` set held)"

lemma client_invI:
  "ok a h \<Longrightarrow> holds h held \<Longrightarrow> live h - kept a = fst ` set held \<Longrightarrow> client_inv (a, h, held)"
  by (simp add: client_inv_def)

lemma holds_cong:
  "holds h held \<Longrightarrow> \<forall>q \<in> fst ` set held. obj_get h' q = obj_get h q \<Longrightarrow> holds h' held"
  unfolding holds_def by fastforce

lemma take_inv:
  assumes "client_inv (a, h, held)" "n \<le> max_request"
  shows "\<exists>s'. client_step alloc release (a, h, held) (Take_Block n) = Some (s', ()) \<and> client_inv s'"
proof -
  have inv: "ok a h" "holds h held" "live h - kept a = fst ` set held"
    using assms(1) by (simp_all add: client_inv_def)
  obtain p m a' h' b where new: "alloc a h n = Some (p, m, a', h')" "ok a' h'"
    "obj_get h' p = Some b" "length b = m" "p \<notin> fst ` set held"
    "live h' - kept a' = insert p (fst ` set held)" "\<forall>q \<in> fst ` set held. obj_get h' q = obj_get h q"
    using alloc_ok [OF inv(1) assms(2)] unfolding inv(3) by (elim exE conjE) (rule that)
  have "holds h' held" using holds_cong [OF inv(2) new(7)] .
  then have "holds h' (held @ [(p, m)])" using new(3-5) by (auto simp: holds_def)
  then have "client_inv (a', h', held @ [(p, m)])"
    using new(2,6) by (intro client_invI) auto
  then show ?thesis by (simp add: new(1))
qed

lemma distinct_give_back:
  assumes "distinct (map fst held)" "i < length held"
  shows "fst ` set (take i held @ drop (i + 1) held) = fst ` set held - {fst (held ! i)}"
    and "distinct (map fst (take i held @ drop (i + 1) held))"
proof -
  have split: "map fst held = map fst (take i held) @ fst (held ! i) # map fst (drop (i + 1) held)"
    using id_take_nth_drop [OF assms(2)] by (metis list.simps(9) map_append Suc_eq_plus1)
  have d: "distinct (map fst (take i held) @ fst (held ! i) # map fst (drop (i + 1) held))"
    using assms(1) split by simp
  have "fst ` set held = set (map fst held)" by simp
  also have "\<dots> = insert (fst (held ! i)) (set (map fst (take i held)) \<union> set (map fst (drop (i + 1) held)))"
    unfolding split by simp
  finally have set: "fst ` set held =
    insert (fst (held ! i)) (set (map fst (take i held)) \<union> set (map fst (drop (i + 1) held)))" .
  show "fst ` set (take i held @ drop (i + 1) held) = fst ` set held - {fst (held ! i)}"
    unfolding set using d by auto
  show "distinct (map fst (take i held @ drop (i + 1) held))" using d by simp
qed

lemma give_back_inv:
  assumes "client_inv (a, h, held)"
  shows "\<exists>s'. client_step alloc release (a, h, held) (Give_Back i) = Some (s', ()) \<and> client_inv s'"
proof (cases "i < length held")
  case True
  have inv: "ok a h" "holds h held" "live h - kept a = fst ` set held"
    using assms by (simp_all add: client_inv_def)
  let ?p = "fst (held ! i)" and ?rest = "take i held @ drop (i + 1) held"
  obtain b where b: "obj_get h ?p = Some b" "length b = snd (held ! i)"
    using holds_nth [OF inv(2) True] by blast
  have "?p \<in> fst ` set held" using True by simp
  then have p: "?p \<notin> kept a" using inv(3) by blast
  obtain a' h' where rel: "release a h ?p (length b) = Some (a', h')" "ok a' h'"
    "live h' - kept a' = fst ` set held - {?p}" "\<forall>q \<in> fst ` set held - {?p}. obj_get h' q = obj_get h q"
    using release_ok [OF inv(1) p b(1)] unfolding inv(3) by (elim exE conjE) (rule that)
  have dist: "distinct (map fst held)" using inv(2) by (simp add: holds_def)
  note rest = distinct_give_back [OF dist True]
  have "set ?rest \<subseteq> set held" by (auto dest: in_set_takeD in_set_dropD)
  then have "holds h ?rest" using holds_subset [OF inv(2)] rest(2) by blast
  then have "holds h' ?rest" by (rule holds_cong) (use rel(4) rest(1) in simp)
  then have "client_inv (a', h', ?rest)" using rel(2,3) rest(1) by (intro client_invI) auto
  then show ?thesis using rel(1) b(2) True by simp
next
  case False
  then show ?thesis using assms by simp
qed

lemma client_step_safe:
  assumes "client_inv s" "client_op_ok max_request s op"
  shows "\<exists>s' out. client_step alloc release s op = Some (s', out) \<and> client_inv s'"
proof (cases s)
  case (fields a h held)
  then show ?thesis
    using assms take_inv [of a h held] give_back_inv [of a h held] by (cases op) auto
qed

end

sublocale block_allocator \<subseteq> client: guarded_machine "client_step alloc release" client_inv
  "client_op_ok max_request"
  by unfold_locales (rule client_step_safe)

section \<open>The allocator meets the contract\<close>

definition kept_list :: "memory_holder list \<Rightarrow> nat list" where
  "kept_list ms = map mh_pointer (filter (\<lambda>m. 0 < mh_size m) ms)"

definition kept :: "frame_memory \<Rightarrow> nat set" where
  "kept a = set (kept_list (fm_array a))"

definition blocks_kept :: "memory_holder list \<Rightarrow> heap \<Rightarrow> bool" where
  "blocks_kept ms h \<longleftrightarrow> distinct (kept_list ms) \<and>
     (\<forall>m \<in> set ms. 0 < mh_size m \<longrightarrow> (\<exists>b. obj_get h (mh_pointer m) = Some b \<and> length b = mh_size m))"

definition fm_ok :: "frame_memory \<Rightarrow> heap \<Rightarrow> bool" where
  "fm_ok a h \<longleftrightarrow> blocks_kept (fm_array a) h \<and> length (fm_array a) = fm_max_count a \<and>
     fm_used a = length (kept_list (fm_array a)) \<and> fm_free a + fm_used a = fm_max_count a \<and>
     0 < fm_min_size a \<and> fm_inc_bits a \<le> 15 \<and> fm_miss_cnt a \<le> 10"

lemma kept_list_simps [simp]:
  "kept_list [] = []"
  "kept_list (m # ms) = (if 0 < mh_size m then mh_pointer m # kept_list ms else kept_list ms)"
  "kept_list (xs @ ys) = kept_list xs @ kept_list ys"
  by (simp_all add: kept_list_def)

lemma kept_list_replicate [simp]: "kept_list (replicate n \<lparr>mh_size = 0, mh_pointer = p\<rparr>) = []"
  by (induction n) auto

lemma kept_list_split:
  assumes "i < length ms"
  shows "kept_list (ms[i := m]) = kept_list (take i ms) @ kept_list [m] @ kept_list (drop (i + 1) ms)"
  and "kept_list ms = kept_list (take i ms) @ kept_list [ms ! i] @ kept_list (drop (i + 1) ms)"
proof -
  show "kept_list (ms[i := m]) = kept_list (take i ms) @ kept_list [m] @ kept_list (drop (i + 1) ms)"
    using upd_conv_take_nth_drop [OF assms, of m] kept_list_simps(3) by (metis Suc_eq_plus1 append_Cons append_Nil)
  show "kept_list ms = kept_list (take i ms) @ kept_list [ms ! i] @ kept_list (drop (i + 1) ms)"
    using id_take_nth_drop [OF assms] kept_list_simps(3) by (metis Suc_eq_plus1 append_Cons append_Nil)
qed

lemma blocks_kept_live: "blocks_kept ms h \<Longrightarrow> p \<in> set (kept_list ms) \<Longrightarrow> p \<in> live h"
  by (auto simp: blocks_kept_def kept_list_def)

lemma blocks_kept_cong:
  "blocks_kept ms h \<Longrightarrow> \<forall>q \<in> set (kept_list ms). obj_get h' q = obj_get h q \<Longrightarrow> blocks_kept ms h'"
  by (auto simp: blocks_kept_def kept_list_def)

lemma fm_ok_cong:
  "fm_ok a h \<Longrightarrow> \<forall>q \<in> kept a. obj_get h' q = obj_get h q \<Longrightarrow> fm_ok a h'"
  unfolding fm_ok_def kept_def using blocks_kept_cong by blast

lemma fm_write_ok:
  assumes "fm_ok a h" "p \<notin> kept a" "obj_get h p = Some b"
  shows "fm_ok a (h[p := Some b'])"
  using assms(1) by (rule fm_ok_cong) (use assms(2,3) in \<open>auto simp: obj_simps dest!: obj_get_SomeD\<close>)

subsection \<open>The searches\<close>

lemma find_block_result:
  "find_block n pr ms i used best = r \<Longrightarrow>
     r = best \<or> (\<exists>j < length ms. r = (mh_size (ms ! j), Some (i + j)) \<and> 0 < mh_size (ms ! j) \<and> n \<le> mh_size (ms ! j))"
proof (induction n pr ms i used best rule: find_block.induct)
  case (2 n pr m ms i used best)
  have shift: "\<exists>j < length (m # ms). r = (mh_size ((m # ms) ! j), Some (i + j)) \<and> 0 < mh_size ((m # ms) ! j) \<and> n \<le> mh_size ((m # ms) ! j)"
    if ms: "\<exists>j < length ms. r = (mh_size (ms ! j), Some (i + 1 + j)) \<and> 0 < mh_size (ms ! j) \<and> n \<le> mh_size (ms ! j)"
  proof -
    obtain j where "j < length ms" "r = (mh_size (ms ! j), Some (i + 1 + j))" "0 < mh_size (ms ! j)" "n \<le> mh_size (ms ! j)"
      using ms by blast
    then show ?thesis by (intro exI [of _ "Suc j"]) simp
  qed
  have here: "\<exists>j < length (m # ms). r = (mh_size ((m # ms) ! j), Some (i + j)) \<and> 0 < mh_size ((m # ms) ! j) \<and> n \<le> mh_size ((m # ms) ! j)"
    if "r = (mh_size m, Some i)" "0 < mh_size m" "n \<le> mh_size m"
    using that by (intro exI [of _ 0]) simp
  consider "used = 0"
    | "0 < used" "0 < mh_size m" "n \<le> mh_size m \<and> (fst best = 0 \<or> mh_size m < fst best)" "mh_size m = pr"
    | "0 < used" "0 < mh_size m" "n \<le> mh_size m \<and> (fst best = 0 \<or> mh_size m < fst best)" "mh_size m \<noteq> pr"
    | "0 < used" "0 < mh_size m" "\<not> (n \<le> mh_size m \<and> (fst best = 0 \<or> mh_size m < fst best))"
    | "0 < used" "mh_size m = 0" by linarith
  then show ?case
  proof cases
    case 1 then show ?thesis using "2.prems" by simp
  next
    case 2 then show ?thesis using "2.prems" here by auto
  next
    case 3
    with "2.prems" have "find_block n pr ms (i + 1) (used - 1) (mh_size m, Some i) = r" by auto
    with 3 "2.IH"(1) have "r = (mh_size m, Some i) \<or> (\<exists>j < length ms. r = (mh_size (ms ! j), Some (i + 1 + j)) \<and> 0 < mh_size (ms ! j) \<and> n \<le> mh_size (ms ! j))"
      by auto
    with here shift 3 show ?thesis by blast
  next
    case 4
    with "2.prems" have "find_block n pr ms (i + 1) (used - 1) best = r" by auto
    with 4 "2.IH"(2) have "r = best \<or> (\<exists>j < length ms. r = (mh_size (ms ! j), Some (i + 1 + j)) \<and> 0 < mh_size (ms ! j) \<and> n \<le> mh_size (ms ! j))"
      by auto
    with shift show ?thesis by blast
  next
    case 5
    with "2.prems" have "find_block n pr ms (i + 1) used best = r" by auto
    with 5 "2.IH"(3) have "r = best \<or> (\<exists>j < length ms. r = (mh_size (ms ! j), Some (i + 1 + j)) \<and> 0 < mh_size (ms ! j) \<and> n \<le> mh_size (ms ! j))"
      by auto
    with shift show ?thesis by blast
  qed
qed auto

lemma free_slot_Some: "free_slot ms i = Some k \<Longrightarrow> \<exists>j < length ms. k = i + j \<and> mh_size (ms ! j) = 0"
proof (induction ms arbitrary: i)
  case (Cons m ms)
  show ?case
  proof (cases "mh_size m = 0")
    case True
    then show ?thesis using Cons.prems by (intro exI [of _ 0]) simp
  next
    case False
    then obtain j where "j < length ms" "k = i + 1 + j" "mh_size (ms ! j) = 0"
      using Cons.IH [of "i + 1"] Cons.prems by auto
    then show ?thesis by (intro exI [of _ "Suc j"]) simp
  qed
qed simp

lemma free_holders_ok:
  "blocks_kept ms h \<Longrightarrow> \<exists>h'. free_holders ms h = Some (map (mh_size_update (\<lambda>_. 0)) ms, h') \<and>
     live h' = live h - set (kept_list ms) \<and> (\<forall>q. q \<notin> set (kept_list ms) \<longrightarrow> obj_get h' q = obj_get h q)"
proof (induction ms arbitrary: h)
  case (Cons m ms)
  show ?case
  proof (cases "0 < mh_size m")
    case True
    let ?h = "h[mh_pointer m := None]"
    have p: "mh_pointer m \<in> live h" using Cons.prems True by (auto simp: blocks_kept_def)
    have notin: "mh_pointer m \<notin> set (kept_list ms)" using Cons.prems True by (simp add: blocks_kept_def)
    have "blocks_kept ms h" using Cons.prems True by (auto simp: blocks_kept_def)
    then have "blocks_kept ms ?h" by (rule blocks_kept_cong) (use p notin in \<open>auto simp: obj_simps\<close>)
    from Cons.IH [OF this] obtain h' where "free_holders ms ?h = Some (map (mh_size_update (\<lambda>_. 0)) ms, h')"
      "live h' = live ?h - set (kept_list ms)" "\<forall>q. q \<notin> set (kept_list ms) \<longrightarrow> obj_get h' q = obj_get ?h q" by blast
    then show ?thesis using True p by (auto simp: obj_simps)
  next
    case False
    have "blocks_kept ms h" using Cons.prems False by (auto simp: blocks_kept_def)
    from Cons.IH [OF this] show ?thesis using False by auto
  qed
qed simp

subsection \<open>Allocation\<close>

lemma projected_size_ge:
  assumes "n \<le> 4294934527" "k \<le> 15"
  shows "n < projected_size k n"
proof -
  have k: "(2::nat) ^ k \<le> 32768" using power_increasing [of k 15 "2::nat"] assms(2) by simp
  have "n mod 2 ^ k < 2 ^ k" by simp
  moreover have dm: "n div 2 ^ k * 2 ^ k + n mod 2 ^ k = n" by (rule div_mult_mod_eq)
  moreover have up: "(n div 2 ^ k + 1) * 2 ^ k = n div 2 ^ k * 2 ^ k + 2 ^ k" by (simp add: distrib_right)
  ultimately have "n < (n div 2 ^ k + 1) * 2 ^ k" by linarith
  moreover have "(n div 2 ^ k + 1) * 2 ^ k \<le> n + 2 ^ k" using dm up by linarith
  then have "(n div 2 ^ k + 1) * 2 ^ k < 4294967296" using assms(1) k by linarith
  ultimately show ?thesis by (simp add: projected_size_def uint_wrap_def)
qed

lemma live_minus_kept: "p \<in> live h - kept a \<Longrightarrow> q \<in> kept a \<Longrightarrow> p \<noteq> q" by blast

lemma fm_take_kept:
  assumes ok: "fm_ok a h" and idx: "idx < length (fm_array a)" "0 < mh_size (fm_array a ! idx)"
  defines "a' \<equiv> a\<lparr>fm_used := uint_dec (fm_used a), fm_free := fm_free a + 1,
                 fm_array := (fm_array a)[idx := (fm_array a ! idx)\<lparr>mh_size := 0\<rparr>], fm_miss_cnt := 0\<rparr>"
  shows "fm_ok a' h" and "kept a' = kept a - {mh_pointer (fm_array a ! idx)}"
    and "mh_pointer (fm_array a ! idx) \<in> kept a"
proof -
  let ?ms = "fm_array a" and ?p = "mh_pointer (fm_array a ! idx)"
  note split = kept_list_split [OF idx(1)]
  have old: "kept_list ?ms = kept_list (take idx ?ms) @ ?p # kept_list (drop (idx + 1) ?ms)"
    using split(2) idx(2) by simp
  have new: "kept_list (fm_array a') = kept_list (take idx ?ms) @ kept_list (drop (idx + 1) ?ms)"
    using split(1) by (simp add: a'_def)
  have bk: "blocks_kept ?ms h" and used: "fm_used a = length (kept_list ?ms)" using ok by (simp_all add: fm_ok_def)
  have d: "distinct (kept_list ?ms)" using bk by (simp add: blocks_kept_def)
  show "?p \<in> kept a" by (simp add: kept_def old)
  show "kept a' = kept a - {?p}" using d unfolding kept_def old new by auto
  have "blocks_kept (fm_array a') h"
    unfolding blocks_kept_def
  proof (intro conjI ballI impI)
    show "distinct (kept_list (fm_array a'))" using d unfolding old new by auto
    fix m assume "m \<in> set (fm_array a')" "0 < mh_size m"
    then have "m \<in> set ?ms" by (auto simp: a'_def dest: set_update_subset_insert [THEN subsetD])
    then show "\<exists>b. obj_get h (mh_pointer m) = Some b \<and> length b = mh_size m"
      using bk \<open>0 < mh_size m\<close> by (simp add: blocks_kept_def)
  qed
  moreover have "fm_used a' = length (kept_list (fm_array a'))"
    unfolding new using used by (simp add: a'_def old uint_dec_def)
  moreover have "fm_free a' + fm_used a' = fm_max_count a'"
    using ok used by (simp add: a'_def old uint_dec_def fm_ok_def)
  ultimately show "fm_ok a' h" using ok by (simp add: fm_ok_def a'_def)
qed

lemma fm_reset_ok:
  assumes "fm_ok (a\<lparr>fm_miss_cnt := c\<rparr>) h"
  shows "\<exists>a' h'. fm_reset a h = Some (a', h') \<and> fm_ok a' h' \<and> kept a' = {} \<and> live h' = live h - kept a \<and>
           (\<forall>q. q \<notin> kept a \<longrightarrow> obj_get h' q = obj_get h q)"
proof -
  have bk: "blocks_kept (fm_array a) h" using assms by (simp add: fm_ok_def)
  obtain h' where h': "free_holders (fm_array a) h = Some (map (mh_size_update (\<lambda>_. 0)) (fm_array a), h')"
    "live h' = live h - kept a" "\<forall>q. q \<notin> kept a \<longrightarrow> obj_get h' q = obj_get h q"
    using free_holders_ok [OF bk] unfolding kept_def by blast
  have empty: "kept_list (map (mh_size_update (\<lambda>_. 0)) ms) = []" for ms by (induction ms) auto
  have "blocks_kept (map (mh_size_update (\<lambda>_. 0)) (fm_array a)) h'" by (auto simp: blocks_kept_def empty)
  then have "fm_ok (a\<lparr>fm_array := map (mh_size_update (\<lambda>_. 0)) (fm_array a), fm_free := fm_max_count a,
    fm_used := 0, fm_miss_cnt := 0\<rparr>) h'" using assms by (simp add: fm_ok_def empty)
  then show ?thesis using h' by (simp add: fm_reset_def kept_def empty)
qed

lemma malloc_ok:
  assumes "fm_ok a h"
  shows "fm_ok a (h @ [Some (replicate m None)])"
proof (rule fm_ok_cong [OF assms], intro ballI)
  fix q assume "q \<in> kept a"
  then have "q \<in> live h" using assms blocks_kept_live by (auto simp: fm_ok_def kept_def)
  then show "obj_get (h @ [Some (replicate m None)]) q = obj_get h q" by (auto simp: obj_simps)
qed

lemma kept_live: "fm_ok a h \<Longrightarrow> kept a \<subseteq> live h"
  using blocks_kept_live by (auto simp: fm_ok_def kept_def)

lemma obj_del_length: "obj_del h p = Some h' \<Longrightarrow> length h' = length h"
  by (auto simp: obj_del_Some)

lemma free_holders_length: "free_holders ms h = Some (ms', h') \<Longrightarrow> length h' = length h"
  by (induction ms arbitrary: h ms' h') (auto split: if_splits bind_splits dest!: obj_del_length)

lemma fm_reset_length: "fm_reset a h = Some (a', h') \<Longrightarrow> length h' = length h"
  by (auto simp: fm_reset_def split: bind_splits dest: free_holders_length)

lemma fm_alloc_ok:
  assumes ok: "fm_ok a h" and n: "n \<le> 4294934527"
  shows "\<exists>p m a' h' b. fm_alloc a h n = Some (p, m, a', h') \<and> fm_ok a' h' \<and> n \<le> m \<and>
           obj_get h' p = Some b \<and> length b = m \<and> p \<notin> live h - kept a \<and>
           live h' - kept a' = insert p (live h - kept a) \<and>
           (\<forall>q \<in> live h - kept a. obj_get h' q = obj_get h q)"
proof -
  have fresh: ?thesis
    if "fm_alloc a h n = Some (length h1, m, a1, h1 @ [Some (replicate m None)])" "fm_ok a1 h1" "n \<le> m"
      "length h1 = length h" "live h1 - kept a1 = live h - kept a" "\<forall>q \<in> live h - kept a. obj_get h1 q = obj_get h q"
    for m a1 h1
  proof -
    have kl: "kept a1 \<subseteq> live h1" using that(2) by (rule kept_live)
    then have nk: "length h1 \<notin> kept a1" using length_not_live by blast
    show ?thesis
    proof (intro exI conjI)
      show "fm_alloc a h n = Some (length h1, m, a1, h1 @ [Some (replicate m None)])" by (rule that(1))
      show "fm_ok a1 (h1 @ [Some (replicate m None)])" using that(2) by (rule malloc_ok)
      show "obj_get (h1 @ [Some (replicate m None)]) (length h1) = Some (replicate m None)" by (simp add: obj_simps)
      show "length h1 \<notin> live h - kept a" unfolding that(4) using length_not_live by blast
      show "live (h1 @ [Some (replicate m None)]) - kept a1 = insert (length h1) (live h - kept a)"
        using that(5) nk by auto
      show "\<forall>q\<in>live h - kept a. obj_get (h1 @ [Some (replicate m None)]) q = obj_get h q"
        using that(4,6) length_not_live [of h] by (auto simp: obj_simps)
    qed (use that(3) in simp_all)
  qed
  show ?thesis
  proof (cases "fm_min_size a \<le> n")
    case False
    show ?thesis by (rule fresh [where m = n and ?a1.0 = a and ?h1.0 = h]) (use ok False in \<open>simp_all add: fm_alloc_def malloc_def obj_new_def\<close>)
  next
    case True
    let ?pr = "projected_size (fm_inc_bits a) n"
    have pr: "n \<le> ?pr" using projected_size_ge [OF n] ok by (simp add: fm_ok_def less_imp_le)
    obtain s r where fb: "find_block n ?pr (fm_array a) 0 (fm_used a) (0, None) = (s, r)" by force
    show ?thesis
    proof (cases r)
      case (Some idx)
      then have idx: "idx < length (fm_array a)" "s = mh_size (fm_array a ! idx)" "0 < mh_size (fm_array a ! idx)" "n \<le> s"
        using find_block_result [OF fb] by auto
      let ?p = "mh_pointer (fm_array a ! idx)"
      note tk = fm_take_kept [OF ok idx(1,3)]
      have "fm_array a ! idx \<in> set (fm_array a)" using idx(1) by simp
      then obtain b where b: "obj_get h ?p = Some b" "length b = s"
        using ok idx unfolding fm_ok_def blocks_kept_def by blast
      have "?p \<in> live h" using b by blast
      show ?thesis
      proof (intro exI conjI)
        show "fm_alloc a h n = Some (?p, s, a\<lparr>fm_used := uint_dec (fm_used a), fm_free := fm_free a + 1,
          fm_array := (fm_array a)[idx := (fm_array a ! idx)\<lparr>mh_size := 0\<rparr>], fm_miss_cnt := 0\<rparr>, h)"
          using True fb Some by (simp add: fm_alloc_def)
        show "?p \<notin> live h - kept a" using tk(3) by simp
        show "live h - kept (a\<lparr>fm_used := uint_dec (fm_used a), fm_free := fm_free a + 1,
          fm_array := (fm_array a)[idx := (fm_array a ! idx)\<lparr>mh_size := 0\<rparr>], fm_miss_cnt := 0\<rparr>) = insert ?p (live h - kept a)"
          unfolding tk(2) using tk(3) \<open>?p \<in> live h\<close> by blast
      qed (use tk(1) b idx(4) in simp_all)
    next
      case None
      define a1 where "a1 = (if fm_free a = 0 then a\<lparr>fm_miss_cnt := fm_miss_cnt a + 1\<rparr> else a)"
      have al: "fm_alloc a h n = do {
          (a, h) \<leftarrow> (if 10 < fm_miss_cnt a1 then fm_reset a1 h else Some (a1, h));
          let (p, h) = malloc ?pr h;
          Some (p, ?pr, a, h) }"
        using True fb None by (simp add: fm_alloc_def a1_def Let_def)
      have k1: "kept a1 = kept a" by (simp add: a1_def kept_def)
      show ?thesis
      proof (cases "10 < fm_miss_cnt a1")
        case big: True
        have "fm_ok (a1\<lparr>fm_miss_cnt := fm_miss_cnt a\<rparr>) h" using ok by (simp add: fm_ok_def a1_def)
        from fm_reset_ok [OF this] obtain a2 h2 where rs: "fm_reset a1 h = Some (a2, h2)" "fm_ok a2 h2" "kept a2 = {}"
          "live h2 = live h - kept a" "\<forall>q. q \<notin> kept a \<longrightarrow> obj_get h2 q = obj_get h q" unfolding k1 by blast
        have len: "length h2 = length h" using rs(1) fm_reset_length by blast
        show ?thesis by (rule fresh [where m = ?pr and ?a1.0 = a2 and ?h1.0 = h2]) (use rs len pr big in \<open>simp_all add: al malloc_def obj_new_def\<close>)
      next
        case small: False
        have "fm_ok a1 h" using ok small by (auto simp: fm_ok_def a1_def split: if_splits)
        then show ?thesis
          using fresh [where m = ?pr and ?a1.0 = a1 and ?h1.0 = h] small pr k1 by (simp add: al malloc_def obj_new_def)
      qed
    qed
  qed
qed

subsection \<open>Giving back\<close>

lemma fm_free_ok:
  assumes ok: "fm_ok a h" and p: "p \<notin> kept a" "obj_get h p = Some b"
  shows "\<exists>a' h'. fm_free_block a h p (length b) = Some (a', h') \<and> fm_ok a' h' \<and>
           live h' - kept a' = live h - kept a - {p} \<and>
           (\<forall>q \<in> live h - kept a - {p}. obj_get h' q = obj_get h q)"
proof -
  have pl: "p \<in> live h" using p(2) by blast
  have freed: ?thesis if "fm_free_block a h p (length b) = do { h \<leftarrow> obj_del h p; Some (a, h) }"
  proof (intro exI conjI)
    show "fm_free_block a h p (length b) = Some (a, h[p := None])" using that pl by (simp add: obj_simps)
    show "fm_ok a (h[p := None])" using ok by (rule fm_ok_cong) (use p pl in \<open>auto simp: obj_simps\<close>)
    show "live (h[p := None]) - kept a = live h - kept a - {p}" using pl by (auto simp: obj_simps)
    show "\<forall>q\<in>live h - kept a - {p}. obj_get (h[p := None]) q = obj_get h q" using pl by (auto simp: obj_simps)
  qed
  show ?thesis
  proof (cases "fm_min_size a \<le> length b \<and> 0 < fm_free a \<and> free_slot (fm_array a) 0 \<noteq> None")
    case False
    show ?thesis by (rule freed) (use False in \<open>auto simp: fm_free_block_def\<close>)
  next
    case True
    then obtain i where fs: "free_slot (fm_array a) 0 = Some i" by auto
    then have i: "i < length (fm_array a)" "mh_size (fm_array a ! i) = 0" using free_slot_Some by fastforce+
    let ?m = "\<lparr>mh_size = length b, mh_pointer = p\<rparr>" and ?ms = "fm_array a"
    have b0: "0 < length b" using True ok by (auto simp: fm_ok_def)
    note split = kept_list_split [OF i(1)]
    have old: "kept_list ?ms = kept_list (take i ?ms) @ kept_list (drop (i + 1) ?ms)" using split(2) i(2) by simp
    have new: "kept_list (?ms[i := ?m]) = kept_list (take i ?ms) @ p # kept_list (drop (i + 1) ?ms)"
      using split(1) [of ?m] b0 by simp
    have bk: "blocks_kept ?ms h" and used: "fm_used a = length (kept_list ?ms)" using ok by (simp_all add: fm_ok_def)
    have notin: "p \<notin> set (kept_list ?ms)" using p(1) by (simp add: kept_def)
    define a' where "a' = a\<lparr>fm_free := uint_dec (fm_free a), fm_used := fm_used a + 1, fm_array := ?ms[i := ?m]\<rparr>"
    have "blocks_kept (?ms[i := ?m]) h"
      unfolding blocks_kept_def
    proof (intro conjI ballI impI)
      show "distinct (kept_list (?ms[i := ?m]))" using bk notin unfolding new blocks_kept_def old by auto
      fix m assume m: "m \<in> set (?ms[i := ?m])" "0 < mh_size m"
      then have "m = ?m \<or> m \<in> set ?ms" using set_update_subset_insert [of ?ms i ?m] by blast
      then show "\<exists>b. obj_get h (mh_pointer m) = Some b \<and> length b = mh_size m"
        using bk p(2) m(2) unfolding blocks_kept_def by auto
    qed
    moreover have "fm_used a' = length (kept_list (fm_array a'))" using used by (simp add: a'_def new old)
    moreover have "fm_free a' + fm_used a' = fm_max_count a'" using ok True by (simp add: a'_def uint_dec_def fm_ok_def)
    ultimately have "fm_ok a' h" using ok by (simp add: fm_ok_def a'_def)
    moreover have "kept a' = insert p (kept a)" by (auto simp: kept_def a'_def new old)
    moreover have "fm_free_block a h p (length b) = Some (a', h)" using True fs by (simp add: fm_free_block_def a'_def)
    ultimately show ?thesis by (intro exI [of _ a'] exI [of _ h]) auto
  qed
qed

interpretation fm: block_allocator fm_alloc fm_free_block kept fm_ok 4294934527
proof unfold_locales
  fix a h and n :: nat assume "fm_ok a h" "n \<le> 4294934527"
  then show "\<exists>p m a' h' b. fm_alloc a h n = Some (p, m, a', h') \<and> fm_ok a' h' \<and> n \<le> m \<and>
      obj_get h' p = Some b \<and> length b = m \<and> p \<notin> live h - kept a \<and>
      live h' - kept a' = insert p (live h - kept a) \<and> (\<forall>q \<in> live h - kept a. obj_get h' q = obj_get h q)"
    by (rule fm_alloc_ok)
next
  fix a h p b assume "fm_ok a h" "p \<notin> kept a" "obj_get h p = Some b"
  then show "\<exists>a' h'. fm_free_block a h p (length b) = Some (a', h') \<and> fm_ok a' h' \<and>
      live h' - kept a' = live h - kept a - {p} \<and> (\<forall>q \<in> live h - kept a - {p}. obj_get h' q = obj_get h q)"
    by (rule fm_free_ok)
next
  fix a h p b and b' :: "byte option list"
  assume "fm_ok a h" "p \<notin> kept a" "obj_get h p = Some b"
  then show "fm_ok a (h[p := Some b'])" by (rule fm_write_ok)
qed

lemma new_frame_memory_ok: "0 < min_size \<Longrightarrow> inc_bits \<le> 15 \<Longrightarrow> fm_ok (new_frame_memory min_size n inc_bits) []"
  by (simp add: fm_ok_def new_frame_memory_def blocks_kept_def)

lemma new_frame_memory_kept [simp]: "kept (new_frame_memory min_size n inc_bits) = {}"
  by (simp add: kept_def new_frame_memory_def)

lemma kept_card: "fm_ok a h \<Longrightarrow> card (kept a) \<le> fm_max_count a"
  unfolding fm_ok_def kept_def using card_length le_trans by (metis le_add2)

section \<open>Properties\<close>

lemma client_max_count:
  "client_step fm_alloc fm_free_block (a, h, held) op = Some ((a', h', held'), out) \<Longrightarrow> fm_max_count a' = fm_max_count a"
  by (cases op)
    (auto simp: fm_alloc_def fm_free_block_def fm_reset_def Let_def split: if_splits bind_splits option.splits prod.splits)

lemma run_max_count:
  "run_steps (client_step fm_alloc fm_free_block) (a, h, held) ops = Some ((a', h', held'), outs)
    \<Longrightarrow> fm_max_count a' = fm_max_count a"
  by (induction ops arbitrary: a h held outs) (auto split: bind_splits dest!: client_max_count)



lemma find_block_best:
  assumes "used = length (kept_list ms)" "fst best = 0 \<longleftrightarrow> snd best = None"
  shows "(snd best \<noteq> None \<longrightarrow> snd (find_block n pr ms i used best) \<noteq> None \<and>
            (fst (find_block n pr ms i used best) = pr \<or> fst (find_block n pr ms i used best) \<le> fst best)) \<and>
         (\<forall>m \<in> set ms. 0 < mh_size m \<and> n \<le> mh_size m \<longrightarrow> snd (find_block n pr ms i used best) \<noteq> None \<and>
            (fst (find_block n pr ms i used best) = pr \<or> fst (find_block n pr ms i used best) \<le> mh_size m))"
  using assms
proof (induction n pr ms i used best rule: find_block.induct)
  case (2 n pr m ms i used best)
  consider "used = 0"
    | "0 < used" "0 < mh_size m" "n \<le> mh_size m \<and> (fst best = 0 \<or> mh_size m < fst best)" "mh_size m = pr"
    | "0 < used" "0 < mh_size m" "n \<le> mh_size m \<and> (fst best = 0 \<or> mh_size m < fst best)" "mh_size m \<noteq> pr"
    | "0 < used" "0 < mh_size m" "\<not> (n \<le> mh_size m \<and> (fst best = 0 \<or> mh_size m < fst best))"
    | "0 < used" "mh_size m = 0" by linarith
  then show ?case
  proof cases
    case 1
    then have "kept_list (m # ms) = []" using "2.prems"(1) by simp
    then have "\<forall>x \<in> set (m # ms). mh_size x = 0"
      unfolding kept_list_def by (simp only: map_is_Nil_conv filter_empty_conv) auto
    then show ?thesis using 1 by auto
  next
    case 2
    then show ?thesis by auto
  next
    case 3
    let ?r = "find_block n pr ms (i + 1) (used - 1) (mh_size m, Some i)"
    have "find_block n pr (m # ms) i used best = ?r" using 3 by simp
    moreover have "used - 1 = length (kept_list ms)" using "2.prems"(1) 3 by simp
    then have "snd ?r \<noteq> None \<and> (fst ?r = pr \<or> fst ?r \<le> mh_size m) \<and>
        (\<forall>m \<in> set ms. 0 < mh_size m \<and> n \<le> mh_size m \<longrightarrow> snd ?r \<noteq> None \<and> (fst ?r = pr \<or> fst ?r \<le> mh_size m))"
      using "2.IH"(1) 3 by simp
    moreover have "snd best \<noteq> None \<longrightarrow> mh_size m < fst best" using 3 "2.prems"(2) by auto
    ultimately show ?thesis by auto
  next
    case 4
    let ?r = "find_block n pr ms (i + 1) (used - 1) best"
    have r: "find_block n pr (m # ms) i used best = ?r" using 4 by auto
    have "used - 1 = length (kept_list ms)" using "2.prems"(1) 4 by simp
    with "2.IH"(2) 4 "2.prems"(2) have
      ih: "snd best \<noteq> None \<longrightarrow> snd ?r \<noteq> None \<and> (fst ?r = pr \<or> fst ?r \<le> fst best)"
      "\<forall>m \<in> set ms. 0 < mh_size m \<and> n \<le> mh_size m \<longrightarrow> snd ?r \<noteq> None \<and> (fst ?r = pr \<or> fst ?r \<le> mh_size m)"
      by auto
    have "n \<le> mh_size m \<longrightarrow> snd best \<noteq> None \<and> fst best \<le> mh_size m" using 4 "2.prems"(2) by auto
    then show ?thesis unfolding r using ih by auto
  next
    case 5
    let ?r = "find_block n pr ms (i + 1) used best"
    have r: "find_block n pr (m # ms) i used best = ?r" using 5 by auto
    have "used = length (kept_list ms)" using "2.prems"(1) 5 by simp
    with "2.IH"(3) 5 "2.prems"(2) show ?thesis unfolding r by auto
  qed
qed auto

text \<open>A request is served from the kept blocks whenever one of them is large enough, by one of
  exactly the size that a new block would have or else by the smallest that fits, and only
  otherwise from fresh memory.\<close>

theorem best_fit:
  assumes "fm_ok a h" "fm_min_size a \<le> n"
  shows "if \<exists>m \<in> set (fm_array a). 0 < mh_size m \<and> n \<le> mh_size m
         then \<exists>m \<in> set (fm_array a). \<exists>a'. fm_alloc a h n = Some (mh_pointer m, mh_size m, a', h) \<and> n \<le> mh_size m \<and>
                (mh_size m = projected_size (fm_inc_bits a) n \<or>
                 (\<forall>k \<in> set (fm_array a). 0 < mh_size k \<and> n \<le> mh_size k \<longrightarrow> mh_size m \<le> mh_size k))
         else \<exists>a' h'. fm_alloc a h n = Some (length h, projected_size (fm_inc_bits a) n, a', h') \<and> length h' = length h + 1"
proof -
  let ?pr = "projected_size (fm_inc_bits a) n"
  obtain s r where fb: "find_block n ?pr (fm_array a) 0 (fm_used a) (0, None) = (s, r)" by force
  have used: "fm_used a = length (kept_list (fm_array a))" using assms(1) by (simp add: fm_ok_def)
  have best: "\<forall>m \<in> set (fm_array a). 0 < mh_size m \<and> n \<le> mh_size m \<longrightarrow> r \<noteq> None \<and> (s = ?pr \<or> s \<le> mh_size m)"
    using find_block_best [OF used, of "(0, None)" n ?pr 0] by (simp add: fb)
  show ?thesis
  proof (cases r)
    case (Some idx)
    then have idx: "idx < length (fm_array a)" "s = mh_size (fm_array a ! idx)" "0 < mh_size (fm_array a ! idx)" "n \<le> s"
      using find_block_result [OF fb] by auto
    let ?m = "fm_array a ! idx"
    have m: "?m \<in> set (fm_array a)" using idx(1) by simp
    have "\<exists>a'. fm_alloc a h n = Some (mh_pointer ?m, mh_size ?m, a', h)"
      using assms(2) fb Some idx(2) by (simp add: fm_alloc_def)
    moreover have "mh_size ?m = ?pr \<or> (\<forall>k \<in> set (fm_array a). 0 < mh_size k \<and> n \<le> mh_size k \<longrightarrow> mh_size ?m \<le> mh_size k)"
      using best idx(2) by blast
    moreover have "\<exists>m \<in> set (fm_array a). 0 < mh_size m \<and> n \<le> mh_size m" using m idx by blast
    ultimately show ?thesis using m idx(2,4) by auto
  next
    case None
    have none: "\<not> (\<exists>m \<in> set (fm_array a). 0 < mh_size m \<and> n \<le> mh_size m)" using best None by blast
    define a1 where "a1 = (if fm_free a = 0 then a\<lparr>fm_miss_cnt := fm_miss_cnt a + 1\<rparr> else a)"
    have al: "fm_alloc a h n = do {
        (a, h) \<leftarrow> (if 10 < fm_miss_cnt a1 then fm_reset a1 h else Some (a1, h));
        let (p, h) = malloc ?pr h;
        Some (p, ?pr, a, h) }"
      using assms(2) fb None by (simp add: fm_alloc_def a1_def Let_def)
    have "fm_ok (a1\<lparr>fm_miss_cnt := fm_miss_cnt a\<rparr>) h" using assms(1) by (simp add: fm_ok_def a1_def)
    from fm_reset_ok [OF this] obtain a2 h2 where rs: "fm_reset a1 h = Some (a2, h2)" by blast
    show ?thesis
      unfolding if_not_P [OF none] using fm_reset_length [OF rs] by (simp add: al rs malloc_def obj_new_def)
  qed
qed

lemma best_fit_witness:
  "let a = (new_frame_memory 1024 2 15)
              \<lparr>fm_array := [\<lparr>mh_size = 98304, mh_pointer = 0\<rparr>, \<lparr>mh_size = 65536, mh_pointer = 1\<rparr>], fm_free := 0, fm_used := 2\<rparr>;
       h = [Some (replicate 98304 None), Some (replicate 65536 None)]
   in \<exists>m \<in> set (fm_array a). \<exists>a'. fm_alloc a h 40000 = Some (mh_pointer m, mh_size m, a', h)"
proof -
  let ?a = "(new_frame_memory 1024 2 15)
    \<lparr>fm_array := [\<lparr>mh_size = 98304, mh_pointer = 0\<rparr>, \<lparr>mh_size = 65536, mh_pointer = 1\<rparr>], fm_free := 0, fm_used := 2\<rparr>"
  let ?h = "[Some (replicate 98304 None), Some (replicate 65536 None)]"
  have "fm_ok ?a ?h" by (auto simp: fm_ok_def blocks_kept_def new_frame_memory_def obj_get_def)
  moreover have "fm_min_size ?a \<le> 40000" by (simp add: new_frame_memory_def)
  moreover have "\<exists>m \<in> set (fm_array ?a). 0 < mh_size m \<and> 40000 \<le> mh_size m" by simp
  ultimately show ?thesis
    unfolding Let_def using best_fit [of ?a ?h 40000] by (simp only: if_True) blast
qed

text \<open>The rounding of the size overflows: a request for more than 4294934527 bytes gets an
  empty block and is told so by an allocated size of 0, which no caller looks at.\<close>

theorem huge_request_wraps:
  assumes "4294934528 \<le> n" "n < 4294967296"
  shows "\<exists>a. fm_alloc (new_frame_memory 1024 32 15) h n = Some (length h, 0, a, h @ [Some []])"
proof -
  have "n div 32768 = 131071" using assms by linarith
  then have "projected_size 15 n = 0" by (simp add: projected_size_def uint_wrap_def)
  moreover have "find_block n pr (replicate k m) i 0 best = best" for pr k m i best by (cases k) simp_all
  ultimately show ?thesis using assms
    by (simp add: fm_alloc_def new_frame_memory_def malloc_def obj_new_def)
qed

lemma huge_request_wraps_witness:
  "\<exists>a. fm_alloc (new_frame_memory 1024 32 15) [] 4294967295 = Some (length ([] :: heap), 0, a, [] @ [Some []])"
  by (rule huge_request_wraps) simp_all

end
