(* ===== verification/Frame_Holder.thy ===== *)
theory Frame_Holder
  imports Frame_Memory
begin

text \<open>
  The camera server's frames (src/wapa_httpd/wapa_http_server.cpp and .h): \<open>is_huffman\<close>, the
  constructor of \<open>FrameHolder\<close>, which completes a picture, and its reference counting, with the
  ownership rule that the rest of the server keeps.
\<close>

section \<open>Frame types\<close>

definition MPEG4_HD_TYPE :: nat where "MPEG4_HD_TYPE = 0"
definition MPEG4_CIF_TYPE :: nat where "MPEG4_CIF_TYPE = 2"
definition JPEG_TYPE :: nat where "JPEG_TYPE = 10"
definition SND_MULAW_TYPE :: nat where "SND_MULAW_TYPE = 11"

lemmas frame_types = MPEG4_HD_TYPE_def MPEG4_CIF_TYPE_def JPEG_TYPE_def SND_MULAW_TYPE_def

section \<open>Huffman tables\<close>

text \<open>The start of a picture with the default tables, that replaces the two bytes of its marker.\<close>

definition jpeg_default_ht :: "byte list" where
  "jpeg_default_ht = [
    0xff, 0xd8, 0xff, 0xc4, 0x00, 0x1f, 0x00, 0x00, 0x01, 0x05, 0x01, 0x01, 0x01, 0x01, 0x01, 0x01, 0x00, 0x00,
    0x00, 0x00, 0x00, 0x00, 0x00, 0x00, 0x01, 0x02, 0x03, 0x04, 0x05, 0x06, 0x07, 0x08, 0x09, 0x0a, 0x0b, 0xff,
    0xc4, 0x00, 0xb5, 0x10, 0x00, 0x02, 0x01, 0x03, 0x03, 0x02, 0x04, 0x03, 0x05, 0x05, 0x04, 0x04, 0x00, 0x00,
    0x01, 0x7d, 0x01, 0x02, 0x03, 0x00, 0x04, 0x11, 0x05, 0x12, 0x21, 0x31, 0x41, 0x06, 0x13, 0x51, 0x61, 0x07,
    0x22, 0x71, 0x14, 0x32, 0x81, 0x91, 0xa1, 0x08, 0x23, 0x42, 0xb1, 0xc1, 0x15, 0x52, 0xd1, 0xf0, 0x24, 0x33,
    0x62, 0x72, 0x82, 0x09, 0x0a, 0x16, 0x17, 0x18, 0x19, 0x1a, 0x25, 0x26, 0x27, 0x28, 0x29, 0x2a, 0x34, 0x35,
    0x36, 0x37, 0x38, 0x39, 0x3a, 0x43, 0x44, 0x45, 0x46, 0x47, 0x48, 0x49, 0x4a, 0x53, 0x54, 0x55, 0x56, 0x57,
    0x58, 0x59, 0x5a, 0x63, 0x64, 0x65, 0x66, 0x67, 0x68, 0x69, 0x6a, 0x73, 0x74, 0x75, 0x76, 0x77, 0x78, 0x79,
    0x7a, 0x83, 0x84, 0x85, 0x86, 0x87, 0x88, 0x89, 0x8a, 0x92, 0x93, 0x94, 0x95, 0x96, 0x97, 0x98, 0x99, 0x9a,
    0xa2, 0xa3, 0xa4, 0xa5, 0xa6, 0xa7, 0xa8, 0xa9, 0xaa, 0xb2, 0xb3, 0xb4, 0xb5, 0xb6, 0xb7, 0xb8, 0xb9, 0xba,
    0xc2, 0xc3, 0xc4, 0xc5, 0xc6, 0xc7, 0xc8, 0xc9, 0xca, 0xd2, 0xd3, 0xd4, 0xd5, 0xd6, 0xd7, 0xd8, 0xd9, 0xda,
    0xe1, 0xe2, 0xe3, 0xe4, 0xe5, 0xe6, 0xe7, 0xe8, 0xe9, 0xea, 0xf1, 0xf2, 0xf3, 0xf4, 0xf5, 0xf6, 0xf7, 0xf8,
    0xf9, 0xfa, 0xff, 0xc4, 0x00, 0x1f, 0x01, 0x00, 0x03, 0x01, 0x01, 0x01, 0x01, 0x01, 0x01, 0x01, 0x01, 0x01,
    0x00, 0x00, 0x00, 0x00, 0x00, 0x00, 0x01, 0x02, 0x03, 0x04, 0x05, 0x06, 0x07, 0x08, 0x09, 0x0a, 0x0b, 0xff,
    0xc4, 0x00, 0xb5, 0x11, 0x00, 0x02, 0x01, 0x02, 0x04, 0x04, 0x03, 0x04, 0x07, 0x05, 0x04, 0x04, 0x00, 0x01,
    0x02, 0x77, 0x00, 0x01, 0x02, 0x03, 0x11, 0x04, 0x05, 0x21, 0x31, 0x06, 0x12, 0x41, 0x51, 0x07, 0x61, 0x71,
    0x13, 0x22, 0x32, 0x81, 0x08, 0x14, 0x42, 0x91, 0xa1, 0xb1, 0xc1, 0x09, 0x23, 0x33, 0x52, 0xf0, 0x15, 0x62,
    0x72, 0xd1, 0x0a, 0x16, 0x24, 0x34, 0xe1, 0x25, 0xf1, 0x17, 0x18, 0x19, 0x1a, 0x26, 0x27, 0x28, 0x29, 0x2a,
    0x35, 0x36, 0x37, 0x38, 0x39, 0x3a, 0x43, 0x44, 0x45, 0x46, 0x47, 0x48, 0x49, 0x4a, 0x53, 0x54, 0x55, 0x56,
    0x57, 0x58, 0x59, 0x5a, 0x63, 0x64, 0x65, 0x66, 0x67, 0x68, 0x69, 0x6a, 0x73, 0x74, 0x75, 0x76, 0x77, 0x78,
    0x79, 0x7a, 0x82, 0x83, 0x84, 0x85, 0x86, 0x87, 0x88, 0x89, 0x8a, 0x92, 0x93, 0x94, 0x95, 0x96, 0x97, 0x98,
    0x99, 0x9a, 0xa2, 0xa3, 0xa4, 0xa5, 0xa6, 0xa7, 0xa8, 0xa9, 0xaa, 0xb2, 0xb3, 0xb4, 0xb5, 0xb6, 0xb7, 0xb8,
    0xb9, 0xba, 0xc2, 0xc3, 0xc4, 0xc5, 0xc6, 0xc7, 0xc8, 0xc9, 0xca, 0xd2, 0xd3, 0xd4, 0xd5, 0xd6, 0xd7, 0xd8,
    0xd9, 0xda, 0xe2, 0xe3, 0xe4, 0xe5, 0xe6, 0xe7, 0xe8, 0xe9, 0xea, 0xf2, 0xf3, 0xf4, 0xf5, 0xf6, 0xf7, 0xf8,
    0xf9, 0xfa]"

text \<open>
  The scan for a table (\<open>0xffc4\<close>) before the scan data (\<open>0xffda\<close>), over the camera's whole buffer,
  of which the picture is the start; i and ptbuf advance together. None is a read past the buffer.
\<close>

function is_huffman_from :: "byte list \<Rightarrow> nat \<Rightarrow> bool option" where
  "is_huffman_from buf i =
     do {
       a \<leftarrow> mem_get buf i;
       b \<leftarrow> mem_get buf (i + 1);
       let w = 256 * unat a + unat b;
       if w = 0xffda then Some False
       else if 2048 < i then Some False
       else if w = 0xffc4 then Some True
       else is_huffman_from buf (i + 1)
     }"
  by pat_completeness auto
termination by (relation "measure (\<lambda>(buf, i). 2049 - i)") auto

declare is_huffman_from.simps [simp del]

definition is_huffman :: "byte list \<Rightarrow> bool option" where
  "is_huffman buf = is_huffman_from buf 0"

section \<open>Frames\<close>

record frame_holder =
  fh_counter :: int
  fh_frame :: nat
  fh_size :: nat
  fh_alloc_size :: nat
  fh_ftype :: nat
  fh_width :: nat
  fh_height :: nat

text \<open>What all frames share: the allocator, the memory and the frames themselves.\<close>

record frame_state =
  fs_memory :: frame_memory
  fs_heap :: heap
  fs_frames :: "frame_holder store"

text \<open>The nine bytes in front of an MPEG4 picture.\<close>

definition mpeg4_vol :: "nat \<Rightarrow> byte list" where
  "mpeg4_vol n = [0x00, 0x00, 0x01, 0xE0, of_nat (uint_wrap (n + 3) div 256), of_nat (uint_wrap (n + 3)), 0x80, 0x00, 0x00]"

text \<open>
  A new frame from the first n bytes of buf. The local \<open>new_size\<close> of the MPEG4 branch hides the
  outer one, whose value \<open>m_size\<close> gets in the end.
\<close>

definition new_frame_holder ::
  "frame_state \<Rightarrow> byte list \<Rightarrow> nat \<Rightarrow> nat \<Rightarrow> nat \<Rightarrow> nat \<Rightarrow> (nat \<times> frame_state) option" where
  "new_frame_holder s buf n ftype width height =
     do {
       (p, alloc_size, a, h, new_size) \<leftarrow>
         (if ftype = MPEG4_HD_TYPE \<or> ftype = MPEG4_CIF_TYPE then
            do {
              let vol = mpeg4_vol n;
              (p, m, a, h) \<leftarrow> fm_alloc (fs_memory s) (fs_heap s) (uint_wrap (n + 9));
              h \<leftarrow> block_write h p 0 vol;
              frame \<leftarrow> mem_read buf 0 n;
              h \<leftarrow> block_write h p 9 frame;
              Some (p, m, a, h, n)
            }
          else if ftype = JPEG_TYPE \<and> 2 < n then
            do {
              huff \<leftarrow> is_huffman buf;
              if \<not> huff then
                do {
                  let new_size = uint_wrap (n + 434 - 2);
                  (p, m, a, h) \<leftarrow> fm_alloc (fs_memory s) (fs_heap s) new_size;
                  h \<leftarrow> block_write h p 0 jpeg_default_ht;
                  frame \<leftarrow> mem_read buf 2 (n - 2);
                  h \<leftarrow> block_write h p 434 frame;
                  Some (p, m, a, h, new_size)
                }
              else
                do {
                  (p, m, a, h) \<leftarrow> fm_alloc (fs_memory s) (fs_heap s) n;
                  frame \<leftarrow> mem_read buf 0 n;
                  h \<leftarrow> block_write h p 0 frame;
                  Some (p, m, a, h, n)
                }
            }
          else
            do {
              (p, m, a, h) \<leftarrow> fm_alloc (fs_memory s) (fs_heap s) n;
              frame \<leftarrow> mem_read buf 0 n;
              h \<leftarrow> block_write h p 0 frame;
              Some (p, m, a, h, n)
            });
       let (f, fs) = obj_new \<lparr>fh_counter = 1, fh_frame = p, fh_size = new_size, fh_alloc_size = alloc_size,
         fh_ftype = ftype, fh_width = width, fh_height = height\<rparr> (fs_frames s);
       Some (f, \<lparr>fs_memory = a, fs_heap = h, fs_frames = fs\<rparr>)
     }"

definition frame_add_ref :: "frame_state \<Rightarrow> nat \<Rightarrow> frame_state option" where
  "frame_add_ref s f =
     do {
       fh \<leftarrow> obj_get (fs_frames s) f;
       fs \<leftarrow> obj_put (fs_frames s) f (fh\<lparr>fh_counter := fh_counter fh + 1\<rparr>);
       Some (s\<lparr>fs_frames := fs\<rparr>)
     }"

definition frame_release_and_delete :: "frame_state \<Rightarrow> nat \<Rightarrow> frame_state option" where
  "frame_release_and_delete s f =
     do {
       fh \<leftarrow> obj_get (fs_frames s) f;
       let fh = fh\<lparr>fh_counter := fh_counter fh - 1\<rparr>;
       fs \<leftarrow> obj_put (fs_frames s) f fh;
       if 0 < fh_counter fh then Some (s\<lparr>fs_frames := fs\<rparr>)
       else
         do {
           (a, h) \<leftarrow> fm_free_block (fs_memory s) (fs_heap s) (fh_frame fh) (fh_alloc_size fh);
           fs \<leftarrow> obj_del fs f;
           Some \<lparr>fs_memory = a, fs_heap = h, fs_frames = fs\<rparr>
         }
     }"

text \<open>The bytes that a client is sent.\<close>

definition frame_bytes :: "frame_state \<Rightarrow> nat \<Rightarrow> nat \<Rightarrow> nat \<Rightarrow> byte list option" where
  "frame_bytes s f off n =
     do {
       fh \<leftarrow> obj_get (fs_frames s) f;
       block_read (fs_heap s) (fh_frame fh) off n
     }"

definition new_frame_state :: frame_state where
  "new_frame_state = \<lparr>fs_memory = new_frame_memory 1024 32 15, fs_heap = [], fs_frames = []\<rparr>"

section \<open>Pictures\<close>

lemma jpeg_default_ht_length [simp]: "length jpeg_default_ht = 434"
  by (simp add: jpeg_default_ht_def)

lemma mpeg4_vol_length [simp]: "length (mpeg4_vol n) = 9"
  by (simp add: mpeg4_vol_def)

text \<open>What a frame is to hold, as the code computes it.\<close>

definition framed :: "byte list \<Rightarrow> nat \<Rightarrow> nat \<Rightarrow> byte list" where
  "framed buf n ftype =
     (if ftype = MPEG4_HD_TYPE \<or> ftype = MPEG4_CIF_TYPE then take n (mpeg4_vol n @ take n buf)
      else if ftype = JPEG_TYPE \<and> 2 < n \<and> is_huffman buf = Some False then jpeg_default_ht @ drop 2 (take n buf)
      else take n buf)"

lemma is_huffman_from_total: "i \<le> 2049 \<Longrightarrow> 2051 \<le> length buf \<Longrightarrow> \<exists>r. is_huffman_from buf i = Some r"
proof (induction buf i rule: is_huffman_from.induct)
  case (1 buf i)
  have get: "mem_get buf i = Some (buf ! i)" "mem_get buf (i + 1) = Some (buf ! (i + 1))"
    using "1.prems" by (simp_all add: mem_simps)
  show ?case
    by (subst is_huffman_from.simps) (use 1 get in \<open>auto simp: Let_def\<close>)
qed

lemma is_huffman_total: "2051 \<le> length buf \<Longrightarrow> \<exists>r. is_huffman buf = Some r"
  unfolding is_huffman_def by (rule is_huffman_from_total) simp_all

section \<open>Blocks with a picture\<close>

lemma write_one:
  assumes "obj_get h p = Some b" "length xs \<le> length b"
  shows "\<exists>b'. block_write h p 0 xs = Some (h[p := Some b']) \<and> length b' = length b \<and> take (length xs) b' = map Some xs"
  using assms by (intro exI [of _ "map Some xs @ drop (length xs) b"]) (simp add: block_write_get)

lemma write_two:
  assumes b: "obj_get h p = Some b" and len: "length xs + length ys \<le> length b"
  shows "\<exists>h1 b'. block_write h p 0 xs = Some h1 \<and> block_write h1 p (length xs) ys = Some (h[p := Some b']) \<and>
           length b' = length b \<and> take (length xs + length ys) b' = map Some (xs @ ys)"
proof -
  let ?b1 = "map Some xs @ drop (length xs) b"
  have w1: "block_write h p 0 xs = Some (h[p := Some ?b1])" using b len by (simp add: block_write_get)
  have g1: "obj_get (h[p := Some ?b1]) p = Some ?b1" using b by (auto simp: obj_simps dest!: obj_get_SomeD)
  have "block_write (h[p := Some ?b1]) p (length xs) ys =
    Some (h[p := Some (map Some xs @ map Some ys @ drop (length ys) (drop (length xs) b))])"
    using block_write_get [OF g1, of "length xs" ys] len by (simp add: add.commute)
  then show ?thesis using w1 len by auto
qed

section \<open>Ownership\<close>

definition frame_ok :: "frame_state \<Rightarrow> frame_holder \<Rightarrow> bool" where
  "frame_ok s fh \<longleftrightarrow> fh_frame fh \<notin> kept (fs_memory s) \<and>
     (\<exists>b bs. obj_get (fs_heap s) (fh_frame fh) = Some b \<and> length b = fh_alloc_size fh \<and> length bs = fh_size fh \<and>
        fh_size fh \<le> length b \<and> take (fh_size fh) b = map Some bs)"

text \<open>
  R are the references that exist outside. A frame's counter is the number of them, its block is
  its own and holds the picture; every live block is a frame's or kept by the allocator.
\<close>

definition frames_ok :: "frame_state \<Rightarrow> nat multiset \<Rightarrow> bool" where
  "frames_ok s R \<longleftrightarrow>
     fm_ok (fs_memory s) (fs_heap s) \<and>
     set_mset R \<subseteq> live (fs_frames s) \<and>
     (\<forall>f fh. obj_get (fs_frames s) f = Some fh \<longrightarrow> frame_ok s fh \<and> f \<in># R \<and> fh_counter fh = int (count R f)) \<and>
     (\<forall>f g fh gh. obj_get (fs_frames s) f = Some fh \<and> obj_get (fs_frames s) g = Some gh \<and> fh_frame fh = fh_frame gh
        \<longrightarrow> f = g) \<and>
     live (fs_heap s) - kept (fs_memory s) = {p. \<exists>f fh. obj_get (fs_frames s) f = Some fh \<and> p = fh_frame fh}"

definition frame_content :: "frame_state \<Rightarrow> nat \<Rightarrow> byte list" where
  "frame_content s f =
     (case obj_get (fs_frames s) f of None \<Rightarrow> []
      | Some fh \<Rightarrow> (case block_read (fs_heap s) (fh_frame fh) 0 (fh_size fh) of None \<Rightarrow> [] | Some bs \<Rightarrow> bs))"

lemma frames_okD:
  assumes "frames_ok s R"
  shows "fm_ok (fs_memory s) (fs_heap s)"
    and "f \<in># R \<Longrightarrow> \<exists>fh. obj_get (fs_frames s) f = Some fh"
    and "obj_get (fs_frames s) f = Some fh \<Longrightarrow> frame_ok s fh"
    and "obj_get (fs_frames s) f = Some fh \<Longrightarrow> f \<in># R"
    and "obj_get (fs_frames s) f = Some fh \<Longrightarrow> fh_counter fh = int (count R f)"
    and "obj_get (fs_frames s) f = Some fh \<Longrightarrow> obj_get (fs_frames s) g = Some gh \<Longrightarrow> fh_frame fh = fh_frame gh \<Longrightarrow> f = g"
    and "live (fs_heap s) - kept (fs_memory s) = {p. \<exists>f fh. obj_get (fs_frames s) f = Some fh \<and> p = fh_frame fh}"
  using assms unfolding frames_ok_def by (auto simp: in_live)

lemma frame_content_block:
  assumes "obj_get (fs_frames s) f = Some fh" "obj_get (fs_heap s) (fh_frame fh) = Some b"
    "take (fh_size fh) b = map Some bs" "fh_size fh \<le> length b"
  shows "frame_content s f = bs"
  using block_read_get [of "fs_heap s" "fh_frame fh" b "fh_size fh" 0 bs] assms by (simp add: frame_content_def)

lemma frame_bytes_content:
  assumes "frames_ok s R" "obj_get (fs_frames s) f = Some fh" "off + k \<le> fh_size fh"
  shows "frame_bytes s f off k = Some (take k (drop off (frame_content s f)))"
    and "length (frame_content s f) = fh_size fh"
proof -
  obtain b bs where b: "obj_get (fs_heap s) (fh_frame fh) = Some b" "length bs = fh_size fh"
    "fh_size fh \<le> length b" "take (fh_size fh) b = map Some bs"
    using frames_okD(3) [OF assms(1,2)] unfolding frame_ok_def by blast
  have c: "frame_content s f = bs" using frame_content_block [OF assms(2) b(1,4,3)] .
  show "frame_bytes s f off k = Some (take k (drop off (frame_content s f)))"
    using block_read_prefix [OF b(1,4) assms(3) b(3)] assms(2) by (simp add: frame_bytes_def c)
  show "length (frame_content s f) = fh_size fh" by (simp add: c b(2))
qed

lemma new_frame_state_ok: "frames_ok new_frame_state {#}"
  using new_frame_memory_ok [of 1024 15 32] by (simp add: frames_ok_def new_frame_state_def obj_get_def)

lemma frame_content_same:
  assumes "obj_get (fs_frames s') f = Some fh'" "obj_get (fs_frames s) f = Some fh"
    "fh_frame fh' = fh_frame fh" "fh_size fh' = fh_size fh"
    "obj_get (fs_heap s') (fh_frame fh) = obj_get (fs_heap s) (fh_frame fh)"
  shows "frame_content s' f = frame_content s f"
  using assms by (simp add: frame_content_def block_read_def)

lemma frame_block_in_use:
  assumes "frames_ok s R" "obj_get (fs_frames s) f = Some fh"
  shows "fh_frame fh \<in> live (fs_heap s) - kept (fs_memory s)"
  unfolding frames_okD(7) [OF assms(1)] using assms(2) by blast

lemma kept_not_in_use: "p \<in> live h - kept a \<Longrightarrow> p \<notin> kept a" by blast

text \<open>A block that has just been allocated and filled becomes the block of a new frame.\<close>

lemma frames_ok_new:
  assumes ok: "frames_ok s R"
    and al: "fm_ok a h" "obj_get h p = Some b0" "p \<notin> live (fs_heap s) - kept (fs_memory s)"
      "live h - kept a = insert p (live (fs_heap s) - kept (fs_memory s))"
      "\<forall>q \<in> live (fs_heap s) - kept (fs_memory s). obj_get h q = obj_get (fs_heap s) q"
    and b: "length b = length b0" "k \<le> length b" "take k b = map Some bs"
    and fh: "fh_counter fh = 1" "fh_frame fh = p" "fh_size fh = k" "fh_alloc_size fh = length b0"
  defines "f \<equiv> length (fs_frames s)"
  defines "s' \<equiv> \<lparr>fs_memory = a, fs_heap = h[p := Some b], fs_frames = fs_frames s @ [Some fh]\<rparr>"
  shows "frames_ok s' (add_mset f R)" and "frame_content s' f = bs"
    and "\<forall>g \<in> live (fs_frames s). frame_content s' g = frame_content s g"
proof -
  have pk: "p \<notin> kept a" using al(4) by blast
  have pl: "p \<in> live h" using al(2) by blast
  have pp: "obj_get (fs_heap s') p = Some b" using pl by (simp add: s'_def obj_simps)
  have lb: "length bs = k" using arg_cong [OF b(3), of length] b(2) by simp
  have f_new: "f \<notin> live (fs_frames s)" by (simp add: f_def)
  have fR: "f \<notin># R" using ok f_new unfolding frames_ok_def by blast
  have get: "obj_get (fs_frames s') g = (if g = f then Some fh else obj_get (fs_frames s) g)" for g
    by (simp add: s'_def f_def obj_simps)
  have old: "obj_get (fs_heap s') (fh_frame gh) = obj_get (fs_heap s) (fh_frame gh)" "fh_frame gh \<noteq> p"
    "fh_frame gh \<notin> kept a" if "obj_get (fs_frames s) g = Some gh" for g gh
  proof -
    have u: "fh_frame gh \<in> live (fs_heap s) - kept (fs_memory s)" using frame_block_in_use [OF ok that] .
    show np: "fh_frame gh \<noteq> p" using u al(3) by blast
    have "obj_get (fs_heap s') (fh_frame gh) = obj_get h (fh_frame gh)" using np pl by (simp add: s'_def obj_simps)
    also have "\<dots> = obj_get (fs_heap s) (fh_frame gh)" using al(5) u by blast
    finally show "obj_get (fs_heap s') (fh_frame gh) = obj_get (fs_heap s) (fh_frame gh)" .
    show "fh_frame gh \<notin> kept a" using u al(4) by blast
  qed
  show content: "frame_content s' f = bs"
    by (rule frame_content_block [of s' f fh b]) (use get [of f] pp fh b in simp_all)
  show "\<forall>g \<in> live (fs_frames s). frame_content s' g = frame_content s g"
  proof
    fix g assume "g \<in> live (fs_frames s)"
    then obtain gh where g: "obj_get (fs_frames s) g = Some gh" by (auto simp: in_live)
    then have "obj_get (fs_frames s') g = Some gh" using get [of g] f_new by auto
    then show "frame_content s' g = frame_content s g" by (rule frame_content_same [OF _ g]) (use old [OF g] in simp_all)
  qed
  show "frames_ok s' (add_mset f R)"
    unfolding frames_ok_def
  proof (intro conjI allI impI)
    show "fm_ok (fs_memory s') (fs_heap s')" using fm_write_ok [OF al(1) pk al(2)] by (simp add: s'_def)
    show "set_mset (add_mset f R) \<subseteq> live (fs_frames s')" using ok by (auto simp: s'_def f_def frames_ok_def)
    have new_ok: "frame_ok s' fh"
      using pk pp b fh lb unfolding frame_ok_def by (intro conjI exI [of _ b] exI [of _ bs]) (simp_all add: s'_def)
    fix g gh assume g: "obj_get (fs_frames s') g = Some gh"
    show "frame_ok s' gh"
    proof (cases "g = f")
      case True then show ?thesis using g get new_ok by simp
    next
      case False
      then have "obj_get (fs_frames s) g = Some gh" using g get by simp
      then show ?thesis using frames_okD(3) [OF ok] old [of g gh] by (simp add: frame_ok_def s'_def)
    qed
    show "g \<in># add_mset f R" using g get frames_okD(4) [OF ok] by (auto split: if_splits)
    show "fh_counter gh = int (count (add_mset f R) g)"
      using g get frames_okD(5) [OF ok] fR fh(1) by (auto simp: not_in_iff split: if_splits)
  next
    fix g g' gh gh'
    assume "obj_get (fs_frames s') g = Some gh \<and> obj_get (fs_frames s') g' = Some gh' \<and> fh_frame gh = fh_frame gh'"
    then show "g = g'" using get old(2) fh(2) frames_okD(6) [OF ok] by (auto split: if_splits)
  next
    have "live (fs_heap s') - kept (fs_memory s') = live h - kept a" using pl by (simp add: s'_def obj_simps)
    also have "\<dots> = insert p {p. \<exists>f fh. obj_get (fs_frames s) f = Some fh \<and> p = fh_frame fh}"
      unfolding al(4) frames_okD(7) [OF ok] ..
    also have "\<dots> = {p. \<exists>f fh. obj_get (fs_frames s') f = Some fh \<and> p = fh_frame fh}"
    proof (intro equalityI subsetI)
      fix q assume "q \<in> insert p {p. \<exists>f fh. obj_get (fs_frames s) f = Some fh \<and> p = fh_frame fh}"
      then consider "q = p" | g gh where "obj_get (fs_frames s) g = Some gh" "q = fh_frame gh" by blast
      then show "q \<in> {p. \<exists>f fh. obj_get (fs_frames s') f = Some fh \<and> p = fh_frame fh}"
      proof cases
        case 1
        then show ?thesis using get [of f] fh(2) by auto
      next
        case 2
        then have "obj_get (fs_frames s') g = Some gh" using get [of g] f_new by auto
        then show ?thesis using 2(2) by blast
      qed
    qed (use get fh(2) in \<open>auto split: if_splits\<close>)
    finally show "live (fs_heap s') - kept (fs_memory s') = {p. \<exists>f fh. obj_get (fs_frames s') f = Some fh \<and> p = fh_frame fh}" .
  qed
qed

section \<open>The operations keep the ownership rule\<close>

lemma is_huffman_some: "ftype = JPEG_TYPE \<and> 2 < n \<longrightarrow> 2051 \<le> length buf \<Longrightarrow> ftype = JPEG_TYPE \<Longrightarrow> 2 < n
    \<Longrightarrow> is_huffman buf = Some True \<or> is_huffman buf = Some False"
  using is_huffman_total [of buf] by auto

definition new_frame_spec :: "frame_state \<Rightarrow> nat multiset \<Rightarrow> byte list \<Rightarrow> nat \<times> frame_state \<Rightarrow> bool" where
  "new_frame_spec s R content r \<longleftrightarrow> (case r of (f, s') \<Rightarrow>
     f = length (fs_frames s) \<and> frames_ok s' (add_mset f R) \<and> frame_content s' f = content \<and>
     (\<forall>g \<in> live (fs_frames s). frame_content s' g = frame_content s g) \<and>
     (\<forall>g. obj_get (fs_frames s') g = (if g = f then obj_get (fs_frames s') f else obj_get (fs_frames s) g)))"

lemma new_frame_written:
  assumes ok: "frames_ok s R" and req: "req \<le> 4294934527" and len: "length xs + length ys \<le> req"
    and k: "k \<le> length xs + length ys"
  shows "\<exists>p m a h h1 h2. fm_alloc (fs_memory s) (fs_heap s) req = Some (p, m, a, h) \<and>
           block_write h p 0 xs = Some h1 \<and> block_write h1 p (length xs) ys = Some h2 \<and>
           (\<forall>fh. fh_counter fh = 1 \<longrightarrow> fh_frame fh = p \<longrightarrow> fh_size fh = k \<longrightarrow> fh_alloc_size fh = m \<longrightarrow>
             new_frame_spec s R (take k (xs @ ys))
               (length (fs_frames s), \<lparr>fs_memory = a, fs_heap = h2, fs_frames = fs_frames s @ [Some fh]\<rparr>))"
proof -
  obtain p m a h b where al: "fm_alloc (fs_memory s) (fs_heap s) req = Some (p, m, a, h)" "fm_ok a h" "req \<le> m"
    "obj_get h p = Some b" "length b = m" "p \<notin> live (fs_heap s) - kept (fs_memory s)"
    "live h - kept a = insert p (live (fs_heap s) - kept (fs_memory s))"
    "\<forall>q \<in> live (fs_heap s) - kept (fs_memory s). obj_get h q = obj_get (fs_heap s) q"
    using fm.alloc_ok [OF frames_okD(1) [OF ok] req] by (elim exE conjE) (rule that)
  obtain h1 b' where w: "block_write h p 0 xs = Some h1" "block_write h1 p (length xs) ys = Some (h[p := Some b'])"
    "length b' = length b" "take (length xs + length ys) b' = map Some (xs @ ys)"
    using write_two [OF al(4), of xs ys] len al(3,5) by auto
  have tk: "take k b' = map Some (take k (xs @ ys))"
  proof -
    have "take k b' = take k (take (length xs + length ys) b')" using k by simp
    also have "\<dots> = map Some (take k (xs @ ys))" unfolding w(4) by (rule take_map)
    finally show ?thesis .
  qed
  have kb: "k \<le> length b'" using k len al(3,5) w(3) by simp
  show ?thesis
  proof (intro exI conjI allI impI)
    fix fh :: frame_holder assume fh: "fh_counter fh = 1" "fh_frame fh = p" "fh_size fh = k" "fh_alloc_size fh = m"
    have fh': "fh_alloc_size fh = length b" using fh(4) al(5) by simp
    note new = frames_ok_new [OF ok al(2,4,6,7,8) w(3) kb tk fh(1-3) fh']
    show "new_frame_spec s R (take k (xs @ ys))
        (length (fs_frames s), \<lparr>fs_memory = a, fs_heap = h[p := Some b'], fs_frames = fs_frames s @ [Some fh]\<rparr>)"
      unfolding new_frame_spec_def using new by (simp add: obj_simps)
  qed (use al(1) w in simp_all)
qed

lemma new_frame_written_one:
  assumes ok: "frames_ok s R" and req: "length xs \<le> 4294934527"
  shows "\<exists>p m a h h1. fm_alloc (fs_memory s) (fs_heap s) (length xs) = Some (p, m, a, h) \<and>
           block_write h p 0 xs = Some h1 \<and>
           (\<forall>fh. fh_counter fh = 1 \<longrightarrow> fh_frame fh = p \<longrightarrow> fh_size fh = length xs \<longrightarrow> fh_alloc_size fh = m \<longrightarrow>
             new_frame_spec s R xs
               (length (fs_frames s), \<lparr>fs_memory = a, fs_heap = h1, fs_frames = fs_frames s @ [Some fh]\<rparr>))"
proof -
  obtain p m a h b where al: "fm_alloc (fs_memory s) (fs_heap s) (length xs) = Some (p, m, a, h)" "fm_ok a h" "length xs \<le> m"
    "obj_get h p = Some b" "length b = m" "p \<notin> live (fs_heap s) - kept (fs_memory s)"
    "live h - kept a = insert p (live (fs_heap s) - kept (fs_memory s))"
    "\<forall>q \<in> live (fs_heap s) - kept (fs_memory s). obj_get h q = obj_get (fs_heap s) q"
    using fm.alloc_ok [OF frames_okD(1) [OF ok] req] by (elim exE conjE) (rule that)
  obtain b' where w: "block_write h p 0 xs = Some (h[p := Some b'])" "length b' = length b" "take (length xs) b' = map Some xs"
    using write_one [OF al(4), of xs] al(3,5) by auto
  have kb: "length xs \<le> length b'" using al(3,5) w(2) by simp
  show ?thesis
  proof (intro exI conjI allI impI)
    fix fh :: frame_holder assume fh: "fh_counter fh = 1" "fh_frame fh = p" "fh_size fh = length xs" "fh_alloc_size fh = m"
    have fh': "fh_alloc_size fh = length b" using fh(4) al(5) by simp
    note new = frames_ok_new [OF ok al(2,4,6,7,8) w(2) kb w(3) fh(1-3) fh']
    show "new_frame_spec s R xs
        (length (fs_frames s), \<lparr>fs_memory = a, fs_heap = h[p := Some b'], fs_frames = fs_frames s @ [Some fh]\<rparr>)"
      unfolding new_frame_spec_def using new by (simp add: obj_simps)
  qed (use al(1) w in simp_all)
qed

lemma uint_wrap_small: "n < 4294967296 \<Longrightarrow> uint_wrap n = n"
  by (simp add: uint_wrap_def)

lemma new_frame_holder_ok:
  assumes ok: "frames_ok s R" and n: "n \<le> length buf" "n \<le> 4294934095"
    and jpeg: "ftype = JPEG_TYPE \<and> 2 < n \<longrightarrow> 2051 \<le> length buf"
  shows "\<exists>r. new_frame_holder s buf n ftype width height = Some r \<and> new_frame_spec s R (framed buf n ftype) r"
proof -
  let ?fh = "\<lambda>p k m. \<lparr>fh_counter = 1, fh_frame = p, fh_size = k, fh_alloc_size = m,
         fh_ftype = ftype, fh_width = width, fh_height = height\<rparr>"
  have len: "length (take n buf) = n" using n(1) by simp
  have rd: "mem_read buf 0 n = Some (take n buf)" using n(1) by (simp add: mem_simps)
  consider (mpeg4) "ftype = MPEG4_HD_TYPE \<or> ftype = MPEG4_CIF_TYPE"
    | (tables) "ftype = JPEG_TYPE" "2 < n" "is_huffman buf = Some False"
    | (plain) "ftype \<noteq> MPEG4_HD_TYPE" "ftype \<noteq> MPEG4_CIF_TYPE" "ftype = JPEG_TYPE \<and> 2 < n \<longrightarrow> is_huffman buf = Some True"
    using is_huffman_some [OF jpeg] by blast
  then show ?thesis
  proof cases
    case mpeg4
    have w: "uint_wrap (n + 9) = n + 9" using n(2) by (intro uint_wrap_small) linarith
    obtain p m a h h1 h2 where st: "fm_alloc (fs_memory s) (fs_heap s) (n + 9) = Some (p, m, a, h)"
      "block_write h p 0 (mpeg4_vol n) = Some h1" "block_write h1 p 9 (take n buf) = Some h2"
      "\<forall>fh. fh_counter fh = 1 \<longrightarrow> fh_frame fh = p \<longrightarrow> fh_size fh = n \<longrightarrow> fh_alloc_size fh = m \<longrightarrow>
         new_frame_spec s R (take n (mpeg4_vol n @ take n buf))
           (length (fs_frames s), \<lparr>fs_memory = a, fs_heap = h2, fs_frames = fs_frames s @ [Some fh]\<rparr>)"
      using new_frame_written [OF ok, of "n + 9" "mpeg4_vol n" "take n buf" n] n len by (simp only: mpeg4_vol_length) auto
    have "new_frame_holder s buf n ftype width height =
      Some (length (fs_frames s), \<lparr>fs_memory = a, fs_heap = h2, fs_frames = fs_frames s @ [Some (?fh p n m)]\<rparr>)"
      using mpeg4 by (simp add: new_frame_holder_def w st(1-3) rd obj_new_def Let_def)
    then show ?thesis using st(4) mpeg4 by (simp add: framed_def)
  next
    case tables
    have nt: "ftype \<noteq> MPEG4_HD_TYPE" "ftype \<noteq> MPEG4_CIF_TYPE" using tables(1) by (simp_all add: frame_types)
    have w: "uint_wrap (432 + n) = n + 432" using n(2) uint_wrap_small [of "432 + n"] by simp
    have rd2: "mem_read buf 2 (n - 2) = Some (drop 2 (take n buf))" using n(1) tables(2) by (simp add: mem_simps drop_take)
    have len2: "length (drop 2 (take n buf)) = n - 2" using len by simp
    obtain p m a h h1 h2 where st: "fm_alloc (fs_memory s) (fs_heap s) (n + 432) = Some (p, m, a, h)"
      "block_write h p 0 jpeg_default_ht = Some h1" "block_write h1 p 434 (drop 2 (take n buf)) = Some h2"
      "\<forall>fh. fh_counter fh = 1 \<longrightarrow> fh_frame fh = p \<longrightarrow> fh_size fh = n + 432 \<longrightarrow> fh_alloc_size fh = m \<longrightarrow>
         new_frame_spec s R (take (n + 432) (jpeg_default_ht @ drop 2 (take n buf)))
           (length (fs_frames s), \<lparr>fs_memory = a, fs_heap = h2, fs_frames = fs_frames s @ [Some fh]\<rparr>)"
      using new_frame_written [OF ok, of "n + 432" jpeg_default_ht "drop 2 (take n buf)" "n + 432"] n tables(2) len2
      by (simp only: jpeg_default_ht_length) auto
    have tk: "take (n + 432) (jpeg_default_ht @ drop 2 (take n buf)) = jpeg_default_ht @ drop 2 (take n buf)"
      using tables(2) len2 by (intro take_all) simp
    have "new_frame_holder s buf n ftype width height =
      Some (length (fs_frames s), \<lparr>fs_memory = a, fs_heap = h2, fs_frames = fs_frames s @ [Some (?fh p (n + 432) m)]\<rparr>)"
      using tables nt by (simp add: new_frame_holder_def w st(1-3) rd2 obj_new_def Let_def)
    then show ?thesis using st(4) tables nt unfolding tk by (simp add: framed_def)
  next
    case plain
    have fr: "framed buf n ftype = take n buf" using plain by (auto simp: framed_def)
    have req: "length (take n buf) \<le> 4294934527" using len n(2) by linarith
    obtain p m a h h1 where st: "fm_alloc (fs_memory s) (fs_heap s) n = Some (p, m, a, h)"
      "block_write h p 0 (take n buf) = Some h1"
      "\<forall>fh. fh_counter fh = 1 \<longrightarrow> fh_frame fh = p \<longrightarrow> fh_size fh = n \<longrightarrow> fh_alloc_size fh = m \<longrightarrow>
         new_frame_spec s R (take n buf)
           (length (fs_frames s), \<lparr>fs_memory = a, fs_heap = h1, fs_frames = fs_frames s @ [Some fh]\<rparr>)"
      using new_frame_written_one [OF ok req] unfolding len by (elim exE conjE) (rule that)
    have "new_frame_holder s buf n ftype width height =
      Some (length (fs_frames s), \<lparr>fs_memory = a, fs_heap = h1, fs_frames = fs_frames s @ [Some (?fh p n m)]\<rparr>)"
      using plain by (simp add: new_frame_holder_def st(1,2) rd obj_new_def Let_def)
    then show ?thesis using st(3) fr by simp
  qed
qed

lemma new_frame_specD:
  assumes "new_frame_spec s R content (f, s')"
  shows "f = length (fs_frames s)" "frames_ok s' (add_mset f R)" "frame_content s' f = content"
    "g \<in> live (fs_frames s) \<Longrightarrow> frame_content s' g = frame_content s g"
    "g \<noteq> f \<Longrightarrow> obj_get (fs_frames s') g = obj_get (fs_frames s) g"
  using assms by (auto simp: new_frame_spec_def)

lemma counter_update:
  assumes ok: "frames_ok s R" and f: "obj_get (fs_frames s) f = Some fh"
    and c: "fh_counter fh' = c" "fh_frame fh' = fh_frame fh" "fh_size fh' = fh_size fh" "fh_alloc_size fh' = fh_alloc_size fh"
    and R': "f \<in># R'" "c = int (count R' f)" "\<forall>g. g \<noteq> f \<longrightarrow> count R' g = count R g"
  defines "s' \<equiv> s\<lparr>fs_frames := (fs_frames s)[f := Some fh']\<rparr>"
  shows "frames_ok s' R'" and "frame_content s' g = frame_content s g"
    and "live (fs_frames s') = live (fs_frames s)"
proof -
  have fl: "f \<in> live (fs_frames s)" using f by blast
  have get: "obj_get (fs_frames s') g = (if g = f then Some fh' else obj_get (fs_frames s) g)" for g
    using fl by (simp add: s'_def obj_simps)
  have before: "\<exists>oh. obj_get (fs_frames s) g = Some oh \<and> fh_frame oh = fh_frame gh"
    if "obj_get (fs_frames s') g = Some gh" for g gh
    using that get [of g] f c(2) by (cases "g = f") auto
  have same [simp]: "fs_memory s' = fs_memory s" "fs_heap s' = fs_heap s" by (simp_all add: s'_def)
  show lv: "live (fs_frames s') = live (fs_frames s)" using fl by (simp add: s'_def obj_simps)
  have R'R: "g \<in># R' \<longleftrightarrow> g \<in># R" if "g \<noteq> f" for g using R'(3) that by (simp add: count_greater_zero_iff [symmetric] del: count_greater_zero_iff)
  show "frame_content s' g = frame_content s g"
    using get [of g] c(2,3) f by (cases "g = f"; cases "obj_get (fs_frames s) g") (simp_all add: frame_content_def)
  show "frames_ok s' R'"
    unfolding frames_ok_def lv same
  proof (intro conjI allI impI)
    show "fm_ok (fs_memory s) (fs_heap s)" using frames_okD(1) [OF ok] .
    show "set_mset R' \<subseteq> live (fs_frames s)" 
    proof
      fix g assume "g \<in># R'"
      then show "g \<in> live (fs_frames s)"
        using fl R'R [of g] frames_okD(2) [OF ok, of g] by (cases "g = f") (auto simp: in_live)
    qed
    fix g gh assume g: "obj_get (fs_frames s') g = Some gh"
    show "frame_ok s' gh"
      using g get frames_okD(3) [OF ok] f c(2-4) by (auto simp: frame_ok_def split: if_splits)
    show "g \<in># R'" using g get R'(1) R'R frames_okD(4) [OF ok] by (auto split: if_splits)
    show "fh_counter gh = int (count R' g)"
      using g get R'(2,3) c(1) frames_okD(5) [OF ok] by (auto split: if_splits)
  next
    fix g g' gh gh'
    assume *: "obj_get (fs_frames s') g = Some gh \<and> obj_get (fs_frames s') g' = Some gh' \<and> fh_frame gh = fh_frame gh'"
    then obtain oh oh' where o: "obj_get (fs_frames s) g = Some oh" "fh_frame oh = fh_frame gh"
      "obj_get (fs_frames s) g' = Some oh'" "fh_frame oh' = fh_frame gh'"
      using before by blast
    then have "fh_frame oh = fh_frame oh'" using * by simp
    then show "g = g'" by (rule frames_okD(6) [OF ok o(1,3)])
  next
    show "live (fs_heap s) - kept (fs_memory s) = {p. \<exists>f fh. obj_get (fs_frames s') f = Some fh \<and> p = fh_frame fh}"
      unfolding frames_okD(7) [OF ok]
    proof (intro Collect_cong iffI)
      fix p assume "\<exists>f fh. obj_get (fs_frames s) f = Some fh \<and> p = fh_frame fh"
      then obtain g gh where g: "obj_get (fs_frames s) g = Some gh" "p = fh_frame gh" by blast
      then have "obj_get (fs_frames s') g = Some (if g = f then fh' else gh)" using get by simp
      moreover have "p = fh_frame (if g = f then fh' else gh)" using g f c(2) by auto
      ultimately show "\<exists>f fh. obj_get (fs_frames s') f = Some fh \<and> p = fh_frame fh" by blast
    next
      fix p assume "\<exists>f fh. obj_get (fs_frames s') f = Some fh \<and> p = fh_frame fh"
      then show "\<exists>f fh. obj_get (fs_frames s) f = Some fh \<and> p = fh_frame fh"
        using before by metis
    qed
  qed
qed

lemma frame_add_ref_ok:
  assumes ok: "frames_ok s R" and f: "f \<in># R"
  shows "\<exists>s'. frame_add_ref s f = Some s' \<and> frames_ok s' (add_mset f R) \<and>
           (\<forall>g. frame_content s' g = frame_content s g) \<and> live (fs_frames s') = live (fs_frames s)"
proof -
  obtain fh where fh: "obj_get (fs_frames s) f = Some fh" using frames_okD(2) [OF ok f] by blast
  let ?fh = "fh\<lparr>fh_counter := fh_counter fh + 1\<rparr>"
  have c: "fh_counter fh + 1 = int (count (add_mset f R) f)" using frames_okD(5) [OF ok fh] by simp
  have step: "frame_add_ref s f = Some (s\<lparr>fs_frames := (fs_frames s)[f := Some ?fh]\<rparr>)"
    using fh by (auto simp: frame_add_ref_def obj_simps dest!: obj_get_SomeD)
  have up: "frames_ok (s\<lparr>fs_frames := (fs_frames s)[f := Some ?fh]\<rparr>) (add_mset f R)"
    by (rule counter_update(1) [OF ok fh, where c = "fh_counter fh + 1"]) (use c in simp_all)
  moreover have "frame_content (s\<lparr>fs_frames := (fs_frames s)[f := Some ?fh]\<rparr>) g = frame_content s g" for g
    by (rule counter_update(2) [OF ok fh, where c = "fh_counter fh + 1" and R' = "add_mset f R"]) (use c in simp_all)
  moreover have "live (fs_frames (s\<lparr>fs_frames := (fs_frames s)[f := Some ?fh]\<rparr>)) = live (fs_frames s)"
    by (rule counter_update(3) [OF ok fh, where c = "fh_counter fh + 1" and R' = "add_mset f R"]) (use c in simp_all)
  ultimately show ?thesis using step by blast
qed

lemma frame_release_ok:
  assumes ok: "frames_ok s R" and f: "f \<in># R"
  shows "\<exists>s'. frame_release_and_delete s f = Some s' \<and> frames_ok s' (R - {#f#}) \<and>
           (\<forall>g \<in># R - {#f#}. frame_content s' g = frame_content s g)"
proof -
  obtain fh where fh: "obj_get (fs_frames s) f = Some fh" using frames_okD(2) [OF ok f] by blast
  let ?fh = "fh\<lparr>fh_counter := fh_counter fh - 1\<rparr>" and ?R = "R - {#f#}"
  let ?s1 = "s\<lparr>fs_frames := (fs_frames s)[f := Some ?fh]\<rparr>"
  have fl: "f \<in> live (fs_frames s)" using fh by blast
  have cnt: "fh_counter fh = int (count R f)" using frames_okD(5) [OF ok fh] .
  have put: "obj_put (fs_frames s) f ?fh = Some ((fs_frames s)[f := Some ?fh])" using fl by (simp add: obj_simps)
  show ?thesis
  proof (cases "0 < fh_counter fh - 1")
    case True
    have step: "frame_release_and_delete s f = Some ?s1"
      using fh put True by (simp add: frame_release_and_delete_def Let_def)
    have "f \<in># ?R" using True cnt by (simp add: count_greater_zero_iff [symmetric] del: count_greater_zero_iff)
    moreover have "fh_counter fh - 1 = int (count ?R f)" using True cnt by simp
    moreover have "frames_ok ?s1 ?R"
      by (rule counter_update(1) [OF ok fh, where c = "fh_counter fh - 1"]) (use calculation in simp_all)
    moreover have "frame_content ?s1 g = frame_content s g" for g
      by (rule counter_update(2) [OF ok fh, where c = "fh_counter fh - 1" and R' = ?R]) (use calculation in simp_all)
    ultimately show ?thesis using step by blast
  next
    case False
    then have c1: "count R f = 1" using cnt f by (simp add: count_greater_zero_iff [symmetric] del: count_greater_zero_iff)
    have fR: "f \<notin># ?R" using c1 by (simp add: not_in_iff)
    obtain b bs where b: "obj_get (fs_heap s) (fh_frame fh) = Some b" "length b = fh_alloc_size fh"
      "fh_frame fh \<notin> kept (fs_memory s)"
      using frames_okD(3) [OF ok fh] unfolding frame_ok_def by blast
    obtain a h where rel: "fm_free_block (fs_memory s) (fs_heap s) (fh_frame fh) (length b) = Some (a, h)" "fm_ok a h"
      "live h - kept a = live (fs_heap s) - kept (fs_memory s) - {fh_frame fh}"
      "\<forall>q \<in> live (fs_heap s) - kept (fs_memory s) - {fh_frame fh}. obj_get h q = obj_get (fs_heap s) q"
      using fm.release_ok [OF frames_okD(1) [OF ok] b(3,1)] by (elim exE conjE) (rule that)
    let ?fs = "(fs_frames s)[f := None]"
    define s' where "s' = \<lparr>fs_memory = a, fs_heap = h, fs_frames = ?fs\<rparr>"
    have "f \<in> live ((fs_frames s)[f := Some ?fh])" using fl by (simp add: obj_simps)
    then have del: "obj_del ((fs_frames s)[f := Some ?fh]) f = Some ?fs" by (simp add: obj_simps)
    have step: "frame_release_and_delete s f = Some s'"
      using fh put del False rel(1) b(2) by (simp add: frame_release_and_delete_def Let_def s'_def)
    have get: "obj_get (fs_frames s') g = (if g = f then None else obj_get (fs_frames s) g)" for g
      using fl by (simp add: s'_def obj_simps)
    have old: "obj_get h (fh_frame gh) = obj_get (fs_heap s) (fh_frame gh)" "fh_frame gh \<notin> kept a" "fh_frame gh \<noteq> fh_frame fh"
      if g: "obj_get (fs_frames s) g = Some gh" "g \<noteq> f" for g gh
    proof -
      show ne: "fh_frame gh \<noteq> fh_frame fh" using frames_okD(6) [OF ok g(1) fh] g(2) by blast
      have "fh_frame gh \<in> live (fs_heap s) - kept (fs_memory s)" using frame_block_in_use [OF ok g(1)] .
      then have u: "fh_frame gh \<in> live h - kept a" unfolding rel(3) using ne by blast
      show "obj_get h (fh_frame gh) = obj_get (fs_heap s) (fh_frame gh)" using rel(3,4) u by blast
      show "fh_frame gh \<notin> kept a" using u by blast
    qed
    have content: "frame_content s' g = frame_content s g" if "obj_get (fs_frames s) g = Some gh" "g \<noteq> f" for g gh
      by (rule frame_content_same [of s' g gh s gh]) (use that old [OF that] get [of g] in \<open>simp_all add: s'_def\<close>)
    have "frames_ok s' ?R"
      unfolding frames_ok_def
    proof (intro conjI allI impI)
      show "fm_ok (fs_memory s') (fs_heap s')" using rel(2) by (simp add: s'_def)
      show "set_mset ?R \<subseteq> live (fs_frames s')"
      proof
        fix g assume g: "g \<in> set_mset ?R"
        then have "g \<noteq> f" using fR by blast
        moreover have "g \<in># R" using g by (rule in_diffD)
        ultimately show "g \<in> live (fs_frames s')" using frames_okD(2) [OF ok] get by (auto simp: in_live)
      qed
      fix g gh assume g: "obj_get (fs_frames s') g = Some gh"
      then have g': "g \<noteq> f" "obj_get (fs_frames s) g = Some gh" using get by (auto split: if_splits)
      show "frame_ok s' gh" using frames_okD(3) [OF ok g'(2)] old [OF g'(2,1)] by (simp add: frame_ok_def s'_def)
      show "g \<in># ?R" using frames_okD(4) [OF ok g'(2)] g'(1) by (simp add: in_diff_count not_in_iff)
      show "fh_counter gh = int (count ?R g)" using frames_okD(5) [OF ok g'(2)] g'(1) by simp
    next
      fix g g' gh gh'
      assume "obj_get (fs_frames s') g = Some gh \<and> obj_get (fs_frames s') g' = Some gh' \<and> fh_frame gh = fh_frame gh'"
      then show "g = g'" using get frames_okD(6) [OF ok] by (auto split: if_splits)
    next
      have "live (fs_heap s') - kept (fs_memory s') = {p. \<exists>f fh. obj_get (fs_frames s) f = Some fh \<and> p = fh_frame fh} - {fh_frame fh}"
        using rel(3) frames_okD(7) [OF ok] by (simp add: s'_def)
      also have "\<dots> = {p. \<exists>f fh. obj_get (fs_frames s') f = Some fh \<and> p = fh_frame fh}"
      proof (intro equalityI subsetI)
        fix q assume "q \<in> {p. \<exists>f fh. obj_get (fs_frames s) f = Some fh \<and> p = fh_frame fh} - {fh_frame fh}"
        then obtain g gh where g: "obj_get (fs_frames s) g = Some gh" "q = fh_frame gh" "q \<noteq> fh_frame fh" by blast
        then have "g \<noteq> f" using fh by auto
        then have "obj_get (fs_frames s') g = Some gh" using get g(1) by simp
        then show "q \<in> {p. \<exists>f fh. obj_get (fs_frames s') f = Some fh \<and> p = fh_frame fh}" using g(2) by blast
      next
        fix q assume "q \<in> {p. \<exists>f fh. obj_get (fs_frames s') f = Some fh \<and> p = fh_frame fh}"
        then obtain g gh where g: "obj_get (fs_frames s') g = Some gh" "q = fh_frame gh" by blast
        then have g': "g \<noteq> f" "obj_get (fs_frames s) g = Some gh" using get by (auto split: if_splits)
        show "q \<in> {p. \<exists>f fh. obj_get (fs_frames s) f = Some fh \<and> p = fh_frame fh} - {fh_frame fh}"
          using old(3) [OF g'(2,1)] g'(2) g(2) by auto
      qed
      finally show "live (fs_heap s') - kept (fs_memory s') = {p. \<exists>f fh. obj_get (fs_frames s') f = Some fh \<and> p = fh_frame fh}" .
    qed
    moreover have "frame_content s' g = frame_content s g" if g: "g \<in># ?R" for g
    proof -
      have "g \<noteq> f" using g fR by blast
      moreover obtain gh where "obj_get (fs_frames s) g = Some gh" using frames_okD(2) [OF ok in_diffD [OF g]] by blast
      ultimately show ?thesis using content by blast
    qed
    ultimately show ?thesis using step by blast
  qed
qed

section \<open>What a client is sent of a picture\<close>

text \<open>A marker is two bytes; a table comes before the scan data.\<close>

definition marker :: "byte list \<Rightarrow> nat \<Rightarrow> nat" where
  "marker bs i = 256 * unat (bs ! i) + unat (bs ! (i + 1))"

definition table_at :: "byte list \<Rightarrow> nat \<Rightarrow> bool" where
  "table_at bs i \<longleftrightarrow> i + 1 < length bs \<and> marker bs i = 0xffc4 \<and> (\<forall>j \<le> i. marker bs j \<noteq> 0xffda)"

lemma is_huffman_from_spec:
  assumes "i \<le> 2049" "2051 \<le> length buf"
  shows "is_huffman_from buf i = Some (\<exists>k. i \<le> k \<and> k \<le> 2048 \<and> marker buf k = 0xffc4 \<and> (\<forall>j. i \<le> j \<and> j \<le> k \<longrightarrow> marker buf j \<noteq> 0xffda))"
  using assms
proof (induction buf i rule: is_huffman_from.induct)
  case (1 buf i)
  have get: "mem_get buf i = Some (buf ! i)" "mem_get buf (i + 1) = Some (buf ! (i + 1))"
    using "1.prems" by (simp_all add: mem_simps)
  have unroll: "is_huffman_from buf i =
      (if marker buf i = 0xffda then Some False else if 2048 < i then Some False
       else if marker buf i = 0xffc4 then Some True else is_huffman_from buf (i + 1))"
    by (subst is_huffman_from.simps) (use get in \<open>simp add: marker_def Let_def\<close>)
  have ih: "is_huffman_from buf (i + 1) = Some (\<exists>k. i + 1 \<le> k \<and> k \<le> 2048 \<and> marker buf k = 0xffc4 \<and>
      (\<forall>j. i + 1 \<le> j \<and> j \<le> k \<longrightarrow> marker buf j \<noteq> 0xffda))"
    if "marker buf i \<noteq> 0xffda" "i \<le> 2048" "marker buf i \<noteq> 0xffc4"
    by (rule "1.IH" [OF get(1,2)]) (use that "1.prems" in \<open>simp_all add: marker_def\<close>)
  show ?case
  proof (cases "marker buf i = 0xffda \<or> 2048 < i \<or> marker buf i = 0xffc4")
    case True
    then show ?thesis unfolding unroll by (auto simp: le_less)
  next
    case False
    have "(\<exists>k. i \<le> k \<and> k \<le> 2048 \<and> marker buf k = 0xffc4 \<and> (\<forall>j. i \<le> j \<and> j \<le> k \<longrightarrow> marker buf j \<noteq> 0xffda)) \<longleftrightarrow>
      (\<exists>k. i + 1 \<le> k \<and> k \<le> 2048 \<and> marker buf k = 0xffc4 \<and> (\<forall>j. i + 1 \<le> j \<and> j \<le> k \<longrightarrow> marker buf j \<noteq> 0xffda))"
    proof (intro iffI; elim exE conjE)
      fix k assume k: "i \<le> k" "k \<le> 2048" "marker buf k = 0xffc4" "\<forall>j. i \<le> j \<and> j \<le> k \<longrightarrow> marker buf j \<noteq> 0xffda"
      have "k \<noteq> i" using k(3) False by auto
      then show "\<exists>k. i + 1 \<le> k \<and> k \<le> 2048 \<and> marker buf k = 0xffc4 \<and> (\<forall>j. i + 1 \<le> j \<and> j \<le> k \<longrightarrow> marker buf j \<noteq> 0xffda)"
        using k by (intro exI [of _ k]) auto
    next
      fix k assume k: "i + 1 \<le> k" "k \<le> 2048" "marker buf k = 0xffc4" "\<forall>j. i + 1 \<le> j \<and> j \<le> k \<longrightarrow> marker buf j \<noteq> 0xffda"
      have "\<forall>j. i \<le> j \<and> j \<le> k \<longrightarrow> marker buf j \<noteq> 0xffda" using k(4) False by (metis Suc_eq_plus1 not_less_eq_eq le_antisym)
      then show "\<exists>k. i \<le> k \<and> k \<le> 2048 \<and> marker buf k = 0xffc4 \<and> (\<forall>j. i \<le> j \<and> j \<le> k \<longrightarrow> marker buf j \<noteq> 0xffda)"
        using k by (intro exI [of _ k]) auto
    qed
    then show ?thesis unfolding unroll using ih False by simp
  qed
qed

lemma marker_take: "i + 1 < n \<Longrightarrow> marker (take n bs) i = marker bs i"
  by (simp add: marker_def)

lemma default_table_at: "table_at (jpeg_default_ht @ bs) 2"
proof -
  have "marker (jpeg_default_ht @ bs) 0 = 0xffd8" "marker (jpeg_default_ht @ bs) 1 = 0xd8ff" "marker (jpeg_default_ht @ bs) 2 = 0xffc4"
    by (simp_all add: marker_def jpeg_default_ht_def)
  moreover have "(\<forall>j \<le> 2. P j) \<longleftrightarrow> P 0 \<and> P 1 \<and> P 2" for P :: "nat \<Rightarrow> bool"
    using le_Suc_eq by (auto simp: numeral_2_eq_2)
  ultimately show ?thesis by (simp add: table_at_def)
qed

lemma new_frame_holderE:
  assumes "frames_ok s R" "n \<le> length buf" "n \<le> 4294934095" "ftype = JPEG_TYPE \<and> 2 < n \<longrightarrow> 2051 \<le> length buf"
  obtains f s' where "new_frame_holder s buf n ftype width height = Some (f, s')"
    "new_frame_spec s R (framed buf n ftype) (f, s')"
proof -
  obtain r where "new_frame_holder s buf n ftype width height = Some r" "new_frame_spec s R (framed buf n ftype) r"
    using new_frame_holder_ok [OF assms] by blast
  then show thesis using that by (cases r) blast
qed



text \<open>C39: Of an MPEG4 picture clients never get the last nine bytes: the header of nine bytes is put
  in front, but the frame keeps the size without it.\<close>

theorem mpeg4_tail_lost:
  assumes "frames_ok s R" "n \<le> length buf" "n \<le> 4294934095" "9 \<le> n" "ftype = MPEG4_HD_TYPE \<or> ftype = MPEG4_CIF_TYPE"
  shows "\<exists>f s'. new_frame_holder s buf n ftype width height = Some (f, s') \<and>
           frame_content s' f = mpeg4_vol n @ take (n - 9) buf"
proof -
  have "ftype = JPEG_TYPE \<and> 2 < n \<longrightarrow> 2051 \<le> length buf" using assms(5) by (auto simp: frame_types)
  then obtain f s' where st: "new_frame_holder s buf n ftype width height = Some (f, s')"
    "new_frame_spec s R (framed buf n ftype) (f, s')"
    by (rule new_frame_holderE [OF assms(1-3)])
  have "framed buf n ftype = mpeg4_vol n @ take (n - 9) buf"
    using assms(4,5) by (auto simp: framed_def)
  then show ?thesis using st(1) new_frame_specD(3) [OF st(2)] by auto
qed

lemma mpeg4_tail_lost_witness:
  "\<exists>f s'. new_frame_holder new_frame_state [1, 2, 3, 4, 5, 6, 7, 8, 9, 10] 10 MPEG4_HD_TYPE 640 480 = Some (f, s') \<and>
     frame_content s' f = mpeg4_vol 10 @ take (10 - 9) [1, 2, 3, 4, 5, 6, 7, 8, 9, 10]"
  by (rule mpeg4_tail_lost [OF new_frame_state_ok]) simp_all

end
