(* ===== verification/Frame_Server.thy ===== *)
theory Frame_Server
  imports Frame_Holder
begin

text \<open>
  The camera server (src/wapa_httpd/wapa_http_server.cpp and .h): \<open>RequestHolder\<close>, which queues
  and thins out the frames for one client, \<open>WAPAHTTPServer::OnVideoFrame\<close>, which offers a camera's
  frame to all clients, the loops of the \<open>SendData\<close> methods, which send them, and the list of
  requests they share. The cameras' threads, the clients' threads and the shutdown interleave; the
  mutexes are modelled by what is one step and by \<open>sv_lock\<close>, the owner of \<open>m_requests_mutex\<close>.
\<close>

section \<open>Requests\<close>

record request_holder =
  rh_type :: nat
  rh_first :: bool
  rh_iframe :: bool
  rh_exit :: bool
  rh_frames :: "nat list"
  rh_camera :: nat
  rh_interval :: int
  rh_frame_current :: int
  rh_frame_inc :: int

definition new_request_holder :: "nat \<Rightarrow> nat \<Rightarrow> int \<Rightarrow> request_holder" where
  "new_request_holder type camera interval =
     \<lparr>rh_type = type, rh_first = True, rh_iframe = True, rh_exit = False, rh_frames = [], rh_camera = camera,
      rh_interval = (if 1 \<le> interval then interval - 1 else interval), rh_frame_current = 0, rh_frame_inc = 0\<rparr>"

definition check_type :: "request_holder \<Rightarrow> nat \<Rightarrow> bool" where
  "check_type rh type \<longleftrightarrow> type mod 16 = rh_type rh"

definition check_camera :: "request_holder \<Rightarrow> nat \<Rightarrow> bool" where
  "check_camera rh camera \<longleftrightarrow> camera = rh_camera rh"

text \<open>Fixed point numbers with 16 fractional bits; an overflow of int is undefined.\<close>

definition PJS_FLOAT_EXT_CONST :: "int \<Rightarrow> int option" where
  "PJS_FLOAT_EXT_CONST c = (if is_s32 (c * 65536) then Some (c * 65536) else None)"

definition MAX_FRAME_CONST :: int where "MAX_FRAME_CONST = 6553600"

definition int_add :: "int \<Rightarrow> int \<Rightarrow> int option" where
  "int_add a b = (if is_s32 (a + b) then Some (a + b) else None)"

text \<open>The first half of \<open>AddFrame\<close>: is the frame to be kept?\<close>

definition thin_out :: "request_holder \<Rightarrow> int \<Rightarrow> (request_holder \<times> bool) option" where
  "thin_out rh interval =
     (if 0 < rh_interval rh then
        do {
          rh \<leftarrow>
            (if interval \<noteq> 0 \<and> interval < rh_interval rh then
               do {
                 c \<leftarrow> PJS_FLOAT_EXT_CONST interval;
                 Some (rh\<lparr>rh_frame_inc := c sdiv rh_interval rh\<rparr>)
               }
             else Some (rh\<lparr>rh_frame_current := 0, rh_frame_inc := 0\<rparr>));
          if rh_frame_inc rh \<noteq> 0 then
            (if rh_frame_current rh \<noteq> 0 then
               do {
                 let current = (if MAX_FRAME_CONST < rh_frame_current rh then rh_frame_current rh - MAX_FRAME_CONST
                                else rh_frame_current rh);
                 let last = current div 65536;
                 current \<leftarrow> int_add current (rh_frame_inc rh);
                 Some (rh\<lparr>rh_frame_current := current\<rparr>, last \<noteq> current div 65536)
               }
             else
               do {
                 current \<leftarrow> int_add (rh_frame_current rh) (rh_frame_inc rh);
                 Some (rh\<lparr>rh_frame_current := current\<rparr>, True)
               })
          else Some (rh, True)
        }
      else Some (rh, True))"

definition add_frame :: "frame_state \<Rightarrow> request_holder \<Rightarrow> nat \<Rightarrow> int \<Rightarrow> (frame_state \<times> request_holder \<times> bool) option" where
  "add_frame s rh f interval =
     do {
       (rh, keep) \<leftarrow> thin_out rh interval;
       if \<not> keep then Some (s, rh, False)
       else if length (rh_frames rh) \<le> 6 then
         do {
           s \<leftarrow> frame_add_ref s f;
           Some (s, rh\<lparr>rh_frames := rh_frames rh @ [f]\<rparr>, True)
         }
       else Some (s, rh\<lparr>rh_iframe := True\<rparr>, False)
     }"

definition get_frame_and_remove :: "request_holder \<Rightarrow> nat option \<times> request_holder" where
  "get_frame_and_remove rh =
     (case rh_frames rh of [] \<Rightarrow> (None, rh) | f # fs \<Rightarrow> (Some f, rh\<lparr>rh_frames := fs\<rparr>))"

fun delete_frames :: "frame_state \<Rightarrow> nat list \<Rightarrow> frame_state option" where
  "delete_frames s [] = Some s"
| "delete_frames s (f # fs) = do { s \<leftarrow> frame_release_and_delete s f; delete_frames s fs }"

section \<open>The resources and their clients\<close>

text \<open>The resources of a camera, with the frame type each is made with.\<close>

datatype resource = Mpeg4_Hd | Mpeg4_Cif | Mjpeg | Jpeg | Mulaw

fun resource_type :: "resource \<Rightarrow> nat" where
  "resource_type Mpeg4_Hd = MPEG4_HD_TYPE"
| "resource_type Mpeg4_Cif = MPEG4_CIF_TYPE"
| "resource_type Mjpeg = JPEG_TYPE"
| "resource_type Jpeg = JPEG_TYPE"
| "resource_type Mulaw = SND_MULAW_TYPE"

text \<open>The query \<open>fr10\<close>, ten times the frame rate, as \<open>atoi\<close> reads it.\<close>

definition query_interval :: "resource \<Rightarrow> int option \<Rightarrow> int" where
  "query_interval res fr10 =
     (case (res, fr10) of (Mjpeg, Some framerate) \<Rightarrow> (if 10 \<le> framerate then 10000 sdiv framerate else 0) | _ \<Rightarrow> 0)"

fun decimal :: "nat \<Rightarrow> byte list" where
  "decimal n = (if n < 10 then [of_nat (48 + n)] else decimal (n div 10) @ [of_nat (48 + n mod 10)])"

declare decimal.simps [simp del]

definition ascii :: "string \<Rightarrow> byte list" where
  "ascii s = map of_char s"

definition CRLF :: "byte list" where "CRLF = [13, 10]"

definition mjpeg_header :: "nat \<Rightarrow> byte list" where
  "mjpeg_header n = ascii ''--myboundary'' @ CRLF @ ascii ''Content-Type: image/jpeg'' @ CRLF @
     ascii ''Content-length: '' @ decimal n @ CRLF @ CRLF"

text \<open>
  A client's thread is in its loop, after it, or off the list of requests. \<open>sd_no_frame\<close> is
  \<open>no_frame_cnt\<close> or \<open>no_frame_time\<close>; \<open>sd_out\<close> is what has been sent after the response header.
\<close>

datatype phase = Serving | Left | Unlisted

record sender =
  sd_resource :: resource
  sd_request :: nat
  sd_wait :: bool
  sd_frame :: "nat option"
  sd_position :: nat
  sd_header :: bool
  sd_no_frame :: int
  sd_phase :: phase
  sd_out :: "byte list"

text \<open>
  What the system calls of a turn of the loop do: select's result, what send accepts of the
  header and of the picture (all that is offered, or the first k bytes), and the clock in
  milliseconds.
\<close>

datatype send_result = All | Part nat | Would_Block | Broken

record turn =
  tn_select :: int
  tn_header :: send_result
  tn_body :: send_result
  tn_now :: int

fun do_send :: "send_result \<Rightarrow> byte list \<Rightarrow> int \<times> byte list" where
  "do_send All bs = (int (length bs), bs)"
| "do_send (Part k) bs = (int (min k (length bs)), take k bs)"
| "do_send Would_Block bs = (-1, [])"
| "do_send Broken bs = (-1, [])"

text \<open>Leaving the loop.\<close>

definition sender_leave :: "frame_state \<Rightarrow> sender \<Rightarrow> (frame_state \<times> sender) option" where
  "sender_leave s sd =
     (case sd_frame sd of
        None \<Rightarrow> Some (s, sd\<lparr>sd_phase := Left\<rparr>)
      | Some f \<Rightarrow>
          do {
            s \<leftarrow> frame_release_and_delete s f;
            Some (s, sd\<lparr>sd_frame := None, sd_phase := Left\<rparr>)
          })"

text \<open>The part's header, what send does with the rest of the frame, and what becomes of it.\<close>

definition send_header :: "sender \<Rightarrow> nat \<Rightarrow> turn \<Rightarrow> sender" where
  "send_header sd n tn =
     (if sd_resource sd = Mjpeg \<and> \<not> sd_header sd
      then sd\<lparr>sd_header := True, sd_out := sd_out sd @ snd (do_send (tn_header tn) (mjpeg_header n))\<rparr>
      else sd)"

definition send_body :: "frame_state \<Rightarrow> sender \<Rightarrow> nat \<Rightarrow> nat \<Rightarrow> turn \<Rightarrow> (int \<times> byte list) option" where
  "send_body s sd f n tn =
     (if sd_position sd < n then
        do {
          bytes \<leftarrow> frame_bytes s f (sd_position sd) (n - sd_position sd);
          Some (do_send (tn_body tn) bytes)
        }
      else Some (0, []))"

definition frame_sent :: "frame_state \<Rightarrow> sender \<Rightarrow> nat \<Rightarrow> nat \<Rightarrow> int \<Rightarrow> turn \<Rightarrow> (frame_state \<times> sender) option" where
  "frame_sent s sd f n retval tn =
     (if 0 < retval \<or> n \<le> sd_position sd then
        do {
          let sd = sd\<lparr>sd_wait := False, sd_position := sd_position sd + nat retval\<rparr>;
          if n \<le> sd_position sd then
            do {
              s \<leftarrow> frame_release_and_delete s f;
              let sd = sd\<lparr>sd_header := False, sd_frame := None, sd_position := 0\<rparr>;
              Some (s, case sd_resource sd of
                         Mjpeg \<Rightarrow> sd\<lparr>sd_out := sd_out sd @ CRLF\<rparr>
                       | Jpeg \<Rightarrow> sd\<lparr>sd_phase := Left\<rparr>
                       | _ \<Rightarrow> sd)
            }
          else Some (s, sd)
        }
      else if retval = 0 \<or> tn_body tn = Would_Block then Some (s, sd\<lparr>sd_wait := True\<rparr>)
      else sender_leave s sd)"

definition serve_frame :: "frame_state \<Rightarrow> sender \<Rightarrow> nat \<Rightarrow> turn \<Rightarrow> (frame_state \<times> sender) option" where
  "serve_frame s sd f tn =
     do {
       fh \<leftarrow> obj_get (fs_frames s) f;
       let sd = sd\<lparr>sd_no_frame := 0\<rparr>;
       let retval = (if sd_wait sd then tn_select tn else 1);
       if 0 < retval then
         do {
           let sd = send_header sd (fh_size fh) tn;
           (retval, bytes) \<leftarrow> send_body s sd f (fh_size fh) tn;
           frame_sent s (sd\<lparr>sd_out := sd_out sd @ bytes\<rparr>) f (fh_size fh) retval tn
         }
       else Some (s, sd)
     }"

definition serve_nothing :: "frame_state \<Rightarrow> sender \<Rightarrow> turn \<Rightarrow> (frame_state \<times> sender) option" where
  "serve_nothing s sd tn =
     (if sd_resource sd = Mjpeg \<or> sd_resource sd = Jpeg then
        (if sd_no_frame sd \<noteq> 0 then
           (if 5000 < tn_now tn - sd_no_frame sd then sender_leave s sd else Some (s, sd))
         else Some (s, sd\<lparr>sd_no_frame := tn_now tn\<rparr>))
      else
        (let sd = sd\<lparr>sd_no_frame := sd_no_frame sd + 1\<rparr>
         in if 20 < sd_no_frame sd then sender_leave s sd else Some (s, sd)))"

section \<open>The server\<close>

text \<open>
  A camera's thread is outside \<open>OnVideoFrame\<close>, waits for \<open>m_requests_mutex\<close> with its new frame,
  or offers the frame to the rest of the requests.
\<close>

datatype callback =
    Idle
  | Waiting nat nat nat nat int
  | Offering nat nat nat nat int "nat list"

record server =
  sv_frames :: frame_state
  sv_requests :: "nat list"
  sv_holders :: "request_holder store"
  sv_senders :: "sender store"
  sv_callbacks :: "callback store"
  sv_lock :: "nat option"

definition new_server :: "nat \<Rightarrow> server" where
  "new_server cameras =
     \<lparr>sv_frames = new_frame_state, sv_requests = [], sv_holders = [], sv_senders = [],
      sv_callbacks = replicate cameras (Some Idle), sv_lock = None\<rparr>"

text \<open>The start of an MPEG4 stream, with the picture's size in its bytes 22 to 25.\<close>

definition stream_vol :: "nat \<Rightarrow> nat \<Rightarrow> byte list" where
  "stream_vol width height =
     (let ui = (of_nat height :: u32) OR push_bit 13 1 OR push_bit 14 (of_nat width) OR push_bit 27 21
      in [0x00, 0x00, 0x01, 0xB0, 0xF5, 0x00, 0x00, 0x01, 0xB5, 0x00,
          0x00, 0x00, 0x01, 0x01, 0x00, 0x00, 0x01, 0x20, 0x00, 0x84,
          0x40, 0x07, ucast (drop_bit 24 ui), ucast (drop_bit 16 ui), ucast (drop_bit 8 ui), ucast ui, 0xa2])"

text \<open>
  One turn of \<open>OnVideoFrame\<close>'s loop: frame f of camera c is offered to a request. The frames that
  are queued are also returned.
\<close>

definition offer_frame ::
  "frame_state \<Rightarrow> request_holder \<Rightarrow> nat \<Rightarrow> nat \<Rightarrow> nat \<Rightarrow> nat \<Rightarrow> nat \<Rightarrow> int
    \<Rightarrow> (frame_state \<times> request_holder \<times> nat list) option" where
  "offer_frame s rh c f type width height interval =
     (if check_camera rh c \<and> check_type rh type then
        (if type = MPEG4_HD_TYPE \<or> type = MPEG4_CIF_TYPE then
           do {
             let isIFrame = (type div 128 mod 2 = 0);
             (s, rh, queued, canContinue) \<leftarrow>
               (if rh_first rh \<and> isIFrame then
                  do {
                    (fframe, s) \<leftarrow> new_frame_holder s (stream_vol width height) 27 0xFF width height;
                    (s, rh, ok) \<leftarrow> add_frame s rh fframe interval;
                    s \<leftarrow> frame_release_and_delete s fframe;
                    Some (if ok then (s, rh\<lparr>rh_first := False, rh_iframe := False\<rparr>, [fframe], True) else (s, rh, [], False))
                  }
                else Some (s, rh, [], True));
             if canContinue then
               (if rh_iframe rh then
                  (if isIFrame then
                     do {
                       (s, rh, ok) \<leftarrow> add_frame s rh f interval;
                       Some (if ok then (s, rh\<lparr>rh_iframe := False\<rparr>, queued @ [f]) else (s, rh, queued))
                     }
                   else Some (s, rh, queued))
                else
                  do {
                    (s, rh, ok) \<leftarrow> add_frame s rh f interval;
                    Some (s, rh, if ok then queued @ [f] else queued)
                  })
             else Some (s, rh, queued)
           }
         else
           do {
             (s, rh, ok) \<leftarrow> add_frame s rh f interval;
             Some (s, rh, if ok then [f] else [])
           })
      else Some (s, rh, []))"

text \<open>\<open>WAPAHTTPServer::AddRequest\<close> and \<open>DelRequest\<close>; a mutex that is taken keeps the thread waiting.\<close>

definition add_request :: "server \<Rightarrow> nat \<Rightarrow> server" where
  "add_request sv r = sv\<lparr>sv_requests := sv_requests sv @ [r]\<rparr>"

definition del_request :: "server \<Rightarrow> nat \<Rightarrow> server" where
  "del_request sv r = sv\<lparr>sv_requests := removeAll r (sv_requests sv)\<rparr>"

definition sender_start :: "server \<Rightarrow> resource \<Rightarrow> nat \<Rightarrow> int option \<Rightarrow> int \<Rightarrow> server" where
  "sender_start sv res camera fr10 now =
     (let (r, holders) = obj_new (new_request_holder (resource_type res) camera (query_interval res fr10)) (sv_holders sv);
          (_, senders) = obj_new \<lparr>sd_resource = res, sd_request = r, sd_wait = False, sd_frame = None, sd_position = 0,
            sd_header = False, sd_no_frame = (if res = Jpeg then now else 0), sd_phase = Serving, sd_out = []\<rparr> (sv_senders sv)
      in add_request (sv\<lparr>sv_holders := holders, sv_senders := senders\<rparr>) r)"

definition sender_turn :: "server \<Rightarrow> nat \<Rightarrow> sender \<Rightarrow> turn \<Rightarrow> server option" where
  "sender_turn sv i sd tn =
     do {
       rh \<leftarrow> obj_get (sv_holders sv) (sd_request sd);
       if rh_exit rh then
         do {
           (s, sd) \<leftarrow> sender_leave (sv_frames sv) sd;
           senders \<leftarrow> obj_put (sv_senders sv) i sd;
           Some (sv\<lparr>sv_frames := s, sv_senders := senders\<rparr>)
         }
       else
         do {
           let (frame, rh) = (case sd_frame sd of None \<Rightarrow> get_frame_and_remove rh | Some f \<Rightarrow> (Some f, rh));
           let sd = sd\<lparr>sd_frame := frame\<rparr>;
           holders \<leftarrow> obj_put (sv_holders sv) (sd_request sd) rh;
           (s, sd) \<leftarrow> (case frame of Some f \<Rightarrow> serve_frame (sv_frames sv) sd f tn | None \<Rightarrow> serve_nothing (sv_frames sv) sd tn);
           senders \<leftarrow> obj_put (sv_senders sv) i sd;
           Some (sv\<lparr>sv_frames := s, sv_holders := holders, sv_senders := senders\<rparr>)
         }
     }"

text \<open>\<open>delete rh\<close> and the end of the client's thread.\<close>

definition sender_delete :: "server \<Rightarrow> nat \<Rightarrow> sender \<Rightarrow> server option" where
  "sender_delete sv i sd =
     do {
       rh \<leftarrow> obj_get (sv_holders sv) (sd_request sd);
       s \<leftarrow> delete_frames (sv_frames sv) (rh_frames rh);
       holders \<leftarrow> obj_del (sv_holders sv) (sd_request sd);
       senders \<leftarrow> obj_del (sv_senders sv) i;
       Some (sv\<lparr>sv_frames := s, sv_holders := holders, sv_senders := senders\<rparr>)
     }"

text \<open>What \<open>ShutdownListener\<close> does with the requests.\<close>

fun set_exits :: "request_holder store \<Rightarrow> nat list \<Rightarrow> request_holder store option" where
  "set_exits holders [] = Some holders"
| "set_exits holders (r # rs) =
     do {
       rh \<leftarrow> obj_get holders r;
       holders \<leftarrow> obj_put holders r (rh\<lparr>rh_exit := True\<rparr>);
       set_exits holders rs
     }"

definition shutdown_requests :: "server \<Rightarrow> server option" where
  "shutdown_requests sv =
     do {
       holders \<leftarrow> set_exits (sv_holders sv) (sv_requests sv);
       Some (sv\<lparr>sv_holders := holders, sv_requests := []\<rparr>)
     }"

text \<open>
  The steps of all threads. A step that its thread is not at, or for which it has to wait, leaves
  the state as it is. A step returns the frames it queued, as request and bytes.
\<close>

datatype event =
    Frame_Arrives nat "byte list" nat nat nat nat int
  | Frame_Locks nat
  | Frame_Offered nat
  | Frame_Ends nat
  | Client_Starts resource nat "int option" int
  | Client_Turn nat turn
  | Client_Unlists nat
  | Client_Deletes nat
  | Shutdown

fun server_step :: "server \<Rightarrow> event \<Rightarrow> (server \<times> (nat \<times> byte list) list) option" where
  "server_step sv (Frame_Arrives c buf n type width height interval) =
     (if obj_get (sv_callbacks sv) c = Some Idle then
        do {
          (f, s) \<leftarrow> new_frame_holder (sv_frames sv) buf n type width height;
          cbs \<leftarrow> obj_put (sv_callbacks sv) c (Waiting f type width height interval);
          Some (sv\<lparr>sv_frames := s, sv_callbacks := cbs\<rparr>, [])
        }
      else Some (sv, []))"
| "server_step sv (Frame_Locks c) =
     (case obj_get (sv_callbacks sv) c of
        Some (Waiting f type width height interval) \<Rightarrow>
          (if sv_lock sv = None then
             do {
               cbs \<leftarrow> obj_put (sv_callbacks sv) c (Offering f type width height interval (sv_requests sv));
               Some (sv\<lparr>sv_callbacks := cbs, sv_lock := Some c\<rparr>, [])
             }
           else Some (sv, []))
      | _ \<Rightarrow> Some (sv, []))"
| "server_step sv (Frame_Offered c) =
     (case obj_get (sv_callbacks sv) c of
        Some (Offering f type width height interval (r # rs)) \<Rightarrow>
          do {
            rh \<leftarrow> obj_get (sv_holders sv) r;
            (s, rh, queued) \<leftarrow> offer_frame (sv_frames sv) rh c f type width height interval;
            holders \<leftarrow> obj_put (sv_holders sv) r rh;
            cbs \<leftarrow> obj_put (sv_callbacks sv) c (Offering f type width height interval rs);
            Some (sv\<lparr>sv_frames := s, sv_holders := holders, sv_callbacks := cbs\<rparr>, map (\<lambda>f. (r, frame_content s f)) queued)
          }
      | _ \<Rightarrow> Some (sv, []))"
| "server_step sv (Frame_Ends c) =
     (case obj_get (sv_callbacks sv) c of
        Some (Offering f type width height interval []) \<Rightarrow>
          do {
            s \<leftarrow> frame_release_and_delete (sv_frames sv) f;
            cbs \<leftarrow> obj_put (sv_callbacks sv) c Idle;
            Some (sv\<lparr>sv_frames := s, sv_callbacks := cbs, sv_lock := None\<rparr>, [])
          }
      | _ \<Rightarrow> Some (sv, []))"
| "server_step sv (Client_Starts res camera fr10 now) =
     (if sv_lock sv = None then Some (sender_start sv res camera fr10 now, []) else Some (sv, []))"
| "server_step sv (Client_Turn i tn) =
     (case obj_get (sv_senders sv) i of
        Some sd \<Rightarrow> (if sd_phase sd = Serving then do { sv \<leftarrow> sender_turn sv i sd tn; Some (sv, []) } else Some (sv, []))
      | None \<Rightarrow> Some (sv, []))"
| "server_step sv (Client_Unlists i) =
     (case obj_get (sv_senders sv) i of
        Some sd \<Rightarrow>
          (if sd_phase sd = Left \<and> sv_lock sv = None then
             do {
               senders \<leftarrow> obj_put (sv_senders sv) i (sd\<lparr>sd_phase := Unlisted\<rparr>);
               Some ((del_request sv (sd_request sd))\<lparr>sv_senders := senders\<rparr>, [])
             }
           else Some (sv, []))
      | None \<Rightarrow> Some (sv, []))"
| "server_step sv (Client_Deletes i) =
     (case obj_get (sv_senders sv) i of
        Some sd \<Rightarrow> (if sd_phase sd = Unlisted then do { sv \<leftarrow> sender_delete sv i sd; Some (sv, []) } else Some (sv, []))
      | None \<Rightarrow> Some (sv, []))"
| "server_step sv Shutdown =
     (if sv_lock sv = None then do { sv \<leftarrow> shutdown_requests sv; Some (sv, []) } else Some (sv, []))"

section \<open>Requests keep their bounds\<close>

definition rh_ok :: "request_holder \<Rightarrow> bool" where
  "rh_ok rh \<longleftrightarrow> length (rh_frames rh) \<le> 7 \<and> 0 \<le> rh_interval rh \<and> rh_interval rh \<le> 999 \<and>
     0 \<le> rh_frame_current rh \<and> rh_frame_current rh \<le> 6619136 \<and> 0 \<le> rh_frame_inc rh \<and> rh_frame_inc rh \<le> 65535"

lemma query_interval_range: "0 \<le> query_interval res fr10 \<and> query_interval res fr10 \<le> 1000"
proof (cases "res = Mjpeg \<and> (\<exists>v. fr10 = Some v \<and> 10 \<le> v)")
  case True
  then obtain v where v: "res = Mjpeg" "fr10 = Some v" "10 \<le> v" by blast
  have "10000 div v \<le> 10000 div 10" by (rule zdiv_mono2) (use v in simp_all)
  moreover have "0 \<le> 10000 div v" using v by (simp add: pos_imp_zdiv_nonneg_iff)
  moreover have "query_interval res fr10 = 10000 div v" using v by (simp add: query_interval_def sdiv_pos)
  ultimately show ?thesis by simp
next
  case False
  then have "query_interval res fr10 = 0" by (auto simp: query_interval_def split: resource.splits option.splits)
  then show ?thesis by simp
qed

lemma new_request_ok: "rh_ok (new_request_holder type camera (query_interval res fr10))"
  using query_interval_range [of res fr10] by (auto simp: rh_ok_def new_request_holder_def)

lemma frame_inc_range:
  fixes i m :: int
  assumes "0 < i" "i < m"
  shows "0 \<le> i * 65536 sdiv m \<and> i * 65536 sdiv m \<le> 65535"
proof -
  have "i * 65536 div m * m \<le> i * 65536"
    using div_mult_mod_eq [of "i * 65536" m] pos_mod_sign [of m "i * 65536"] assms by linarith
  also have "\<dots> < 65536 * m" using assms by simp
  finally have "i * 65536 div m < 65536" using assms by (simp add: mult_less_cancel_right)
  moreover have "0 \<le> i * 65536 div m" using assms by (simp add: pos_imp_zdiv_nonneg_iff)
  moreover have "i * 65536 sdiv m = i * 65536 div m" using assms by (simp add: sdiv_pos)
  ultimately show ?thesis by simp
qed

definition same_request :: "request_holder \<Rightarrow> request_holder \<Rightarrow> bool" where
  "same_request rh rh' \<longleftrightarrow> rh_type rh' = rh_type rh \<and> rh_camera rh' = rh_camera rh \<and> rh_exit rh' = rh_exit rh"

lemma thin_out_ok:
  assumes ok: "rh_ok rh" and i: "0 \<le> interval"
  shows "\<exists>rh' keep. thin_out rh interval = Some (rh', keep) \<and> rh_ok rh' \<and>
           rh_frames rh' = rh_frames rh \<and> same_request rh rh'"
proof (cases "0 < rh_interval rh")
  case False
  then show ?thesis using ok by (intro exI [of _ rh] exI [of _ True]) (simp add: thin_out_def same_request_def)
next
  case True
  define rh1 where "rh1 = (if interval \<noteq> 0 \<and> interval < rh_interval rh
    then rh\<lparr>rh_frame_inc := interval * 65536 sdiv rh_interval rh\<rparr> else rh\<lparr>rh_frame_current := 0, rh_frame_inc := 0\<rparr>)"
  have conv: "PJS_FLOAT_EXT_CONST interval = Some (interval * 65536)" if "interval < rh_interval rh"
    using that ok i by (simp add: PJS_FLOAT_EXT_CONST_def is_s32_def rh_ok_def)
  have ok1: "rh_ok rh1"
    using ok i frame_inc_range [of interval "rh_interval rh"] by (auto simp: rh1_def rh_ok_def)
  have shape1: "rh_frames rh1 = rh_frames rh" "same_request rh rh1" by (simp_all add: rh1_def same_request_def)
  define c1 where "c1 = (if MAX_FRAME_CONST < rh_frame_current rh1 then rh_frame_current rh1 - MAX_FRAME_CONST else rh_frame_current rh1)"
  have c1: "0 \<le> c1" "c1 \<le> 6553600" using ok1 by (auto simp: c1_def MAX_FRAME_CONST_def rh_ok_def)
  have inc1: "0 \<le> rh_frame_inc rh1" "rh_frame_inc rh1 \<le> 65535" using ok1 by (simp_all add: rh_ok_def)
  have add1: "int_add c1 (rh_frame_inc rh1) = Some (c1 + rh_frame_inc rh1)"
    using c1 inc1 by (simp add: int_add_def is_s32_def)
  have add0: "int_add 0 (rh_frame_inc rh1) = Some (rh_frame_inc rh1)"
    using inc1 by (simp add: int_add_def is_s32_def)
  have unroll: "thin_out rh interval =
    (if rh_frame_inc rh1 \<noteq> 0 then
       (if rh_frame_current rh1 \<noteq> 0 then
          Some (rh1\<lparr>rh_frame_current := c1 + rh_frame_inc rh1\<rparr>, c1 div 65536 \<noteq> (c1 + rh_frame_inc rh1) div 65536)
        else Some (rh1\<lparr>rh_frame_current := rh_frame_inc rh1\<rparr>, True))
     else Some (rh1, True))"
    using True conv add0 add1 by (auto simp: thin_out_def rh1_def Let_def c1_def)
  have okc: "rh_ok (rh1\<lparr>rh_frame_current := c1 + rh_frame_inc rh1\<rparr>)" "rh_ok (rh1\<lparr>rh_frame_current := rh_frame_inc rh1\<rparr>)"
    using ok1 c1 inc1 by (simp_all add: rh_ok_def)
  show ?thesis
    unfolding unroll using ok1 okc shape1 by (auto simp: same_request_def)
qed

lemma add_frame_ok:
  assumes ok: "frames_ok s R" and f: "f \<in># R" and rh: "rh_ok rh" and i: "0 \<le> interval"
  shows "\<exists>s' rh' k. add_frame s rh f interval = Some (s', rh', k) \<and> frames_ok s' (R + (if k then {#f#} else {#})) \<and>
           rh_frames rh' = rh_frames rh @ (if k then [f] else []) \<and> rh_ok rh' \<and> same_request rh rh' \<and>
           (\<forall>g. frame_content s' g = frame_content s g)"
proof -
  obtain rh1 keep where t: "thin_out rh interval = Some (rh1, keep)" "rh_ok rh1"
    and fields: "rh_frames rh1 = rh_frames rh" "same_request rh rh1"
    using thin_out_ok [OF rh i] by blast
  obtain s1 where a: "frame_add_ref s f = Some s1" "frames_ok s1 (add_mset f R)" "\<forall>g. frame_content s1 g = frame_content s g"
    using frame_add_ref_ok [OF ok f] by blast
  consider "\<not> keep" | "keep" "length (rh_frames rh1) \<le> 6" | "keep" "\<not> length (rh_frames rh1) \<le> 6" by blast
  then show ?thesis
  proof cases
    case 1
    show ?thesis
      by (rule exI [of _ s], rule exI [of _ rh1], rule exI [of _ False]) (use 1 t(1,2) fields ok in \<open>simp add: add_frame_def\<close>)
  next
    case 2
    let ?rh = "rh1\<lparr>rh_frames := rh_frames rh1 @ [f]\<rparr>"
    have "rh_ok ?rh" using t(2) 2(2) by (simp add: rh_ok_def)
    then show ?thesis
      by (intro exI [of _ s1] exI [of _ ?rh] exI [of _ True]) (use 2 t(1) a fields in \<open>simp add: add_frame_def same_request_def\<close>)
  next
    case 3
    let ?rh = "rh1\<lparr>rh_iframe := True\<rparr>"
    have "rh_ok ?rh" using t(2) by (simp add: rh_ok_def)
    then show ?thesis
      by (intro exI [of _ s] exI [of _ ?rh] exI [of _ False]) (use 3 t(1) ok fields in \<open>simp add: add_frame_def same_request_def\<close>)
  qed
qed

lemma stream_vol_length [simp]: "length (stream_vol width height) = 27"
  by (simp add: stream_vol_def Let_def)

text \<open>A request is offered a frame: what it queues are the frame and a stream's start.\<close>

lemma offer_frame_ok:
  assumes ok: "frames_ok s R" and f: "f \<in># R" and rh: "rh_ok rh" and i: "0 \<le> interval"
  shows "\<exists>s' rh' q. offer_frame s rh c f type width height interval = Some (s', rh', q) \<and>
           frames_ok s' (R + mset q) \<and> rh_frames rh' = rh_frames rh @ q \<and> rh_ok rh' \<and> same_request rh rh' \<and>
           (\<forall>g \<in># R. frame_content s' g = frame_content s g) \<and>
           map (frame_content s') q \<in> {[], [frame_content s f], [stream_vol width height], [stream_vol width height, frame_content s f]}"
proof (cases "check_camera rh c \<and> check_type rh type")
  case False
  have "offer_frame s rh c f type width height interval = Some (s, rh, [])"
    unfolding offer_frame_def by (rule if_not_P) (rule False)
  then show ?thesis using ok rh by (intro exI [of _ s] exI [of _ rh] exI [of _ "[]"]) (simp add: same_request_def)
next
  case True
  show ?thesis
  proof (cases "type = MPEG4_HD_TYPE \<or> type = MPEG4_CIF_TYPE")
    case False
    obtain s' rh' k where a: "add_frame s rh f interval = Some (s', rh', k)" "frames_ok s' (R + (if k then {#f#} else {#}))"
      "rh_frames rh' = rh_frames rh @ (if k then [f] else [])" "rh_ok rh'" "same_request rh rh'" "\<forall>g. frame_content s' g = frame_content s g"
      using add_frame_ok [OF ok f rh i] by blast
    show ?thesis
      by (intro exI [of _ s'] exI [of _ rh'] exI [of _ "if k then [f] else []"])
        (use True False a in \<open>cases k; simp add: offer_frame_def\<close>)
  next
    case mpeg4: True
    define iframe where "iframe = (type div 128 mod 2 = 0)"
    have start: "\<exists>s1 rh1 q1 cont. (if rh_first rh \<and> iframe then
                  do {
                    (fframe, s) \<leftarrow> new_frame_holder s (stream_vol width height) 27 0xFF width height;
                    (s, rh, ok) \<leftarrow> add_frame s rh fframe interval;
                    s \<leftarrow> frame_release_and_delete s fframe;
                    Some (if ok then (s, rh\<lparr>rh_first := False, rh_iframe := False\<rparr>, [fframe], True) else (s, rh, [], False))
                  }
                else Some (s, rh, [], True)) = Some (s1, rh1, q1, cont) \<and>
        frames_ok s1 (R + mset q1) \<and> rh_frames rh1 = rh_frames rh @ q1 \<and> rh_ok rh1 \<and> same_request rh rh1 \<and>
        (\<forall>g \<in># R. frame_content s1 g = frame_content s g) \<and> map (frame_content s1) q1 \<in> {[], [stream_vol width height]}"
    proof (cases "rh_first rh \<and> iframe")
      case False
      show ?thesis unfolding if_not_P [OF False] using ok rh
        by (intro exI [of _ s] exI [of _ rh] exI [of _ "[]"] exI [of _ True]) (simp add: same_request_def)
    next
      case True
      have t: "(0xFF::nat) = JPEG_TYPE \<and> 2 < (27::nat) \<longrightarrow> 2051 \<le> length (stream_vol width height)" by (simp add: frame_types)
      obtain ff s0 where n: "new_frame_holder s (stream_vol width height) 27 0xFF width height = Some (ff, s0)"
        "new_frame_spec s R (framed (stream_vol width height) 27 0xFF) (ff, s0)"
        by (rule new_frame_holderE [OF ok _ _ t]) simp_all
      have fr: "framed (stream_vol width height) 27 0xFF = stream_vol width height"
        by (simp add: framed_def frame_types)
      note sp = new_frame_specD [OF n(2), unfolded fr]
      have ffR: "ff \<notin># R" using ok sp(1) length_not_live [of "fs_frames s"] unfolding frames_ok_def by blast
      obtain s1 rh1 k where a: "add_frame s0 rh ff interval = Some (s1, rh1, k)"
        "frames_ok s1 (add_mset ff R + (if k then {#ff#} else {#}))" "rh_frames rh1 = rh_frames rh @ (if k then [ff] else [])"
        "rh_ok rh1" "same_request rh rh1" "\<forall>g. frame_content s1 g = frame_content s0 g"
        using add_frame_ok [OF sp(2) _ rh i, of ff] by auto
      obtain s2 where r: "frame_release_and_delete s1 ff = Some s2"
        "frames_ok s2 (add_mset ff R + (if k then {#ff#} else {#}) - {#ff#})"
        "\<forall>g \<in># add_mset ff R + (if k then {#ff#} else {#}) - {#ff#}. frame_content s2 g = frame_content s1 g"
        using frame_release_ok [OF a(2), of ff] by auto
      have ms: "add_mset ff R + (if k then {#ff#} else {#}) - {#ff#} = R + mset (if k then [ff] else [])" by simp
      have cont: "\<forall>g \<in># R. frame_content s2 g = frame_content s g"
      proof
        fix g assume g: "g \<in># R"
        then have "g \<in> live (fs_frames s)" using ok unfolding frames_ok_def by blast
        then have "frame_content s0 g = frame_content s g" by (rule sp(4))
        moreover have "frame_content s2 g = frame_content s1 g" using r(3) g by auto
        ultimately show "frame_content s2 g = frame_content s g" using a(6) by simp
      qed
      let ?rh = "if k then rh1\<lparr>rh_first := False, rh_iframe := False\<rparr> else rh1"
      have "rh_ok ?rh" using a(4) by (simp add: rh_ok_def)
      moreover have "same_request rh ?rh" using a(5) by (simp add: same_request_def)
      moreover have "k \<longrightarrow> frame_content s2 ff = stream_vol width height"
        using r(3) a(6) sp(3) by (cases k) auto
      ultimately show ?thesis using True n(1) a(1,3) r(1,2) cont unfolding ms
        by (intro exI [of _ s2] exI [of _ ?rh] exI [of _ "if k then [ff] else []"] exI [of _ k]) auto
    qed
    then obtain s1 rh1 q1 cont where st: "(if rh_first rh \<and> iframe then
                  do {
                    (fframe, s) \<leftarrow> new_frame_holder s (stream_vol width height) 27 0xFF width height;
                    (s, rh, ok) \<leftarrow> add_frame s rh fframe interval;
                    s \<leftarrow> frame_release_and_delete s fframe;
                    Some (if ok then (s, rh\<lparr>rh_first := False, rh_iframe := False\<rparr>, [fframe], True) else (s, rh, [], False))
                  }
                else Some (s, rh, [], True)) = Some (s1, rh1, q1, cont)"
        "frames_ok s1 (R + mset q1)" "rh_frames rh1 = rh_frames rh @ q1" "rh_ok rh1" "same_request rh rh1"
        "\<forall>g \<in># R. frame_content s1 g = frame_content s g" "map (frame_content s1) q1 \<in> {[], [stream_vol width height]}"
      by (elim exE conjE) (rule that)
    have f1: "f \<in># R + mset q1" using f by simp
    obtain s2 rh2 k where a: "add_frame s1 rh1 f interval = Some (s2, rh2, k)"
      "frames_ok s2 (R + mset q1 + (if k then {#f#} else {#}))" "rh_frames rh2 = rh_frames rh1 @ (if k then [f] else [])"
      "rh_ok rh2" "same_request rh1 rh2" "\<forall>g. frame_content s2 g = frame_content s1 g"
      using add_frame_ok [OF st(2) f1 st(4) i] by blast
    have unroll: "offer_frame s rh c f type width height interval =
      (if cont then
               (if rh_iframe rh1 then
                  (if iframe then Some (s2, if k then rh2\<lparr>rh_iframe := False\<rparr> else rh2, if k then q1 @ [f] else q1)
                   else Some (s1, rh1, q1))
                else Some (s2, rh2, if k then q1 @ [f] else q1))
             else Some (s1, rh1, q1))"
      using True mpeg4 unfolding offer_frame_def iframe_def [symmetric] Let_def by (simp add: st(1) a(1))
    have content2: "map (frame_content s2) q1 = map (frame_content s1) q1" using a(6) by simp
    have fc: "frame_content s2 f = frame_content s f" using a(6) st(6) f by simp
    have res: "\<exists>s' rh' q. Some (s2, r, if k then q1 @ [f] else q1) = Some (s', rh', q) \<and>
           frames_ok s' (R + mset q) \<and> rh_frames rh' = rh_frames rh @ q \<and> rh_ok rh' \<and> same_request rh rh' \<and>
           (\<forall>g \<in># R. frame_content s' g = frame_content s g) \<and>
           map (frame_content s') q \<in> {[], [frame_content s f], [stream_vol width height], [stream_vol width height, frame_content s f]}"
      if r: "rh_frames r = rh_frames rh2" "rh_ok r" "same_request rh2 r" for r
    proof (intro exI conjI)
      show "Some (s2, r, if k then q1 @ [f] else q1) = Some (s2, r, if k then q1 @ [f] else q1)" ..
      show "frames_ok s2 (R + mset (if k then q1 @ [f] else q1))" using a(2) by (cases k) simp_all
      show "rh_frames r = rh_frames rh @ (if k then q1 @ [f] else q1)" using r(1) a(3) st(3) by simp
      show "same_request rh r" using r(3) a(5) st(5) by (simp add: same_request_def)
      show "\<forall>g \<in># R. frame_content s2 g = frame_content s g" using a(6) st(6) by simp
      show "map (frame_content s2) (if k then q1 @ [f] else q1) \<in>
        {[], [frame_content s f], [stream_vol width height], [stream_vol width height, frame_content s f]}"
        using content2 fc st(7) by (cases k) auto
    qed (rule r(2))
    have res1: "\<exists>s' rh' q. Some (s1, rh1, q1) = Some (s', rh', q) \<and>
           frames_ok s' (R + mset q) \<and> rh_frames rh' = rh_frames rh @ q \<and> rh_ok rh' \<and> same_request rh rh' \<and>
           (\<forall>g \<in># R. frame_content s' g = frame_content s g) \<and>
           map (frame_content s') q \<in> {[], [frame_content s f], [stream_vol width height], [stream_vol width height, frame_content s f]}"
      using st by auto
    show ?thesis
    proof (cases "cont \<and> (rh_iframe rh1 \<longrightarrow> iframe)")
      case False
      then show ?thesis unfolding unroll using res1 by auto
    next
      case True
      let ?r = "if rh_iframe rh1 \<and> k then rh2\<lparr>rh_iframe := False\<rparr> else rh2"
      have "offer_frame s rh c f type width height interval = Some (s2, ?r, if k then q1 @ [f] else q1)"
        unfolding unroll using True by auto
      moreover have "rh_frames ?r = rh_frames rh2" "rh_ok ?r" "same_request rh2 ?r"
        using a(4) by (simp_all add: rh_ok_def same_request_def)
      ultimately show ?thesis using res [of ?r] by simp
    qed
  qed
qed

section \<open>A client's turn\<close>

definition frame_ref :: "sender \<Rightarrow> nat multiset" where
  "frame_ref sd = (case sd_frame sd of None \<Rightarrow> {#} | Some f \<Rightarrow> {#f#})"

lemma frame_ref_simps [simp]:
  "sd_frame sd = None \<Longrightarrow> frame_ref sd = {#}" "sd_frame sd = Some f \<Longrightarrow> frame_ref sd = {#f#}"
  by (simp_all add: frame_ref_def)

text \<open>What a picture is on the wire, and what is still to be sent of the one in hand.\<close>

definition part :: "resource \<Rightarrow> byte list \<Rightarrow> byte list" where
  "part res c = (if res = Mjpeg then mjpeg_header (length c) @ c @ CRLF else c)"

definition rest :: "frame_state \<Rightarrow> sender \<Rightarrow> byte list" where
  "rest s sd =
     (case sd_frame sd of None \<Rightarrow> []
      | Some f \<Rightarrow>
          (let c = frame_content s f
           in if sd_resource sd = Mjpeg
              then (if sd_header sd then [] else mjpeg_header (length c)) @ drop (sd_position sd) c @ CRLF
              else drop (sd_position sd) c))"

definition fresh_frame :: "sender \<Rightarrow> bool" where
  "fresh_frame sd \<longleftrightarrow> sd_frame sd = None \<longrightarrow> sd_position sd = 0 \<and> \<not> sd_header sd"

text \<open>
  What a turn of the loop, which loses no reference, does: between the state before and after,
  and for the bytes on the wire if the system takes headers whole.
\<close>

definition sender_moves :: "frame_state \<Rightarrow> nat multiset \<Rightarrow> sender \<Rightarrow> frame_state \<Rightarrow> sender \<Rightarrow> bool" where
  "sender_moves s R sd s' sd' \<longleftrightarrow>
     frames_ok s' (R - frame_ref sd + frame_ref sd') \<and>
     sd_request sd' = sd_request sd \<and> sd_resource sd' = sd_resource sd \<and> sd_phase sd' \<noteq> Unlisted \<and>
     (sd_phase sd' \<noteq> Serving \<longrightarrow> sd_frame sd' = None) \<and> (sd_phase sd' = Serving \<longrightarrow> fresh_frame sd') \<and>
     (\<forall>g \<in># R - frame_ref sd + frame_ref sd'. frame_content s' g = frame_content s g)"

definition sender_streams :: "frame_state \<Rightarrow> sender \<Rightarrow> frame_state \<Rightarrow> sender \<Rightarrow> bool" where
  "sender_streams s sd s' sd' \<longleftrightarrow>
     (\<exists>ys. sd_out sd @ rest s sd = sd_out sd' @ ys) \<and>
     (sd_phase sd' = Serving \<longrightarrow> sd_out sd' @ rest s' sd' = sd_out sd @ rest s sd)"

lemma sender_leave_ok:
  assumes ok: "frames_ok s R" and f: "frame_ref sd \<subseteq># R"
  shows "\<exists>s'. sender_leave s sd = Some (s', sd\<lparr>sd_frame := None, sd_phase := Left\<rparr>) \<and>
           sender_moves s R sd s' (sd\<lparr>sd_frame := None, sd_phase := Left\<rparr>)"
proof (cases "sd_frame sd")
  case None
  have same: "sd\<lparr>sd_phase := Left\<rparr> = sd\<lparr>sd_frame := None, sd_phase := Left\<rparr>" using None by (cases sd) simp
  then show ?thesis using ok None by (auto simp: sender_leave_def sender_moves_def)
next
  case (Some f)
  then have "f \<in># R" using assms(2) by simp
  then obtain s' where "frame_release_and_delete s f = Some s'" "frames_ok s' (R - {#f#})"
    "\<forall>g \<in># R - {#f#}. frame_content s' g = frame_content s g"
    using frame_release_ok [OF ok] by blast
  then show ?thesis using Some by (auto simp: sender_leave_def sender_moves_def)
qed

lemma do_send_prefix: "do_send r bs = (ret, sent) \<Longrightarrow> \<exists>ys. bs = sent @ ys"
  by (cases r) (auto intro: append_take_drop_id [symmetric])

lemma do_send_ret: "do_send r bs = (ret, sent) \<Longrightarrow> 0 < ret \<Longrightarrow> sent = take (nat ret) bs \<and> nat ret \<le> length bs"
  by (cases r) (auto simp: min_def)

lemma do_send_none: "do_send r bs = (ret, sent) \<Longrightarrow> \<not> 0 < ret \<Longrightarrow> sent = []"
  by (cases r) auto

lemma do_send_neg: "do_send r bs = (ret, sent) \<Longrightarrow> ret \<noteq> 0 \<Longrightarrow> \<not> 0 < ret \<Longrightarrow> r = Would_Block \<or> r = Broken"
  by (cases r) auto

text \<open>The bytes of the frame in hand from the picture's position on.\<close>

definition body_rest :: "frame_state \<Rightarrow> sender \<Rightarrow> nat \<Rightarrow> byte list" where
  "body_rest s sd f = drop (sd_position sd) (frame_content s f) @ (if sd_resource sd = Mjpeg then CRLF else [])"

lemma rest_body: "sd_frame sd = Some f \<Longrightarrow> sd_resource sd = Mjpeg \<longrightarrow> sd_header sd \<Longrightarrow> rest s sd = body_rest s sd f"
  by (simp add: rest_def body_rest_def Let_def)

lemma frame_sent_ok:
  assumes ok: "frames_ok s R" and f: "sd_frame sd = Some f" "f \<in># R" and ph: "sd_phase sd = Serving"
    and n: "n = length (frame_content s f)" and hdr: "sd_resource sd = Mjpeg \<longrightarrow> sd_header sd"
    and sent: "do_send r bs = (retval, bytes) \<and> bs = drop (sd_position sd) (frame_content s f) \<and> sd_position sd < n
      \<or> retval = 0 \<and> bytes = [] \<and> n \<le> sd_position sd" (is "?sending \<or> ?past")
    and sd': "sd' = sd\<lparr>sd_out := sd_out sd @ bytes\<rparr>"
  shows "\<exists>s2 sd2. frame_sent s sd' f n retval tn = Some (s2, sd2) \<and> sender_moves s R sd s2 sd2 \<and>
           (\<exists>ys. sd_out sd @ body_rest s sd f = sd_out sd2 @ ys) \<and>
           (sd_phase sd2 = Serving \<longrightarrow> sd_out sd2 @ rest s2 sd2 = sd_out sd @ body_rest s sd f)"
proof -
  let ?c = "frame_content s f" and ?pos = "sd_position sd"
  have same: "sd_position sd' = ?pos" "sd_frame sd' = Some f" "sd_resource sd' = sd_resource sd" "sd_request sd' = sd_request sd"
    "sd_phase sd' = Serving" "sd_header sd' = sd_header sd" "sd_out sd' = sd_out sd @ bytes"
    using f(1) ph by (simp_all add: sd')
  have again: "R - {#f#} + {#f#} = R" using f(2) by simp
  have pre: "\<exists>ys. sd_out sd @ body_rest s sd f = sd_out sd @ bytes @ ys"
    using sent do_send_prefix [of r bs retval bytes] by (auto simp: body_rest_def)
  consider (finished) "0 < retval \<or> n \<le> ?pos" "n \<le> ?pos + nat retval"
    | (some) "0 < retval \<or> n \<le> ?pos" "\<not> n \<le> ?pos + nat retval"
    | (blocked) "\<not> (0 < retval \<or> n \<le> ?pos)" "retval = 0 \<or> tn_body tn = Would_Block"
    | (broken) "\<not> (0 < retval \<or> n \<le> ?pos)" "\<not> (retval = 0 \<or> tn_body tn = Would_Block)"
    by blast
  then show ?thesis
  proof cases
    case finished
    obtain s1 where rel: "frame_release_and_delete s f = Some s1" "frames_ok s1 (R - {#f#})"
      "\<forall>g \<in># R - {#f#}. frame_content s1 g = frame_content s g"
      using frame_release_ok [OF ok f(2)] by blast
    let ?sd0 = "sd'\<lparr>sd_wait := False, sd_header := False, sd_frame := None, sd_position := 0\<rparr>"
    let ?sd2 = "case sd_resource sd of Mjpeg \<Rightarrow> ?sd0\<lparr>sd_out := sd_out ?sd0 @ CRLF\<rparr> | Jpeg \<Rightarrow> ?sd0\<lparr>sd_phase := Left\<rparr> | _ \<Rightarrow> ?sd0"
    have step: "frame_sent s sd' f n retval tn = Some (s1, ?sd2)"
      using finished rel(1) by (cases "sd_resource sd") (simp_all add: frame_sent_def same Let_def)
    have f2: "sd_frame ?sd2 = None" "sd_request ?sd2 = sd_request sd" "sd_resource ?sd2 = sd_resource sd" "sd_position ?sd2 = 0"
      "\<not> sd_header ?sd2" "sd_phase ?sd2 \<noteq> Unlisted" "sd_out ?sd2 = sd_out sd @ bytes @ (if sd_resource sd = Mjpeg then CRLF else [])"
      by (simp_all add: same split: resource.splits)
    have all: "bytes = drop ?pos ?c"
      using sent finished do_send_ret [of r bs retval bytes] n by auto
    have moves: "sender_moves s R sd s1 ?sd2"
      using rel(2,3) f(1) f2(1-6) by (simp add: sender_moves_def fresh_frame_def)
    have "sd_out ?sd2 = sd_out sd @ body_rest s sd f" using f2(7) all by (simp add: body_rest_def)
    moreover have "rest s1 ?sd2 = []" using f2(1) by (simp add: rest_def)
    ultimately show ?thesis using step moves by auto
  next
    case some
    let ?sd2 = "sd'\<lparr>sd_wait := False, sd_position := ?pos + nat retval\<rparr>"
    have step: "frame_sent s sd' f n retval tn = Some (s, ?sd2)" using some by (simp add: frame_sent_def same Let_def)
    have moves: "sender_moves s R sd s ?sd2"
      using ok f same again by (simp add: sender_moves_def fresh_frame_def)
    have "bytes = take (nat retval) (drop ?pos ?c)" using some sent do_send_ret [of r bs retval bytes] by auto
    then have "sd_out ?sd2 @ rest s ?sd2 = sd_out sd @ body_rest s sd f"
      using hdr f same append_take_drop_id [of "nat retval" "drop ?pos ?c"]
      by (simp add: rest_def body_rest_def Let_def add.commute del: append_take_drop_id)
    then show ?thesis using step moves by metis
  next
    case blocked
    have none: "bytes = []" using blocked(1) sent do_send_none [of r bs retval bytes] by auto
    have step: "frame_sent s sd' f n retval tn = Some (s, sd'\<lparr>sd_wait := True\<rparr>)" using blocked by (simp add: frame_sent_def same)
    have moves: "sender_moves s R sd s (sd'\<lparr>sd_wait := True\<rparr>)"
      using ok f same again by (simp add: sender_moves_def fresh_frame_def)
    have "sd_out (sd'\<lparr>sd_wait := True\<rparr>) @ rest s (sd'\<lparr>sd_wait := True\<rparr>) = sd_out sd @ body_rest s sd f"
      using none hdr f same by (simp add: rest_def body_rest_def Let_def)
    then show ?thesis using step moves by metis
  next
    case broken
    have fr: "frame_ref sd' \<subseteq># R" "frame_ref sd' = frame_ref sd" using f same by simp_all
    obtain s1 where lv: "sender_leave s sd' = Some (s1, sd'\<lparr>sd_frame := None, sd_phase := Left\<rparr>)"
      "sender_moves s R sd' s1 (sd'\<lparr>sd_frame := None, sd_phase := Left\<rparr>)"
      using sender_leave_ok [OF ok fr(1)] by blast
    have "frame_sent s sd' f n retval tn = sender_leave s sd'" using broken by (simp add: frame_sent_def same)
    moreover have "sender_moves s R sd s1 (sd'\<lparr>sd_frame := None, sd_phase := Left\<rparr>)"
      using lv(2) fr(2) same by (simp add: sender_moves_def)
    ultimately show ?thesis using lv(1) pre same by auto
  qed
qed

lemma serve_frame_ok:
  assumes ok: "frames_ok s R" and f: "sd_frame sd = Some f" "f \<in># R" and ph: "sd_phase sd = Serving"
  shows "\<exists>s' sd'. serve_frame s sd f tn = Some (s', sd') \<and> sender_moves s R sd s' sd' \<and>
           ((sd_resource sd = Mjpeg \<longrightarrow> tn_header tn = All) \<longrightarrow> sender_streams s sd s' sd')"
proof -
  obtain fh where fh: "obj_get (fs_frames s) f = Some fh" using frames_okD(2) [OF ok f(2)] by blast
  let ?c = "frame_content s f" and ?sd0 = "sd\<lparr>sd_no_frame := 0\<rparr>"
  have size: "fh_size fh = length ?c" using frame_bytes_content(2) [OF ok fh, of 0 0] by simp
  define sd1 where "sd1 = send_header ?sd0 (fh_size fh) tn"
  have sd1: "sd_position sd1 = sd_position sd" "sd_frame sd1 = Some f" "sd_request sd1 = sd_request sd"
    "sd_resource sd1 = sd_resource sd" "sd_phase sd1 = Serving" "sd_resource sd1 = Mjpeg \<longrightarrow> sd_header sd1"
    using f(1) ph by (auto simp: sd1_def send_header_def)
  have wire: "sd_out sd1 @ body_rest s sd1 f = sd_out sd @ rest s sd" if "sd_resource sd = Mjpeg \<longrightarrow> tn_header tn = All"
    using that f(1) size by (auto simp: rest_def body_rest_def sd1_def send_header_def Let_def)
  show ?thesis
  proof (cases "0 < (if sd_wait sd then tn_select tn else 1)")
    case False
    have "serve_frame s sd f tn = Some (s, ?sd0)" using fh False by (simp add: serve_frame_def)
    moreover have "sender_moves s R sd s ?sd0" using ok f ph by (simp add: sender_moves_def fresh_frame_def)
    moreover have "sender_streams s sd s ?sd0" using f(1) by (simp add: sender_streams_def rest_def Let_def)
    ultimately show ?thesis by blast
  next
    case True
    obtain retval bytes where body: "send_body s sd1 f (fh_size fh) tn = Some (retval, bytes)"
      and sent: "do_send (tn_body tn) (drop (sd_position sd1) ?c) = (retval, bytes) \<and>
          drop (sd_position sd1) ?c = drop (sd_position sd1) ?c \<and> sd_position sd1 < fh_size fh
        \<or> retval = 0 \<and> bytes = [] \<and> fh_size fh \<le> sd_position sd1"
    proof (cases "sd_position sd1 < fh_size fh")
      case True
      have "frame_bytes s f (sd_position sd1) (fh_size fh - sd_position sd1) = Some (drop (sd_position sd1) ?c)"
        using frame_bytes_content(1) [OF ok fh, of "sd_position sd1" "fh_size fh - sd_position sd1"] True size by simp
      then have "send_body s sd1 f (fh_size fh) tn = Some (do_send (tn_body tn) (drop (sd_position sd1) ?c))"
        using True by (simp add: send_body_def)
      then show thesis using that True by (cases "do_send (tn_body tn) (drop (sd_position sd1) ?c)") simp
    next
      case False
      then show thesis using that by (simp add: send_body_def)
    qed
    have n: "fh_size fh = length (frame_content s f)" using size .
    obtain s2 sd2 where fs: "frame_sent s (sd1\<lparr>sd_out := sd_out sd1 @ bytes\<rparr>) f (fh_size fh) retval tn = Some (s2, sd2)"
      "sender_moves s R sd1 s2 sd2" "\<exists>ys. sd_out sd1 @ body_rest s sd1 f = sd_out sd2 @ ys"
      "sd_phase sd2 = Serving \<longrightarrow> sd_out sd2 @ rest s2 sd2 = sd_out sd1 @ body_rest s sd1 f"
      using frame_sent_ok [OF ok sd1(2) f(2) sd1(5) n sd1(6) sent refl] by blast
    have "serve_frame s sd f tn = Some (s2, sd2)"
      using fh True body fs(1) by (simp add: serve_frame_def Let_def sd1_def)
    moreover have "sender_moves s R sd s2 sd2"
      using fs(2) sd1 f(1) by (simp add: sender_moves_def)
    moreover have "sender_streams s sd s2 sd2" if "sd_resource sd = Mjpeg \<longrightarrow> tn_header tn = All"
      using fs(3,4) wire [OF that] by (simp add: sender_streams_def)
    ultimately show ?thesis by blast
  qed
qed

lemma serve_nothing_ok:
  assumes ok: "frames_ok s R" and f: "sd_frame sd = None" "fresh_frame sd" and ph: "sd_phase sd = Serving"
  shows "\<exists>s' sd'. serve_nothing s sd tn = Some (s', sd') \<and> sender_moves s R sd s' sd' \<and> sender_streams s sd s' sd'"
proof -
  have stay: "sender_moves s R sd s sd" "sender_moves s R sd s (sd\<lparr>sd_no_frame := k\<rparr>)"
    "sender_streams s sd s sd" "sender_streams s sd s (sd\<lparr>sd_no_frame := k\<rparr>)" for k
    using ok f ph by (simp_all add: sender_moves_def sender_streams_def rest_def fresh_frame_def)
  have leave: "\<exists>s'. sender_leave s sd' = Some (s', sd'\<lparr>sd_frame := None, sd_phase := Left\<rparr>) \<and>
      sender_moves s R sd s' (sd'\<lparr>sd_frame := None, sd_phase := Left\<rparr>) \<and>
      sender_streams s sd s' (sd'\<lparr>sd_frame := None, sd_phase := Left\<rparr>)"
    if sd': "sd' = sd \<or> sd' = sd\<lparr>sd_no_frame := k\<rparr>" for sd' k
  proof -
    have same: "sd_frame sd' = None" "sd_out sd' = sd_out sd" "sd_request sd' = sd_request sd" "sd_resource sd' = sd_resource sd"
      using sd' f(1) by auto
    obtain s' where "sender_leave s sd' = Some (s', sd'\<lparr>sd_frame := None, sd_phase := Left\<rparr>)"
      "sender_moves s R sd' s' (sd'\<lparr>sd_frame := None, sd_phase := Left\<rparr>)"
      using sender_leave_ok [OF ok, of sd'] same(1) by auto
    then show ?thesis using same f(1) by (auto simp: sender_moves_def sender_streams_def)
  qed
  let ?k = "sd_no_frame sd + 1"
  show ?thesis
  proof (cases "sd_resource sd = Mjpeg \<or> sd_resource sd = Jpeg")
    case True
    then show ?thesis
      using stay leave [of sd 0] by (auto simp: serve_nothing_def)
  next
    case False
    then show ?thesis
      using stay(2,4) [of ?k] leave [of "sd\<lparr>sd_no_frame := ?k\<rparr>" ?k] by (auto simp: serve_nothing_def Let_def)
  qed
qed

section \<open>The server's invariant\<close>

fun callback_refs :: "callback \<Rightarrow> nat multiset" where
  "callback_refs Idle = {#}"
| "callback_refs (Waiting f type width height interval) = {#f#}"
| "callback_refs (Offering f type width height interval rs) = {#f#}"

definition holder_refs :: "request_holder \<Rightarrow> nat multiset" where
  "holder_refs rh = mset (rh_frames rh)"

definition all_refs :: "server \<Rightarrow> nat multiset" where
  "all_refs sv = refs_of holder_refs (sv_holders sv) + refs_of frame_ref (sv_senders sv) + refs_of callback_refs (sv_callbacks sv)"

fun callback_ok :: "server \<Rightarrow> nat \<Rightarrow> callback \<Rightarrow> bool" where
  "callback_ok sv c Idle = True"
| "callback_ok sv c (Waiting f type width height interval) = (0 \<le> interval)"
| "callback_ok sv c (Offering f type width height interval rs) =
     (0 \<le> interval \<and> sv_lock sv = Some c \<and> set rs \<subseteq> set (sv_requests sv))"

text \<open>
  Clients have requests of their own, the list names requests of clients that have not left it,
  and a thread that offers a frame owns the lock.
\<close>

definition sender_ok :: "server \<Rightarrow> sender \<Rightarrow> bool" where
  "sender_ok sv sd \<longleftrightarrow> sd_request sd \<in> live (sv_holders sv) \<and> (sd_phase sd \<noteq> Serving \<longrightarrow> sd_frame sd = None) \<and>
     (sd_phase sd = Serving \<longrightarrow> fresh_frame sd)"

definition links_ok :: "server \<Rightarrow> bool" where
  "links_ok sv \<longleftrightarrow>
     (\<forall>r \<in> set (sv_requests sv). \<exists>i sd. obj_get (sv_senders sv) i = Some sd \<and> sd_request sd = r \<and> sd_phase sd \<noteq> Unlisted) \<and>
     (\<forall>r \<in> live (sv_holders sv). \<exists>i sd. obj_get (sv_senders sv) i = Some sd \<and> sd_request sd = r) \<and>
     (\<forall>i sd. obj_get (sv_senders sv) i = Some sd \<longrightarrow> sender_ok sv sd) \<and>
     (\<forall>i j sd sd'. obj_get (sv_senders sv) i = Some sd \<and> obj_get (sv_senders sv) j = Some sd' \<and> sd_request sd = sd_request sd' \<longrightarrow> i = j) \<and>
     (\<forall>c cb. obj_get (sv_callbacks sv) c = Some cb \<longrightarrow> callback_ok sv c cb) \<and>
     (\<forall>r rh. obj_get (sv_holders sv) r = Some rh \<longrightarrow> rh_ok rh)"

definition server_ok :: "server \<Rightarrow> bool" where
  "server_ok sv \<longleftrightarrow> frames_ok (sv_frames sv) (all_refs sv) \<and> links_ok sv"

lemma links_okD:
  assumes "links_ok sv"
  shows "r \<in> set (sv_requests sv) \<Longrightarrow> \<exists>i sd. obj_get (sv_senders sv) i = Some sd \<and> sd_request sd = r \<and> sd_phase sd \<noteq> Unlisted"
    and "r \<in> live (sv_holders sv) \<Longrightarrow> \<exists>i sd. obj_get (sv_senders sv) i = Some sd \<and> sd_request sd = r"
    and "obj_get (sv_senders sv) i = Some sd \<Longrightarrow> sender_ok sv sd"
    and "obj_get (sv_senders sv) i = Some sd \<Longrightarrow> obj_get (sv_senders sv) j = Some sd' \<Longrightarrow> sd_request sd = sd_request sd' \<Longrightarrow> i = j"
    and "obj_get (sv_callbacks sv) c = Some cb \<Longrightarrow> callback_ok sv c cb"
    and "obj_get (sv_holders sv) r = Some rh \<Longrightarrow> rh_ok rh"
  using assms unfolding links_ok_def by blast+

lemma requests_live: "links_ok sv \<Longrightarrow> r \<in> set (sv_requests sv) \<Longrightarrow> r \<in> live (sv_holders sv)"
  using links_okD(1,3) by (metis sender_ok_def)

lemma callback_ok_cong:
  "callback_ok sv c cb \<Longrightarrow> sv_lock sv' = sv_lock sv \<Longrightarrow> set (sv_requests sv) \<subseteq> set (sv_requests sv') \<Longrightarrow> callback_ok sv' c cb"
  by (cases cb) auto

text \<open>A change that keeps the owners of requests, the list and the lock.\<close>

lemma links_ok_update:
  assumes ok: "links_ok sv"
    and req: "sv_requests sv' = sv_requests sv" and lock: "sv_lock sv' = sv_lock sv"
    and hl: "live (sv_holders sv') = live (sv_holders sv)"
    and sl: "live (sv_senders sv') = live (sv_senders sv)"
    and h: "\<And>r rh. obj_get (sv_holders sv') r = Some rh \<Longrightarrow> rh_ok rh"
    and s: "\<And>i sd sd'. obj_get (sv_senders sv) i = Some sd \<Longrightarrow> obj_get (sv_senders sv') i = Some sd' \<Longrightarrow>
        sd_request sd' = sd_request sd \<and> (sd_phase sd \<noteq> Unlisted \<longrightarrow> sd_phase sd' \<noteq> Unlisted) \<and> sender_ok sv' sd'"
    and c: "\<And>c cb. obj_get (sv_callbacks sv') c = Some cb \<Longrightarrow> callback_ok sv' c cb"
  shows "links_ok sv'"
proof -
  have new: "\<exists>sd'. obj_get (sv_senders sv') i = Some sd'" if "obj_get (sv_senders sv) i = Some sd" for i sd
    using that sl by (metis in_live)
  have old: "\<exists>sd. obj_get (sv_senders sv) i = Some sd" if "obj_get (sv_senders sv') i = Some sd'" for i sd'
    using that sl by (metis in_live)
  show ?thesis
    unfolding links_ok_def req hl
  proof (intro conjI ballI allI impI)
    fix r assume "r \<in> set (sv_requests sv)"
    then obtain i sd where *: "obj_get (sv_senders sv) i = Some sd" "sd_request sd = r" "sd_phase sd \<noteq> Unlisted"
      using links_okD(1) [OF ok] by blast
    then obtain sd' where "obj_get (sv_senders sv') i = Some sd'" using new by blast
    with s [OF *(1) this] * show "\<exists>i sd. obj_get (sv_senders sv') i = Some sd \<and> sd_request sd = r \<and> sd_phase sd \<noteq> Unlisted" by blast
  next
    fix r assume "r \<in> live (sv_holders sv)"
    then obtain i sd where *: "obj_get (sv_senders sv) i = Some sd" "sd_request sd = r" using links_okD(2) [OF ok] by blast
    then obtain sd' where "obj_get (sv_senders sv') i = Some sd'" using new by blast
    with s [OF *(1) this] * show "\<exists>i sd. obj_get (sv_senders sv') i = Some sd \<and> sd_request sd = r" by blast
  next
    fix i sd' assume *: "obj_get (sv_senders sv') i = Some sd'"
    then obtain sd where "obj_get (sv_senders sv) i = Some sd" using old by blast
    then show "sender_ok sv' sd'" using s * by blast
  next
    fix i j sd sd' assume *: "obj_get (sv_senders sv') i = Some sd \<and> obj_get (sv_senders sv') j = Some sd' \<and> sd_request sd = sd_request sd'"
    then obtain si sj where o: "obj_get (sv_senders sv) i = Some si" "obj_get (sv_senders sv) j = Some sj" using old by blast
    then have "sd_request si = sd_request sj" using s [OF o(1)] s [OF o(2)] * by simp
    then show "i = j" by (rule links_okD(4) [OF ok o])
  qed (use h c in blast)+
qed

section \<open>What clients are sent\<close>

text \<open>
  The frames a request has accepted, from the outputs of the steps, and what is still to be sent
  to its client: the rest of the frame in hand and the queue.
\<close>

definition accepted :: "nat \<Rightarrow> (nat \<times> byte list) list \<Rightarrow> byte list list" where
  "accepted r log = map snd (filter (\<lambda>(q, _). q = r) log)"

definition queued :: "server \<Rightarrow> nat \<Rightarrow> nat list" where
  "queued sv r = (case obj_get (sv_holders sv) r of None \<Rightarrow> [] | Some rh \<Rightarrow> rh_frames rh)"

definition to_send :: "server \<Rightarrow> sender \<Rightarrow> byte list" where
  "to_send sv sd = rest (sv_frames sv) sd @
     concat (map (\<lambda>f. part (sd_resource sd) (frame_content (sv_frames sv) f)) (queued sv (sd_request sd)))"

definition wire :: "sender \<Rightarrow> (nat \<times> byte list) list \<Rightarrow> byte list" where
  "wire sd log = concat (map (part (sd_resource sd)) (accepted (sd_request sd) log))"

definition streamed :: "server \<Rightarrow> (nat \<times> byte list) list \<Rightarrow> bool" where
  "streamed sv log \<longleftrightarrow>
     (\<forall>(r, bs) \<in> set log. r < length (sv_holders sv)) \<and>
     (\<forall>i sd. obj_get (sv_senders sv) i = Some sd \<longrightarrow>
        (sd_phase sd = Serving \<longrightarrow> sd_out sd @ to_send sv sd = wire sd log) \<and> (\<exists>ys. wire sd log = sd_out sd @ ys))"

lemma wire_append: "wire sd (log @ log') = wire sd log @ wire sd log'"
  by (simp add: wire_def accepted_def)

lemma wire_nil [simp]: "wire sd [] = []"
  by (simp add: wire_def accepted_def)

lemma wire_other: "\<forall>(r, bs) \<in> set log. r \<noteq> sd_request sd \<Longrightarrow> wire sd log = []"
  by (auto simp: wire_def accepted_def filter_empty_conv)

lemma wire_cong: "sd_request sd' = sd_request sd \<Longrightarrow> sd_resource sd' = sd_resource sd \<Longrightarrow> wire sd' log = wire sd log"
  by (simp add: wire_def)

text \<open>The references that the clients have, in their queues and in hand.\<close>

definition client_refs :: "server \<Rightarrow> nat multiset" where
  "client_refs sv = refs_of holder_refs (sv_holders sv) + refs_of frame_ref (sv_senders sv)"

lemma all_refs_client: "all_refs sv = client_refs sv + refs_of callback_refs (sv_callbacks sv)"
  by (simp add: all_refs_def client_refs_def)

lemma client_refs_all: "f \<in># client_refs sv \<Longrightarrow> f \<in># all_refs sv"
  by (simp add: all_refs_client)

lemma holder_client_refs: "obj_get (sv_holders sv) r = Some rh \<Longrightarrow> f \<in> set (rh_frames rh) \<Longrightarrow> f \<in># client_refs sv"
  using refs_of_ge [of "sv_holders sv" r rh holder_refs] by (auto simp: client_refs_def holder_refs_def dest: mset_subset_eqD)

lemma sender_client_refs: "obj_get (sv_senders sv) i = Some sd \<Longrightarrow> sd_frame sd = Some f \<Longrightarrow> f \<in># client_refs sv"
  using refs_of_ge [of "sv_senders sv" i sd frame_ref] by (auto simp: client_refs_def)

lemma callback_all_refs: "obj_get (sv_callbacks sv) c = Some cb \<Longrightarrow> f \<in># callback_refs cb \<Longrightarrow> f \<in># all_refs sv"
  using refs_of_ge [of "sv_callbacks sv" c cb callback_refs] by (auto simp: all_refs_def dest: mset_subset_eqD)

lemma queued_refs: "f \<in> set (queued sv r) \<Longrightarrow> f \<in># client_refs sv"
  using holder_client_refs by (cases "obj_get (sv_holders sv) r") (auto simp: queued_def)

text \<open>What is to be sent depends on the frames that are referred to only.\<close>

lemma rest_cong:
  "(\<And>f. sd_frame sd = Some f \<Longrightarrow> frame_content s' f = frame_content s f) \<Longrightarrow> rest s' sd = rest s sd"
  by (cases "sd_frame sd") (simp_all add: rest_def)

lemma to_send_cong:
  assumes s: "obj_get (sv_senders sv) i = Some sd"
    and c: "\<And>f. f \<in># client_refs sv \<Longrightarrow> frame_content (sv_frames sv') f = frame_content (sv_frames sv) f"
    and q: "queued sv' (sd_request sd) = queued sv (sd_request sd)"
  shows "to_send sv' sd = to_send sv sd"
proof -
  have "rest (sv_frames sv') sd = rest (sv_frames sv) sd"
    by (rule rest_cong) (use c sender_client_refs [OF s] in blast)
  moreover have "map (\<lambda>f. part (sd_resource sd) (frame_content (sv_frames sv') f)) (queued sv (sd_request sd)) =
      map (\<lambda>f. part (sd_resource sd) (frame_content (sv_frames sv) f)) (queued sv (sd_request sd))"
    by (rule map_cong [OF refl]) (use c queued_refs in simp)
  ultimately show ?thesis by (simp only: to_send_def q)
qed

lemma streamed_same_senders:
  assumes st: "streamed sv log"
    and s: "sv_senders sv' = sv_senders sv"
    and l: "length (sv_holders sv') = length (sv_holders sv)"
    and c: "\<And>f. f \<in># client_refs sv \<Longrightarrow> frame_content (sv_frames sv') f = frame_content (sv_frames sv) f"
    and q: "\<And>r. queued sv' r = queued sv r"
  shows "streamed sv' log"
proof -
  have "to_send sv' sd = to_send sv sd" if "obj_get (sv_senders sv) i = Some sd" for i sd
    using to_send_cong [OF that c q] by blast
  then show ?thesis using st unfolding streamed_def s l by metis
qed

lemma obj_put_length: "obj_put st p x = Some st' \<Longrightarrow> length st' = length st"
  by (auto simp: obj_put_Some)

lemma callback_put:
  assumes "obj_get cbs c = Some cb"
  shows "obj_put cbs c cb' = Some (cbs[c := Some cb'])"
    and "obj_get (cbs[c := Some cb']) d = (if d = c then Some cb' else obj_get cbs d)"
  using assms by (auto simp: obj_simps dest!: obj_get_SomeD)

text \<open>Each step keeps the invariant and, if it takes headers whole, what is known of the streams.\<close>

definition step_ok :: "server \<Rightarrow> event \<Rightarrow> bool \<Rightarrow> bool" where
  "step_ok sv ev whole \<longleftrightarrow>
     (\<exists>sv' outs. server_step sv ev = Some (sv', outs) \<and> server_ok sv' \<and>
        (whole \<longrightarrow> (\<forall>log. streamed sv log \<longrightarrow> streamed sv' (log @ outs))))"

lemma step_okI:
  "server_step sv ev = Some (sv', outs) \<Longrightarrow> server_ok sv' \<Longrightarrow>
     (\<And>log. whole \<Longrightarrow> streamed sv log \<Longrightarrow> streamed sv' (log @ outs)) \<Longrightarrow> step_ok sv ev whole"
  by (auto simp: step_ok_def)

lemma step_ok_skip: "server_ok sv \<Longrightarrow> server_step sv ev = Some (sv, []) \<Longrightarrow> step_ok sv ev whole"
  by (auto simp: step_ok_def)

lemma server_okD: "server_ok sv \<Longrightarrow> frames_ok (sv_frames sv) (all_refs sv)" "server_ok sv \<Longrightarrow> links_ok sv"
  by (simp_all add: server_ok_def)

lemma refs_live: "frames_ok s R \<Longrightarrow> f \<in># R \<Longrightarrow> f \<in> live (fs_frames s)"
  by (auto simp: frames_ok_def)

lemma links_ok_callbacks:
  assumes ok: "links_ok sv" and same: "sv_requests sv' = sv_requests sv" "sv_holders sv' = sv_holders sv" "sv_senders sv' = sv_senders sv"
    and c: "\<And>c cb. obj_get (sv_callbacks sv') c = Some cb \<Longrightarrow> callback_ok sv' c cb"
  shows "links_ok sv'"
proof -
  have "sender_ok sv' sd = sender_ok sv sd" for sd by (simp add: sender_ok_def same)
  then show ?thesis using ok c unfolding links_ok_def same by blast
qed

lemma frame_arrives_ok:
  assumes ok: "server_ok sv" and n: "n \<le> length buf" "n \<le> 4294934095" "type = JPEG_TYPE \<and> 2 < n \<longrightarrow> 2051 \<le> length buf"
    and i: "0 \<le> interval"
  shows "step_ok sv (Frame_Arrives c buf n type width height interval) whole"
proof (cases "obj_get (sv_callbacks sv) c = Some Idle")
  case False
  then show ?thesis using ok by (intro step_ok_skip) simp_all
next
  case True
  note fr = server_okD(1) [OF ok] and ln = server_okD(2) [OF ok]
  obtain f s where new: "new_frame_holder (sv_frames sv) buf n type width height = Some (f, s)"
    "new_frame_spec (sv_frames sv) (all_refs sv) (framed buf n type) (f, s)"
    by (rule new_frame_holderE [OF fr n])
  note sp = new_frame_specD [OF new(2)] and put = callback_put [OF True]
  let ?cb = "Waiting f type width height interval"
  let ?sv = "sv\<lparr>sv_frames := s, sv_callbacks := (sv_callbacks sv)[c := Some ?cb]\<rparr>"
  show ?thesis
  proof (rule step_okI)
    show "server_step sv (Frame_Arrives c buf n type width height interval) = Some (?sv, [])"
      using True new(1) put(1) by simp
    have "all_refs ?sv = add_mset f (all_refs sv)"
      using refs_of_put [OF True, of callback_refs ?cb] by (simp add: all_refs_def)
    then have "frames_ok (sv_frames ?sv) (all_refs ?sv)" using sp(2) by simp
    moreover have "links_ok ?sv"
    proof (rule links_ok_callbacks [OF ln])
      fix d cb assume d: "obj_get (sv_callbacks ?sv) d = Some cb"
      show "callback_ok ?sv d cb"
      proof (cases "d = c")
        case True
        then have "cb = ?cb" using d put(2) [of ?cb d] by simp
        then show ?thesis using i by simp
      next
        case False
        then have "obj_get (sv_callbacks sv) d = Some cb" using d put(2) [of ?cb d] by simp
        then show ?thesis using callback_ok_cong [OF links_okD(5) [OF ln], of d cb ?sv] by simp
      qed
    qed simp_all
    ultimately show "server_ok ?sv" by (simp add: server_ok_def)
    fix log assume "streamed sv log"
    then show "streamed ?sv (log @ [])"
      unfolding append_Nil2
    proof (rule streamed_same_senders)
      fix g assume "g \<in># client_refs sv"
      then show "frame_content (sv_frames ?sv) g = frame_content (sv_frames sv) g"
        using sp(4) refs_live [OF fr client_refs_all] by simp
    qed (simp_all add: queued_def)
  qed
qed

lemma frame_locks_ok:
  assumes ok: "server_ok sv"
  shows "step_ok sv (Frame_Locks c) whole"
proof (cases "\<exists>f type width height interval. obj_get (sv_callbacks sv) c = Some (Waiting f type width height interval) \<and> sv_lock sv = None")
  case False
  show ?thesis
    by (rule step_ok_skip [OF ok]) (use False in \<open>auto split: option.split callback.split\<close>)
next
  case True
  then obtain f type width height interval where cb: "obj_get (sv_callbacks sv) c = Some (Waiting f type width height interval)"
    and lock: "sv_lock sv = None" by blast
  note fr = server_okD(1) [OF ok] and ln = server_okD(2) [OF ok] and put = callback_put [OF cb]
  let ?cb = "Offering f type width height interval (sv_requests sv)"
  let ?sv = "sv\<lparr>sv_callbacks := (sv_callbacks sv)[c := Some ?cb], sv_lock := Some c\<rparr>"
  show ?thesis
  proof (rule step_okI)
    show "server_step sv (Frame_Locks c) = Some (?sv, [])" using cb lock put(1) by simp
    have "all_refs ?sv = all_refs sv" using refs_of_put [OF cb, of callback_refs ?cb] by (simp add: all_refs_def)
    moreover have "links_ok ?sv"
    proof -
      have cbs: "callback_ok ?sv d cb'" if d: "obj_get (sv_callbacks ?sv) d = Some cb'" for d cb'
      proof (cases "d = c")
        case True
        then show ?thesis using d put(2) links_okD(5) [OF ln cb] by auto
      next
        case False
        then have "obj_get (sv_callbacks sv) d = Some cb'" using d put(2) by simp
        then show ?thesis using links_okD(5) [OF ln] lock by (cases cb') fastforce+
      qed
      show ?thesis by (rule links_ok_callbacks [OF ln _ _ _ cbs]) simp_all
    qed
    ultimately show "server_ok ?sv" using fr by (simp add: server_ok_def)
    fix log assume "streamed sv log"
    then show "streamed ?sv (log @ [])"
      unfolding append_Nil2 by (rule streamed_same_senders) (simp_all add: queued_def)
  qed
qed

lemma frame_ends_ok:
  assumes ok: "server_ok sv"
  shows "step_ok sv (Frame_Ends c) whole"
proof (cases "\<exists>f type width height interval. obj_get (sv_callbacks sv) c = Some (Offering f type width height interval [])")
  case False
  show ?thesis
    by (rule step_ok_skip [OF ok]) (use False in \<open>auto split: option.split callback.split list.split\<close>)
next
  case True
  then obtain f type width height interval where cb: "obj_get (sv_callbacks sv) c = Some (Offering f type width height interval [])"
    by blast
  note fr = server_okD(1) [OF ok] and ln = server_okD(2) [OF ok] and put = callback_put [OF cb]
  have f: "f \<in># all_refs sv" using callback_all_refs [OF cb] by simp
  obtain s where rel: "frame_release_and_delete (sv_frames sv) f = Some s" "frames_ok s (all_refs sv - {#f#})"
    "\<forall>g \<in># all_refs sv - {#f#}. frame_content s g = frame_content (sv_frames sv) g"
    using frame_release_ok [OF fr f] by blast
  let ?sv = "sv\<lparr>sv_frames := s, sv_callbacks := (sv_callbacks sv)[c := Some Idle], sv_lock := None\<rparr>"
  have refs: "all_refs ?sv = all_refs sv - {#f#}"
  proof -
    have "refs_of callback_refs ((sv_callbacks sv)[c := Some Idle]) + {#f#} = refs_of callback_refs (sv_callbacks sv)"
      using refs_of_put [OF cb, of callback_refs Idle] by simp
    from this [symmetric] show ?thesis by (simp add: all_refs_def)
  qed
  show ?thesis
  proof (rule step_okI)
    show "server_step sv (Frame_Ends c) = Some (?sv, [])" using cb put(1) rel(1) by simp
    have "links_ok ?sv"
    proof -
      have lock: "sv_lock sv = Some c" using links_okD(5) [OF ln cb] by simp
      have cbs: "callback_ok ?sv d cb'" if d: "obj_get (sv_callbacks ?sv) d = Some cb'" for d cb'
      proof (cases "d = c")
        case True
        then show ?thesis using d put(2) by auto
      next
        case False
        then have "obj_get (sv_callbacks sv) d = Some cb'" using d put(2) by simp
        then show ?thesis using links_okD(5) [OF ln] lock False by (cases cb') fastforce+
      qed
      show ?thesis by (rule links_ok_callbacks [OF ln _ _ _ cbs]) simp_all
    qed
    then show "server_ok ?sv" using rel(2) by (simp add: server_ok_def refs)
    fix log assume "streamed sv log"
    then show "streamed ?sv (log @ [])"
      unfolding append_Nil2
    proof (rule streamed_same_senders)
      fix g assume "g \<in># client_refs sv"
      then have "g \<in># all_refs ?sv" by (simp add: all_refs_client client_refs_def)
      then show "frame_content (sv_frames ?sv) g = frame_content (sv_frames sv) g" using rel(3) refs by simp
    qed (simp_all add: queued_def)
  qed
qed

lemma queued_put:
  "obj_get (sv_holders sv) r = Some rh \<Longrightarrow> sv_holders sv' = (sv_holders sv)[r := Some rh']
    \<Longrightarrow> queued sv' q = (if q = r then rh_frames rh' else queued sv q)"
  by (auto simp: queued_def obj_simps dest!: obj_get_SomeD)

lemma frame_offered_ok:
  assumes ok: "server_ok sv"
  shows "step_ok sv (Frame_Offered c) whole"
proof (cases "\<exists>f type width height interval r rs. obj_get (sv_callbacks sv) c = Some (Offering f type width height interval (r # rs))")
  case False
  show ?thesis
    by (rule step_ok_skip [OF ok]) (use False in \<open>auto split: option.split callback.split list.split\<close>)
next
  case True
  then obtain f type width height interval r rs
    where cb: "obj_get (sv_callbacks sv) c = Some (Offering f type width height interval (r # rs))" by blast
  note fr = server_okD(1) [OF ok] and ln = server_okD(2) [OF ok] and put = callback_put [OF cb]
  have cbok: "0 \<le> interval" "sv_lock sv = Some c" "r \<in> set (sv_requests sv)" "set rs \<subseteq> set (sv_requests sv)"
    using links_okD(5) [OF ln cb] by simp_all
  obtain rh where rh: "obj_get (sv_holders sv) r = Some rh" using requests_live [OF ln cbok(3)] by (auto simp: in_live)
  have f: "f \<in># all_refs sv" using callback_all_refs [OF cb] by simp
  obtain s rh' q where off: "offer_frame (sv_frames sv) rh c f type width height interval = Some (s, rh', q)"
    "frames_ok s (all_refs sv + mset q)" "rh_frames rh' = rh_frames rh @ q" "rh_ok rh'" "same_request rh rh'"
    "\<forall>g \<in># all_refs sv. frame_content s g = frame_content (sv_frames sv) g"
    using offer_frame_ok [OF fr f links_okD(6) [OF ln rh] cbok(1), of c type width height] by blast
  have rl: "r \<in> live (sv_holders sv)" using rh by blast
  let ?cb = "Offering f type width height interval rs"
  let ?sv = "sv\<lparr>sv_frames := s, sv_holders := (sv_holders sv)[r := Some rh'], sv_callbacks := (sv_callbacks sv)[c := Some ?cb]\<rparr>"
  let ?outs = "map (\<lambda>f. (r, frame_content s f)) q"
  have qd: "queued ?sv p = (if p = r then rh_frames rh @ q else queued sv p)" for p
    using queued_put [OF rh, of ?sv rh' p] off(3) by simp
  have qr: "queued sv r = rh_frames rh" using rh by (simp add: queued_def)
  show ?thesis
  proof (rule step_okI)
    show "server_step sv (Frame_Offered c) = Some (?sv, ?outs)"
      using cb put(1) rh off(1) rl by (simp add: obj_simps)
    have "refs_of holder_refs ((sv_holders sv)[r := Some rh']) = refs_of holder_refs (sv_holders sv) + mset q"
      using refs_of_put [OF rh, of holder_refs rh'] off(3) by (simp add: holder_refs_def add.assoc [symmetric])
    moreover have "refs_of callback_refs ((sv_callbacks sv)[c := Some ?cb]) = refs_of callback_refs (sv_callbacks sv)"
      using refs_of_put [OF cb, of callback_refs ?cb] by simp
    ultimately have "all_refs ?sv = all_refs sv + mset q" by (simp add: all_refs_def ac_simps)
    then have "frames_ok (sv_frames ?sv) (all_refs ?sv)" using off(2) by simp
    moreover have "links_ok ?sv"
    proof (rule links_ok_update [OF ln])
      show "live (sv_holders ?sv) = live (sv_holders sv)" using rl by (simp add: obj_simps)
      fix p ph assume "obj_get (sv_holders ?sv) p = Some ph"
      then show "rh_ok ph" using rl off(4) links_okD(6) [OF ln, of p ph] by (cases "p = r") (simp_all add: obj_simps)
    next
      fix i sd sd' assume "obj_get (sv_senders sv) i = Some sd" "obj_get (sv_senders ?sv) i = Some sd'"
      then show "sd_request sd' = sd_request sd \<and> (sd_phase sd \<noteq> Unlisted \<longrightarrow> sd_phase sd' \<noteq> Unlisted) \<and> sender_ok ?sv sd'"
        using links_okD(3) [OF ln, of i sd] rl by (simp add: sender_ok_def obj_simps)
    next
      fix d cb' assume d: "obj_get (sv_callbacks ?sv) d = Some cb'"
      show "callback_ok ?sv d cb'"
      proof (cases "d = c")
        case True
        then show ?thesis using d put(2) [of ?cb d] cbok by auto
      next
        case False
        then have "obj_get (sv_callbacks sv) d = Some cb'" using d put(2) [of ?cb d] by simp
        then show ?thesis using callback_ok_cong [OF links_okD(5) [OF ln], of d cb' ?sv] by simp
      qed
    qed simp_all
    ultimately show "server_ok ?sv" by (simp add: server_ok_def)
    fix log assume st: "streamed sv log"
    have to_send: "to_send ?sv sd = to_send sv sd @ wire sd ?outs" if sd: "obj_get (sv_senders sv) i = Some sd" for i sd
    proof -
      have rst: "rest s sd = rest (sv_frames sv) sd"
        by (rule rest_cong) (use off(6) client_refs_all [OF sender_client_refs [OF sd]] in blast)
      have old: "concat (map (\<lambda>f. part (sd_resource sd) (frame_content s f)) (queued sv p)) =
          concat (map (\<lambda>f. part (sd_resource sd) (frame_content (sv_frames sv) f)) (queued sv p))" for p
        by (rule arg_cong [OF map_cong [OF refl]]) (use off(6) client_refs_all [OF queued_refs] in simp)
      show ?thesis
      proof (cases "sd_request sd = r")
        case True
        have "wire sd ?outs = concat (map (\<lambda>f. part (sd_resource sd) (frame_content s f)) q)"
          using True by (simp add: wire_def accepted_def comp_def)
        then show ?thesis using rst old [of r] True qd [of r] qr by (simp add: to_send_def)
      next
        case False
        then have "wire sd ?outs = []" by (intro wire_other) auto
        then show ?thesis using rst old [of "sd_request sd"] False qd [of "sd_request sd"] by (simp add: to_send_def)
      qed
    qed
    show "streamed ?sv (log @ ?outs)"
      unfolding streamed_def
    proof (intro conjI allI impI)
      show "\<forall>(p, bs) \<in> set (log @ ?outs). p < length (sv_holders ?sv)"
        using st live_less [OF rl] by (auto simp: streamed_def)
      fix i sd assume sd: "obj_get (sv_senders ?sv) i = Some sd"
      then have sd': "obj_get (sv_senders sv) i = Some sd" by simp
      show "\<exists>ys. wire sd (log @ ?outs) = sd_out sd @ ys"
        using st sd' unfolding streamed_def wire_append by (metis append.assoc)
      assume "sd_phase sd = Serving"
      then show "sd_out sd @ to_send ?sv sd = wire sd (log @ ?outs)"
        using st sd' unfolding streamed_def wire_append to_send [OF sd'] by (metis append.assoc)
    qed
  qed
qed

lemma client_starts_ok:
  assumes ok: "server_ok sv"
  shows "step_ok sv (Client_Starts res camera fr10 now) whole"
proof (cases "sv_lock sv = None")
  case False
  show ?thesis by (rule step_ok_skip [OF ok]) (use False in auto)
next
  case True
  note fr = server_okD(1) [OF ok] and ln = server_okD(2) [OF ok]
  let ?r = "length (sv_holders sv)" and ?i = "length (sv_senders sv)"
  let ?rh = "new_request_holder (resource_type res) camera (query_interval res fr10)"
  let ?sd = "\<lparr>sd_resource = res, sd_request = ?r, sd_wait = False, sd_frame = None, sd_position = 0,
            sd_header = False, sd_no_frame = (if res = Jpeg then now else 0), sd_phase = Serving, sd_out = []\<rparr>"
  let ?sv = "sv\<lparr>sv_holders := sv_holders sv @ [Some ?rh], sv_senders := sv_senders sv @ [Some ?sd], sv_requests := sv_requests sv @ [?r]\<rparr>"
  have getr: "obj_get (sv_holders ?sv) q = (if q = ?r then Some ?rh else obj_get (sv_holders sv) q)" for q by (simp add: obj_simps)
  have gets: "obj_get (sv_senders ?sv) j = (if j = ?i then Some ?sd else obj_get (sv_senders sv) j)" for j by (simp add: obj_simps)
  have none: "obj_get (sv_senders sv) ?i = None" using length_not_live [of "sv_senders sv"] by (simp add: live_def)
  have req: "sd_request sd \<noteq> ?r" "sd_request sd \<in> live (sv_holders sv)" if "obj_get (sv_senders sv) j = Some sd" for j sd
    using links_okD(3) [OF ln that] length_not_live [of "sv_holders sv"] by (auto simp: sender_ok_def)
  have qd: "queued ?sv q = (if q = ?r then [] else queued sv q)" for q
    using getr [of q] by (simp add: queued_def new_request_holder_def)
  have old: "obj_get (sv_senders ?sv) j = Some sd" if "obj_get (sv_senders sv) j = Some sd" for j sd
    using that gets [of j] none by auto
  have own: "sd_request sd = ?r \<longleftrightarrow> j = ?i" if j: "obj_get (sv_senders ?sv) j = Some sd" for j sd
  proof (cases "j = ?i")
    case True
    then have "sd = ?sd" using j gets [of j] by simp
    then show ?thesis using True by simp
  next
    case False
    then have "obj_get (sv_senders sv) j = Some sd" using j gets [of j] by simp
    then show ?thesis using req(1) False by blast
  qed
  show ?thesis
  proof (rule step_okI)
    show "server_step sv (Client_Starts res camera fr10 now) = Some (?sv, [])"
      using True by (simp add: sender_start_def obj_new_def add_request_def)
    have "all_refs ?sv = all_refs sv" by (simp add: all_refs_def holder_refs_def new_request_holder_def)
    moreover have "links_ok ?sv"
      unfolding links_ok_def
    proof (intro conjI ballI allI impI)
      fix q assume "q \<in> set (sv_requests ?sv)"
      then consider "q = ?r" | "q \<in> set (sv_requests sv)" by auto
      then show "\<exists>i sd. obj_get (sv_senders ?sv) i = Some sd \<and> sd_request sd = q \<and> sd_phase sd \<noteq> Unlisted"
      proof cases
        case 1
        then show ?thesis using gets [of ?i] by (intro exI [of _ ?i] exI [of _ ?sd]) simp
      next
        case 2
        then obtain j sd where "obj_get (sv_senders sv) j = Some sd" "sd_request sd = q" "sd_phase sd \<noteq> Unlisted"
          using links_okD(1) [OF ln] by blast
        then show ?thesis using old by blast
      qed
    next
      fix q assume "q \<in> live (sv_holders ?sv)"
      then consider "q = ?r" | "q \<in> live (sv_holders sv)" by auto
      then show "\<exists>i sd. obj_get (sv_senders ?sv) i = Some sd \<and> sd_request sd = q"
      proof cases
        case 1
        then show ?thesis using gets [of ?i] by (intro exI [of _ ?i] exI [of _ ?sd]) simp
      next
        case 2
        then obtain j sd where "obj_get (sv_senders sv) j = Some sd" "sd_request sd = q" using links_okD(2) [OF ln] by blast
        then show ?thesis using old by blast
      qed
    next
      fix j sd assume j: "obj_get (sv_senders ?sv) j = Some sd"
      show "sender_ok ?sv sd"
      proof (cases "j = ?i")
        case True
        then have "sd = ?sd" using j gets [of j] by simp
        then show ?thesis by (simp add: sender_ok_def fresh_frame_def)
      next
        case False
        then have "obj_get (sv_senders sv) j = Some sd" using j gets [of j] by simp
        then show ?thesis using links_okD(3) [OF ln] by (simp add: sender_ok_def)
      qed
    next
      fix j k sd sd' assume *: "obj_get (sv_senders ?sv) j = Some sd \<and> obj_get (sv_senders ?sv) k = Some sd' \<and> sd_request sd = sd_request sd'"
      have new: "sd_request sd = ?r \<longleftrightarrow> j = ?i" "sd_request sd' = ?r \<longleftrightarrow> k = ?i" using * own by blast+
      show "j = k"
      proof (cases "j = ?i")
        case True
        then show ?thesis using new * by simp
      next
        case False
        then have "k \<noteq> ?i" using new * by simp
        then show ?thesis using False * gets [of j] gets [of k] links_okD(4) [OF ln, of j sd k sd'] by simp
      qed
    next
      fix d cb assume d: "obj_get (sv_callbacks ?sv) d = Some cb"
      then have "callback_ok sv d cb" using links_okD(5) [OF ln] by simp
      then show "callback_ok ?sv d cb" by (rule callback_ok_cong) auto
    next
      fix q rh assume "obj_get (sv_holders ?sv) q = Some rh"
      then show "rh_ok rh" using getr [of q] new_request_ok links_okD(6) [OF ln, of q rh] by (cases "q = ?r") simp_all
    qed
    ultimately show "server_ok ?sv" using fr by (simp add: server_ok_def)
    fix log assume st: "streamed sv log"
    then have logr: "\<forall>(p, bs) \<in> set log. p < ?r" by (simp add: streamed_def)
    show "streamed ?sv (log @ [])"
      unfolding append_Nil2 streamed_def
    proof (intro conjI allI impI)
      show "\<forall>(p, bs) \<in> set log. p < length (sv_holders ?sv)" using logr by auto
      fix j sd assume j: "obj_get (sv_senders ?sv) j = Some sd"
      have new: "wire ?sd log = []" by (rule wire_other) (use logr in auto)
      have keep: "to_send ?sv sd = to_send sv sd" if "obj_get (sv_senders sv) j = Some sd"
        by (rule to_send_cong [OF that]) (use qd [of "sd_request sd"] req(1) [OF that] in simp_all)
      show "\<exists>ys. wire sd log = sd_out sd @ ys"
      proof (cases "j = ?i")
        case True
        then have "sd = ?sd" using j gets [of j] by simp
        then show ?thesis by simp
      next
        case False
        then show ?thesis using j gets [of j] st by (simp add: streamed_def)
      qed
      assume ph: "sd_phase sd = Serving"
      show "sd_out sd @ to_send ?sv sd = wire sd log"
      proof (cases "j = ?i")
        case True
        then have "sd = ?sd" using j gets [of j] by simp
        then show ?thesis using new qd [of ?r] by (simp add: to_send_def rest_def)
      next
        case False
        then have "obj_get (sv_senders sv) j = Some sd" using j gets [of j] by simp
        then show ?thesis using keep st ph by (simp add: streamed_def)
      qed
    qed
  qed
qed

lemma mset_exchange: "R' + x = R + y \<Longrightarrow> x \<subseteq># R \<Longrightarrow> R - x + y = R'" for x y :: "'a multiset"
  by (metis add_diff_cancel_right' subset_mset.add_diff_assoc2)

lemma sender_put_get:
  "obj_get (sv_senders sv) i = Some sd \<Longrightarrow>
     obj_get ((sv_senders sv)[i := y]) j = (if j = i then y else obj_get (sv_senders sv) j)"
  using obj_get_update [of i "sv_senders sv" y j] obj_get_less [of "sv_senders sv" i sd] by simp

text \<open>A frame taken from the queue is in hand: nothing else changes.\<close>

lemma pop_ok:
  assumes ok: "server_ok sv" and sd: "obj_get (sv_senders sv) i = Some sd" "sd_phase sd = Serving" "sd_frame sd = None"
    and rh: "obj_get (sv_holders sv) (sd_request sd) = Some rh" "rh_frames rh = f # fs"
  defines "sv1 \<equiv> sv\<lparr>sv_holders := (sv_holders sv)[sd_request sd := Some (rh\<lparr>rh_frames := fs\<rparr>)],
                  sv_senders := (sv_senders sv)[i := Some (sd\<lparr>sd_frame := Some f\<rparr>)]\<rparr>"
  shows "server_ok sv1" and "streamed sv log \<Longrightarrow> streamed sv1 log"
proof -
  note fr = server_okD(1) [OF ok] and ln = server_okD(2) [OF ok]
  let ?rh = "rh\<lparr>rh_frames := fs\<rparr>" and ?sd = "sd\<lparr>sd_frame := Some f\<rparr>" and ?r = "sd_request sd"
  have rl: "?r \<in> live (sv_holders sv)" using rh(1) by blast
  have il: "i \<in> live (sv_senders sv)" using sd(1) by blast
  have gets: "obj_get (sv_senders sv1) j = (if j = i then Some ?sd else obj_get (sv_senders sv) j)" for j
    using sender_put_get [OF sd(1)] by (simp add: sv1_def)
  have H: "refs_of holder_refs ((sv_holders sv)[?r := Some ?rh]) + {#f#} = refs_of holder_refs (sv_holders sv)"
    using refs_of_put [OF rh(1), of holder_refs ?rh] rh(2) by (simp add: holder_refs_def)
  have S: "refs_of frame_ref ((sv_senders sv)[i := Some ?sd]) = refs_of frame_ref (sv_senders sv) + {#f#}"
    using refs_of_put [OF sd(1), of frame_ref ?sd] sd(3) by simp
  have "all_refs sv1 = all_refs sv"
    unfolding all_refs_def H [symmetric] by (simp add: sv1_def S)
  moreover have "links_ok sv1"
  proof (rule links_ok_update [OF ln])
    show "live (sv_holders sv1) = live (sv_holders sv)" using rl by (simp add: sv1_def obj_simps)
    show "live (sv_senders sv1) = live (sv_senders sv)" using il by (simp add: sv1_def obj_simps)
    fix p ph assume "obj_get (sv_holders sv1) p = Some ph"
    then show "rh_ok ph" using rl links_okD(6) [OF ln rh(1)] rh(2) links_okD(6) [OF ln, of p ph]
      by (cases "p = ?r") (auto simp: sv1_def obj_simps rh_ok_def)
  next
    fix j s s' assume *: "obj_get (sv_senders sv) j = Some s" "obj_get (sv_senders sv1) j = Some s'"
    have lv: "live (sv_holders sv1) = live (sv_holders sv)" using rl by (simp add: sv1_def obj_simps)
    show "sd_request s' = sd_request s \<and> (sd_phase s \<noteq> Unlisted \<longrightarrow> sd_phase s' \<noteq> Unlisted) \<and> sender_ok sv1 s'"
    proof (cases "j = i")
      case True
      then have "s = sd" "s' = ?sd" using * gets [of j] sd(1) by simp_all
      then show ?thesis using sd(2) rl lv by (simp add: sender_ok_def fresh_frame_def)
    next
      case False
      then have "s' = s" using * gets [of j] by simp
      then show ?thesis using links_okD(3) [OF ln *(1)] lv by (simp add: sender_ok_def)
    qed
  next
    fix d cb assume "obj_get (sv_callbacks sv1) d = Some cb"
    then have "callback_ok sv d cb" using links_okD(5) [OF ln] by (simp add: sv1_def)
    then show "callback_ok sv1 d cb" by (rule callback_ok_cong) (simp_all add: sv1_def)
  qed (simp_all add: sv1_def)
  ultimately show "server_ok sv1" using fr by (simp add: server_ok_def sv1_def)
  assume st: "streamed sv log"
  have qd: "queued sv1 q = (if q = ?r then fs else queued sv q)" for q
    using queued_put [OF rh(1), of sv1 ?rh q] by (simp add: sv1_def)
  have qr: "queued sv ?r = f # fs" using rh by (simp add: queued_def)
  have fresh: "sd_position sd = 0" "\<not> sd_header sd"
    using links_okD(3) [OF ln sd(1)] sd(2,3) by (simp_all add: sender_ok_def fresh_frame_def)
  have same: "sv_frames sv1 = sv_frames sv" by (simp add: sv1_def)
  have keep: "to_send sv1 s = to_send sv s" if s: "obj_get (sv_senders sv) j = Some s" "j \<noteq> i" for j s
  proof -
    have "sd_request s \<noteq> ?r" using links_okD(4) [OF ln s(1) sd(1)] s(2) by blast
    then show ?thesis using qd [of "sd_request s"] by (simp add: to_send_def same)
  qed
  have mine: "to_send sv1 ?sd = to_send sv sd"
    using qd [of ?r] qr fresh sd(3) by (simp add: to_send_def same rest_def part_def Let_def)
  show "streamed sv1 log"
    unfolding streamed_def
  proof (intro conjI allI impI)
    show "\<forall>(p, bs) \<in> set log. p < length (sv_holders sv1)" using st by (auto simp: streamed_def sv1_def)
    fix j s assume j: "obj_get (sv_senders sv1) j = Some s"
    show "\<exists>ys. wire s log = sd_out s @ ys"
    proof (cases "j = i")
      case True
      then have "s = ?sd" using j gets [of j] by simp
      then show ?thesis using st sd(1) unfolding streamed_def by (auto simp: wire_def)
    next
      case False
      then show ?thesis using j gets [of j] st by (simp add: streamed_def)
    qed
    assume ph: "sd_phase s = Serving"
    show "sd_out s @ to_send sv1 s = wire s log"
    proof (cases "j = i")
      case True
      then have "s = ?sd" using j gets [of j] by simp
      moreover have "sd_out sd @ to_send sv sd = wire sd log" using st sd(1,2) by (simp add: streamed_def)
      ultimately show ?thesis using mine by (simp add: wire_def)
    next
      case False
      then have "obj_get (sv_senders sv) j = Some s" using j gets [of j] by simp
      then show ?thesis using keep False st ph by (simp add: streamed_def)
    qed
  qed
qed

text \<open>What a client's thread does with its frame.\<close>

lemma move_ok:
  assumes ok: "server_ok sv" and sd: "obj_get (sv_senders sv) i = Some sd" "sd_phase sd = Serving"
    and mv: "sender_moves (sv_frames sv) (all_refs sv) sd s2 sd2"
  defines "sv2 \<equiv> sv\<lparr>sv_frames := s2, sv_senders := (sv_senders sv)[i := Some sd2]\<rparr>"
  shows "server_ok sv2" and "sender_streams (sv_frames sv) sd s2 sd2 \<Longrightarrow> streamed sv log \<Longrightarrow> streamed sv2 log"
proof -
  note fr = server_okD(1) [OF ok] and ln = server_okD(2) [OF ok]
  have il: "i \<in> live (sv_senders sv)" using sd(1) by blast
  have gets: "obj_get (sv_senders sv2) j = (if j = i then Some sd2 else obj_get (sv_senders sv) j)" for j
    using sender_put_get [OF sd(1)] by (simp add: sv2_def)
  have m: "frames_ok s2 (all_refs sv - frame_ref sd + frame_ref sd2)" "sd_request sd2 = sd_request sd" "sd_resource sd2 = sd_resource sd"
    "sd_phase sd2 \<noteq> Unlisted" "sd_phase sd2 \<noteq> Serving \<longrightarrow> sd_frame sd2 = None" "sd_phase sd2 = Serving \<longrightarrow> fresh_frame sd2"
    "\<forall>g \<in># all_refs sv - frame_ref sd + frame_ref sd2. frame_content s2 g = frame_content (sv_frames sv) g"
    using mv by (simp_all add: sender_moves_def)
  have S: "refs_of frame_ref ((sv_senders sv)[i := Some sd2]) + frame_ref sd = refs_of frame_ref (sv_senders sv) + frame_ref sd2"
    using refs_of_put [OF sd(1)] .
  have "all_refs sv2 + frame_ref sd = all_refs sv + frame_ref sd2"
  proof -
    have "all_refs sv2 + frame_ref sd = refs_of holder_refs (sv_holders sv) + (refs_of frame_ref ((sv_senders sv)[i := Some sd2]) + frame_ref sd) + refs_of callback_refs (sv_callbacks sv)"
      by (simp add: all_refs_def sv2_def ac_simps)
    also have "\<dots> = all_refs sv + frame_ref sd2" unfolding S by (simp add: all_refs_def ac_simps)
    finally show ?thesis .
  qed
  moreover have "frame_ref sd \<subseteq># all_refs sv"
  proof -
    have "frame_ref sd \<subseteq># refs_of frame_ref (sv_senders sv)" by (rule refs_of_ge [OF sd(1)])
    then show ?thesis unfolding all_refs_def by (metis add.assoc add.commute mset_subset_eq_add_left subset_mset.order_trans)
  qed
  ultimately have refs: "all_refs sv - frame_ref sd + frame_ref sd2 = all_refs sv2" by (rule mset_exchange)
  have "links_ok sv2"
  proof (rule links_ok_update [OF ln])
    show "live (sv_senders sv2) = live (sv_senders sv)" using il by (simp add: sv2_def obj_simps)
    fix j s s' assume *: "obj_get (sv_senders sv) j = Some s" "obj_get (sv_senders sv2) j = Some s'"
    show "sd_request s' = sd_request s \<and> (sd_phase s \<noteq> Unlisted \<longrightarrow> sd_phase s' \<noteq> Unlisted) \<and> sender_ok sv2 s'"
    proof (cases "j = i")
      case True
      then have "s = sd" "s' = sd2" using * gets [of j] sd(1) by simp_all
      then show ?thesis using m links_okD(3) [OF ln sd(1)] by (simp add: sender_ok_def sv2_def)
    next
      case False
      then have "s' = s" using * gets [of j] by simp
      then show ?thesis using links_okD(3) [OF ln *(1)] by (simp add: sender_ok_def sv2_def)
    qed
  next
    fix d cb assume "obj_get (sv_callbacks sv2) d = Some cb"
    then have "callback_ok sv d cb" using links_okD(5) [OF ln] by (simp add: sv2_def)
    then show "callback_ok sv2 d cb" by (rule callback_ok_cong) (simp_all add: sv2_def)
  qed (use links_okD(6) [OF ln] in \<open>simp_all add: sv2_def\<close>)
  then show "server_ok sv2" using m(1) refs by (simp add: server_ok_def) (simp add: sv2_def)
  assume str: "sender_streams (sv_frames sv) sd s2 sd2" and st: "streamed sv log"
  have content: "frame_content (sv_frames sv) f = frame_content (sv_frames sv2) f" if "f \<in># client_refs sv2" for f
    using m(7) client_refs_all [OF that] unfolding refs by (simp add: sv2_def)
  have qd: "queued sv q = queued sv2 q" for q by (simp add: queued_def sv2_def)
  have keep: "to_send sv2 s = to_send sv s" if "obj_get (sv_senders sv) j = Some s" "j \<noteq> i" for j s
    using to_send_cong [of sv2 j s sv] gets [of j] that content qd by simp
  have pre: "sd_out sd @ to_send sv sd = wire sd log" using st sd by (simp add: streamed_def)
  have queue: "concat (map (\<lambda>f. part (sd_resource sd) (frame_content s2 f)) (queued sv (sd_request sd))) =
    concat (map (\<lambda>f. part (sd_resource sd) (frame_content (sv_frames sv) f)) (queued sv (sd_request sd)))"
  proof (rule arg_cong [OF map_cong [OF refl]])
    fix f assume "f \<in> set (queued sv (sd_request sd))"
    then have "f \<in># client_refs sv2" unfolding qd by (rule queued_refs)
    then show "part (sd_resource sd) (frame_content s2 f) = part (sd_resource sd) (frame_content (sv_frames sv) f)"
      using content by (simp add: sv2_def)
  qed
  let ?Q = "concat (map (\<lambda>f. part (sd_resource sd) (frame_content (sv_frames sv) f)) (queued sv (sd_request sd)))"
  have w1: "wire sd log = (sd_out sd @ rest (sv_frames sv) sd) @ ?Q" using pre by (simp add: to_send_def)
  have w: "wire sd2 log = wire sd log" by (rule wire_cong [OF m(2,3)])
  obtain ys where ys: "sd_out sd @ rest (sv_frames sv) sd = sd_out sd2 @ ys" using str by (auto simp: sender_streams_def)
  show "streamed sv2 log"
    unfolding streamed_def
  proof (intro conjI allI impI)
    show "\<forall>(p, bs) \<in> set log. p < length (sv_holders sv2)" using st by (auto simp: streamed_def sv2_def)
    fix j s assume j: "obj_get (sv_senders sv2) j = Some s"
    show "\<exists>ys. wire s log = sd_out s @ ys"
    proof (cases "j = i")
      case True
      then have "s = sd2" using j gets [of j] by simp
      moreover have "wire sd log = sd_out sd2 @ ys @ ?Q" unfolding w1 ys by simp
      ultimately show ?thesis using w by auto
    next
      case False
      then show ?thesis using j gets [of j] st by (simp add: streamed_def)
    qed
    assume ph: "sd_phase s = Serving"
    show "sd_out s @ to_send sv2 s = wire s log"
    proof (cases "j = i")
      case True
      then have s: "s = sd2" using j gets [of j] by simp
      have "sd_out sd2 @ rest s2 sd2 = sd_out sd @ rest (sv_frames sv) sd" using str ph s by (simp add: sender_streams_def)
      moreover have "to_send sv2 sd2 = rest s2 sd2 @ ?Q"
        unfolding to_send_def m(2,3) qd [symmetric] using queue by (simp add: sv2_def)
      ultimately have "sd_out sd2 @ to_send sv2 sd2 = wire sd log" unfolding w1 by (metis append.assoc)
      then show ?thesis using w s by simp
    next
      case False
      then have "obj_get (sv_senders sv) j = Some s" using j gets [of j] by simp
      then show ?thesis using keep False st ph by (simp add: streamed_def)
    qed
  qed
qed

lemma obj_put_same: "obj_get st p = Some x \<Longrightarrow> st[p := Some x] = st"
  using obj_get_less [of st p x] by (metis list_update_id)

lemma sender_in_refs:
  assumes "obj_get (sv_senders sv) i = Some sd"
  shows "frame_ref sd \<subseteq># all_refs sv"
proof -
  have "frame_ref sd \<subseteq># refs_of frame_ref (sv_senders sv)" by (rule refs_of_ge [OF assms])
  then show ?thesis unfolding all_refs_def by (metis add.assoc add.commute mset_subset_eq_add_left subset_mset.order_trans)
qed

lemma client_turn_ok:
  assumes ok: "server_ok sv"
  shows "step_ok sv (Client_Turn i tn) (tn_header tn = All)"
proof (cases "\<exists>sd. obj_get (sv_senders sv) i = Some sd \<and> sd_phase sd = Serving")
  case False
  show ?thesis by (rule step_ok_skip [OF ok]) (use False in \<open>auto split: option.split\<close>)
next
  case True
  then obtain sd where sd: "obj_get (sv_senders sv) i = Some sd" "sd_phase sd = Serving" by blast
  note fr = server_okD(1) [OF ok] and ln = server_okD(2) [OF ok]
  have sok: "sender_ok sv sd" by (rule links_okD(3) [OF ln sd(1)])
  then obtain rh where rh: "obj_get (sv_holders sv) (sd_request sd) = Some rh" by (auto simp: sender_ok_def in_live)
  have rl: "sd_request sd \<in> live (sv_holders sv)" and il: "i \<in> live (sv_senders sv)" using rh sd(1) by blast+
  have step: "server_step sv (Client_Turn i tn) = do { sv \<leftarrow> sender_turn sv i sd tn; Some (sv, []) }" using sd by simp
  have finish: "step_ok sv (Client_Turn i tn) (tn_header tn = All)"
    if "sender_turn sv i sd tn = Some sv'" "server_ok sv'"
      "\<And>log. tn_header tn = All \<Longrightarrow> streamed sv log \<Longrightarrow> streamed sv' log" for sv'
    by (rule step_okI [of _ _ sv' "[]"]) (use that step in simp_all)
  show ?thesis
  proof (cases "rh_exit rh")
    case True
    let ?sd = "sd\<lparr>sd_frame := None, sd_phase := Left\<rparr>"
    obtain s' where lv: "sender_leave (sv_frames sv) sd = Some (s', ?sd)" "sender_moves (sv_frames sv) (all_refs sv) sd s' ?sd"
      using sender_leave_ok [OF fr sender_in_refs [OF sd(1)]] by blast
    have "sender_turn sv i sd tn = Some (sv\<lparr>sv_frames := s', sv_senders := (sv_senders sv)[i := Some ?sd]\<rparr>)"
      using True rh lv(1) il by (simp add: sender_turn_def obj_simps)
    moreover have "sender_streams (sv_frames sv) sd s' ?sd" by (simp add: sender_streams_def)
    ultimately show ?thesis using move_ok [OF ok sd lv(2)] by (intro finish)
  next
    case running: False
    have turn: "sender_turn sv i sd tn =
        do {
          let (frame, rh) = (case sd_frame sd of None \<Rightarrow> get_frame_and_remove rh | Some f \<Rightarrow> (Some f, rh));
          let sd = sd\<lparr>sd_frame := frame\<rparr>;
          (s, sd2) \<leftarrow> (case frame of Some f \<Rightarrow> serve_frame (sv_frames sv) sd f tn | None \<Rightarrow> serve_nothing (sv_frames sv) sd tn);
          Some (sv\<lparr>sv_frames := s, sv_holders := (sv_holders sv)[sd_request sd := Some rh], sv_senders := (sv_senders sv)[i := Some sd2]\<rparr>)
        }"
      using running rh rl il by (simp add: sender_turn_def obj_simps Let_def split: prod.split)
    consider (hand) f where "sd_frame sd = Some f"
      | (idle) "sd_frame sd = None" "rh_frames rh = []"
      | (pop) f fs where "sd_frame sd = None" "rh_frames rh = f # fs"
      by (cases "sd_frame sd"; cases "rh_frames rh") auto
    then show ?thesis
    proof cases
      case hand
      have f: "f \<in># all_refs sv" using client_refs_all [OF sender_client_refs [OF sd(1) hand]] .
      obtain s' sd' where sv: "serve_frame (sv_frames sv) sd f tn = Some (s', sd')" "sender_moves (sv_frames sv) (all_refs sv) sd s' sd'"
        "(sd_resource sd = Mjpeg \<longrightarrow> tn_header tn = All) \<longrightarrow> sender_streams (sv_frames sv) sd s' sd'"
        using serve_frame_ok [OF fr hand f sd(2)] by blast
      have same: "sd\<lparr>sd_frame := Some f\<rparr> = sd" using hand by (cases sd) simp
      have "sender_turn sv i sd tn = Some (sv\<lparr>sv_frames := s', sv_senders := (sv_senders sv)[i := Some sd']\<rparr>)"
        unfolding turn using hand sv(1) by (simp add: same obj_put_same [OF rh])
      then show ?thesis using move_ok [OF ok sd sv(2)] sv(3) by (intro finish) blast+
    next
      case idle
      have fresh: "fresh_frame sd" using sok sd(2) by (simp add: sender_ok_def)
      obtain s' sd' where sv: "serve_nothing (sv_frames sv) sd tn = Some (s', sd')" "sender_moves (sv_frames sv) (all_refs sv) sd s' sd'"
        "sender_streams (sv_frames sv) sd s' sd'"
        using serve_nothing_ok [OF fr idle(1) fresh sd(2)] by blast
      have same: "sd\<lparr>sd_frame := None\<rparr> = sd" using idle by (cases sd) simp
      have "sender_turn sv i sd tn = Some (sv\<lparr>sv_frames := s', sv_senders := (sv_senders sv)[i := Some sd']\<rparr>)"
        unfolding turn using idle sv(1) by (simp add: get_frame_and_remove_def same obj_put_same [OF rh])
      then show ?thesis using move_ok [OF ok sd sv(2)] sv(3) by (intro finish) blast+
    next
      case pop
      let ?rh = "rh\<lparr>rh_frames := fs\<rparr>" and ?sd = "sd\<lparr>sd_frame := Some f\<rparr>"
      let ?sv1 = "sv\<lparr>sv_holders := (sv_holders sv)[sd_request sd := Some ?rh], sv_senders := (sv_senders sv)[i := Some ?sd]\<rparr>"
      note p = pop_ok [OF ok sd pop(1) rh pop(2)]
      have sd1: "obj_get (sv_senders ?sv1) i = Some ?sd" using sender_put_get [OF sd(1), of "Some ?sd" i] by simp
      have f: "f \<in># all_refs ?sv1" using client_refs_all [OF sender_client_refs [OF sd1]] by simp
      obtain s' sd' where sv: "serve_frame (sv_frames sv) ?sd f tn = Some (s', sd')" "sender_moves (sv_frames ?sv1) (all_refs ?sv1) ?sd s' sd'"
        "(sd_resource sd = Mjpeg \<longrightarrow> tn_header tn = All) \<longrightarrow> sender_streams (sv_frames ?sv1) ?sd s' sd'"
        using serve_frame_ok [OF server_okD(1) [OF p(1)], of ?sd f tn] f sd(2) by auto
      let ?sv2 = "?sv1\<lparr>sv_frames := s', sv_senders := (sv_senders ?sv1)[i := Some sd']\<rparr>"
      have t: "sender_turn sv i sd tn = Some ?sv2"
        unfolding turn using pop sv(1) by (simp add: get_frame_and_remove_def)
      have ph: "sd_phase ?sd = Serving" using sd(2) by simp
      note m = move_ok [OF p(1) sd1 ph sv(2)]
      show ?thesis
      proof (rule finish [OF t m(1)])
        fix log assume "tn_header tn = All" "streamed sv log"
        then show "streamed ?sv2 log" using m(2) sv(3) p(2) by blast
      qed
    qed
  qed
qed

lemma delete_frames_ok:
  "frames_ok s R \<Longrightarrow> mset fs \<subseteq># R \<Longrightarrow> \<exists>s'. delete_frames s fs = Some s' \<and> frames_ok s' (R - mset fs) \<and>
     (\<forall>g \<in># R - mset fs. frame_content s' g = frame_content s g)"
proof (induction fs arbitrary: s R)
  case (Cons f fs)
  have f: "f \<in># R" using Cons.prems(2) by (metis list.set_intros(1) mset_subset_eqD set_mset_mset)
  obtain s1 where s1: "frame_release_and_delete s f = Some s1" "frames_ok s1 (R - {#f#})"
    "\<forall>g \<in># R - {#f#}. frame_content s1 g = frame_content s g"
    using frame_release_ok [OF Cons.prems(1) f] by blast
  have sub: "mset fs \<subseteq># R - {#f#}" using Cons.prems(2) f by (simp add: insert_subset_eq_iff)
  obtain s2 where s2: "delete_frames s1 fs = Some s2" "frames_ok s2 (R - {#f#} - mset fs)"
    "\<forall>g \<in># R - {#f#} - mset fs. frame_content s2 g = frame_content s1 g"
    using Cons.IH [OF s1(2) sub] by blast
  have eq: "R - {#f#} - mset fs = R - mset (f # fs)" by (simp add: diff_diff_add)
  have "\<forall>g \<in># R - mset (f # fs). frame_content s2 g = frame_content s g"
    using s2(3) s1(3) unfolding eq [symmetric] by (metis in_diffD)
  then show ?case using s1(1) s2(1,2) unfolding eq by simp
qed simp

lemma client_unlists_ok:
  assumes ok: "server_ok sv"
  shows "step_ok sv (Client_Unlists i) whole"
proof (cases "\<exists>sd. obj_get (sv_senders sv) i = Some sd \<and> sd_phase sd = Left \<and> sv_lock sv = None")
  case False
  show ?thesis by (rule step_ok_skip [OF ok]) (use False in \<open>auto split: option.split\<close>)
next
  case True
  then obtain sd where sd: "obj_get (sv_senders sv) i = Some sd" "sd_phase sd = Left" and lock: "sv_lock sv = None" by blast
  note fr = server_okD(1) [OF ok] and ln = server_okD(2) [OF ok]
  let ?sd = "sd\<lparr>sd_phase := Unlisted\<rparr>"
  let ?sv = "(del_request sv (sd_request sd))\<lparr>sv_senders := (sv_senders sv)[i := Some ?sd]\<rparr>"
  have il: "i \<in> live (sv_senders sv)" using sd(1) by blast
  have gets: "obj_get (sv_senders ?sv) j = (if j = i then Some ?sd else obj_get (sv_senders sv) j)" for j
    using sender_put_get [OF sd(1)] by simp
  have nof: "sd_frame sd = None" using links_okD(3) [OF ln sd(1)] sd(2) by (simp add: sender_ok_def)
  have other: "j \<noteq> i" if "obj_get (sv_senders sv) j = Some s" "sd_request s \<noteq> sd_request sd" for j s
    using that sd(1) by auto
  show ?thesis
  proof (rule step_okI)
    show "server_step sv (Client_Unlists i) = Some (?sv, [])" using sd lock il by (simp add: obj_simps)
    have "all_refs ?sv = all_refs sv"
      using refs_of_put [OF sd(1), of frame_ref ?sd] nof by (simp add: all_refs_def del_request_def)
    moreover have "links_ok ?sv"
      unfolding links_ok_def
    proof (intro conjI ballI allI impI)
      fix r assume "r \<in> set (sv_requests ?sv)"
      then have r: "r \<in> set (sv_requests sv)" "r \<noteq> sd_request sd" by (simp_all add: del_request_def)
      then obtain j s where "obj_get (sv_senders sv) j = Some s" "sd_request s = r" "sd_phase s \<noteq> Unlisted"
        using links_okD(1) [OF ln] by blast
      then show "\<exists>i s. obj_get (sv_senders ?sv) i = Some s \<and> sd_request s = r \<and> sd_phase s \<noteq> Unlisted"
        using gets [of j] other [of j s] r(2) by (intro exI [of _ j] exI [of _ s]) simp
    next
      fix r assume "r \<in> live (sv_holders ?sv)"
      then have "r \<in> live (sv_holders sv)" by (simp add: del_request_def)
      then obtain j s where "obj_get (sv_senders sv) j = Some s" "sd_request s = r"
        using links_okD(2) [OF ln] by blast
      then have "\<exists>s'. obj_get (sv_senders ?sv) j = Some s' \<and> sd_request s' = r"
        using gets [of j] sd(1) by (cases "j = i") auto
      then show "\<exists>i s. obj_get (sv_senders ?sv) i = Some s \<and> sd_request s = r" by blast
    next
      fix j s assume j: "obj_get (sv_senders ?sv) j = Some s"
      show "sender_ok ?sv s"
      proof (cases "j = i")
        case True
        then have "s = ?sd" using j gets [of j] by simp
        then show ?thesis using links_okD(3) [OF ln sd(1)] nof by (simp add: sender_ok_def del_request_def)
      next
        case False
        then have "obj_get (sv_senders sv) j = Some s" using j gets [of j] by simp
        then show ?thesis using links_okD(3) [OF ln] by (simp add: sender_ok_def del_request_def)
      qed
    next
      fix j k s s' assume *: "obj_get (sv_senders ?sv) j = Some s \<and> obj_get (sv_senders ?sv) k = Some s' \<and> sd_request s = sd_request s'"
      have before: "\<exists>s0. obj_get (sv_senders sv) j = Some s0 \<and> sd_request s0 = sd_request s"
        if t: "obj_get (sv_senders ?sv) j = Some s" for j s
      proof (cases "j = i")
        case True
        then show ?thesis using t gets [of j] sd(1) by auto
      next
        case False
        then have "obj_get (sv_senders sv) j = Some s" using t gets [of j] by simp
        then show ?thesis by blast
      qed
      obtain s0 s1 where "obj_get (sv_senders sv) j = Some s0" "sd_request s0 = sd_request s"
        "obj_get (sv_senders sv) k = Some s1" "sd_request s1 = sd_request s'"
        using before * by blast
      then show "j = k" using links_okD(4) [OF ln] * by simp
    next
      fix d cb assume "obj_get (sv_callbacks ?sv) d = Some cb"
      then have "callback_ok sv d cb" using links_okD(5) [OF ln] by (simp add: del_request_def)
      then show "callback_ok ?sv d cb" using lock by (cases cb) simp_all
    next
      fix q rh assume "obj_get (sv_holders ?sv) q = Some rh"
      then show "rh_ok rh" using links_okD(6) [OF ln] by (simp add: del_request_def)
    qed
    ultimately show "server_ok ?sv" using fr by (simp add: server_ok_def) (simp add: del_request_def)
    fix log assume st: "streamed sv log"
    show "streamed ?sv (log @ [])"
      unfolding append_Nil2 streamed_def
    proof (intro conjI allI impI)
      show "\<forall>(p, bs) \<in> set log. p < length (sv_holders ?sv)" using st by (auto simp: streamed_def del_request_def)
      fix j s assume j: "obj_get (sv_senders ?sv) j = Some s"
      show "\<exists>ys. wire s log = sd_out s @ ys"
      proof (cases "j = i")
        case True
        then have "s = ?sd" using j gets [of j] by simp
        then show ?thesis using st sd(1) by (auto simp: streamed_def wire_def)
      next
        case False
        then show ?thesis using j gets [of j] st by (simp add: streamed_def)
      qed
      assume ph: "sd_phase s = Serving"
      then have "j \<noteq> i" using j gets [of j] by auto
      then have s: "obj_get (sv_senders sv) j = Some s" using j gets [of j] by simp
      have "to_send ?sv s = to_send sv s" by (simp add: to_send_def queued_def del_request_def)
      then show "sd_out s @ to_send ?sv s = wire s log" using st s ph by (simp add: streamed_def)
    qed
  qed
qed

lemma client_deletes_ok:
  assumes ok: "server_ok sv"
  shows "step_ok sv (Client_Deletes i) whole"
proof (cases "\<exists>sd. obj_get (sv_senders sv) i = Some sd \<and> sd_phase sd = Unlisted")
  case False
  show ?thesis by (rule step_ok_skip [OF ok]) (use False in \<open>auto split: option.split\<close>)
next
  case True
  then obtain sd where sd: "obj_get (sv_senders sv) i = Some sd" "sd_phase sd = Unlisted" by blast
  note fr = server_okD(1) [OF ok] and ln = server_okD(2) [OF ok]
  let ?r = "sd_request sd"
  have sok: "sender_ok sv sd" by (rule links_okD(3) [OF ln sd(1)])
  then obtain rh where rh: "obj_get (sv_holders sv) ?r = Some rh" by (auto simp: sender_ok_def in_live)
  have nof: "sd_frame sd = None" using sok sd(2) by (simp add: sender_ok_def)
  have rl: "?r \<in> live (sv_holders sv)" and il: "i \<in> live (sv_senders sv)" using rh sd(1) by blast+
  have sub: "mset (rh_frames rh) \<subseteq># all_refs sv"
    using refs_of_ge [OF rh, of holder_refs] unfolding all_refs_def holder_refs_def
    by (metis mset_subset_eq_add_left subset_mset.order_trans add.assoc)
  obtain s where del: "delete_frames (sv_frames sv) (rh_frames rh) = Some s" "frames_ok s (all_refs sv - mset (rh_frames rh))"
    "\<forall>g \<in># all_refs sv - mset (rh_frames rh). frame_content s g = frame_content (sv_frames sv) g"
    using delete_frames_ok [OF fr sub] by blast
  let ?sv = "sv\<lparr>sv_frames := s, sv_holders := (sv_holders sv)[?r := None], sv_senders := (sv_senders sv)[i := None]\<rparr>"
  have gets: "obj_get (sv_senders ?sv) j = (if j = i then None else obj_get (sv_senders sv) j)" for j
    using sender_put_get [OF sd(1)] by simp
  have geth: "obj_get (sv_holders ?sv) q = (if q = ?r then None else obj_get (sv_holders sv) q)" for q
    using rl by (simp add: obj_simps)
  have lv: "live (sv_holders ?sv) = live (sv_holders sv) - {?r}" using rl by (simp add: obj_simps)
  have before: "j \<noteq> i \<and> obj_get (sv_senders sv) j = Some t" if "obj_get (sv_senders ?sv) j = Some t" for j t
    using that gets [of j] by (cases "j = i") simp_all
  have other: "sd_request t \<noteq> ?r" if "obj_get (sv_senders ?sv) j = Some t" for j t
    using before [OF that] links_okD(4) [OF ln _ sd(1), of j t] by blast
  have unlisted: "?r \<notin> set (sv_requests sv)"
  proof
    assume "?r \<in> set (sv_requests sv)"
    then obtain j t where "obj_get (sv_senders sv) j = Some t" "sd_request t = ?r" "sd_phase t \<noteq> Unlisted"
      using links_okD(1) [OF ln] by blast
    then show False using links_okD(4) [OF ln _ sd(1), of j t] sd by auto
  qed
  have refs: "all_refs ?sv = all_refs sv - mset (rh_frames rh)"
  proof -
    have "refs_of holder_refs (sv_holders sv) = refs_of holder_refs ((sv_holders sv)[?r := None]) + mset (rh_frames rh)"
      using refs_of_del [OF rh, of holder_refs] by (simp add: holder_refs_def)
    moreover have "refs_of frame_ref ((sv_senders sv)[i := None]) = refs_of frame_ref (sv_senders sv)"
      using refs_of_del [OF sd(1), of frame_ref] nof by simp
    ultimately show ?thesis by (simp add: all_refs_def)
  qed
  show ?thesis
  proof (rule step_okI)
    show "server_step sv (Client_Deletes i) = Some (?sv, [])"
      using sd rh del(1) rl il by (simp add: sender_delete_def obj_simps)
    have "links_ok ?sv"
      unfolding links_ok_def
    proof (intro conjI ballI allI impI)
      fix q assume "q \<in> set (sv_requests ?sv)"
      then have q: "q \<in> set (sv_requests sv)" "q \<noteq> ?r" using unlisted by auto
      then obtain j t where j: "obj_get (sv_senders sv) j = Some t" "sd_request t = q" "sd_phase t \<noteq> Unlisted"
        using links_okD(1) [OF ln] by blast
      then have "j \<noteq> i" using sd(1) q(2) by auto
      then show "\<exists>i t. obj_get (sv_senders ?sv) i = Some t \<and> sd_request t = q \<and> sd_phase t \<noteq> Unlisted"
        using j gets [of j] by auto
    next
      fix q assume "q \<in> live (sv_holders ?sv)"
      then have q: "q \<in> live (sv_holders sv)" "q \<noteq> ?r" unfolding lv by simp_all
      then obtain j t where j: "obj_get (sv_senders sv) j = Some t" "sd_request t = q" using links_okD(2) [OF ln] by blast
      then have "j \<noteq> i" using sd(1) q(2) by auto
      then show "\<exists>i t. obj_get (sv_senders ?sv) i = Some t \<and> sd_request t = q" using j gets [of j] by auto
    next
      fix j t assume j: "obj_get (sv_senders ?sv) j = Some t"
      then have "obj_get (sv_senders sv) j = Some t" using before by blast
      then show "sender_ok ?sv t" using links_okD(3) [OF ln] other [OF j] unfolding sender_ok_def lv by blast
    next
      fix j k t t' assume *: "obj_get (sv_senders ?sv) j = Some t \<and> obj_get (sv_senders ?sv) k = Some t' \<and> sd_request t = sd_request t'"
      then have "obj_get (sv_senders sv) j = Some t" "obj_get (sv_senders sv) k = Some t'" using before by blast+
      then show "j = k" using links_okD(4) [OF ln] * by blast
    next
      fix d cb assume "obj_get (sv_callbacks ?sv) d = Some cb"
      then have "callback_ok sv d cb" using links_okD(5) [OF ln] by simp
      then show "callback_ok ?sv d cb" by (rule callback_ok_cong) simp_all
    next
      fix q ph assume "obj_get (sv_holders ?sv) q = Some ph"
      then show "rh_ok ph" using geth [of q] links_okD(6) [OF ln, of q ph] by (cases "q = ?r") simp_all
    qed
    then show "server_ok ?sv" using del(2) by (simp add: server_ok_def refs)
    fix log assume st: "streamed sv log"
    show "streamed ?sv (log @ [])"
      unfolding append_Nil2 streamed_def
    proof (intro conjI allI impI)
      show "\<forall>(p, bs) \<in> set log. p < length (sv_holders ?sv)" using st by (auto simp: streamed_def)
      fix j t assume j: "obj_get (sv_senders ?sv) j = Some t"
      then have t: "obj_get (sv_senders sv) j = Some t" using before by blast
      show "\<exists>ys. wire t log = sd_out t @ ys" using st t by (simp add: streamed_def)
      assume ph: "sd_phase t = Serving"
      have "sd_out t @ to_send sv t = wire t log" using st t ph unfolding streamed_def by blast
      moreover have "to_send sv t = to_send ?sv t"
      proof (rule to_send_cong [OF j])
        fix f assume "f \<in># client_refs ?sv"
        then show "frame_content (sv_frames sv) f = frame_content (sv_frames ?sv) f"
          using del(3) client_refs_all [of f ?sv] unfolding refs by simp
      next
        show "queued sv (sd_request t) = queued ?sv (sd_request t)"
          using geth [of "sd_request t"] other [OF j] by (simp add: queued_def)
      qed
      ultimately show "sd_out t @ to_send ?sv t = wire t log" by simp
    qed
  qed
qed

lemma set_exits_ok:
  "set rs \<subseteq> live hs \<Longrightarrow> \<exists>hs'. set_exits hs rs = Some hs' \<and> length hs' = length hs \<and> live hs' = live hs \<and>
     refs_of holder_refs hs' = refs_of holder_refs hs \<and>
     (\<forall>q rh'. obj_get hs' q = Some rh' \<longrightarrow> (\<exists>rh b. obj_get hs q = Some rh \<and> rh' = rh\<lparr>rh_exit := b\<rparr>))"
proof (induction rs arbitrary: hs)
  case Nil
  have "\<exists>rh b. Some rh' = Some rh \<and> rh' = rh\<lparr>rh_exit := b\<rparr>" for rh' :: request_holder
    by (intro exI [of _ rh'] exI [of _ "rh_exit rh'"]) simp
  then show ?case by auto
next
  case (Cons r rs)
  then obtain rh where rh: "obj_get hs r = Some rh" by (auto simp: in_live)
  then have rl: "r \<in> live hs" by blast
  let ?hs = "hs[r := Some (rh\<lparr>rh_exit := True\<rparr>)]"
  have "set rs \<subseteq> live ?hs" using Cons.prems rl by (simp add: obj_simps)
  from Cons.IH [OF this] obtain hs' where hs': "set_exits ?hs rs = Some hs'" "length hs' = length ?hs" "live hs' = live ?hs"
    "refs_of holder_refs hs' = refs_of holder_refs ?hs"
    "\<forall>q rh'. obj_get hs' q = Some rh' \<longrightarrow> (\<exists>rh b. obj_get ?hs q = Some rh \<and> rh' = rh\<lparr>rh_exit := b\<rparr>)" by blast
  have "refs_of holder_refs ?hs = refs_of holder_refs hs"
    using refs_of_put [OF rh, of holder_refs "rh\<lparr>rh_exit := True\<rparr>"] by (simp add: holder_refs_def)
  moreover have "\<exists>rh b. obj_get hs q = Some rh \<and> rh' = rh\<lparr>rh_exit := b\<rparr>" if "obj_get hs' q = Some rh'" for q rh'
  proof -
    obtain rh1 b where rh1: "obj_get ?hs q = Some rh1" "rh' = rh1\<lparr>rh_exit := b\<rparr>" using hs'(5) \<open>obj_get hs' q = Some rh'\<close> by blast
    show ?thesis
    proof (cases "q = r")
      case True
      then have "rh1 = rh\<lparr>rh_exit := True\<rparr>" using rh1(1) rl by (simp add: obj_simps)
      then show ?thesis using rh1(2) rh True by auto
    next
      case False
      then show ?thesis using rh1 rl by (auto simp: obj_simps)
    qed
  qed
  ultimately show ?case using hs'(1-4) rh rl by (simp add: obj_simps)
qed

lemma shutdown_ok:
  assumes ok: "server_ok sv"
  shows "step_ok sv Shutdown whole"
proof (cases "sv_lock sv = None")
  case False
  show ?thesis by (rule step_ok_skip [OF ok]) (use False in auto)
next
  case True
  note fr = server_okD(1) [OF ok] and ln = server_okD(2) [OF ok]
  have "set (sv_requests sv) \<subseteq> live (sv_holders sv)" using requests_live [OF ln] by blast
  then obtain hs where hs: "set_exits (sv_holders sv) (sv_requests sv) = Some hs" "length hs = length (sv_holders sv)"
    "live hs = live (sv_holders sv)" "refs_of holder_refs hs = refs_of holder_refs (sv_holders sv)"
    "\<forall>q rh'. obj_get hs q = Some rh' \<longrightarrow> (\<exists>rh b. obj_get (sv_holders sv) q = Some rh \<and> rh' = rh\<lparr>rh_exit := b\<rparr>)"
    using set_exits_ok by blast
  let ?sv = "sv\<lparr>sv_holders := hs, sv_requests := []\<rparr>"
  show ?thesis
  proof (rule step_okI)
    show "server_step sv Shutdown = Some (?sv, [])" using True hs(1) by (simp add: shutdown_requests_def)
    have "all_refs ?sv = all_refs sv" by (simp add: all_refs_def hs(4))
    moreover have "links_ok ?sv"
      unfolding links_ok_def
    proof (intro conjI ballI allI impI)
      fix q assume "q \<in> live (sv_holders ?sv)"
      then show "\<exists>i t. obj_get (sv_senders ?sv) i = Some t \<and> sd_request t = q" using links_okD(2) [OF ln] hs(3) by simp
    next
      fix j t assume "obj_get (sv_senders ?sv) j = Some t"
      then show "sender_ok ?sv t" using links_okD(3) [OF ln] hs(3) by (simp add: sender_ok_def)
    next
      fix j k t t' assume "obj_get (sv_senders ?sv) j = Some t \<and> obj_get (sv_senders ?sv) k = Some t' \<and> sd_request t = sd_request t'"
      then show "j = k" using links_okD(4) [OF ln, of j t k t'] by simp
    next
      fix d cb assume "obj_get (sv_callbacks ?sv) d = Some cb"
      then have "callback_ok sv d cb" using links_okD(5) [OF ln] by simp
      then show "callback_ok ?sv d cb" using True by (cases cb) simp_all
    next
      fix q ph assume "obj_get (sv_holders ?sv) q = Some ph"
      then have "obj_get hs q = Some ph" by simp
      then obtain rh b where "obj_get (sv_holders sv) q = Some rh" "ph = rh\<lparr>rh_exit := b\<rparr>" using hs(5) by blast
      then show "rh_ok ph" using links_okD(6) [OF ln, of q rh] by (simp add: rh_ok_def)
    qed simp
    ultimately show "server_ok ?sv" using fr by (simp add: server_ok_def)
    have qd: "queued ?sv q = queued sv q" for q
    proof (cases "obj_get hs q")
      case None
      have "q \<notin> live (sv_holders sv)" unfolding hs(3) [symmetric] using None by (simp add: live_def)
      then show ?thesis using None by (simp add: queued_def live_def)
    next
      case (Some ph)
      then obtain rh b where "obj_get (sv_holders sv) q = Some rh" "ph = rh\<lparr>rh_exit := b\<rparr>" using hs(5) by blast
      then show ?thesis using Some by (simp add: queued_def)
    qed
    fix log assume "streamed sv log"
    then show "streamed ?sv (log @ [])"
      unfolding append_Nil2 by (rule streamed_same_senders) (simp_all add: hs(2) qd)
  qed
qed

section \<open>All interleavings\<close>

text \<open>What is taken of a camera: its picture lies in its buffer, and JPEG cameras have a large one.\<close>

fun event_ok :: "server \<Rightarrow> event \<Rightarrow> bool" where
  "event_ok sv (Frame_Arrives c buf n type width height interval) =
     (n \<le> length buf \<and> n \<le> 4294934095 \<and> (type = JPEG_TYPE \<and> 2 < n \<longrightarrow> 2051 \<le> length buf) \<and> 0 \<le> interval)"
| "event_ok sv _ = True"

fun header_whole :: "event \<Rightarrow> bool" where
  "header_whole (Client_Turn i tn) = (tn_header tn = All)"
| "header_whole _ = True"

lemma server_step_ok: "server_ok sv \<Longrightarrow> event_ok sv ev \<Longrightarrow> step_ok sv ev (header_whole ev)"
  using frame_arrives_ok frame_locks_ok frame_offered_ok frame_ends_ok client_starts_ok client_turn_ok
    client_unlists_ok client_deletes_ok shutdown_ok
  by (cases ev) auto

interpretation server: guarded_machine server_step server_ok event_ok
proof unfold_locales
  fix sv ev assume "server_ok sv" "event_ok sv ev"
  then show "\<exists>sv' outs. server_step sv ev = Some (sv', outs) \<and> server_ok sv'"
    using server_step_ok unfolding step_ok_def by blast
qed

lemma obj_get_replicate: "obj_get (replicate n (Some x)) p = Some y \<Longrightarrow> y = x"
  by (auto simp: obj_get_def split: if_splits)

lemma refs_of_replicate [simp]: "f x = {#} \<Longrightarrow> refs_of f (replicate n (Some x)) = {#}"
  by (induction n) (simp_all add: refs_of_def)

lemma new_server_ok: "server_ok (new_server cameras)"
proof -
  have "links_ok (new_server cameras)"
    unfolding links_ok_def new_server_def
    by (auto simp: obj_get_def dest!: obj_get_replicate [unfolded obj_get_def] split: if_splits)
  then show ?thesis using new_frame_state_ok by (simp add: server_ok_def all_refs_def new_server_def)
qed

lemma new_server_streamed: "streamed (new_server cameras) []"
  by (simp add: streamed_def new_server_def obj_get_def)

lemma run_streamed:
  "server_ok sv \<Longrightarrow> run_ok event_ok server_step sv evs \<Longrightarrow> \<forall>ev \<in> set evs. header_whole ev \<Longrightarrow> streamed sv log \<Longrightarrow>
     run_steps server_step sv evs = Some (sv', outs) \<Longrightarrow> streamed sv' (log @ concat outs)"
proof (induction evs arbitrary: sv log outs)
  case (Cons ev evs)
  obtain sv1 o1 where st: "server_step sv ev = Some (sv1, o1)" "server_ok sv1" "streamed sv1 (log @ o1)"
    using server_step_ok [OF Cons.prems(1), of ev] Cons.prems(2-4) unfolding step_ok_def by auto
  then obtain o2 where run: "run_steps server_step sv1 evs = Some (sv', o2)" "outs = o1 # o2"
    using Cons.prems(5) by (auto split: bind_splits)
  have "streamed sv' ((log @ o1) @ concat o2)"
    by (rule Cons.IH [OF st(2) _ _ st(3) run(1)]) (use Cons.prems(2,3) st(1) in simp_all)
  then show ?case using run(2) by simp
qed simp

lemma refs_of_no_live: "live st = {} \<Longrightarrow> refs_of f st = {#}"
proof -
  assume no: "live st = {}"
  have "st ! p = None" if "p < length st" for p
  proof -
    have "p \<notin> live st" using no by simp
    then show ?thesis using \<open>p < length st\<close> by (simp add: live_def obj_get_def)
  qed
  then have "st = replicate (length st) None" by (intro nth_equalityI) simp_all
  moreover have "refs_of f (replicate n None) = {#}" for n by (induction n) (simp_all add: refs_of_def)
  ultimately show ?thesis by metis
qed

lemma sum_list_all_empty: "\<forall>x \<in> set xs. x = {#} \<Longrightarrow> sum_list xs = {#}" for xs :: "'a multiset list"
  by (induction xs) auto

section \<open>Properties\<close>

text \<open>C2: However the cameras' threads, the clients' threads and the shutdown interleave, and
  whatever the sockets accept, no frame, request or block is used after it has been deleted or
  deleted twice, no byte outside a block or never written is read, and no queue holds more than
  seven frames. A frame exists exactly while there are references to it, which its counter counts;
  all memory is that of the frames and of the allocator, and requests exist for clients only, so
  that without clients and offered frames nothing is left.\<close>

theorem camera_server_safe:
  assumes "run_ok event_ok server_step (new_server cameras) evs"
  shows "\<exists>sv outs. run_steps server_step (new_server cameras) evs = Some (sv, outs) \<and>
    (\<forall>f. (f \<in> live (fs_frames (sv_frames sv)) \<longleftrightarrow> f \<in># all_refs sv)) \<and>
    (\<forall>f fh. obj_get (fs_frames (sv_frames sv)) f = Some fh \<longrightarrow> fh_counter fh = int (count (all_refs sv) f)) \<and>
    live (fs_heap (sv_frames sv)) - kept (fs_memory (sv_frames sv)) =
      {p. \<exists>f fh. obj_get (fs_frames (sv_frames sv)) f = Some fh \<and> p = fh_frame fh} \<and>
    (\<forall>r rh. obj_get (sv_holders sv) r = Some rh \<longrightarrow> length (rh_frames rh) \<le> 7 \<and>
      (\<exists>i sd. obj_get (sv_senders sv) i = Some sd \<and> sd_request sd = r)) \<and>
    (live (sv_senders sv) = {} \<and> (\<forall>c cb. obj_get (sv_callbacks sv) c = Some cb \<longrightarrow> cb = Idle) \<longrightarrow>
      live (fs_heap (sv_frames sv)) = kept (fs_memory (sv_frames sv)))"
proof -
  obtain sv outs where run: "run_steps server_step (new_server cameras) evs = Some (sv, outs)" "server_ok sv"
    using server.run_safe [OF new_server_ok assms] by blast
  note fr = server_okD(1) [OF run(2)] and ln = server_okD(2) [OF run(2)]
  have lv: "f \<in> live (fs_frames (sv_frames sv)) \<longleftrightarrow> f \<in># all_refs sv" for f
    using frames_okD(4) [OF fr] refs_live [OF fr] by (metis in_live)
  have empty: "live (fs_heap (sv_frames sv)) = kept (fs_memory (sv_frames sv))"
    if no: "live (sv_senders sv) = {}" and idle: "\<forall>c cb. obj_get (sv_callbacks sv) c = Some cb \<longrightarrow> cb = Idle"
  proof -
    have "live (sv_holders sv) = {}" using links_okD(2) [OF ln] no by (metis all_not_in_conv obj_get_SomeD)
    then have H: "refs_of holder_refs (sv_holders sv) = {#}" by (rule refs_of_no_live)
    have S: "refs_of frame_ref (sv_senders sv) = {#}" by (rule refs_of_no_live [OF no])
    have C: "refs_of callback_refs (sv_callbacks sv) = {#}"
      unfolding refs_of_def
    proof (rule sum_list_all_empty, intro ballI)
      fix x assume "x \<in> set (map (\<lambda>ob. case ob of None \<Rightarrow> {#} | Some x \<Rightarrow> callback_refs x) (sv_callbacks sv))"
      then obtain ob where ob: "ob \<in> set (sv_callbacks sv)" "x = (case ob of None \<Rightarrow> {#} | Some x \<Rightarrow> callback_refs x)" by auto
      then obtain p where "p < length (sv_callbacks sv)" "sv_callbacks sv ! p = ob" by (auto simp: in_set_conv_nth)
      then have "obj_get (sv_callbacks sv) p = ob" by (simp add: obj_get_def)
      then have "ob = Some cb \<Longrightarrow> cb = Idle" for cb using idle by blast
      then show "x = {#}" using ob(2) by (cases ob) auto
    qed
    have "all_refs sv = {#}" by (simp add: all_refs_def H S C)
    then have "f \<notin># all_refs sv" for f by simp
    then have "\<nexists>f fh. obj_get (fs_frames (sv_frames sv)) f = Some fh" using frames_okD(4) [OF fr] by blast
    then have "live (fs_heap (sv_frames sv)) - kept (fs_memory (sv_frames sv)) = {}" unfolding frames_okD(7) [OF fr] by blast
    then show ?thesis using kept_live [OF frames_okD(1) [OF fr]] by blast
  qed
  have holders: "length (rh_frames rh) \<le> 7 \<and> (\<exists>i sd. obj_get (sv_senders sv) i = Some sd \<and> sd_request sd = r)"
    if "obj_get (sv_holders sv) r = Some rh" for r rh
    using links_okD(6) [OF ln that] links_okD(2) [OF ln obj_get_SomeD [OF that]] by (simp add: rh_ok_def)
  show ?thesis
    using run(1) lv frames_okD(5) [OF fr] frames_okD(7) [OF fr] holders empty
    by (intro exI [of _ sv] exI [of _ outs]) (intro conjI allI impI; blast)
qed

lemma camera_server_safe_witness:
  "\<exists>sv outs. run_steps server_step (new_server 1)
      [Client_Starts Mulaw 0 None 0, Frame_Arrives 0 [1, 2, 3] 3 SND_MULAW_TYPE 8000 1 8000, Frame_Locks 0, Frame_Offered 0, Frame_Ends 0,
       Client_Turn 0 \<lparr>tn_select = 1, tn_header = All, tn_body = Part 2, tn_now = 0\<rparr>, Shutdown] = Some (sv, outs) \<and>
    (\<forall>f. (f \<in> live (fs_frames (sv_frames sv)) \<longleftrightarrow> f \<in># all_refs sv))"
proof -
  have "run_ok event_ok server_step (new_server 1)
      [Client_Starts Mulaw 0 None 0, Frame_Arrives 0 [1, 2, 3] 3 SND_MULAW_TYPE 8000 1 8000, Frame_Locks 0, Frame_Offered 0, Frame_Ends 0,
       Client_Turn 0 \<lparr>tn_select = 1, tn_header = All, tn_body = Part 2, tn_now = 0\<rparr>, Shutdown]"
    by (simp add: frame_types split: option.split prod.split del: server_step.simps)
  from camera_server_safe [OF this] show ?thesis by (elim exE conjE) blast
qed


lemmas server_eval = new_server_def new_frame_state_def new_frame_memory_def sender_start_def add_request_def obj_new_def obj_get_def obj_put_def
  new_request_holder_def query_interval_def new_frame_holder_def fm_alloc_def malloc_def block_write_def mem_write_def mem_read_def
  offer_frame_def check_camera_def check_type_def add_frame_def thin_out_def frame_add_ref_def frame_release_and_delete_def
  sender_turn_def get_frame_and_remove_def serve_frame_def send_header_def send_body_def frame_sent_def frame_bytes_def block_read_def
  frame_types Let_def


text \<open>A P picture (types 0x80 and 0x82) is not held back until the stream has started or until
  the next I picture: its type is compared with those of the I pictures, so the test of
  \<open>isIFrame\<close> never sees it, and a new client gets it without the stream's start.\<close>

theorem p_pictures_not_held_back:
  assumes "frames_ok s R" "f \<in># R" "type = 0x80 \<or> type = 0x82" "res = (if type = 0x80 then Mpeg4_Hd else Mpeg4_Cif)"
  shows "\<exists>s' rh'. offer_frame s (new_request_holder (resource_type res) c 0) c f type width height interval = Some (s', rh', [f]) \<and>
           rh_first rh' \<and> rh_iframe rh' \<and> rh_frames rh' = [f]"
proof -
  obtain s' where s': "frame_add_ref s f = Some s'" using frame_add_ref_ok [OF assms(1,2)] by blast
  have t: "check_type (new_request_holder (resource_type res) c 0) type" "\<not> (type = MPEG4_HD_TYPE \<or> type = MPEG4_CIF_TYPE)"
    using assms(3,4) by (auto simp: check_type_def new_request_holder_def frame_types)
  show ?thesis
    using t s' by (simp add: offer_frame_def check_camera_def new_request_holder_def add_frame_def thin_out_def)
qed

lemma p_pictures_not_held_back_witness:
  "\<exists>s' rh'. offer_frame (snd (the (new_frame_holder new_frame_state [9] 1 0x80 640 480))) (new_request_holder (resource_type Mpeg4_Hd) 5 0) 5 0 0x80 640 480 40 =
     Some (s', rh', [0]) \<and> rh_first rh'"
proof -
  have t: "(0x80::nat) = JPEG_TYPE \<and> 2 < (1::nat) \<longrightarrow> 2051 \<le> length [9 :: byte]" by simp
  obtain f s where n: "new_frame_holder new_frame_state [9] 1 0x80 640 480 = Some (f, s)"
    "new_frame_spec new_frame_state {#} (framed [9] 1 0x80) (f, s)"
    by (rule new_frame_holderE [OF new_frame_state_ok _ _ t]) simp_all
  have "f = 0" "frames_ok s {#f#}" using new_frame_specD(1,2) [OF n(2)] by (simp_all add: new_frame_state_def)
  then have "\<exists>s' rh'. offer_frame s (new_request_holder (resource_type Mpeg4_Hd) 5 0) 5 0 0x80 640 480 40 = Some (s', rh', [0]) \<and>
      rh_first rh' \<and> rh_iframe rh' \<and> rh_frames rh' = [0]"
    by (intro p_pictures_not_held_back [of s "{#f#}"]) simp_all
  then show ?thesis using n(1) by auto
qed

text \<open>If the socket does not take the header of a part of an MJPEG stream, the picture is sent
  all the same, without it: what send returns for the header is overwritten.\<close>

theorem mjpeg_header_lost:
  assumes "frames_ok s R" "f \<in># R" "sd_resource sd = Mjpeg" "sd_frame sd = Some f" "sd_position sd = 0"
    and "\<not> sd_header sd" "\<not> sd_wait sd" "sd_phase sd = Serving" "0 < length (frame_content s f)"
  shows "\<exists>s' sd'. serve_frame s sd f \<lparr>tn_select = 1, tn_header = Would_Block, tn_body = All, tn_now = now\<rparr> = Some (s', sd') \<and>
           sd_out sd' = sd_out sd @ frame_content s f @ CRLF"
proof -
  obtain fh where fh: "obj_get (fs_frames s) f = Some fh" using frames_okD(2) [OF assms(1,2)] by blast
  have size: "length (frame_content s f) = fh_size fh" using frame_bytes_content(2) [OF assms(1) fh, of 0 0] by simp
  have bytes: "frame_bytes s f 0 (fh_size fh) = Some (frame_content s f)"
    using frame_bytes_content(1) [OF assms(1) fh, of 0 "fh_size fh"] size by simp
  obtain s' where rel: "frame_release_and_delete s f = Some s'" using frame_release_ok [OF assms(1,2)] by blast
  show ?thesis
    using assms(3-9) fh size bytes rel
    by (simp add: serve_frame_def send_header_def send_body_def frame_sent_def Let_def)
qed

lemma mjpeg_header_lost_witness:
  "\<exists>s' sd'. serve_frame (snd (the (new_frame_holder new_frame_state [7, 8] 2 JPEG_TYPE 0 0)))
      \<lparr>sd_resource = Mjpeg, sd_request = 0, sd_wait = False, sd_frame = Some 0, sd_position = 0, sd_header = False,
       sd_no_frame = 0, sd_phase = Serving, sd_out = []\<rparr> 0
      \<lparr>tn_select = 1, tn_header = Would_Block, tn_body = All, tn_now = 0\<rparr> = Some (s', sd') \<and> sd_out sd' = [7, 8, 13, 10]"
proof -
  have t: "JPEG_TYPE = JPEG_TYPE \<and> 2 < (2::nat) \<longrightarrow> 2051 \<le> length [7, 8 :: byte]" by simp
  obtain f s where n: "new_frame_holder new_frame_state [7, 8] 2 JPEG_TYPE 0 0 = Some (f, s)"
    "new_frame_spec new_frame_state {#} (framed [7, 8] 2 JPEG_TYPE) (f, s)"
    by (rule new_frame_holderE [OF new_frame_state_ok _ _ t]) simp_all
  have sp: "f = 0" "frames_ok s {#f#}" "frame_content s f = [7, 8]"
    using new_frame_specD(1-3) [OF n(2)] by (simp_all add: new_frame_state_def framed_def frame_types)
  have "\<exists>s' sd'. serve_frame s
      \<lparr>sd_resource = Mjpeg, sd_request = 0, sd_wait = False, sd_frame = Some f, sd_position = 0, sd_header = False,
       sd_no_frame = 0, sd_phase = Serving, sd_out = []\<rparr> f
      \<lparr>tn_select = 1, tn_header = Would_Block, tn_body = All, tn_now = 0\<rparr> = Some (s', sd') \<and> sd_out sd' = [] @ frame_content s f @ CRLF"
    using mjpeg_header_lost [OF sp(2), of f "\<lparr>sd_resource = Mjpeg, sd_request = 0, sd_wait = False, sd_frame = Some f, sd_position = 0, sd_header = False,
       sd_no_frame = 0, sd_phase = Serving, sd_out = []\<rparr>" 0] sp(3) by simp
  then show ?thesis using n(1) sp by (simp add: CRLF_def)
qed

section \<open>The rate of frames\<close>

text \<open>A camera with pictures i milliseconds apart, and a client with \<open>m_interval\<close> m.\<close>

definition frame_inc :: "int \<Rightarrow> int \<Rightarrow> int" where
  "frame_inc i m = i * 65536 div m"

lemma frame_inc_pos:
  assumes "0 < i" "i < m" "m \<le> 999"
  shows "0 < frame_inc i m" "frame_inc i m \<le> 65535"
proof -
  have "m \<le> i * 65536" using assms by linarith
  then have "1 \<le> i * 65536 div m" using assms by (simp add: zdiv_mono1 [of m "i * 65536" m, simplified])
  then show "0 < frame_inc i m" by (simp add: frame_inc_def)
  show "frame_inc i m \<le> 65535" using frame_inc_range [OF assms(1,2)] assms by (simp add: frame_inc_def sdiv_pos)
qed

lemma thin_first:
  assumes "0 < i" "i < m" "m \<le> 999" "rh_interval rh = m" "rh_frame_current rh = 0"
  shows "thin_out rh i = Some (rh\<lparr>rh_frame_inc := frame_inc i m, rh_frame_current := frame_inc i m\<rparr>, True)"
proof -
  have "PJS_FLOAT_EXT_CONST i = Some (i * 65536)" "i * 65536 sdiv m = frame_inc i m"
    using assms by (simp_all add: PJS_FLOAT_EXT_CONST_def is_s32_def sdiv_pos frame_inc_def)
  moreover have "int_add 0 (frame_inc i m) = Some (frame_inc i m)"
    using frame_inc_pos [OF assms(1-3)] by (simp add: int_add_def is_s32_def)
  ultimately show ?thesis using assms frame_inc_pos [OF assms(1-3)] by (simp add: thin_out_def)
qed

lemma thin_next:
  assumes i: "0 < i" "i < m" "m \<le> 999" "rh_interval rh = m"
    and cur: "rh_frame_current rh = x - MAX_FRAME_CONST * w" "0 < rh_frame_current rh" "rh_frame_current rh \<le> 6619136"
  shows "\<exists>w'. thin_out rh i = Some (rh\<lparr>rh_frame_inc := frame_inc i m, rh_frame_current := x + frame_inc i m - MAX_FRAME_CONST * w'\<rparr>,
             x div 65536 \<noteq> (x + frame_inc i m) div 65536) \<and>
           0 < x + frame_inc i m - MAX_FRAME_CONST * w' \<and> x + frame_inc i m - MAX_FRAME_CONST * w' \<le> 6619136"
proof -
  note inc = frame_inc_pos [OF i(1-3)]
  let ?inc = "frame_inc i m"
  define w' where "w' = (if MAX_FRAME_CONST < rh_frame_current rh then w + 1 else w)"
  let ?c = "x - MAX_FRAME_CONST * w'"
  have c: "(if MAX_FRAME_CONST < rh_frame_current rh then rh_frame_current rh - MAX_FRAME_CONST else rh_frame_current rh) = ?c"
    "0 < ?c" "?c \<le> 6553600"
    using cur by (auto simp: w'_def MAX_FRAME_CONST_def algebra_simps)
  have cv: "PJS_FLOAT_EXT_CONST i = Some (i * 65536)" "i * 65536 sdiv m = ?inc"
    using i by (simp_all add: PJS_FLOAT_EXT_CONST_def is_s32_def sdiv_pos frame_inc_def)
  have add: "int_add ?c ?inc = Some (?c + ?inc)" using c inc by (simp add: int_add_def is_s32_def)
  have dv: "(y - MAX_FRAME_CONST * w') div 65536 = y div 65536 - 100 * w'" for y
  proof -
    have "y - MAX_FRAME_CONST * w' = y + (- 100 * w') * 65536" by (simp add: MAX_FRAME_CONST_def)
    then show ?thesis by (simp only: div_mult_self1)
  qed
  have comm: "?c + ?inc = x + ?inc - MAX_FRAME_CONST * w'" by simp
  have "thin_out rh i = Some (rh\<lparr>rh_frame_inc := ?inc, rh_frame_current := ?c + ?inc\<rparr>, ?c div 65536 \<noteq> (?c + ?inc) div 65536)"
    using i cur(2) inc cv add c(1)
    by (cases "MAX_FRAME_CONST < rh_frame_current rh") (simp_all add: thin_out_def Let_def)
  then show ?thesis unfolding comm dv using c inc by (intro exI [of _ w']) simp
qed

lemma thin_run:
  assumes i: "0 < i" "i < m" "m \<le> 999"
  shows "rh_interval rh = m \<Longrightarrow> rh_frame_current rh = x - MAX_FRAME_CONST * w \<Longrightarrow> 0 < rh_frame_current rh \<Longrightarrow>
           rh_frame_current rh \<le> 6619136 \<Longrightarrow> \<exists>rh' kept. run_steps thin_out rh (replicate n i) = Some (rh', kept) \<and>
             int (count_list kept True) = (x + int n * frame_inc i m) div 65536 - x div 65536"
proof (induction n arbitrary: rh x w)
  case (Suc n)
  let ?inc = "frame_inc i m"
  obtain w' where st: "thin_out rh i = Some (rh\<lparr>rh_frame_inc := ?inc, rh_frame_current := x + ?inc - MAX_FRAME_CONST * w'\<rparr>,
             x div 65536 \<noteq> (x + ?inc) div 65536)"
    "0 < x + ?inc - MAX_FRAME_CONST * w'" "x + ?inc - MAX_FRAME_CONST * w' \<le> 6619136"
    using thin_next [OF i Suc.prems] by blast
  let ?rh = "rh\<lparr>rh_frame_inc := ?inc, rh_frame_current := x + ?inc - MAX_FRAME_CONST * w'\<rparr>"
  have rh1: "rh_interval ?rh = m" "rh_frame_current ?rh = x + ?inc - MAX_FRAME_CONST * w'" "0 < rh_frame_current ?rh" "rh_frame_current ?rh \<le> 6619136"
    using Suc.prems(1) st(2,3) by simp_all
  obtain rh' kept where run: "run_steps thin_out ?rh (replicate n i) = Some (rh', kept)"
    "int (count_list kept True) = (x + ?inc + int n * ?inc) div 65536 - (x + ?inc) div 65536"
    using Suc.IH [OF rh1] by blast
  have one: "(x + ?inc) div 65536 = x div 65536 \<or> (x + ?inc) div 65536 = x div 65536 + 1"
  proof -
    have "x div 65536 \<le> (x + ?inc) div 65536" by (rule zdiv_mono1) (use frame_inc_pos [OF i] in simp_all)
    moreover have "(x + ?inc) div 65536 \<le> (x + 65536) div 65536" by (rule zdiv_mono1) (use frame_inc_pos [OF i] in simp_all)
    moreover have "(x + 65536) div 65536 = x div 65536 + 1" by simp
    ultimately show ?thesis by linarith
  qed
  have sum: "x + ?inc + int n * ?inc = x + int (Suc n) * ?inc" by (simp add: algebra_simps)
  let ?kept = "(x div 65536 \<noteq> (x + ?inc) div 65536) # kept"
  have "run_steps thin_out rh (replicate (Suc n) i) = Some (rh', ?kept)" using st(1) run(1) by simp
  moreover have "int (count_list ?kept True) = (x + int (Suc n) * ?inc) div 65536 - x div 65536"
    using one run(2) unfolding sum [symmetric] by (elim disjE) simp_all
  ultimately show ?case by blast
qed simp



end
