(* ===== verification/Camera_Stream.thy ===== *)
theory Camera_Stream
  imports Byte_Search Avr_Counter Frame_Server
begin

text \<open>
  The camera server's side towards network cameras: \<open>WAPAIPCamera::CameraThread\<close>
  (src/wapa_httpd/wapa_camera.cpp), which connects to a camera, takes its MPEG4 or MJPEG stream
  apart and hands over the pictures. A turn of the outer loop without its connection and each recv
  of the inner loops are a step. None is an access outside the buffer or an overflow.
\<close>

section \<open>The thread's state\<close>

definition CT_MPEG4_WAPA :: nat where "CT_MPEG4_WAPA = 0"
definition CT_JPEG_GST :: nat where "CT_JPEG_GST = 1"
definition MAX_CAMERA_BUFFER :: int where "MAX_CAMERA_BUFFER = 524288"
definition MAX_JPEG_HEADERS_SIZE :: int where "MAX_JPEG_HEADERS_SIZE = 128"

text \<open>\<open>ic_looping\<close>: in the inner loop; \<open>ic_first\<close>, \<open>ic_disconnect\<close>: its variables.\<close>

record ip_camera =
  ic_type :: nat
  ic_buffer :: "byte list"
  ic_position :: int
  ic_size :: int
  ic_state :: nat
  ic_ftype :: nat
  ic_hd :: "nat \<times> nat"
  ic_cif :: "nat \<times> nat"
  ic_boundary :: "byte list"
  ic_client :: bool
  ic_connected :: bool
  ic_looping :: bool
  ic_first :: bool
  ic_disconnect :: bool
  ic_start_time :: int
  ic_last_frame_time :: int
  ic_counter :: avr_counter

text \<open>A picture for \<open>OnVideoFrame\<close>: the type, width, height, buffer, size and interval.\<close>

type_synonym picture = "nat \<times> nat \<times> nat \<times> byte list \<times> int \<times> int"

definition new_ip_camera :: "nat \<Rightarrow> byte list \<Rightarrow> ip_camera" where
  "new_ip_camera type buffer =
     \<lparr>ic_type = type, ic_buffer = buffer, ic_position = 0, ic_size = 0, ic_state = 0, ic_ftype = 0xFF, ic_hd = (0, 0), ic_cif = (0, 0),
      ic_boundary = [], ic_client = False, ic_connected = False, ic_looping = False, ic_first = False, ic_disconnect = False,
      ic_start_time = 0, ic_last_frame_time = 0, ic_counter = new_avr_counter 30\<rparr>"

definition camera_close :: "ip_camera \<Rightarrow> ip_camera" where
  "camera_close c = c\<lparr>ic_connected := False, ic_client := False, ic_looping := False, ic_disconnect := False\<rparr>"

definition camera_connect :: "ip_camera \<Rightarrow> bool \<Rightarrow> int \<Rightarrow> ip_camera" where
  "camera_connect c succeeds now =
     (let c = c\<lparr>ic_last_frame_time := 0, ic_counter := avr_reset (ic_counter c), ic_hd := (0, 0), ic_cif := (0, 0), ic_state := 0,
                ic_boundary := [], ic_position := 0,
                ic_size := (if ic_type c = CT_MPEG4_WAPA then 16
                            else if ic_type c = CT_JPEG_GST then MAX_JPEG_HEADERS_SIZE else ic_size c)\<rparr>
      in if succeeds then c\<lparr>ic_client := True, ic_start_time := now, ic_connected := True\<rparr> else camera_close c)"

definition camera_poll :: "ip_camera \<Rightarrow> int \<Rightarrow> bool \<Rightarrow> ip_camera" where
  "camera_poll c now readable =
     (if ic_start_time c \<noteq> 0 \<and> 5000 < now - ic_start_time c then camera_close c
      else if ic_position c < ic_size c then
        (if readable \<and> (ic_type c = CT_MPEG4_WAPA \<or> ic_type c = CT_JPEG_GST) then c\<lparr>ic_looping := True, ic_first := True\<rparr> else c)
      else camera_close c)"

section \<open>Receiving\<close>

text \<open>What recv gives: bytes (none if the camera has closed), nothing yet, or an error.\<close>

datatype received = Bytes "byte list" | Nothing_Yet | Failed

text \<open>The length that recv is asked for, an int turned into a \<open>size_t\<close>.\<close>

definition asked :: "ip_camera \<Rightarrow> int" where
  "asked c = (ic_size c - ic_position c) mod 18446744073709551616"

definition le16 :: "byte list \<Rightarrow> nat \<Rightarrow> nat option" where
  "le16 buf i = do { a \<leftarrow> mem_get buf i; b \<leftarrow> mem_get buf (i + 1); Some (unat a + 256 * unat b) }"

definition le32 :: "byte list \<Rightarrow> nat \<Rightarrow> nat option" where
  "le32 buf i = do { a \<leftarrow> le16 buf i; b \<leftarrow> le16 buf (i + 2); Some (a + 65536 * b) }"

subsection \<open>MPEG4 cameras\<close>

definition mpeg4_size :: "ip_camera \<Rightarrow> nat \<times> nat" where
  "mpeg4_size c =
     (if ic_ftype c = 0x80 \<or> ic_ftype c = 0 then ic_hd c else if ic_ftype c = 0x82 \<or> ic_ftype c = 2 then ic_cif c else (0, 0))"

definition mpeg4_block :: "ip_camera \<Rightarrow> int \<Rightarrow> (ip_camera \<times> picture list) option" where
  "mpeg4_block c now =
     (if ic_state c = 0 then
        do {
          b0 \<leftarrow> mem_get (ic_buffer c) 0;
          b1 \<leftarrow> mem_get (ic_buffer c) 1;
          if b0 = 0x7 \<and> b1 = 0x61 then
            do {
              hw \<leftarrow> le16 (ic_buffer c) 4;
              hh \<leftarrow> le16 (ic_buffer c) 6;
              cw \<leftarrow> le16 (ic_buffer c) 8;
              ch \<leftarrow> le16 (ic_buffer c) 10;
              Some (c\<lparr>ic_hd := (hw, hh), ic_cif := (cw, ch), ic_state := 1\<rparr>, [])
            }
          else Some (c\<lparr>ic_disconnect := True\<rparr>, [])
        }
      else if ic_state c = 1 then
        do {
          b0 \<leftarrow> mem_get (ic_buffer c) 0;
          n \<leftarrow> le32 (ic_buffer c) 4;
          let c = c\<lparr>ic_ftype := unat b0, ic_size := to_s32 (int n)\<rparr>;
          Some (if ic_size c \<le> MAX_CAMERA_BUFFER then c\<lparr>ic_state := 2\<rparr> else c\<lparr>ic_disconnect := True\<rparr>, [])
        }
      else
        Some (c\<lparr>ic_start_time := now, ic_size := 16, ic_state := 1\<rparr>,
              [(ic_ftype c, fst (mpeg4_size c), snd (mpeg4_size c), ic_buffer c, ic_size c, 0)]))"

definition mpeg4_bytes :: "ip_camera \<Rightarrow> byte list \<Rightarrow> int \<Rightarrow> (ip_camera \<times> picture list) option" where
  "mpeg4_bytes c bs now =
     do {
       buf \<leftarrow> mem_write (ic_buffer c) (nat (ic_position c)) bs;
       let c = c\<lparr>ic_buffer := buf, ic_first := False, ic_position := ic_position c + int (length bs)\<rparr>;
       if ic_size c \<le> ic_position c then mpeg4_block (c\<lparr>ic_position := 0\<rparr>) now
       else Some (c, [])
     }"

subsection \<open>MJPEG cameras\<close>

text \<open>The rest of the buffer's contents is moved to its start.\<close>

definition shift_down :: "ip_camera \<Rightarrow> nat \<Rightarrow> ip_camera option" where
  "shift_down c restart =
     (if restart \<noteq> 0 then
        do {
          bs \<leftarrow> mem_read (ic_buffer c) restart (nat (to_u32 (ic_position c - int restart)));
          buf \<leftarrow> mem_write (ic_buffer c) 0 bs;
          Some (c\<lparr>ic_buffer := buf, ic_position := to_s32 (ic_position c - int restart)\<rparr>)
        }
      else Some c)"

definition before_last :: "ip_camera \<Rightarrow> nat" where
  "before_last c = nat (to_u32 (ic_position c - 1))"

definition jpeg_find_start :: "ip_camera \<Rightarrow> ip_camera option" where
  "jpeg_find_start c =
     do {
       fpos \<leftarrow> mem_find (ic_buffer c) 0 [45, 45] (nat (ic_position c));
       case fpos of
         Some i \<Rightarrow> shift_down (c\<lparr>ic_state := 2\<rparr>) i
       | None \<Rightarrow> shift_down c (before_last c)
     }"

definition jpeg_find_boundary :: "ip_camera \<Rightarrow> ip_camera option" where
  "jpeg_find_boundary c =
     do {
       (c, restart) \<leftarrow>
         (if ic_boundary c = [] then Some (c\<lparr>ic_state := 0\<rparr>, before_last c)
          else
            do {
              fpos \<leftarrow> mem_find (ic_buffer c) 0 (ic_boundary c) (nat (ic_position c));
              Some (case fpos of Some i \<Rightarrow> (c\<lparr>ic_state := 2\<rparr>, i) | None \<Rightarrow> (c, before_last c))
            });
       shift_down (c\<lparr>ic_size := MAX_JPEG_HEADERS_SIZE\<rparr>) restart
     }"

definition is_space :: "byte \<Rightarrow> bool" where
  "is_space b \<longleftrightarrow> b = 32 \<or> 9 \<le> b \<and> b \<le> 13"

definition trim :: "byte list \<Rightarrow> byte list" where
  "trim s = rev (dropWhile is_space (rev (dropWhile is_space s)))"

definition is_digit_byte :: "byte \<Rightarrow> bool" where
  "is_digit_byte b \<longleftrightarrow> 48 \<le> b \<and> b \<le> 57"

text \<open>\<open>atoi\<close> of a text of digits: \<open>strtol\<close>, which stops at the largest long, cut to an int.\<close>

definition atoi_digits :: "byte list \<Rightarrow> int" where
  "atoi_digits ds = to_s32 (min (foldl (\<lambda>v d. 10 * v + (int (unat d) - 48)) 0 ds) 9223372036854775807)"

definition CONTENT_LENGTH :: "byte list" where "CONTENT_LENGTH = ascii ''CONTENT-LENGTH:''"

text \<open>The first line is the boundary.\<close>

definition jpeg_boundary :: "ip_camera \<Rightarrow> ip_camera option" where
  "jpeg_boundary c =
     (if ic_boundary c = [] then
        do {
          fpos \<leftarrow> mem_find (ic_buffer c) 0 CRLF (nat (ic_position c));
          case fpos of
            Some i \<Rightarrow>
              do {
                buf \<leftarrow> mem_set (ic_buffer c) i 0;
                Some (c\<lparr>ic_buffer := buf, ic_boundary := trim (takeWhile (\<lambda>b. b \<noteq> 0) buf)\<rparr>)
              }
          | None \<Rightarrow> Some (c\<lparr>ic_state := 0\<rparr>)
        }
      else Some c)"

text \<open>The length, and where the picture starts if the header is complete.\<close>

definition jpeg_length :: "ip_camera \<Rightarrow> (ip_camera \<times> nat option) option" where
  "jpeg_length c =
     do {
       fpos \<leftarrow> str_caseless_find (ic_buffer c) 0 CONTENT_LENGTH (nat (ic_position c));
       case fpos of
         None \<Rightarrow> Some (c\<lparr>ic_state := 1\<rparr>, None)
       | Some p \<Rightarrow>
           do {
             fend \<leftarrow> mem_find (ic_buffer c) p CRLF (nat (ic_position c));
             case fend of
               None \<Rightarrow> Some (c\<lparr>ic_state := 1\<rparr>, None)
             | Some e \<Rightarrow>
                 do {
                   line \<leftarrow> mem_read (ic_buffer c) (p + 15) (e - (p + 15));
                   let n = atoi_digits (filter is_digit_byte line);
                   if n \<noteq> 0 then
                     do {
                       fpos \<leftarrow> mem_find (ic_buffer c) (max (p + 15) e) (CRLF @ CRLF) (nat (ic_position c));
                       Some (case fpos of
                               Some i \<Rightarrow> (c\<lparr>ic_size := n, ic_state := 3\<rparr>, Some (i + 4))
                             | None \<Rightarrow> (c\<lparr>ic_size := n, ic_state := 1\<rparr>, None))
                     }
                   else Some (c\<lparr>ic_size := 1\<rparr>, None)
                 }
           }
     }"

definition jpeg_header :: "ip_camera \<Rightarrow> ip_camera option" where
  "jpeg_header c =
     do {
       b0 \<leftarrow> mem_get (ic_buffer c) 0;
       b1 \<leftarrow> mem_get (ic_buffer c) 1;
       (c, start) \<leftarrow>
         (if b0 = 45 \<and> b1 = 45 then
            do {
              c \<leftarrow> jpeg_boundary c;
              if ic_boundary c \<noteq> [] then jpeg_length c else Some (c, None)
            }
          else Some (c\<lparr>ic_state := 1\<rparr>, None));
       let c = (if ic_state c \<noteq> 3 then c\<lparr>ic_size := MAX_JPEG_HEADERS_SIZE\<rparr> else c);
       shift_down c (case start of Some i \<Rightarrow> i | None \<Rightarrow> before_last c)
     }"

definition jpeg_picture :: "ip_camera \<Rightarrow> int \<Rightarrow> (ip_camera \<times> picture list) option" where
  "jpeg_picture c now =
     (if ic_size c \<le> ic_position c then
        do {
          (counter, interval) \<leftarrow>
            (if ic_last_frame_time c \<noteq> 0 then
               do {
                 counter \<leftarrow> avr_add (ic_counter c) (to_s32 (now - ic_last_frame_time c));
                 Some (counter, avr_value counter)
               }
             else Some (ic_counter c, 0));
          Some (c\<lparr>ic_counter := counter, ic_last_frame_time := now, ic_start_time := now, ic_position := 0, ic_state := 1,
                  ic_size := MAX_JPEG_HEADERS_SIZE\<rparr>,
                [(JPEG_TYPE, 0, 0, ic_buffer c, ic_size c, interval)])
        }
      else Some (c, []))"

definition jpeg_bytes :: "ip_camera \<Rightarrow> byte list \<Rightarrow> int \<Rightarrow> (ip_camera \<times> picture list) option" where
  "jpeg_bytes c bs now =
     do {
       buf \<leftarrow> mem_write (ic_buffer c) (nat (ic_position c)) bs;
       let c = c\<lparr>ic_buffer := buf, ic_first := False, ic_position := ic_position c + int (length bs)\<rparr>;
       if ic_state c = 0 then map_option (\<lambda>c. (c, [])) (jpeg_find_start c)
       else if ic_state c = 1 then map_option (\<lambda>c. (c, [])) (jpeg_find_boundary c)
       else if ic_state c = 2 then map_option (\<lambda>c. (c, [])) (jpeg_header c)
       else jpeg_picture c now
     }"

subsection \<open>Both\<close>

text \<open>Before recv: the MJPEG loop starts again with a full buffer.\<close>

definition before_recv :: "ip_camera \<Rightarrow> ip_camera" where
  "before_recv c = (if ic_type c \<noteq> CT_MPEG4_WAPA \<and> ic_size c = ic_position c then c\<lparr>ic_position := 0\<rparr> else c)"

definition loop_ends :: "ip_camera \<Rightarrow> ip_camera" where
  "loop_ends c = (if ic_disconnect c then camera_close c else c\<lparr>ic_looping := False\<rparr>)"

definition camera_recv :: "ip_camera \<Rightarrow> received \<Rightarrow> int \<Rightarrow> (ip_camera \<times> picture list) option" where
  "camera_recv c r now =
     (let c = before_recv c in
      case r of
        Bytes bs \<Rightarrow>
          (if bs = [] then Some (loop_ends (if ic_first c then c\<lparr>ic_disconnect := True\<rparr> else c), [])
           else if ic_type c = CT_MPEG4_WAPA then mpeg4_bytes c bs now
           else jpeg_bytes c bs now)
      | Nothing_Yet \<Rightarrow> Some (loop_ends c, [])
      | Failed \<Rightarrow> Some (loop_ends (c\<lparr>ic_disconnect := True\<rparr>), []))"

datatype camera_event = Connects bool int | Polls int bool | Receives received int

fun camera_step :: "ip_camera \<Rightarrow> camera_event \<Rightarrow> (ip_camera \<times> picture list) option" where
  "camera_step c (Connects succeeds now) = Some (if ic_client c then c else camera_connect c succeeds now, [])"
| "camera_step c (Polls now readable) =
     Some (if ic_client c \<and> ic_connected c \<and> \<not> ic_looping c then camera_poll c now readable else c, [])"
| "camera_step c (Receives r now) = (if ic_looping c then camera_recv c r now else Some (c, []))"

text \<open>recv never gives more than it is asked for.\<close>

fun camera_event_ok :: "ip_camera \<Rightarrow> camera_event \<Rightarrow> bool" where
  "camera_event_ok c (Receives (Bytes bs) now) = (int (length bs) \<le> asked (before_recv c))"
| "camera_event_ok c _ = True"

end
