(* ===== verification/Camera_Mpeg4.thy ===== *)
theory Camera_Mpeg4
  imports Camera_Stream
begin

text \<open>
  What \<open>WAPAIPCamera::CameraThread\<close> (src/wapa_httpd/wapa_camera.cpp) makes of the stream of an MPEG4
  camera: the pictures that are handed over do not depend on the packets, and a picture that is too
  large for the buffer.
\<close>

section \<open>MPEG4: a stream whose blocks are to come\<close>

lemmas camera_consts = CT_MPEG4_WAPA_def CT_JPEG_GST_def MAX_CAMERA_BUFFER_def MAX_JPEG_HEADERS_SIZE_def

text \<open>The size of a picture of a type, from the greeting's two sizes.\<close>

definition picture_size :: "nat \<Rightarrow> nat \<times> nat \<Rightarrow> nat \<times> nat \<Rightarrow> nat \<times> nat" where
  "picture_size t big small = (if t = 0x80 \<or> t = 0 then big else if t = 0x82 \<or> t = 2 then small else (0, 0))"

text \<open>What the receiver of a picture sees: its bytes alone of the buffer.\<close>

fun seen :: "picture \<Rightarrow> nat \<times> nat \<times> nat \<times> byte list" where
  "seen (t, w, h, buf, n, interval) = (t, w, h, take (nat n) buf)"

text \<open>
  \<open>blocks st n t big small s ps\<close>: in state st, with the next block of n bytes, s is a well-formed rest
  of a stream, and ps are its pictures.
\<close>

inductive blocks ::
  "nat \<Rightarrow> int \<Rightarrow> nat \<Rightarrow> nat \<times> nat \<Rightarrow> nat \<times> nat \<Rightarrow> byte list \<Rightarrow> (nat \<times> nat \<times> nat \<times> byte list) list \<Rightarrow> bool" where
  finished: "blocks 1 16 t big small [] []"
| greeting: "length g = 16 \<Longrightarrow> g ! 0 = 0x7 \<Longrightarrow> g ! 1 = 0x61 \<Longrightarrow>
    le16 g 4 = Some hw \<Longrightarrow> le16 g 6 = Some hh \<Longrightarrow> le16 g 8 = Some cw \<Longrightarrow> le16 g 10 = Some ch \<Longrightarrow>
    blocks 1 16 t (hw, hh) (cw, ch) s ps \<Longrightarrow> blocks 0 16 t big small (g @ s) ps"
| header: "length h = 16 \<Longrightarrow> le32 h 4 = Some n \<Longrightarrow> 1 \<le> n \<Longrightarrow> n \<le> 524288 \<Longrightarrow>
    blocks 2 (int n) (unat (h ! 0)) big small s ps \<Longrightarrow> blocks 1 16 t big small (h @ s) ps"
| contents: "d \<noteq> [] \<Longrightarrow> blocks 1 16 t big small s ps \<Longrightarrow>
    blocks 2 (int (length d)) t big small (d @ s) ((t, fst (picture_size t big small), snd (picture_size t big small), d) # ps)"

lemma blocks_state: "blocks st n t big small s ps \<Longrightarrow> st = 0 \<or> st = 1 \<or> st = 2"
  by (erule blocks.cases) auto

lemma blocks_size: "blocks st n t big small s ps \<Longrightarrow> 1 \<le> n \<and> (st \<noteq> 2 \<longrightarrow> n = 16)"
  by (erule blocks.cases) (auto simp: Suc_le_eq)

lemma blocks_short: "blocks st n t big small s ps \<Longrightarrow> int (length s) < n \<Longrightarrow> st = 1 \<and> n = 16 \<and> s = [] \<and> ps = []"
  by (erule blocks.cases) auto

text \<open>A complete block at the front of the stream.\<close>

lemma le_bytes_take:
  assumes "16 \<le> length buf" "i + 2 \<le> 16"
  shows "le16 (take 16 buf) i = le16 buf i"
  using assms by (simp add: le16_def mem_simps)

lemma le32_take: "16 \<le> length buf \<Longrightarrow> le32 (take 16 buf) 4 = le32 buf 4"
  by (simp add: le32_def le_bytes_take)

text \<open>The state in which s is to come.\<close>

definition to_come :: "ip_camera \<Rightarrow> byte list \<Rightarrow> (nat \<times> nat \<times> nat \<times> byte list) list \<Rightarrow> bool" where
  "to_come c s ps \<longleftrightarrow> ic_type c = CT_MPEG4_WAPA \<and> length (ic_buffer c) = 524288 \<and> ic_client c \<and> ic_connected c \<and> \<not> ic_disconnect c \<and>
     0 \<le> ic_position c \<and> ic_position c < ic_size c \<and> ic_size c \<le> 524288 \<and>
     blocks (ic_state c) (ic_size c) (ic_ftype c) (ic_hd c) (ic_cif c) (take (nat (ic_position c)) (ic_buffer c) @ s) ps"

lemma mpeg4_block_correct:
  assumes "blocks (ic_state c) (ic_size c) (ic_ftype c) (ic_hd c) (ic_cif c) (take (nat (ic_size c)) (ic_buffer c) @ s) ps"
    and "ic_type c = CT_MPEG4_WAPA" "length (ic_buffer c) = 524288" "ic_client c" "ic_connected c" "\<not> ic_disconnect c"
    and "ic_position c = 0" "ic_size c \<le> 524288"
  shows "\<exists>c' out ps'. mpeg4_block c now = Some (c', out) \<and> to_come c' s ps' \<and> ps = map seen out @ ps' \<and>
    ic_looping c' = ic_looping c \<and> (\<forall>(t, w, h, buf, n, i) \<in> set out. length buf = 524288 \<and> 0 < n \<and> n \<le> 524288 \<and> i = 0) \<and>
    ic_start_time c' \<in> {ic_start_time c, now}"
proof -
  let ?blk = "take (nat (ic_size c)) (ic_buffer c)"
  have pos: "1 \<le> ic_size c" using blocks_size [OF assms(1)] by simp
  then have len: "length ?blk = nat (ic_size c)" using assms(3,8) by simp
  show ?thesis
  using blocks_state [OF assms(1)]
proof (elim disjE)
  assume st: "ic_state c = 0"
  have sz: "ic_size c = 16" using blocks_size [OF assms(1)] st by simp
  from assms(1) show ?thesis
  proof cases
    case g: (greeting g hw hh cw ch s')
    have eq: "g = ?blk" "s' = s" using g(3,4) len sz by auto
    have "ic_buffer c ! 0 = 7" "ic_buffer c ! 1 = 0x61" using g(5,6) unfolding eq sz by simp_all
    moreover have "le16 (ic_buffer c) 4 = Some hw" "le16 (ic_buffer c) 6 = Some hh" "le16 (ic_buffer c) 8 = Some cw" "le16 (ic_buffer c) 10 = Some ch"
      using g(7-10) assms(3) unfolding eq sz by (simp_all add: le_bytes_take)
    ultimately show ?thesis
      using st sz g(11) eq(2) assms by (simp add: mpeg4_block_def mem_simps to_come_def)
  qed (use st in simp_all)
next
  assume st: "ic_state c = 1"
  have sz: "ic_size c = 16" using blocks_size [OF assms(1)] st by simp
  from assms(1) show ?thesis
  proof cases
    case finished
    then show ?thesis using len pos by simp
  next
    case h: (header h n s')
    have eq: "h = ?blk" "s' = s" using h(3,4) len sz by auto
    have "unat (ic_buffer c ! 0) = unat (h ! 0)" unfolding eq sz by simp
    moreover have "le32 (ic_buffer c) 4 = Some n" using h(5) assms(3) unfolding eq sz by (simp add: le32_take)
    ultimately show ?thesis
      using st h(6-8) eq(2) assms by (simp add: mpeg4_block_def mem_simps conv_simps to_come_def Let_def camera_consts)
  qed (use st in simp_all)
next
  assume st: "ic_state c = 2"
  let ?wh = "picture_size (ic_ftype c) (ic_hd c) (ic_cif c)"
  from assms(1) show ?thesis
  proof cases
    case d: (contents d s' ps')
    have eq: "d = ?blk" "s' = s" using d(2,3) len by auto
    have wh: "mpeg4_size c = ?wh" by (simp add: mpeg4_size_def picture_size_def)
    have pc: "mpeg4_block c now = Some (c\<lparr>ic_start_time := now, ic_size := 16, ic_state := 1\<rparr>, [(ic_ftype c, fst ?wh, snd ?wh, ic_buffer c, ic_size c, 0)])"
      by (simp add: mpeg4_block_def st wh)
    have "to_come (c\<lparr>ic_start_time := now, ic_size := 16, ic_state := 1\<rparr>) s ps'"
      using d(6) eq(2) assms by (simp add: to_come_def)
    then show ?thesis unfolding pc using d(4) eq(1) pos assms(3,8) by simp
  qed (use st in simp_all)
qed
qed

section \<open>MPEG4: any packets\<close>

text \<open>
  What the thread may meet while it is connected to a camera that sends: bytes, no more than it
  asked for and at least one, a moment without any, and its own turns within the five seconds.
\<close>

fun prompt :: "ip_camera \<Rightarrow> camera_event \<Rightarrow> bool" where
  "prompt c (Receives (Bytes bs) now) \<longleftrightarrow> ic_looping c \<and> bs \<noteq> [] \<and> camera_event_ok c (Receives (Bytes bs) now)"
| "prompt c (Receives Nothing_Yet now) \<longleftrightarrow> True"
| "prompt c (Polls now readable) \<longleftrightarrow> now - ic_start_time c \<le> 5000"
| "prompt c _ \<longleftrightarrow> False"

fun bytes_of :: "camera_event \<Rightarrow> byte list" where
  "bytes_of (Receives (Bytes bs) now) = bs"
| "bytes_of _ = []"

text \<open>A picture lies whole in the camera's buffer.\<close>

definition whole :: "picture \<Rightarrow> bool" where
  "whole = (\<lambda>(t, w, h, buf, n, interval). length buf = 524288 \<and> 0 < n \<and> n \<le> 524288 \<and> interval = 0)"

lemma asked_mpeg4:
  "to_come c s ps \<Longrightarrow> before_recv c = c \<and> asked c = ic_size c - ic_position c"
  by (auto simp: to_come_def before_recv_def asked_def)

lemma mpeg4_bytes_correct:
  assumes "to_come c (bs @ s) ps" "bs \<noteq> []" "int (length bs) \<le> ic_size c - ic_position c"
  shows "\<exists>c' out ps'. mpeg4_bytes c bs now = Some (c', out) \<and> to_come c' s ps' \<and> ps = map seen out @ ps' \<and> list_all whole out"
proof -
  let ?p = "nat (ic_position c)"
  note tc = assms(1) [unfolded to_come_def]
  let ?buf = "take ?p (ic_buffer c) @ bs @ drop (?p + length bs) (ic_buffer c)"
  have room: "?p + length bs \<le> length (ic_buffer c)" using tc assms(3) by linarith
  have wr: "mem_write (ic_buffer c) ?p bs = Some ?buf" by (rule mem_write_in [OF room])
  have lb: "length ?buf = 524288" using tc room by simp
  have tk: "take (?p + length bs) ?buf = take ?p (ic_buffer c) @ bs" using room by simp
  let ?c = "c\<lparr>ic_buffer := ?buf, ic_first := False, ic_position := ic_position c + int (length bs)\<rparr>"
  have bl: "blocks (ic_state c) (ic_size c) (ic_ftype c) (ic_hd c) (ic_cif c) (take (?p + length bs) ?buf @ s) ps"
    unfolding tk using tc by simp
  show ?thesis
  proof (cases "ic_size c \<le> ic_position c + int (length bs)")
    case False
    have np: "nat (ic_position c + int (length bs)) = ?p + length bs" using tc by linarith
    have "mpeg4_bytes c bs now = Some (?c, [])" using wr False by (simp add: mpeg4_bytes_def Let_def)
    moreover have "to_come ?c s ps" using tc lb bl False np by (simp add: to_come_def)
    ultimately show ?thesis by (intro exI [of _ ?c] exI [of _ "[]"] exI [of _ ps]) simp
  next
    case True
    have sz: "nat (ic_size c) = ?p + length bs" using True assms(3) tc by linarith
    let ?d = "?c\<lparr>ic_position := 0\<rparr>"
    have bl': "blocks (ic_state ?d) (ic_size ?d) (ic_ftype ?d) (ic_hd ?d) (ic_cif ?d) (take (nat (ic_size ?d)) (ic_buffer ?d) @ s) ps"
      using bl sz by simp
    have "mpeg4_bytes c bs now = mpeg4_block ?d now" using wr True by (simp add: mpeg4_bytes_def Let_def)
    moreover obtain c' out ps' where "mpeg4_block ?d now = Some (c', out)" "to_come c' s ps'" "ps = map seen out @ ps'"
      "\<forall>(t, w, h, buf, n, i) \<in> set out. length buf = 524288 \<and> 0 < n \<and> n \<le> 524288 \<and> i = 0"
      using mpeg4_block_correct [OF bl', of now] tc lb by auto
    ultimately show ?thesis by (auto simp: whole_def list_all_iff)
  qed
qed

lemma mpeg4_step_correct:
  assumes "to_come c (bytes_of ev @ s) ps" "prompt c ev"
  shows "\<exists>c' out ps'. camera_step c ev = Some (c', out) \<and> to_come c' s ps' \<and> ps = map seen out @ ps' \<and> list_all whole out"
proof (cases ev)
  case (Connects b now)
  then show ?thesis using assms(2) by simp
next
  case (Polls now readable)
  have "camera_poll c now readable = (if readable then c\<lparr>ic_looping := True, ic_first := True\<rparr> else c)"
    using assms Polls by (simp add: camera_poll_def to_come_def)
  then show ?thesis using assms Polls by (simp add: to_come_def)
next
  case (Receives r now)
  show ?thesis
  proof (cases r)
    case (Bytes bs)
    have p: "before_recv c = c" "asked c = ic_size c - ic_position c" using asked_mpeg4 [OF assms(1)] by simp_all
    have ok: "ic_looping c" "bs \<noteq> []" "int (length bs) \<le> ic_size c - ic_position c"
      using assms(2) p unfolding Receives Bytes by simp_all
    have "camera_step c ev = mpeg4_bytes c bs now"
      using ok assms(1) p(1) unfolding Receives Bytes by (simp add: camera_recv_def to_come_def)
    then show ?thesis using mpeg4_bytes_correct [of c bs s ps now] assms(1) ok unfolding Receives Bytes by simp
  next
    case Nothing_Yet
    have "to_come (c\<lparr>ic_looping := False\<rparr>) s ps" "before_recv c = c" "\<not> ic_disconnect c"
      using assms(1) asked_mpeg4 [OF assms(1)] unfolding Receives Nothing_Yet by (simp_all add: to_come_def)
    then show ?thesis using assms(1) unfolding Receives Nothing_Yet
      by (cases "ic_looping c") (simp_all add: camera_recv_def loop_ends_def)
  next
    case Failed
    then show ?thesis using assms(2) Receives by simp
  qed
qed

lemma mpeg4_run_correct:
  assumes "to_come c (concat (map bytes_of evs) @ s) ps" "run_ok prompt camera_step c evs"
  shows "\<exists>c' outs ps'. run_steps camera_step c evs = Some (c', outs) \<and> to_come c' s ps' \<and>
    ps = map seen (concat outs) @ ps' \<and> list_all whole (concat outs)"
  using assms
proof (induction evs arbitrary: c ps)
  case Nil
  then show ?case by simp
next
  case (Cons ev evs)
  obtain c1 out ps1 where st: "camera_step c ev = Some (c1, out)" "to_come c1 (concat (map bytes_of evs) @ s) ps1"
    "ps = map seen out @ ps1" "list_all whole out"
    using mpeg4_step_correct [of c ev "concat (map bytes_of evs) @ s" ps] Cons.prems by auto
  have "run_ok prompt camera_step c1 evs" using Cons.prems(2) st(1) by simp
  from Cons.IH [OF st(2) this] show ?case using st by auto
qed

text \<open>
  What such a camera sends: a greeting with the sizes of its two kinds of pictures, and each
  picture after a header with its type and length. a and b are bytes without a meaning.
\<close>

fun le_bytes :: "nat \<Rightarrow> nat \<Rightarrow> byte list" where
  "le_bytes 0 x = []"
| "le_bytes (Suc n) x = of_nat x # le_bytes n (x div 256)"

definition wapa_greeting :: "byte list \<Rightarrow> nat \<times> nat \<Rightarrow> nat \<times> nat \<Rightarrow> byte list \<Rightarrow> byte list" where
  "wapa_greeting a big small b =
     [0x07, 0x61] @ a @ le_bytes 2 (fst big) @ le_bytes 2 (snd big) @ le_bytes 2 (fst small) @ le_bytes 2 (snd small) @ b"

definition greeting_ok :: "byte list \<Rightarrow> nat \<times> nat \<Rightarrow> nat \<times> nat \<Rightarrow> byte list \<Rightarrow> bool" where
  "greeting_ok a big small b \<longleftrightarrow>
     length a = 2 \<and> fst big < 65536 \<and> snd big < 65536 \<and> fst small < 65536 \<and> snd small < 65536 \<and> length b = 4"

fun wapa_block :: "byte \<times> byte list \<times> byte list \<times> byte list \<Rightarrow> byte list" where
  "wapa_block (t, a, b, d) = (t # a @ le_bytes 4 (length d) @ b) @ d"

fun wapa_ok :: "byte \<times> byte list \<times> byte list \<times> byte list \<Rightarrow> bool" where
  "wapa_ok (t, a, b, d) \<longleftrightarrow> length a = 3 \<and> length b = 8 \<and> d \<noteq> [] \<and> length d \<le> 524288"

fun wapa_seen :: "nat \<times> nat \<Rightarrow> nat \<times> nat \<Rightarrow> byte \<times> byte list \<times> byte list \<times> byte list \<Rightarrow> nat \<times> nat \<times> nat \<times> byte list" where
  "wapa_seen big small (t, a, b, d) = (unat t, fst (picture_size (unat t) big small), snd (picture_size (unat t) big small), d)"

lemma length_le_bytes [simp]: "length (le_bytes n x) = n"
  by (induction n arbitrary: x) simp_all

lemma nth_append_at: "length xs = i \<Longrightarrow> (xs @ y # zs) ! i = y"
  by auto

lemma unat_of_nat_mod: "unat (of_nat x :: byte) = x mod 256"
  by (simp add: unat_of_nat)

lemma le_bytes_2: "le_bytes 2 x = [of_nat x, of_nat (x div 256)]"
  by (simp add: numeral_2_eq_2)

lemma le_bytes_4: "le_bytes 4 x = [of_nat x, of_nat (x div 256), of_nat (x div 256 div 256), of_nat (x div 256 div 256 div 256)]"
proof -
  have four: "(4 :: nat) = Suc (Suc (Suc (Suc 0)))" by simp
  show ?thesis unfolding four by (simp only: le_bytes.simps)
qed

lemma le16_at:
  assumes "length xs = i" "x < 65536"
  shows "le16 (xs @ le_bytes 2 x @ ys) i = Some x"
proof -
  have "le16 (xs @ le_bytes 2 x @ ys) i = Some (x mod 256 + 256 * (x div 256 mod 256))"
    using assms(1) by (auto simp: le_bytes_2 le16_def mem_get_def nth_append unat_of_nat_mod)
  moreover have "x div 256 mod 256 = x div 256" using assms(2) by simp
  ultimately show ?thesis by simp
qed

lemma le32_at:
  assumes "length xs = i" "x < 4294967296"
  shows "le32 (xs @ le_bytes 4 x @ ys) i = Some x"
proof -
  let ?y = "x div 256" let ?z = "?y div 256" let ?w = "?z div 256"
  have "le32 (xs @ le_bytes 4 x @ ys) i = Some (x mod 256 + 256 * (?y mod 256) + 65536 * (?z mod 256 + 256 * (?w mod 256)))"
    using assms(1) by (auto simp: le_bytes_4 le32_def le16_def mem_get_def nth_append unat_of_nat_mod)
  moreover have "x mod 256 + 256 * (?y mod 256) + 65536 * (?z mod 256 + 256 * (?w mod 256)) = x"
  proof -
    have w: "?w mod 256 = ?w" using assms(2) by simp
    have split: "y mod 256 + 256 * (y div 256) = y" for y :: nat by simp
    have join: "a + 256 * y = x \<Longrightarrow> b + 256 * z = y \<Longrightarrow> c + 256 * v = z \<Longrightarrow> a + 256 * b + 65536 * (c + 256 * v) = x"
      for a b c v y z :: nat by (auto simp: algebra_simps)
    show ?thesis unfolding w by (rule join [OF split split split])
  qed
  ultimately show ?thesis by simp
qed

lemma wapa_blocks:
  "\<forall>p \<in> set pics. wapa_ok p \<Longrightarrow> blocks 1 16 t big small (concat (map wapa_block pics)) (map (wapa_seen big small) pics)"
proof (induction pics arbitrary: t)
  case Nil
  then show ?case using blocks.finished by simp
next
  case (Cons p pics)
  obtain ty a b d where p: "p = (ty, a, b, d)" by (cases p)
  have ok: "length a = 3" "length b = 8" "d \<noteq> []" "length d \<le> 524288" using Cons.prems by (simp_all add: p)
  have "blocks 1 16 (unat ty) big small (concat (map wapa_block pics)) (map (wapa_seen big small) pics)"
    using Cons by simp
  from blocks.contents [OF ok(3) this]
  have c: "blocks 2 (int (length d)) (unat ty) big small (d @ concat (map wapa_block pics)) (map (wapa_seen big small) (p # pics))"
    by (simp add: p)
  have l32: "le32 (ty # a @ le_bytes 4 (length d) @ b) 4 = Some (length d)"
    using le32_at [of "ty # a" 4 "length d" b] ok by simp
  have "1 \<le> length d" using ok(3) by (simp add: Suc_le_eq)
  from blocks.header [OF _ l32 this ok(4), of big small "d @ concat (map wapa_block pics)" "map (wapa_seen big small) (p # pics)" t]
  show ?case using c ok by (simp add: p)
qed

lemma wapa_stream:
  assumes "greeting_ok a big small b" "\<forall>p \<in> set pics. wapa_ok p"
  shows "blocks 0 16 t wh wh' (wapa_greeting a big small b @ concat (map wapa_block pics)) (map (wapa_seen big small) pics)"
proof (rule blocks.greeting)
  note g = assms(1) [unfolded greeting_ok_def]
  let ?g = "wapa_greeting a big small b"
  show "length ?g = 16" "?g ! 0 = 0x7" "?g ! 1 = 0x61" using g by (simp_all add: wapa_greeting_def)
  show "le16 ?g 4 = Some (fst big)"
    using le16_at [of "[0x07, 0x61] @ a" 4 "fst big"] g by (simp add: wapa_greeting_def)
  show "le16 ?g 6 = Some (snd big)"
    using le16_at [of "[0x07, 0x61] @ a @ le_bytes 2 (fst big)" 6 "snd big"] g by (simp add: wapa_greeting_def)
  show "le16 ?g 8 = Some (fst small)"
    using le16_at [of "[0x07, 0x61] @ a @ le_bytes 2 (fst big) @ le_bytes 2 (snd big)" 8 "fst small"] g by (simp add: wapa_greeting_def)
  show "le16 ?g 10 = Some (snd small)"
    using le16_at [of "[0x07, 0x61] @ a @ le_bytes 2 (fst big) @ le_bytes 2 (snd big) @ le_bytes 2 (fst small)" 10 "snd small"] g
    by (simp add: wapa_greeting_def)
  show "blocks 1 16 t (fst big, snd big) (fst small, snd small) (concat (map wapa_block pics)) (map (wapa_seen big small) pics)"
    using wapa_blocks [OF assms(2), of t big small] by simp
qed

text \<open>\<open>WAPAHTTPCamera::OnVideoFrame\<close>: a picture goes to the server as an event of its camera.\<close>

definition hand_over :: "nat \<Rightarrow> picture \<Rightarrow> event" where
  "hand_over camera = (\<lambda>(t, w, h, buf, n, interval). Frame_Arrives camera buf (nat n) t w h interval)"

lemma whole_event_ok: "whole p \<Longrightarrow> event_ok sv (hand_over camera p)"
  by (cases p) (auto simp: whole_def hand_over_def)

lemma connected_to_come:
  assumes "ic_type c = CT_MPEG4_WAPA" "length (ic_buffer c) = 524288" "\<not> ic_disconnect c"
    and "\<And>t. blocks 0 16 t (0, 0) (0, 0) s ps"
  shows "to_come (camera_connect c True now) s ps"
  using assms by (simp add: to_come_def camera_connect_def)

lemma to_come_Nil:
  assumes "to_come c [] ps"
  shows "ps = []"
proof -
  have "int (length (take (nat (ic_position c)) (ic_buffer c) @ [])) < ic_size c"
    using assms by (auto simp: to_come_def)
  moreover have "blocks (ic_state c) (ic_size c) (ic_ftype c) (ic_hd c) (ic_cif c) (take (nat (ic_position c)) (ic_buffer c) @ []) ps"
    using assms unfolding to_come_def by blast
  ultimately show ?thesis using blocks_short by blast
qed

text \<open>A session with an MPEG4 camera, from its connection on.\<close>

definition mpeg4_session ::
  "ip_camera \<Rightarrow> int \<Rightarrow> camera_event list \<Rightarrow> nat \<times> nat \<Rightarrow> nat \<times> nat \<Rightarrow> (byte \<times> byte list \<times> byte list \<times> byte list) list \<Rightarrow> byte list \<Rightarrow> bool" where
  "mpeg4_session c start evs big small pics later \<longleftrightarrow>
     ic_type c = CT_MPEG4_WAPA \<and> length (ic_buffer c) = 524288 \<and> \<not> ic_disconnect c \<and> (\<forall>p \<in> set pics. wapa_ok p) \<and>
     run_ok prompt camera_step (camera_connect c True start) evs \<and>
     (\<exists>a b. greeting_ok a big small b \<and> concat (map bytes_of evs) @ later = wapa_greeting a big small b @ concat (map wapa_block pics))"

lemma mpeg4_session_run:
  assumes "mpeg4_session c start evs big small pics later"
  obtains c' outs ps' where "run_steps camera_step (camera_connect c True start) evs = Some (c', outs)" "to_come c' later ps'"
    "map (wapa_seen big small) pics = map seen (concat outs) @ ps'" "list_all whole (concat outs)"
proof -
  note m = assms [unfolded mpeg4_session_def]
  then obtain a b where g: "greeting_ok a big small b" "concat (map bytes_of evs) @ later = wapa_greeting a big small b @ concat (map wapa_block pics)"
    by blast
  have w: "\<forall>p \<in> set pics. wapa_ok p" using m by blast
  have c: "ic_type c = CT_MPEG4_WAPA" "length (ic_buffer c) = 524288" "\<not> ic_disconnect c" using m by blast+
  have "to_come (camera_connect c True start) (concat (map bytes_of evs) @ later) (map (wapa_seen big small) pics)"
    unfolding g(2) by (rule connected_to_come [OF c wapa_stream [OF g(1) w]])
  moreover have "run_ok prompt camera_step (camera_connect c True start) evs" using m by blast
  ultimately show ?thesis using mpeg4_run_correct that by blast
qed

text \<open>C6: However the network cuts an MPEG4 camera's stream into packets, and however long it pauses
  between them within the time limit, the camera's thread hands over exactly the pictures whose last
  byte has come, in order, each with its type, the size the greeting gives for that type, and its
  bytes; and the server can take every one of them.\<close>

theorem mpeg4_camera_received:
  assumes "mpeg4_session c start evs big small pics later"
  shows "\<exists>c' outs k. run_steps camera_step (camera_connect c True start) evs = Some (c', outs) \<and>
    map seen (concat outs) = take k (map (wapa_seen big small) pics) \<and> (later = [] \<longrightarrow> k = length pics) \<and>
    (\<forall>p \<in> set (concat outs). \<forall>sv camera. event_ok sv (hand_over camera p))"
proof -
  let ?ps = "map (wapa_seen big small) pics"
  obtain c' outs ps' where r: "run_steps camera_step (camera_connect c True start) evs = Some (c', outs)" "to_come c' later ps'"
    "?ps = map seen (concat outs) @ ps'" "list_all whole (concat outs)" using mpeg4_session_run [OF assms] .
  have "ps' = []" if "later = []" using to_come_Nil r(2) unfolding that by blast
  then have "later = [] \<longrightarrow> length (concat outs) = length pics" using arg_cong [OF r(3), of length] by auto
  moreover have "map seen (concat outs) = take (length (concat outs)) ?ps" unfolding r(3) by simp
  moreover have "\<forall>p \<in> set (concat outs). \<forall>sv camera. event_ok sv (hand_over camera p)"
    using r(4) whole_event_ok by (simp add: list_all_iff)
  ultimately show ?thesis using r(1) by (intro exI [of _ c'] exI [of _ outs] exI [of _ "length (concat outs)"]) simp
qed

definition empty_buffer :: "byte list" where "empty_buffer = replicate 524288 0"

lemma length_empty_buffer [simp]: "length empty_buffer = 524288"
  by (simp add: empty_buffer_def)

lemmas camera_eval = camera_connect_def new_ip_camera_def camera_poll_def camera_recv_def before_recv_def loop_ends_def mpeg4_bytes_def
  mpeg4_block_def mem_write_def mem_get_def le16_def le32_def asked_def camera_consts Let_def nth_append to_s32_id

definition demo_mpeg4 :: "camera_event list" where
  "demo_mpeg4 = [Polls 10 True, Receives (Bytes [7, 0x61, 0, 0, 0x80, 2, 0xE0, 1, 0x40, 1, 0xF0, 0, 0, 0]) 10, Receives (Bytes [0, 0]) 10,
     Receives (Bytes [2, 0, 0, 0, 3, 0, 0, 0, 0, 0, 0, 0, 0, 0, 0, 0]) 10, Receives Nothing_Yet 10, Polls 20 True, Receives (Bytes [9, 8, 7]) 20]"

lemma demo_mpeg4_session:
  "mpeg4_session (new_ip_camera CT_MPEG4_WAPA empty_buffer) 5 demo_mpeg4 (640, 480) (320, 240)
     [(2, [0, 0, 0], [0, 0, 0, 0, 0, 0, 0, 0], [9, 8, 7])] []"
  unfolding mpeg4_session_def
proof (intro conjI exI)
  let ?c = "new_ip_camera CT_MPEG4_WAPA empty_buffer"
  let ?pics = "[(2, [0, 0, 0], [0, 0, 0, 0, 0, 0, 0, 0], [9, 8, 7])] :: (byte \<times> byte list \<times> byte list \<times> byte list) list"
  show "ic_type ?c = CT_MPEG4_WAPA" "length (ic_buffer ?c) = 524288" "\<not> ic_disconnect ?c" by (simp_all add: new_ip_camera_def)
  show "\<forall>p \<in> set ?pics. wapa_ok p" by simp
  show "run_ok prompt camera_step (camera_connect ?c True 5) demo_mpeg4" by (simp add: demo_mpeg4_def camera_eval split: option.split)
  show "greeting_ok [0, 0] (640, 480) (320, 240) [0, 0, 0, 0]" by (simp add: greeting_ok_def)
  show "concat (map bytes_of demo_mpeg4) @ [] = wapa_greeting [0, 0] (640, 480) (320, 240) [0, 0, 0, 0] @ concat (map wapa_block ?pics)"
    by (simp add: demo_mpeg4_def wapa_greeting_def le_bytes_2 le_bytes_4)
qed

lemma mpeg4_camera_received_witness:
  "\<exists>c' outs. run_steps camera_step (camera_connect (new_ip_camera CT_MPEG4_WAPA empty_buffer) True 5) demo_mpeg4 = Some (c', outs) \<and>
     map seen (concat outs) = [(2, 320, 240, [9, 8, 7])]"
proof -
  let ?c = "new_ip_camera CT_MPEG4_WAPA empty_buffer"
  let ?pics = "[(2, [0, 0, 0], [0, 0, 0, 0, 0, 0, 0, 0], [9, 8, 7])] :: (byte \<times> byte list \<times> byte list \<times> byte list) list"
  obtain c' outs k where r: "run_steps camera_step (camera_connect ?c True 5) demo_mpeg4 = Some (c', outs)"
    "map seen (concat outs) = take k (map (wapa_seen (640, 480) (320, 240)) ?pics)" "[] = ([] :: byte list) \<longrightarrow> k = length ?pics"
    using mpeg4_camera_received [OF demo_mpeg4_session] by (elim exE conjE) (rule that)
  have "map seen (concat outs) = [(2, 320, 240, [9, 8, 7])]" using r(2,3) by (simp add: picture_size_def del: map_concat)
  with r(1) show ?thesis by (intro exI conjI)
qed

section \<open>MPEG4: a picture that is too large\<close>

text \<open>Either kind of camera with a picture of n bytes on the way.\<close>

definition too_large :: "ip_camera \<Rightarrow> nat \<Rightarrow> bool" where
  "too_large c n \<longleftrightarrow> (ic_type c = CT_MPEG4_WAPA \<or> ic_type c = CT_JPEG_GST \<and> ic_state c = 3) \<and> ic_looping c \<and> length (ic_buffer c) = 524288 \<and> ic_size c = int n \<and>
     524288 < n \<and> n < 2147483648 \<and> 0 \<le> ic_position c \<and> ic_position c \<le> 524288"

lemma too_large_overflows:
  "too_large c n \<Longrightarrow> \<forall>bs \<in> set chunks. bs \<noteq> [] \<Longrightarrow> ic_position c + int (length (concat chunks)) \<le> int n \<Longrightarrow>
     524288 < ic_position c + int (length (concat chunks)) \<Longrightarrow>
     run_ok camera_event_ok camera_step c (map (\<lambda>bs. Receives (Bytes bs) now) chunks) \<and>
     run_steps camera_step c (map (\<lambda>bs. Receives (Bytes bs) now) chunks) = None"
proof (induction chunks arbitrary: c)
  case Nil
  then show ?case by (simp add: too_large_def)
next
  case (Cons bs chunks)
  note big = Cons.prems(1) [unfolded too_large_def]
  have b: "before_recv c = c" "asked c = int n - ic_position c" using big by (auto simp: before_recv_def asked_def)
  have ne: "bs \<noteq> []" "int (length bs) \<le> int n - ic_position c" using Cons.prems(2,3) by simp_all
  have st: "camera_step c (Receives (Bytes bs) now) =
      (if ic_type c = CT_MPEG4_WAPA then mpeg4_bytes c bs now else jpeg_bytes c bs now)"
    using big b(1) ne(1) by (simp add: camera_recv_def)
  show ?case
  proof (cases "ic_position c + int (length bs) \<le> 524288")
    case False
    then have "length (ic_buffer c) < nat (ic_position c) + length bs" using big by linarith
    then have "camera_step c (Receives (Bytes bs) now) = None" unfolding st by (simp add: mpeg4_bytes_def jpeg_bytes_def mem_write_out)
    then show ?thesis using b ne(2) by simp
  next
    case True
    let ?buf = "take (nat (ic_position c)) (ic_buffer c) @ bs @ drop (nat (ic_position c) + length bs) (ic_buffer c)"
    let ?c = "c\<lparr>ic_buffer := ?buf, ic_first := False, ic_position := ic_position c + int (length bs)\<rparr>"
    have room: "nat (ic_position c) + length bs \<le> length (ic_buffer c)" using True big by linarith
    have r: "camera_step c (Receives (Bytes bs) now) = Some (?c, [])"
      unfolding st using mem_write_in [OF room] True big by (auto simp: mpeg4_bytes_def jpeg_bytes_def jpeg_picture_def Let_def camera_consts)
    have "too_large ?c n" using big True room by (simp add: too_large_def)
    from Cons.IH [OF this] have "run_ok camera_event_ok camera_step ?c (map (\<lambda>bs. Receives (Bytes bs) now) chunks) \<and>
      run_steps camera_step ?c (map (\<lambda>bs. Receives (Bytes bs) now) chunks) = None" using Cons.prems(2-4) by simp
    then show ?thesis using r b ne(2) by simp
  qed
qed

text \<open>C37: After a header that announces a picture of more than 524288 and less than 2147483648 bytes the thread only notes
  that it is to disconnect; it goes on receiving at the start of the next header with the announced
  size, and if the camera sends on, in whatever packets, it writes past the end of its buffer.\<close>

theorem mpeg4_picture_overflows:
  assumes "ic_type c = CT_MPEG4_WAPA" "ic_looping c" "length (ic_buffer c) = 524288"
    and "ic_state c = 1" "ic_position c = 0" "ic_size c = 16" "length h = 16" "le32 h 4 = Some n" "524288 < n" "n < 2147483648"
    and "\<forall>bs \<in> set chunks. bs \<noteq> []" "length (concat chunks) \<le> n" "524288 < length (concat chunks)"
  shows "let evs = map (\<lambda>bs. Receives (Bytes bs) now) (h # chunks)
         in run_ok camera_event_ok camera_step c evs \<and> run_steps camera_step c evs = None"
proof -
  let ?buf = "h @ drop 16 (ic_buffer c)"
  have buf: "mem_write (ic_buffer c) 0 h = Some ?buf" using assms(3,7) by (simp add: mem_write_def)
  have "le32 (take 16 ?buf) 4 = Some n" using assms(7,8) by simp
  then have l: "le32 ?buf 4 = Some n" using le32_take [of ?buf] assms(3,7) by simp
  have b: "before_recv c = c" "asked c = 16" using assms(1,5,6) by (simp_all add: before_recv_def asked_def)
  let ?c = "c\<lparr>ic_buffer := ?buf, ic_first := False, ic_position := 0, ic_ftype := unat (?buf ! 0), ic_size := int n, ic_disconnect := True\<rparr>"
  have st: "camera_step c (Receives (Bytes h) now) = Some (?c, [])"
    using assms b buf l by (auto simp: camera_recv_def mpeg4_bytes_def mpeg4_block_def Let_def mem_get_def conv_simps camera_consts)
  have "too_large ?c n" using assms by (simp add: too_large_def)
  from too_large_overflows [OF this assms(11), of now]
  show ?thesis using st b assms(7,12,13) unfolding Let_def by simp
qed

lemma mpeg4_picture_overflows_witness:
  "\<exists>c. run_steps camera_step c (map (\<lambda>bs. Receives (Bytes bs) 10) [[2, 0, 0, 0, 0xFF, 0xFF, 0xFF, 0, 0, 0, 0, 0, 0, 0, 0, 0], 1 # empty_buffer]) = None"
proof -
  let ?c = "(new_ip_camera CT_MPEG4_WAPA empty_buffer)\<lparr>ic_looping := True, ic_state := 1, ic_size := 16\<rparr>"
  let ?h = "[2, 0, 0, 0, 0xFF, 0xFF, 0xFF, 0, 0, 0, 0, 0, 0, 0, 0, 0] :: byte list"
  have "let evs = map (\<lambda>bs. Receives (Bytes bs) 10) (?h # [1 # empty_buffer])
        in run_ok camera_event_ok camera_step ?c evs \<and> run_steps camera_step ?c evs = None"
    by (rule mpeg4_picture_overflows [where n = 16777215]) (simp_all add: new_ip_camera_def le32_def le16_def mem_get_def)
  then show ?thesis unfolding Let_def by blast
qed

end
