(* ===== verification/Camera_Jpeg.thy ===== *)
theory Camera_Jpeg
  imports Camera_Mpeg4
begin

text \<open>
  What \<open>WAPAIPCamera::CameraThread\<close> (src/wapa_httpd/wapa_camera.cpp) makes of an MJPEG camera's
  stream of parts, each a boundary, header lines with the picture's length, and the picture: cut
  into packets in a suitable way the pictures come out as they went in, cut otherwise they are lost.
\<close>

section \<open>First occurrences\<close>

lemma first_at_skip:
  assumes "p \<in> set pat" "p \<notin> set xs" "x \<notin> set pat"
  shows "first_at pat (xs @ x # ys) = map_option (\<lambda>n. n + (length xs + 1)) (first_at pat ys)"
  using assms
proof (induction xs)
  case Nil
  then have "take (length pat) (x # ys) \<noteq> pat" by (cases pat) auto
  then show ?case by simp
next
  case (Cons a xs)
  have "take (length pat) ((a # xs) @ x # ys) \<noteq> pat"
  proof
    assume eq: "take (length pat) ((a # xs) @ x # ys) = pat"
    show False
    proof (cases "length pat \<le> length (a # xs)")
      case True
      then have "take (length pat) ((a # xs) @ x # ys) = take (length pat) (a # xs)" by (simp del: append_Cons)
      then have "set pat \<subseteq> set (a # xs)" using eq by (metis set_take_subset)
      then show False using Cons.prems by auto
    next
      case False
      then have "x \<in> set (take (length pat) ((a # xs) @ x # ys))" by (auto simp: take_Cons')
      then show False using eq Cons.prems(3) by simp
    qed
  qed
  moreover have "map_option Suc (map_option (\<lambda>n. n + (length xs + 1)) r) = map_option (\<lambda>n. n + (length (a # xs) + 1)) r" for r
    by (cases r) simp_all
  ultimately show ?case using Cons by simp
qed

lemma first_at_here: "xs \<noteq> [] \<Longrightarrow> first_at xs (xs @ ys) = Some 0"
  by (cases xs) simp_all

lemma first_at_CRLF: "13 \<notin> set xs \<Longrightarrow> first_at CRLF (xs @ CRLF @ ys) = Some (length xs)"
  by (induction xs) (auto simp: CRLF_def)

lemma mem_find_at:
  assumes "take slen (drop s buf) = xs" "pat \<noteq> []" "s + slen < length buf" "first_at pat xs = Some i"
  shows "mem_find buf s pat slen = Some (Some (s + i))"
  using mem_find_spec [OF assms(2,3)] assms(1,4) by simp

section \<open>Numbers\<close>

lemma decimal_digits: "\<forall>b \<in> set (decimal n). is_digit_byte b"
proof (induction n rule: decimal.induct)
  case (1 n)
  have d: "is_digit_byte (of_nat (48 + k))" if "k < 10" for k
  proof -
    have "k \<in> {0, 1, 2, 3, 4, 5, 6, 7, 8, 9}" using that by auto
    then show ?thesis by (auto simp: is_digit_byte_def)
  qed
  show ?case
  proof (cases "n < 10")
    case True
    then show ?thesis using d [OF True] by (subst decimal.simps) simp
  next
    case False
    have "is_digit_byte (of_nat (48 + n mod 10))" by (rule d) simp
    then show ?thesis using 1 [OF False] False by (subst decimal.simps) simp
  qed
qed

definition digits_value :: "byte list \<Rightarrow> int" where
  "digits_value ds = foldl (\<lambda>v d. 10 * v + (int (unat d) - 48)) 0 ds"

lemma decimal_value: "digits_value (decimal n) = int n"
proof (induction n rule: decimal.induct)
  case (1 n)
  have u: "int (unat (of_nat (48 + k) :: byte)) - 48 = int k" if "k < 10" for k
  proof -
    have "unat (of_nat (48 + k) :: byte) = 48 + k" by (rule unat_of_nat_byte) (use that in simp)
    then show ?thesis by (simp only:)
  qed
  show ?case
  proof (cases "n < 10")
    case True
    then show ?thesis using u [OF True] by (subst decimal.simps) (simp add: digits_value_def)
  next
    case False
    have m: "n mod 10 < 10" by simp
    have "digits_value (decimal n) = 10 * digits_value (decimal (n div 10)) + int (n mod 10)"
      using False u [OF m] by (subst decimal.simps) (simp add: digits_value_def)
    moreover have "10 * int (n div 10) + int (n mod 10) = int n"
      using mult_div_mod_eq [of 10 n] by (metis of_nat_add of_nat_mult of_nat_numeral)
    ultimately show ?thesis using 1 [OF False] by simp
  qed
qed

lemma decimal_atoi: "n \<le> 2147483647 \<Longrightarrow> atoi_digits (decimal n) = int n"
  unfolding atoi_digits_def digits_value_def [symmetric] decimal_value by (simp add: conv_simps)

lemma decimal_filter: "filter is_digit_byte (decimal n) = decimal n"
  using decimal_digits by (simp add: filter_id_conv)

lemma decimal_length: "n < 1000000 \<Longrightarrow> length (decimal n) \<le> 6"
proof -
  have step: "m < 10 * b \<Longrightarrow> (m div 10 < b \<Longrightarrow> length (decimal (m div 10)) \<le> k) \<Longrightarrow> length (decimal m) \<le> Suc k" for m b k
    by (subst decimal.simps) auto
  assume "n < 1000000"
  have 1: "length (decimal m) \<le> 1" if "m < 10" for m using that by (subst decimal.simps) simp
  have 2: "length (decimal m) \<le> 2" if "m < 100" for m using step [of m 10 1] 1 [of "m div 10"] that by simp
  have 3: "length (decimal m) \<le> 3" if "m < 1000" for m using step [of m 100 2] 2 [of "m div 10"] that by simp
  have 4: "length (decimal m) \<le> 4" if "m < 10000" for m using step [of m 1000 3] 3 [of "m div 10"] that by simp
  have 5: "length (decimal m) \<le> 5" if "m < 100000" for m using step [of m 10000 4] 4 [of "m div 10"] that by simp
  show ?thesis using step [of n 100000 5] 5 [of "n div 10"] \<open>n < 1000000\<close> by simp
qed

section \<open>Moving bytes in the buffer\<close>

lemma shift_down_ok:
  assumes "length (ic_buffer c) = 524288" "0 \<le> ic_position c" "ic_position c \<le> 524288" "r \<le> nat (ic_position c)"
  shows "\<exists>buf. shift_down c r = Some (c\<lparr>ic_buffer := buf, ic_position := ic_position c - int r\<rparr>) \<and> length buf = 524288 \<and>
    take (nat (ic_position c) - r) buf = drop r (take (nat (ic_position c)) (ic_buffer c))"
proof (cases "r = 0")
  case True
  then show ?thesis using assms by (intro exI [of _ "ic_buffer c"]) (simp add: shift_down_def)
next
  case False
  let ?p = "nat (ic_position c)"
  have u: "nat (to_u32 (ic_position c - int r)) = ?p - r" "to_s32 (ic_position c - int r) = ic_position c - int r"
    using assms by (simp_all add: conv_simps nat_diff_distrib')
  let ?bs = "take (?p - r) (drop r (ic_buffer c))"
  have rd: "mem_read (ic_buffer c) r (?p - r) = Some ?bs" using assms by (simp add: mem_simps)
  have wr: "mem_write (ic_buffer c) 0 ?bs = Some (?bs @ drop (length ?bs) (ic_buffer c))" using assms by (simp add: mem_simps)
  show ?thesis
    using False u rd wr assms
    by (intro exI [of _ "?bs @ drop (length ?bs) (ic_buffer c)"]) (simp add: shift_down_def drop_take)
qed


section \<open>The header\<close>

text \<open>
  A part as GStreamer's multipart stream has it; the camera server's own MJPEG resource sends the
  same, with \<open>Content-length\<close> in another case. In the buffer the first part's boundary ends with a
  NUL (z) once it has been read.
\<close>

definition header_text :: "byte \<Rightarrow> byte list \<Rightarrow> byte list \<Rightarrow> nat \<Rightarrow> byte list" where
  "header_text z B label n =
     B @ [z, 10] @ ascii ''Content-Type: image/jpeg'' @ CRLF @ label @ ascii '': '' @ decimal n @ CRLF @ CRLF"

definition gst_header :: "byte list \<Rightarrow> byte list \<Rightarrow> nat \<Rightarrow> byte list" where
  "gst_header B label n = header_text 13 B label n"

definition boundary_ok :: "byte list \<Rightarrow> bool" where
  "boundary_ok B \<longleftrightarrow> take 2 B = [45, 45] \<and> 0 \<notin> set B \<and> 13 \<notin> set B \<and> 58 \<notin> set B \<and> \<not> is_space (last B) \<and> length B \<le> 40"

definition label_ok :: "byte list \<Rightarrow> bool" where
  "label_ok label \<longleftrightarrow> label = ascii ''Content-Length'' \<or> label = ascii ''Content-length''"

text \<open>Where the length's line starts and ends, and where the picture starts.\<close>

definition line_at :: "byte list \<Rightarrow> nat" where "line_at B = length B + 28"
definition line_end :: "byte list \<Rightarrow> nat \<Rightarrow> nat" where "line_end B n = length B + 44 + length (decimal n)"

lemmas ascii_eval = ascii_def of_char_def

lemma ascii_length [simp]: "length (ascii s) = length s"
  by (simp add: ascii_def)

lemma label_length: "label_ok label \<Longrightarrow> length label = 14"
  by (auto simp: label_ok_def)

lemma header_text_length: "label_ok label \<Longrightarrow> length (header_text z B label n) = line_end B n + 4"
  by (simp add: header_text_def line_end_def CRLF_def label_length)

lemma gst_header_length: "label_ok label \<Longrightarrow> length (gst_header B label n) = line_end B n + 4"
  by (simp add: gst_header_def header_text_length)

lemma to_upper_not_58: "to_upper b = 58 \<Longrightarrow> b = 58"
  by (auto simp: to_upper_def byte_le_nat unat_sub_byte split: if_splits dest!: arg_cong [of _ _ unat])

lemma content_length_upper: "label_ok label \<Longrightarrow> map to_upper (label @ ascii '':'') = CONTENT_LENGTH"
  by (auto simp: label_ok_def CONTENT_LENGTH_def ascii_eval to_upper_def)

lemma find_label:
  assumes "boundary_ok B" "label_ok label" "z = 13 \<or> z = 0"
  shows "first_at (map to_upper CONTENT_LENGTH) (map to_upper (header_text z B label n @ ys)) = Some (line_at B)"
proof -
  let ?pat = "map to_upper CONTENT_LENGTH"
  let ?tail = "map to_upper (ascii '' '' @ decimal n @ CRLF @ CRLF @ ys)"
  have pat: "?pat = CONTENT_LENGTH" by (simp add: CONTENT_LENGTH_def ascii_eval to_upper_def)
  have cr: "to_upper z = z" "to_upper 13 = 13" "to_upper 10 = 10" using assms(3) by (auto simp: to_upper_def)
  have no: "z \<notin> set ?pat" "13 \<notin> set ?pat" "10 \<notin> set ?pat" "58 \<in> set ?pat" "76 \<in> set ?pat"
    using assms(3) unfolding pat by (auto simp add: CONTENT_LENGTH_def ascii_eval)
  have B: "58 \<notin> set (map to_upper B)" using assms(1) by (auto simp: boundary_ok_def dest!: to_upper_not_58)
  have ct: "76 \<notin> set (10 # map to_upper (ascii ''Content-Type: image/jpeg''))" by (simp add: ascii_eval to_upper_def)
  have whole_text: "map to_upper (header_text z B label n @ ys) =
     map to_upper B @ z # (10 # map to_upper (ascii ''Content-Type: image/jpeg'')) @ 13 # ([] @ 10 # (CONTENT_LENGTH @ ?tail))"
    unfolding content_length_upper [OF assms(2), symmetric] using cr by (simp add: header_text_def CRLF_def ascii_def)
  have "first_at ?pat (CONTENT_LENGTH @ ?tail) = Some 0" unfolding pat by (rule first_at_here) (simp add: CONTENT_LENGTH_def ascii_def)
  then have "first_at ?pat ([] @ 10 # (CONTENT_LENGTH @ ?tail)) = Some 1"
    using first_at_skip [OF no(5) _ no(3), of "[]"] by simp
  then have "first_at ?pat ((10 # map to_upper (ascii ''Content-Type: image/jpeg'')) @ 13 # ([] @ 10 # (CONTENT_LENGTH @ ?tail))) = Some 27"
    by (subst first_at_skip [OF no(5) ct no(2)]) simp
  then show ?thesis
    unfolding whole_text by (subst first_at_skip [OF no(4) B no(1)]) (simp add: line_at_def)
qed

text \<open>The header with what follows in the buffer, from its three places on.\<close>

definition line_text :: "byte list \<Rightarrow> nat \<Rightarrow> byte list" where
  "line_text label n = label @ ascii '': '' @ decimal n"

lemma header_text_line:
  "header_text z B label n = (B @ [z, 10] @ ascii ''Content-Type: image/jpeg'' @ CRLF) @ line_text label n @ CRLF @ CRLF"
  by (simp add: header_text_def line_text_def)

lemma CRLF_not_Nil: "CRLF \<noteq> []"
  by (simp add: CRLF_def)

lemma line_text_no_CR: "label_ok label \<Longrightarrow> 13 \<notin> set (line_text label n)"
proof
  assume l: "label_ok label" "13 \<in> set (line_text label n)"
  have "13 \<notin> set (decimal n)"
  proof
    assume "13 \<in> set (decimal n)"
    then have "is_digit_byte 13" using decimal_digits by blast
    then show False by (simp add: is_digit_byte_def)
  qed
  then show False using l by (auto simp: line_text_def label_ok_def ascii_eval)
qed

lemma line_text_length: "label_ok label \<Longrightarrow> length (line_text label n) = 16 + length (decimal n)"
  by (simp add: line_text_def label_length)

lemma line_number:
  "label_ok label \<Longrightarrow> filter is_digit_byte (take (1 + length (decimal n)) (drop 15 (line_text label n @ ys))) = decimal n"
  using label_length [of label] decimal_filter [of n] by (simp add: line_text_def ascii_eval is_digit_byte_def)


lemma jpeg_length_ok:
  assumes B: "boundary_ok B" and L: "label_ok label" and z: "z = 13 \<or> z = 0" and n: "0 < n" "n \<le> 2147483647"
    and buf: "ic_buffer c = header_text z B label n @ x @ J" "length (ic_buffer c) = 524288"
    and m: "ic_position c = int (length (header_text z B label n @ x))" "length (header_text z B label n @ x) \<le> 128"
  shows "jpeg_length c = Some (c\<lparr>ic_size := int n, ic_state := 3\<rparr>, Some (length (header_text z B label n)))"
proof -
  let ?h = "header_text z B label n" and ?p = "line_at B" and ?e = "line_end B n" and ?l = "line_text label n"
  let ?m = "length (?h @ x)"
  have hl: "length ?h = ?e + 4" by (rule header_text_length [OF L])
  have pe: "?e = ?p + length ?l" "?p + 16 \<le> ?e" using line_text_length [OF L, of n] by (simp_all add: line_at_def line_end_def)
  have small: "?m \<le> 128" "?e + 4 \<le> ?m" using m(2) hl by simp_all
  have pos: "nat (ic_position c) = ?m" using m(1) by simp
  have "length CONTENT_LENGTH = 15" by (simp add: CONTENT_LENGTH_def)
  have 1: "str_caseless_find (ic_buffer c) 0 CONTENT_LENGTH ?m = Some (Some ?p)"
  proof -
    have "0 + ?m < length (ic_buffer c)" using small(1) unfolding buf(2) by linarith
    moreover have "CONTENT_LENGTH \<noteq> []" by (simp add: CONTENT_LENGTH_def ascii_def)
    moreover have "mem_find (map to_upper (ic_buffer c)) 0 (map to_upper CONTENT_LENGTH) ?m = Some (Some (0 + ?p))"
    proof (rule mem_find_at)
      show "take ?m (drop 0 (map to_upper (ic_buffer c))) = map to_upper (?h @ x)" unfolding buf(1) by simp
      show "map to_upper CONTENT_LENGTH \<noteq> []" by (simp add: CONTENT_LENGTH_def ascii_def)
      show "0 + ?m < length (map to_upper (ic_buffer c))" using small(1) buf(2) by simp
      show "first_at (map to_upper CONTENT_LENGTH) (map to_upper (?h @ x)) = Some ?p" by (rule find_label [OF B L z])
    qed
    ultimately show ?thesis using caseless_is_find by simp
  qed
  have dp: "drop ?p (ic_buffer c) = ?l @ CRLF @ CRLF @ x @ J"
    unfolding buf(1) header_text_line by (simp add: line_at_def CRLF_def)
  have de: "drop ?e (ic_buffer c) = CRLF @ CRLF @ x @ J"
    unfolding pe(1) add.commute [of ?p] drop_drop [symmetric] dp by simp
  have 2: "mem_find (ic_buffer c) ?p CRLF ?m = Some (Some ?e)"
  proof -
    have "length ?l + 2 \<le> ?m" using small(2) pe(1) by linarith
    then obtain k where k: "?m = length ?l + 2 + k" by (metis le_iff_add)
    have tk: "take ?m (drop ?p (ic_buffer c)) = ?l @ CRLF @ take k (CRLF @ x @ J)"
      unfolding dp k by (simp add: CRLF_def)
    have "mem_find (ic_buffer c) ?p CRLF ?m = Some (Some (?p + length ?l))"
      by (rule mem_find_at [OF tk]) (use small pe buf(2) first_at_CRLF [OF line_text_no_CR [OF L]] CRLF_not_Nil in simp_all)
    then show ?thesis using pe(1) by simp
  qed
  have 3: "mem_read (ic_buffer c) (?p + 15) (?e - (?p + 15)) = Some (take (1 + length (decimal n)) (drop 15 (?l @ CRLF @ CRLF @ x @ J)))"
  proof -
    have "?e - (?p + 15) = 1 + length (decimal n)" by (simp add: line_at_def line_end_def)
    moreover have "drop (?p + 15) (ic_buffer c) = drop 15 (?l @ CRLF @ CRLF @ x @ J)" unfolding dp [symmetric] by (simp add: add.commute)
    moreover have "?p + 15 + (?e - (?p + 15)) \<le> length (ic_buffer c)" using pe(2) small buf(2) by simp
    ultimately show ?thesis using mem_read_in by metis
  qed
  have 4: "mem_find (ic_buffer c) (max (?p + 15) ?e) (CRLF @ CRLF) ?m = Some (Some ?e)"
  proof -
    have mx: "max (?p + 15) ?e = ?e" using pe(2) by simp
    have "4 \<le> ?m" using small(2) by linarith
    then obtain k where "?m = 4 + k" by (metis le_iff_add)
    then have k: "?m = Suc (Suc (Suc (Suc k)))" by simp
    have tk: "take ?m (drop ?e (ic_buffer c)) = (CRLF @ CRLF) @ take k (x @ J)"
      unfolding de k by (simp add: CRLF_def)
    have "mem_find (ic_buffer c) ?e (CRLF @ CRLF) ?m = Some (Some (?e + 0))"
      by (rule mem_find_at [OF tk]) (use small buf(2) first_at_here in \<open>simp_all add: CRLF_def\<close>)
    then show ?thesis using mx by simp
  qed
  have num: "atoi_digits (filter is_digit_byte (take (1 + length (decimal n)) (drop 15 (?l @ CRLF @ CRLF @ x @ J)))) = int n"
    unfolding line_number [OF L] by (rule decimal_atoi) (use n(2) in simp)
  show ?thesis
    unfolding jpeg_length_def pos by (simp only: 1 2 3 4 num bind.bind_lunit option.case Let_def hl) (use n(1) in simp)
qed

text \<open>After the boundary's treatment, with known boundary and z in its place.\<close>

lemma jpeg_rest_ok:
  assumes B: "boundary_ok B" "ic_boundary c = B" and L: "label_ok label" and z: "z = 13 \<or> z = 0" and n: "0 < n" "n \<le> 2147483647"
    and buf: "take (nat (ic_position c)) (ic_buffer c) = header_text z B label n @ x" "length (ic_buffer c) = 524288"
    and m: "0 \<le> ic_position c" "ic_position c \<le> 128"
  shows "\<exists>buf. do { (c, start) \<leftarrow> jpeg_length c;
                 let c = (if ic_state c \<noteq> 3 then c\<lparr>ic_size := MAX_JPEG_HEADERS_SIZE\<rparr> else c);
                 shift_down c (case start of Some i \<Rightarrow> i | None \<Rightarrow> before_last c) } =
      Some (c\<lparr>ic_buffer := buf, ic_position := int (length x), ic_size := int n, ic_state := 3\<rparr>) \<and>
    length buf = 524288 \<and> take (length x) buf = x"
proof -
  let ?h = "header_text z B label n"
  define J where "J = drop (nat (ic_position c)) (ic_buffer c)"
  have bf: "ic_buffer c = ?h @ x @ J" unfolding J_def using append_take_drop_id [of "nat (ic_position c)" "ic_buffer c"] buf(1) by simp
  have len: "length (?h @ x) = nat (ic_position c)" using m buf(2) unfolding buf(1) [symmetric] by simp
  then have pos: "ic_position c = int (length (?h @ x))" "length (?h @ x) \<le> 128" using m by simp_all
  let ?c = "c\<lparr>ic_size := int n, ic_state := 3\<rparr>"
  have "\<exists>buf. shift_down ?c (length ?h) = Some (?c\<lparr>ic_buffer := buf, ic_position := ic_position ?c - int (length ?h)\<rparr>) \<and> length buf = 524288 \<and>
    take (nat (ic_position ?c) - length ?h) buf = drop (length ?h) (take (nat (ic_position ?c)) (ic_buffer ?c))"
    by (rule shift_down_ok) (use buf(2) m pos in simp_all)
  then obtain bf' where bf': "shift_down ?c (length ?h) = Some (?c\<lparr>ic_buffer := bf', ic_position := ic_position c - int (length ?h)\<rparr>)" "length bf' = 524288"
    "take (nat (ic_position c) - length ?h) bf' = drop (length ?h) (take (nat (ic_position c)) (ic_buffer c))" by auto
  have x: "nat (ic_position c) - length ?h = length x" "ic_position c - int (length ?h) = int (length x)" using pos(1) by simp_all
  have "take (length x) bf' = x" using bf'(3) buf(1) x(1) by simp
  then show ?thesis
    using bf'(1,2) jpeg_length_ok [OF B(1) L z n bf buf(2) pos] x(2) by (intro exI [of _ bf']) simp
qed

lemma boundary_cases:
  assumes "boundary_ok B"
  obtains B' where "B = 45 # 45 # B'"
proof -
  have "take 2 B = [45, 45]" using assms by (simp add: boundary_ok_def)
  then show ?thesis using that by (cases B; cases "tl B") auto
qed

lemma header_starts:
  assumes "boundary_ok B" "take (nat (ic_position c)) (ic_buffer c) = header_text z B label n @ x"
  shows "mem_get (ic_buffer c) 0 = Some 45 \<and> mem_get (ic_buffer c) 1 = Some 45"
proof -
  obtain B' where B': "B = 45 # 45 # B'" using boundary_cases [OF assms(1)] .
  have "\<exists>J. ic_buffer c = 45 # 45 # J"
    using append_take_drop_id [of "nat (ic_position c)" "ic_buffer c"] unfolding assms(2) header_text_def B'
    by (metis append_Cons)
  then show ?thesis by (auto simp: mem_get_def)
qed

lemma jpeg_header_ok:
  assumes B: "boundary_ok B" "ic_boundary c = B" and L: "label_ok label" and n: "0 < n" "n \<le> 2147483647"
    and buf: "take (nat (ic_position c)) (ic_buffer c) = gst_header B label n @ x" "length (ic_buffer c) = 524288"
    and m: "0 \<le> ic_position c" "ic_position c \<le> 128"
  shows "\<exists>buf. jpeg_header c = Some (c\<lparr>ic_buffer := buf, ic_position := int (length x), ic_size := int n, ic_state := 3\<rparr>) \<and>
    length buf = 524288 \<and> take (length x) buf = x"
proof -
  have ne: "B \<noteq> []" using boundary_cases [OF B(1)] by blast
  note g = header_starts [OF B(1) buf(1) [unfolded gst_header_def]]
  show ?thesis
    using jpeg_rest_ok [OF B L _ n buf(1) [unfolded gst_header_def] buf(2) m] ne B(2) g by (simp add: jpeg_header_def jpeg_boundary_def)
qed

lemma trim_boundary:
  assumes "boundary_ok B"
  shows "trim B = B"
proof -
  obtain B' where B': "B = 45 # 45 # B'" using boundary_cases [OF assms] .
  have "dropWhile is_space B = B" by (simp add: B' is_space_def)
  moreover have "dropWhile is_space (rev B) = rev B"
  proof (cases B rule: rev_cases)
    case (snoc xs b)
    then show ?thesis using assms by (simp add: boundary_ok_def)
  qed simp
  ultimately show ?thesis by (simp add: trim_def)
qed

lemma takeWhile_stop: "z \<notin> set xs \<Longrightarrow> takeWhile (\<lambda>b. b \<noteq> z) (xs @ z # ys) = xs"
  by (induction xs) auto

text \<open>The first header: the boundary is learned.\<close>

lemma jpeg_header_learns:
  assumes B: "boundary_ok B" "ic_boundary c = []" and L: "label_ok label" and n: "0 < n" "n \<le> 2147483647"
    and buf: "take (nat (ic_position c)) (ic_buffer c) = gst_header B label n @ x" "length (ic_buffer c) = 524288"
    and m: "0 \<le> ic_position c" "ic_position c \<le> 128"
  shows "\<exists>buf. jpeg_header c = Some (c\<lparr>ic_buffer := buf, ic_position := int (length x), ic_size := int n, ic_state := 3, ic_boundary := B\<rparr>) \<and>
    length buf = 524288 \<and> take (length x) buf = x"
proof -
  obtain B' where B': "B = 45 # 45 # B'" using boundary_cases [OF B(1)] .
  have no: "0 \<notin> set B" "13 \<notin> set B" using B(1) by (simp_all add: boundary_ok_def)
  note g = header_starts [OF B(1) buf(1) [unfolded gst_header_def]]
  define ys where "ys = [10] @ ascii ''Content-Type: image/jpeg'' @ CRLF @ label @ ascii '': '' @ decimal n @ CRLF @ CRLF"
  have ht: "header_text z B label n = B @ z # ys" for z by (simp add: header_text_def ys_def)
  define J where "J = drop (nat (ic_position c)) (ic_buffer c)"
  have bf: "ic_buffer c = (B @ 13 # ys) @ x @ J"
    unfolding J_def ht [symmetric] using append_take_drop_id [of "nat (ic_position c)" "ic_buffer c"] buf(1) by (simp add: gst_header_def)
  have len: "nat (ic_position c) = length ((B @ 13 # ys) @ x)"
    using m buf(2) arg_cong [OF buf(1), of length] unfolding gst_header_def ht by simp
  have "first_at CRLF (B @ CRLF @ drop 1 ys @ x) = Some (length B)" by (rule first_at_CRLF [OF no(2)])
  moreover have "take (nat (ic_position c)) (drop 0 (ic_buffer c)) = B @ CRLF @ drop 1 ys @ x"
  proof -
    have "B @ CRLF @ drop 1 ys @ x = (B @ 13 # ys) @ x" by (simp add: ys_def CRLF_def)
    then show ?thesis unfolding bf len by simp
  qed
  moreover have "0 + nat (ic_position c) < length (ic_buffer c)" using m buf(2) by simp
  ultimately have f: "mem_find (ic_buffer c) 0 CRLF (nat (ic_position c)) = Some (Some (length B))"
    using mem_find_at [of "nat (ic_position c)" 0 "ic_buffer c" _ CRLF "length B"] CRLF_not_Nil by simp
  let ?buf = "(B @ 0 # ys) @ x @ J"
  have set: "mem_set (ic_buffer c) (length B) 0 = Some ?buf" unfolding bf by (simp add: mem_set_def)
  have tw: "takeWhile (\<lambda>b. b \<noteq> 0) ?buf = B" using takeWhile_stop [OF no(1), of "ys @ x @ J"] by simp
  let ?c = "c\<lparr>ic_buffer := ?buf, ic_boundary := B\<rparr>"
  have jb: "jpeg_boundary c = Some ?c" using B(2) f set tw trim_boundary [OF B(1)] by (simp add: jpeg_boundary_def)
  have tk: "take (nat (ic_position ?c)) (ic_buffer ?c) = header_text 0 B label n @ x" using len unfolding ht by simp
  have lb: "length (ic_buffer ?c) = 524288" using buf(2) unfolding bf by simp
  have "jpeg_header c = do { (c, start) \<leftarrow> jpeg_length ?c;
                 let c = (if ic_state c \<noteq> 3 then c\<lparr>ic_size := MAX_JPEG_HEADERS_SIZE\<rparr> else c);
                 shift_down c (case start of Some i \<Rightarrow> i | None \<Rightarrow> before_last c) }"
    using g jb B' by (simp add: jpeg_header_def)
  moreover obtain bf' where bf': "do { (c, start) \<leftarrow> jpeg_length ?c;
                 let c = (if ic_state c \<noteq> 3 then c\<lparr>ic_size := MAX_JPEG_HEADERS_SIZE\<rparr> else c);
                 shift_down c (case start of Some i \<Rightarrow> i | None \<Rightarrow> before_last c) } =
      Some (?c\<lparr>ic_buffer := bf', ic_position := int (length x), ic_size := int n, ic_state := 3\<rparr>)" "length bf' = 524288" "take (length x) bf' = x"
    using jpeg_rest_ok [OF B(1) _ L _ n tk lb] m by auto
  ultimately show ?thesis by (intro exI [of _ bf']) simp
qed

section \<open>A stream of parts in packets\<close>

definition counting :: "avr_counter \<Rightarrow> bool" where
  "counting a \<longleftrightarrow> a = new_avr_counter 30 \<or> (\<exists>first. avr_inv first a)"

lemma counting_add:
  assumes "counting a" "0 \<le> v" "v \<le> 15000"
  shows "\<exists>a'. avr_add a v = Some a' \<and> counting a' \<and> 0 \<le> avr_value a'"
proof -
  obtain a' first where a': "avr_add a v = Some a'" "avr_inv first a'" "0 \<le> ac_avr a'"
  proof (cases "a = new_avr_counter 30")
    case True
    then show ?thesis using avr_first [OF assms(2,3)] that assms(2) by force
  next
    case False
    then obtain first where "avr_inv first a" using assms(1) by (auto simp: counting_def)
    then show ?thesis using avr_next [OF _ assms(2,3)] that by (metis max.cobounded1)
  qed
  then show ?thesis by (auto simp: counting_def avr_value_def get_raw_value_def get_divider_def sdiv_pos pos_imp_zdiv_nonneg_iff)
qed

text \<open>
  The packets ks from which the parts come out: in state st, with n bytes to be read and pre already
  read, they complete the pictures ps.
\<close>

inductive parts_due ::
  "byte list \<Rightarrow> byte list \<Rightarrow> nat \<Rightarrow> int \<Rightarrow> byte list \<Rightarrow> byte list list \<Rightarrow> (nat \<times> nat \<times> nat \<times> byte list) list \<Rightarrow> bool"
  for B label where
  no_more: "parts_due B label 1 128 [] [] []"
| boundary: "length (CRLF @ B @ x) \<le> 128 \<Longrightarrow> parts_due B label 2 128 (B @ x) ks ps
    \<Longrightarrow> parts_due B label 1 128 [] ((CRLF @ B @ x) # ks) ps"
| header: "pre @ k = gst_header B label n @ x \<Longrightarrow> length x < n \<Longrightarrow> n \<le> 524288 \<Longrightarrow> length (pre @ k) \<le> 128 \<Longrightarrow>
    parts_due B label 3 (int n) x ks ps \<Longrightarrow> parts_due B label 2 128 pre (k # ks) ps"
| picture: "length (pre @ k) < n \<Longrightarrow> n \<le> 524288 \<Longrightarrow> parts_due B label 3 (int n) (pre @ k) ks ps
    \<Longrightarrow> parts_due B label 3 (int n) pre (k # ks) ps"
| complete: "length (pre @ k) = n \<Longrightarrow> n \<le> 524288 \<Longrightarrow> parts_due B label 1 128 [] ks ps
    \<Longrightarrow> parts_due B label 3 (int n) pre (k # ks) ((JPEG_TYPE, 0, 0, pre @ k) # ps)"

text \<open>The same for the first part, from whose header the boundary is learned.\<close>

inductive first_due ::
  "byte list \<Rightarrow> byte list \<Rightarrow> nat \<Rightarrow> byte list \<Rightarrow> byte list list \<Rightarrow> (nat \<times> nat \<times> nat \<times> byte list) list \<Rightarrow> bool"
  for B label where
  start: "length (B @ x) < 128 \<Longrightarrow> first_due B label 2 (B @ x) ks ps \<Longrightarrow> first_due B label 0 [] ((B @ x) # ks) ps"
| learn: "pre @ k = gst_header B label n @ x \<Longrightarrow> length x < n \<Longrightarrow> n \<le> 524288 \<Longrightarrow> length (pre @ k) \<le> 128 \<Longrightarrow>
    parts_due B label 3 (int n) x ks ps \<Longrightarrow> first_due B label 2 pre (k # ks) ps"

definition jpeg_due ::
  "byte list \<Rightarrow> byte list \<Rightarrow> ip_camera \<Rightarrow> byte list list \<Rightarrow> (nat \<times> nat \<times> nat \<times> byte list) list \<Rightarrow> bool" where
  "jpeg_due B label c ks ps \<longleftrightarrow> ic_type c = CT_JPEG_GST \<and> length (ic_buffer c) = 524288 \<and> ic_client c \<and> ic_connected c \<and>
     \<not> ic_disconnect c \<and> 0 \<le> ic_position c \<and> ic_position c < ic_size c \<and> ic_size c \<le> 524288 \<and> counting (ic_counter c) \<and>
     (ic_boundary c = B \<and> parts_due B label (ic_state c) (ic_size c) (take (nat (ic_position c)) (ic_buffer c)) ks ps \<or>
      ic_boundary c = [] \<and> ic_size c = 128 \<and> first_due B label (ic_state c) (take (nat (ic_position c)) (ic_buffer c)) ks ps)"

definition timely :: "ip_camera \<Rightarrow> camera_event \<Rightarrow> bool" where
  "timely c ev \<longleftrightarrow> prompt c ev \<and>
     (case ev of Receives r now \<Rightarrow> ic_last_frame_time c \<noteq> 0 \<longrightarrow> 0 \<le> now - ic_last_frame_time c \<and> now - ic_last_frame_time c \<le> 15000
      | _ \<Rightarrow> True)"

definition fits :: "picture \<Rightarrow> bool" where
  "fits = (\<lambda>(t, w, h, buf, n, interval). length buf = 524288 \<and> 0 \<le> n \<and> n \<le> 524288 \<and> 0 \<le> interval)"

lemma fits_event_ok: "fits p \<Longrightarrow> event_ok sv (hand_over camera p)"
  by (cases p) (auto simp: fits_def hand_over_def)

text \<open>What one packet does, in each of the states.\<close>

definition packet_ok ::
  "byte list \<Rightarrow> byte list \<Rightarrow> ip_camera \<Rightarrow> byte list list \<Rightarrow> (nat \<times> nat \<times> nat \<times> byte list) list \<Rightarrow> (ip_camera \<times> picture list) option \<Rightarrow> bool" where
  "packet_ok B label c ks ps r \<longleftrightarrow>
     (\<exists>c' out ps'. r = Some (c', out) \<and> jpeg_due B label c' ks ps' \<and> ps = map seen out @ ps' \<and> list_all fits out)"

lemma packet_okI: "r = Some (c', out) \<Longrightarrow> jpeg_due B label c' ks ps' \<Longrightarrow> ps = map seen out @ ps' \<Longrightarrow> list_all fits out \<Longrightarrow> packet_ok B label c ks ps r"
  unfolding packet_ok_def by blast

lemma packet_ok_quietI: "r = Some (c', []) \<Longrightarrow> jpeg_due B label c' ks ps \<Longrightarrow> packet_ok B label c ks ps r"
  by (rule packet_okI [of _ c' "[]"]) simp_all

lemma first_at_boundary:
  assumes "boundary_ok B"
  shows "first_at B (CRLF @ B @ x) = Some 2"
proof -
  have "take 2 B = [45, 45]" using assms by (simp add: boundary_ok_def)
  then obtain B' where B': "B = 45 # B'" by (cases B) auto
  have "first_at B (B @ x) = Some 0" by (rule first_at_here) (simp add: B')
  then show ?thesis unfolding CRLF_def B' by simp
qed

lemma boundary_packet:
  assumes "boundary_ok B" "ic_type c = CT_JPEG_GST" "ic_client c" "ic_connected c" "\<not> ic_disconnect c" "ic_boundary c = B"
    "counting (ic_counter c)" "length (ic_buffer c) = 524288" "ic_position c = int (length (CRLF @ B @ x))"
    "take (nat (ic_position c)) (ic_buffer c) = CRLF @ B @ x" "length (CRLF @ B @ x) \<le> 128" "parts_due B label 2 128 (B @ x) ks ps"
  shows "packet_ok B label c ks ps (map_option (\<lambda>c. (c, [])) (jpeg_find_boundary c))"
proof -
  have ne: "B \<noteq> []" using assms(1) by (auto simp: boundary_ok_def)
  have "mem_find (ic_buffer c) 0 B (nat (ic_position c)) = Some (Some (0 + 2))"
    by (rule mem_find_at [OF _ ne _ first_at_boundary [OF assms(1)]]) (use assms(8-11) in simp_all)
  then have f: "mem_find (ic_buffer c) 0 B (nat (ic_position c)) = Some (Some 2)" by (simp only: add_0)
  let ?c = "c\<lparr>ic_state := 2, ic_size := MAX_JPEG_HEADERS_SIZE\<rparr>"
  have "\<exists>buf. shift_down ?c 2 = Some (?c\<lparr>ic_buffer := buf, ic_position := ic_position ?c - int 2\<rparr>) \<and> length buf = 524288 \<and>
    take (nat (ic_position ?c) - 2) buf = drop 2 (take (nat (ic_position ?c)) (ic_buffer ?c))"
    by (rule shift_down_ok) (use assms(8,9,11) in \<open>simp_all add: CRLF_def\<close>)
  then obtain buf where buf: "shift_down ?c 2 = Some (?c\<lparr>ic_buffer := buf, ic_position := ic_position c - 2\<rparr>)" "length buf = 524288"
    "take (nat (ic_position c) - 2) buf = drop 2 (CRLF @ B @ x)" using assms(10) by auto
  let ?d = "?c\<lparr>ic_buffer := buf, ic_position := ic_position c - 2\<rparr>"
  have "jpeg_find_boundary c = Some ?d" using ne assms(6) f buf(1) by (simp add: jpeg_find_boundary_def)
  moreover have "jpeg_due B label ?d ks ps"
  proof -
    have "nat (ic_position c - 2) = nat (ic_position c) - 2" by simp
    then have "take (nat (ic_position c - 2)) buf = B @ x" using buf(3) by (simp add: CRLF_def)
    then show ?thesis using assms(2-7,9,11,12) buf(2) by (simp add: jpeg_due_def camera_consts CRLF_def)
  qed
  ultimately show ?thesis by (intro packet_ok_quietI [of _ ?d]) simp_all
qed

lemma header_packet:
  assumes "boundary_ok B" "label_ok label" "ic_type c = CT_JPEG_GST" "ic_client c" "ic_connected c" "\<not> ic_disconnect c"
    "ic_boundary c = B" "counting (ic_counter c)" "length (ic_buffer c) = 524288" "0 \<le> ic_position c" "ic_position c \<le> 128"
    "take (nat (ic_position c)) (ic_buffer c) = gst_header B label n @ x" "length x < n" "n \<le> 524288"
    "parts_due B label 3 (int n) x ks ps"
  shows "packet_ok B label c ks ps (map_option (\<lambda>c. (c, [])) (jpeg_header c))"
proof -
  have n0: "0 < n" using assms(13) by simp
  have n1: "n \<le> 2147483647" using assms(14) by simp
  obtain buf where buf: "jpeg_header c = Some (c\<lparr>ic_buffer := buf, ic_position := int (length x), ic_size := int n, ic_state := 3\<rparr>)"
    "length buf = 524288" "take (length x) buf = x"
    using jpeg_header_ok [OF assms(1,7,2) n0 n1 assms(12,9-11)] by blast
  have "jpeg_due B label (c\<lparr>ic_buffer := buf, ic_position := int (length x), ic_size := int n, ic_state := 3\<rparr>) ks ps"
    using assms buf by (simp add: jpeg_due_def)
  then show ?thesis using buf(1) by (intro packet_ok_quietI) simp_all
qed

lemma picture_packet:
  assumes "ic_type c = CT_JPEG_GST" "ic_client c" "ic_connected c" "\<not> ic_disconnect c"
    "ic_boundary c = B" "counting (ic_counter c)" "length (ic_buffer c) = 524288" "ic_state c = 3"
    "take (nat (ic_position c)) (ic_buffer c) = pre @ k" "ic_position c = int (length (pre @ k))" "ic_size c = int n" "n \<le> 524288"
    "parts_due B label 3 (int n) pre (k # ks) ps"
    "ic_last_frame_time c \<noteq> 0 \<longrightarrow> 0 \<le> now - ic_last_frame_time c \<and> now - ic_last_frame_time c \<le> 15000"
  shows "packet_ok B label c ks ps (jpeg_picture c now)"
  using assms(13)
proof cases
  case picture
  then have less: "length (pre @ k) < n" "parts_due B label 3 (int n) (pre @ k) ks ps" by simp_all
  then have "jpeg_picture c now = Some (c, [])" using assms(10,11) by (simp add: jpeg_picture_def)
  moreover have "jpeg_due B label c ks ps" using assms less by (simp add: jpeg_due_def)
  ultimately show ?thesis by (intro packet_ok_quietI [of _ c]) simp_all
next
  case complete
  then obtain ps' where full: "length (pre @ k) = n" "parts_due B label 1 128 [] ks ps'" "ps = (JPEG_TYPE, 0, 0, pre @ k) # ps'" by auto
  obtain counter interval where cnt: "(if ic_last_frame_time c \<noteq> 0 then
      do { counter \<leftarrow> avr_add (ic_counter c) (to_s32 (now - ic_last_frame_time c)); Some (counter, avr_value counter) }
    else Some (ic_counter c, 0)) = Some (counter, interval)" "counting counter" "0 \<le> interval"
  proof (cases "ic_last_frame_time c = 0")
    case True
    then show ?thesis using that assms(6) by simp
  next
    case False
    then have t: "0 \<le> now - ic_last_frame_time c" "now - ic_last_frame_time c \<le> 15000" using assms(14) by simp_all
    have s: "to_s32 (now - ic_last_frame_time c) = now - ic_last_frame_time c" by (rule to_s32_id) (use t in simp_all)
    obtain a' where "avr_add (ic_counter c) (now - ic_last_frame_time c) = Some a'" "counting a'" "0 \<le> avr_value a'"
      using counting_add [OF assms(6) t] by blast
    then show ?thesis using False s that by simp
  qed
  let ?c = "c\<lparr>ic_counter := counter, ic_last_frame_time := now, ic_start_time := now, ic_position := 0, ic_state := 1, ic_size := MAX_JPEG_HEADERS_SIZE\<rparr>"
  let ?p = "(JPEG_TYPE, 0, 0, ic_buffer c, ic_size c, interval)"
  have "ic_size c \<le> ic_position c" using full(1) assms(10,11) by simp
  then have "jpeg_picture c now = Some (?c, [?p])" unfolding jpeg_picture_def using cnt(1) by simp
  moreover have "jpeg_due B label ?c ks ps'" using assms(1-7) cnt(2) full(2) by (simp add: jpeg_due_def camera_consts)
  moreover have "seen ?p = (JPEG_TYPE, 0, 0, pre @ k)"
  proof -
    have "nat (ic_position c) = n" using assms(10) full(1) by simp
    then show ?thesis using assms(9,11) by simp
  qed
  ultimately show ?thesis
    by (intro packet_okI [of _ ?c "[?p]" B label ks ps']) (use assms(7,11,12) full(3) cnt(3) in \<open>simp_all add: fits_def\<close>)
qed simp_all

lemma start_packet:
  assumes "boundary_ok B" "ic_type c = CT_JPEG_GST" "ic_client c" "ic_connected c" "\<not> ic_disconnect c"
    "counting (ic_counter c)" "length (ic_buffer c) = 524288" "ic_boundary c = []" "ic_size c = 128" "ic_position c = int (length (B @ x))"
    "take (nat (ic_position c)) (ic_buffer c) = B @ x" "length (B @ x) < 128" "first_due B label 2 (B @ x) ks ps"
  shows "packet_ok B label c ks ps (map_option (\<lambda>c. (c, [])) (jpeg_find_start c))"
proof -
  obtain B' where B': "B = 45 # 45 # B'" using boundary_cases [OF assms(1)] .
  have "first_at [45, 45] (B @ x) = Some 0" by (simp add: B')
  then have "mem_find (ic_buffer c) 0 [45, 45] (nat (ic_position c)) = Some (Some (0 + 0))"
    by (intro mem_find_at) (use assms(7,10-12) in simp_all)
  then have "jpeg_find_start c = Some (c\<lparr>ic_state := 2\<rparr>)" by (simp add: jpeg_find_start_def shift_down_def)
  moreover have "jpeg_due B label (c\<lparr>ic_state := 2\<rparr>) ks ps" using assms by (simp add: jpeg_due_def)
  ultimately show ?thesis by (intro packet_ok_quietI) simp_all
qed

lemma learn_packet:
  assumes "boundary_ok B" "label_ok label" "ic_type c = CT_JPEG_GST" "ic_client c" "ic_connected c" "\<not> ic_disconnect c"
    "counting (ic_counter c)" "ic_boundary c = []" "length (ic_buffer c) = 524288" "0 \<le> ic_position c" "ic_position c \<le> 128"
    "take (nat (ic_position c)) (ic_buffer c) = gst_header B label n @ x" "length x < n" "n \<le> 524288"
    "parts_due B label 3 (int n) x ks ps"
  shows "packet_ok B label c ks ps (map_option (\<lambda>c. (c, [])) (jpeg_header c))"
proof -
  have n: "0 < n" "n \<le> 2147483647" using assms(13,14) by simp_all
  obtain buf where buf: "jpeg_header c = Some (c\<lparr>ic_buffer := buf, ic_position := int (length x), ic_size := int n, ic_state := 3, ic_boundary := B\<rparr>)"
    "length buf = 524288" "take (length x) buf = x"
    using jpeg_header_learns [OF assms(1,8,2) n assms(12,9-11)] by blast
  have "jpeg_due B label (c\<lparr>ic_buffer := buf, ic_position := int (length x), ic_size := int n, ic_state := 3, ic_boundary := B\<rparr>) ks ps"
    using assms buf by (simp add: jpeg_due_def)
  then show ?thesis using buf(1) by (intro packet_ok_quietI) simp_all
qed

text \<open>The situations in which a packet comes.\<close>

lemma jpeg_due_situation:
  assumes "jpeg_due B label c (k # ks) ps"
  obtains
    (boundary) x where "ic_state c = 1" "ic_boundary c = B" "ic_size c = 128" "take (nat (ic_position c)) (ic_buffer c) = []"
      "k = CRLF @ B @ x" "length (CRLF @ B @ x) \<le> 128" "parts_due B label 2 128 (B @ x) ks ps"
  | (header) n x where "ic_state c = 2" "ic_boundary c = B" "ic_size c = 128"
      "take (nat (ic_position c)) (ic_buffer c) @ k = gst_header B label n @ x" "length x < n" "n \<le> 524288"
      "length (take (nat (ic_position c)) (ic_buffer c) @ k) \<le> 128" "parts_due B label 3 (int n) x ks ps"
  | (picture) n where "ic_state c = 3" "ic_boundary c = B" "ic_size c = int n" "n \<le> 524288"
      "length (take (nat (ic_position c)) (ic_buffer c) @ k) \<le> n" "parts_due B label 3 (int n) (take (nat (ic_position c)) (ic_buffer c)) (k # ks) ps"
  | (start) x where "ic_state c = 0" "ic_boundary c = []" "ic_size c = 128" "take (nat (ic_position c)) (ic_buffer c) = []" "k = B @ x"
      "length (B @ x) < 128" "first_due B label 2 (B @ x) ks ps"
  | (learn) n x where "ic_state c = 2" "ic_boundary c = []" "ic_size c = 128"
      "take (nat (ic_position c)) (ic_buffer c) @ k = gst_header B label n @ x" "length x < n" "n \<le> 524288"
      "length (take (nat (ic_position c)) (ic_buffer c) @ k) \<le> 128" "parts_due B label 3 (int n) x ks ps"
proof -
  note d = assms [unfolded jpeg_due_def]
  let ?pre = "take (nat (ic_position c)) (ic_buffer c)"
  show thesis
  proof (cases "ic_boundary c = B \<and> parts_due B label (ic_state c) (ic_size c) ?pre (k # ks) ps")
    case True
    then have b: "ic_boundary c = B" and p: "parts_due B label (ic_state c) (ic_size c) ?pre (k # ks) ps" by simp_all
    from p show thesis
    proof cases
      case (boundary x)
      then show thesis using that(1) b by blast
    next
      case (header n x)
      then show thesis using that(2) b by blast
    next
      case (picture n)
      then show thesis using that(3) [of n] b p by simp
    next
      case (complete n ps')
      then show thesis using that(3) [of n] b p by simp
    qed
  next
    case False
    then have b: "ic_boundary c = []" "ic_size c = 128" and p: "first_due B label (ic_state c) ?pre (k # ks) ps" using d by blast+
    from p show thesis
    proof cases
      case (start x)
      then show thesis using that(4) b by blast
    next
      case (learn n x)
      then show thesis using that(5) b by blast
    qed
  qed
qed

lemma jpeg_due_room:
  assumes "jpeg_due B label c (k # ks) ps"
  shows "nat (ic_position c) + length k \<le> nat (ic_size c)" "int (length k) \<le> ic_size c - ic_position c"
proof -
  note d = assms [unfolded jpeg_due_def]
  let ?pre = "take (nat (ic_position c)) (ic_buffer c)"
  have lp: "length ?pre = nat (ic_position c)" using d by auto
  from assms have "length ?pre + length k \<le> nat (ic_size c)"
  proof (cases rule: jpeg_due_situation)
    case (boundary x)
    show ?thesis unfolding boundary(4) using boundary(3,5,6) by simp
  next
    case (header n x)
    show ?thesis using header(3,7) unfolding length_append by simp
  next
    case (picture n)
    show ?thesis using picture(3,5) unfolding length_append by simp
  next
    case (start x)
    show ?thesis unfolding start(4) using start(3,5,6) by simp
  next
    case (learn n x)
    show ?thesis using learn(3,7) unfolding length_append by simp
  qed
  then show "nat (ic_position c) + length k \<le> nat (ic_size c)" "int (length k) \<le> ic_size c - ic_position c" using lp d by auto
qed

lemma jpeg_bytes_correct:
  assumes B: "boundary_ok B" "label_ok label" and due: "jpeg_due B label c (k # ks) ps"
    and t: "ic_last_frame_time c \<noteq> 0 \<longrightarrow> 0 \<le> now - ic_last_frame_time c \<and> now - ic_last_frame_time c \<le> 15000"
  shows "packet_ok B label c ks ps (jpeg_bytes c k now)"
proof -
  note d = due [unfolded jpeg_due_def]
  let ?p = "nat (ic_position c)"
  let ?pre = "take ?p (ic_buffer c)"
  have lp: "length ?pre = ?p" using d by auto
  have room: "?p + length k \<le> length (ic_buffer c)" using jpeg_due_room(1) [OF due] d by linarith
  let ?buf = "?pre @ k @ drop (?p + length k) (ic_buffer c)"
  let ?c = "c\<lparr>ic_buffer := ?buf, ic_first := False, ic_position := ic_position c + int (length k)\<rparr>"
  have wr: "mem_write (ic_buffer c) ?p k = Some ?buf" by (rule mem_write_in [OF room])
  have pos: "ic_position ?c = int (length (?pre @ k))" using lp d by simp
  have tk: "take (nat (ic_position ?c)) (ic_buffer ?c) = ?pre @ k" unfolding pos nat_int using lp by simp
  have lb: "length (ic_buffer ?c) = 524288" using room d lp by simp
  have base: "ic_type ?c = CT_JPEG_GST" "ic_client ?c" "ic_connected ?c" "\<not> ic_disconnect ?c" "counting (ic_counter ?c)"
    using d by simp_all
  have st: "jpeg_bytes c k now =
      (if ic_state c = 0 then map_option (\<lambda>c. (c, [])) (jpeg_find_start ?c)
       else if ic_state c = 1 then map_option (\<lambda>c. (c, [])) (jpeg_find_boundary ?c)
       else if ic_state c = 2 then map_option (\<lambda>c. (c, [])) (jpeg_header ?c) else jpeg_picture ?c now)"
    using wr by (simp add: jpeg_bytes_def Let_def)
  have trans: "packet_ok B label c ks ps r" if "packet_ok B label ?c ks ps r" for r using that by (simp add: packet_ok_def)
  from due show ?thesis
  proof (cases rule: jpeg_due_situation)
    case (boundary x)
    have e: "take (nat (ic_position ?c)) (ic_buffer ?c) = CRLF @ B @ x" "ic_position ?c = int (length (CRLF @ B @ x))"
      using tk pos boundary(4,5) by simp_all
    have b: "ic_boundary ?c = B" using boundary(2) by simp
    from trans [OF boundary_packet [OF B(1) base(1-4) b base(5) lb e(2,1) boundary(6,7)]]
    show ?thesis unfolding st using boundary(1) by simp
  next
    case (header n x)
    have e: "0 \<le> ic_position ?c" "ic_position ?c \<le> 128" "take (nat (ic_position ?c)) (ic_buffer ?c) = gst_header B label n @ x"
      using tk pos header(4,7) by simp_all
    have b: "ic_boundary ?c = B" using header(2) by simp
    from trans [OF header_packet [OF B base(1-4) b base(5) lb e header(5,6,8)]]
    show ?thesis unfolding st using header(1) by simp
  next
    case (picture n)
    have e: "ic_state ?c = 3" "ic_size ?c = int n" "ic_boundary ?c = B" using picture(1-3) by simp_all
    have l: "ic_last_frame_time ?c \<noteq> 0 \<longrightarrow> 0 \<le> now - ic_last_frame_time ?c \<and> now - ic_last_frame_time ?c \<le> 15000" using t by simp
    from trans [OF picture_packet [OF base(1-4) e(3) base(5) lb e(1) tk pos e(2) picture(4,6) l]]
    show ?thesis unfolding st using picture(1) by simp
  next
    case (start x)
    have e: "take (nat (ic_position ?c)) (ic_buffer ?c) = B @ x" "ic_position ?c = int (length (B @ x))" "ic_boundary ?c = []" "ic_size ?c = 128"
      using tk pos start(2-5) by simp_all
    from trans [OF start_packet [OF B(1) base lb e(3,4,2,1) start(6,7)]]
    show ?thesis unfolding st using start(1) by simp
  next
    case (learn n x)
    have e: "0 \<le> ic_position ?c" "ic_position ?c \<le> 128" "take (nat (ic_position ?c)) (ic_buffer ?c) = gst_header B label n @ x"
      using tk pos learn(4,7) by simp_all
    have b: "ic_boundary ?c = []" using learn(2) by simp
    from trans [OF learn_packet [OF B base b lb e learn(5,6,8)]]
    show ?thesis unfolding st using learn(1) by simp
  qed
qed

lemma jpeg_step_correct:
  assumes "boundary_ok B" "label_ok label" "jpeg_due B label c (filter (\<lambda>k. k \<noteq> []) [bytes_of ev] @ ks) ps" "timely c ev"
  shows "packet_ok B label c ks ps (camera_step c ev)"
proof (cases ev)
  case (Connects b now)
  then show ?thesis using assms(4) by (simp add: timely_def)
next
  case (Polls now readable)
  note d = assms(3) [unfolded jpeg_due_def]
  have "camera_poll c now readable = (if readable then c\<lparr>ic_looping := True, ic_first := True\<rparr> else c)"
    using d assms(4) Polls by (simp add: camera_poll_def timely_def)
  then have "camera_step c ev = Some (if \<not> ic_looping c \<and> readable then c\<lparr>ic_looping := True, ic_first := True\<rparr> else c, [])"
    using d Polls by (cases readable) auto
  moreover have "jpeg_due B label (if \<not> ic_looping c \<and> readable then c\<lparr>ic_looping := True, ic_first := True\<rparr> else c) ks ps"
    using assms(3) Polls by (simp add: jpeg_due_def)
  ultimately show ?thesis by (rule packet_ok_quietI)
next
  case (Receives r now)
  note d = assms(3) [unfolded jpeg_due_def]
  have br: "before_recv c = c" using d by (simp add: before_recv_def)
  show ?thesis
  proof (cases r)
    case (Bytes bs)
    have t: "ic_looping c" "bs \<noteq> []" "ic_last_frame_time c \<noteq> 0 \<longrightarrow> 0 \<le> now - ic_last_frame_time c \<and> now - ic_last_frame_time c \<le> 15000"
      using assms(4) unfolding Receives Bytes by (simp_all add: timely_def)
    have "camera_step c ev = jpeg_bytes c bs now"
      using t d br unfolding Receives Bytes by (simp add: camera_recv_def camera_consts)
    then show ?thesis using jpeg_bytes_correct [OF assms(1,2) _ t(3)] assms(3) t(2) unfolding Receives Bytes by simp
  next
    case Nothing_Yet
    have "camera_step c ev = Some (if ic_looping c then c\<lparr>ic_looping := False\<rparr> else c, [])"
      using br d unfolding Receives Nothing_Yet by (simp add: camera_recv_def loop_ends_def)
    moreover have "jpeg_due B label (if ic_looping c then c\<lparr>ic_looping := False\<rparr> else c) ks ps"
      using assms(3) unfolding Receives Nothing_Yet by (simp add: jpeg_due_def)
    ultimately show ?thesis by (rule packet_ok_quietI)
  next
    case Failed
    then show ?thesis using assms(4) Receives by (simp add: timely_def)
  qed
qed

definition packets_of :: "camera_event list \<Rightarrow> byte list list" where
  "packets_of evs = filter (\<lambda>k. k \<noteq> []) (map bytes_of evs)"

lemma jpeg_run_correct:
  assumes "boundary_ok B" "label_ok label"
  shows "jpeg_due B label c (packets_of evs @ ks) ps \<Longrightarrow> run_ok timely camera_step c evs \<Longrightarrow>
    \<exists>c' outs ps'. run_steps camera_step c evs = Some (c', outs) \<and> jpeg_due B label c' ks ps' \<and>
      ps = map seen (concat outs) @ ps' \<and> list_all fits (concat outs)"
proof (induction evs arbitrary: c ps)
  case Nil
  then show ?case by (simp add: packets_of_def)
next
  case (Cons ev evs)
  have "jpeg_due B label c (filter (\<lambda>k. k \<noteq> []) [bytes_of ev] @ packets_of evs @ ks) ps"
    using Cons.prems(1) by (auto simp: packets_of_def split: if_splits)
  from jpeg_step_correct [OF assms this] Cons.prems(2)
  obtain c1 out ps1 where st: "camera_step c ev = Some (c1, out)" "jpeg_due B label c1 (packets_of evs @ ks) ps1"
    "ps = map seen out @ ps1" "list_all fits out"
    unfolding packet_ok_def by auto
  have "run_ok timely camera_step c1 evs" using Cons.prems(2) st(1) by simp
  from Cons.IH [OF st(2) this] show ?case using st by auto
qed

text \<open>
  A part cut in a suitable way: what precedes it (P, the last part's line end) and the boundary
  come in the first packet, the rest of the header in the second, the first packet leaves room,
  and the packets are no longer than the thread asks for.
\<close>

fun part_cut :: "byte list \<Rightarrow> byte list \<Rightarrow> byte list \<Rightarrow> byte list \<times> byte list list \<Rightarrow> bool" where
  "part_cut P B label (d, k1 # k2 # ks) \<longleftrightarrow>
     concat (k1 # k2 # ks) = P @ gst_header B label (length d) @ d \<and> [] \<notin> set (k1 # k2 # ks) \<and>
     length P + length B \<le> length k1 \<and> length k1 \<le> 128 \<and> length k1 < 128 + length P \<and>
     length P + length (gst_header B label (length d)) \<le> length k1 + length k2 \<and> length k1 + length k2 \<le> 128 + length P \<and>
     128 \<le> length d \<and> length d \<le> 524288"
| "part_cut P B label _ \<longleftrightarrow> False"

lemma picture_due:
  "parts_due B label 1 128 [] rs ps \<Longrightarrow> pre @ concat ks = d \<Longrightarrow> [] \<notin> set ks \<Longrightarrow> length pre < length d \<Longrightarrow> length d \<le> 524288 \<Longrightarrow>
    parts_due B label 3 (int (length d)) pre (ks @ rs) ((JPEG_TYPE, 0, 0, d) # ps)"
proof (induction ks arbitrary: pre)
  case Nil
  then show ?case by simp
next
  case (Cons k ks)
  show ?case
  proof (cases "ks = []")
    case True
    then have "pre @ k = d" using Cons.prems(2) by simp
    then show ?thesis using parts_due.complete [of pre k "length d" B label rs ps] Cons.prems(1,5) True by simp
  next
    case False
    then have "concat ks \<noteq> []" using Cons.prems(3) by (cases ks) auto
    then have less: "length (pre @ k) < length d" using Cons.prems(2) by auto
    have "parts_due B label 3 (int (length d)) (pre @ k) (ks @ rs) ((JPEG_TYPE, 0, 0, d) # ps)"
      by (rule Cons.IH) (use Cons.prems less in auto)
    from parts_due.picture [OF less Cons.prems(5) this] show ?thesis by simp
  qed
qed

lemma part_cutE:
  assumes "part_cut P B label p"
  obtains d k1 k2 ks x1 x where "p = (d, k1 # k2 # ks)" "k1 = P @ B @ x1" "(B @ x1) @ k2 = gst_header B label (length d) @ x"
    "x @ concat ks = d" "[] \<notin> set ks" "length x < length d" "length d \<le> 524288" "length ((B @ x1) @ k2) \<le> 128"
    "length k1 \<le> 128" "length k1 < 128 + length P"
proof -
  obtain d k1 k2 ks where p: "p = (d, k1 # k2 # ks)" using assms
    by (cases "(P, B, label, p)" rule: part_cut.cases) auto
  let ?h = "gst_header B label (length d)"
  have w: "k1 @ k2 @ concat ks = P @ ?h @ d" "[] \<notin> set ks" "length P + length B \<le> length k1" "length k1 \<le> 128" "length k1 < 128 + length P"
    "length P + length ?h \<le> length k1 + length k2" "length k1 + length k2 \<le> 128 + length P" "128 \<le> length d" "length d \<le> 524288"
    using assms unfolding p by simp_all
  obtain H where hB: "?h = B @ 13 # H" by (simp add: gst_header_def header_text_def)
  obtain x1 where x1: "k1 = P @ B @ x1"
  proof
    have "take (length P + length B) k1 = take (length P + length B) (k1 @ k2 @ concat ks)" using w(3) by simp
    also have "\<dots> = P @ B" unfolding w(1) hB by simp
    finally show "k1 = P @ B @ drop (length P + length B) k1" by (metis append_assoc append_take_drop_id)
  qed
  obtain x where x: "(B @ x1) @ k2 = ?h @ x"
  proof
    have "take (length ?h) ((B @ x1) @ k2) = take (length ?h) (((B @ x1) @ k2) @ concat ks)"
      using w(6) unfolding x1 by simp
    also have "((B @ x1) @ k2) @ concat ks = ?h @ d" using w(1) unfolding x1 by simp
    finally show "(B @ x1) @ k2 = ?h @ drop (length ?h) ((B @ x1) @ k2)" by (metis append_eq_conv_conj append_take_drop_id)
  qed
  have xd: "x @ concat ks = d" using w(1) x unfolding x1 by (metis append_assoc same_append_eq)
  have lx: "length ((B @ x1) @ k2) \<le> 128" using w(7) unfolding x1 by simp
  have "length (?h @ x) \<le> 128" using lx unfolding x .
  moreover have "0 < length ?h" unfolding hB by simp
  ultimately have "length x < length d" using w(8) unfolding length_append by linarith
  then show ?thesis using that [OF p x1 x xd w(2) _ w(9) lx w(4,5)] by simp
qed

lemma part_due:
  assumes "part_cut CRLF B label p" "parts_due B label 1 128 [] rs ps"
  shows "parts_due B label 1 128 [] (snd p @ rs) ((JPEG_TYPE, 0, 0, fst p) # ps)"
  using assms(1)
proof (cases rule: part_cutE)
  case (1 d k1 k2 ks x1 x)
  have "parts_due B label 3 (int (length d)) x (ks @ rs) ((JPEG_TYPE, 0, 0, d) # ps)"
    by (rule picture_due [OF assms(2) 1(4,5,6,7)])
  from parts_due.header [OF 1(3,6,7,8) this]
  have "parts_due B label 2 128 (B @ x1) (k2 # ks @ rs) ((JPEG_TYPE, 0, 0, d) # ps)" .
  from parts_due.boundary [OF 1(9) [unfolded 1(2)] this]
  show ?thesis unfolding 1(1,2) by simp
qed

lemma first_part_due:
  assumes "part_cut [] B label p" "parts_due B label 1 128 [] rs ps"
  shows "first_due B label 0 [] (snd p @ rs) ((JPEG_TYPE, 0, 0, fst p) # ps)"
  using assms(1)
proof (cases rule: part_cutE)
  case (1 d k1 k2 ks x1 x)
  have "parts_due B label 3 (int (length d)) x (ks @ rs) ((JPEG_TYPE, 0, 0, d) # ps)"
    by (rule picture_due [OF assms(2) 1(4,5,6,7)])
  from first_due.learn [OF 1(3,6,7,8) this]
  have "first_due B label 2 (B @ x1) (k2 # ks @ rs) ((JPEG_TYPE, 0, 0, d) # ps)" .
  from first_due.start [OF _ this] 1(10)
  show ?thesis unfolding 1(1,2) by simp
qed

lemma parts_due_all:
  "\<forall>p \<in> set parts. part_cut CRLF B label p \<Longrightarrow>
    parts_due B label 1 128 [] (concat (map snd parts)) (map (\<lambda>p. (JPEG_TYPE, 0, 0, fst p)) parts)"
proof (induction parts)
  case Nil
  then show ?case using parts_due.no_more by simp
next
  case (Cons p parts)
  then show ?case using part_due [of B label p] by simp
qed

lemma parts_due_Nil: "parts_due B label st n pre [] ps \<Longrightarrow> ps = []"
  by (cases rule: parts_due.cases) auto

lemma first_due_not_Nil: "\<not> first_due B label st pre [] ps"
  by (auto elim: first_due.cases)

lemma counting_reset: "counting a \<Longrightarrow> counting (avr_reset a)"
  by (auto simp: counting_def new_avr_counter_def avr_reset_def avr_inv_def wma_div_30 [symmetric])

section \<open>Properties\<close>

definition ready_for_part :: "byte list \<Rightarrow> ip_camera \<Rightarrow> bool" where
  "ready_for_part B c \<longleftrightarrow> ic_type c = CT_JPEG_GST \<and> length (ic_buffer c) = 524288 \<and> ic_client c \<and> ic_connected c \<and>
     \<not> ic_disconnect c \<and> ic_boundary c = B \<and> ic_state c = 1 \<and> ic_position c = 0 \<and> ic_size c = MAX_JPEG_HEADERS_SIZE \<and>
     counting (ic_counter c)"

text \<open>A session with an MJPEG camera, from its connection on, with its first part and the others.\<close>

definition jpeg_session ::
  "byte list \<Rightarrow> byte list \<Rightarrow> ip_camera \<Rightarrow> int \<Rightarrow> camera_event list \<Rightarrow> byte list \<times> byte list list \<Rightarrow> (byte list \<times> byte list list) list \<Rightarrow> bool" where
  "jpeg_session B label c start evs first others \<longleftrightarrow>
     boundary_ok B \<and> label_ok label \<and> ic_type c = CT_JPEG_GST \<and> length (ic_buffer c) = 524288 \<and> \<not> ic_disconnect c \<and> counting (ic_counter c) \<and>
     part_cut [] B label first \<and> (\<forall>p \<in> set others. part_cut CRLF B label p) \<and>
     run_ok timely camera_step (camera_connect c True start) evs \<and> packets_of evs = concat (map snd (first # others))"

lemma jpeg_session_run:
  assumes "jpeg_session B label c start evs first others"
  obtains c' outs where "run_steps camera_step (camera_connect c True start) evs = Some (c', outs)"
    "map seen (concat outs) = map (\<lambda>p. (JPEG_TYPE, 0, 0, fst p)) (first # others)" "list_all fits (concat outs)"
proof -
  note j = assms [unfolded jpeg_session_def]
  let ?ps = "map (\<lambda>p. (JPEG_TYPE, 0, 0, fst p)) (first # others)"
  have "part_cut [] B label first" "\<forall>p \<in> set others. part_cut CRLF B label p" "packets_of evs = concat (map snd (first # others))"
    using j by blast+
  then have "first_due B label 0 [] (packets_of evs @ []) ?ps" using first_part_due [OF _ parts_due_all] by simp
  then have "jpeg_due B label (camera_connect c True start) (packets_of evs @ []) ?ps"
    using j counting_reset unfolding jpeg_due_def by (simp add: camera_connect_def camera_consts)
  moreover have "boundary_ok B" "label_ok label" "run_ok timely camera_step (camera_connect c True start) evs" using j by blast+
  ultimately obtain c' outs ps' where r: "run_steps camera_step (camera_connect c True start) evs = Some (c', outs)" "jpeg_due B label c' [] ps'"
    "?ps = map seen (concat outs) @ ps'" "list_all fits (concat outs)" using jpeg_run_correct by blast
  have "ps' = []" using r(2) parts_due_Nil first_due_not_Nil unfolding jpeg_due_def by blast
  then show ?thesis using that [OF r(1) _ r(4)] r(3) by simp
qed

text \<open>C24: From the moment it is connected, an MJPEG camera's pictures of at least 128 bytes are handed
  over exactly as the camera sent them, in order and each once, in whatever packets and with
  whatever pauses within the time limits they come, if of each part what precedes it and the
  boundary come in the first packet, which leaves room, and the header ends in the second; and the
  server can take every one of them. The boundary is learned from the first part.\<close>

theorem jpeg_camera_received:
  assumes "jpeg_session B label c start evs first others"
  shows "\<exists>c' outs. run_steps camera_step (camera_connect c True start) evs = Some (c', outs) \<and>
    map seen (concat outs) = map (\<lambda>p. (JPEG_TYPE, 0, 0, fst p)) (first # others) \<and>
    (\<forall>p \<in> set (concat outs). \<forall>sv camera. event_ok sv (hand_over camera p))"
proof -
  obtain c' outs where r: "run_steps camera_step (camera_connect c True start) evs = Some (c', outs)"
    "map seen (concat outs) = map (\<lambda>p. (JPEG_TYPE, 0, 0, fst p)) (first # others)" "list_all fits (concat outs)"
    using jpeg_session_run [OF assms] .
  have "\<forall>p \<in> set (concat outs). \<forall>sv camera. event_ok sv (hand_over camera p)"
    using r(3) fits_event_ok by (simp add: list_all_iff)
  with r(1,2) show ?thesis by blast
qed

text \<open>A packet that fills the 128 bytes asked for and starts with the boundary is overwritten by the
  next one, because a full buffer makes the loop start again at its beginning: the header is gone,
  the thread goes back to looking for a boundary, and the picture is lost.\<close>

theorem jpeg_full_packet_lost:
  assumes "boundary_ok B" "ready_for_part B c" "ic_looping c"
    and "length k1 = 128" "take (length B) k1 = B" "k2 \<noteq> []" "length k2 \<le> 128" "hd k2 \<noteq> 45"
  shows "run_ok camera_event_ok camera_step c [Receives (Bytes k1) t1, Receives (Bytes k2) t2] \<and>
    (\<exists>c'. run_steps camera_step c [Receives (Bytes k1) t1, Receives (Bytes k2) t2] = Some (c', [[], []]) \<and>
      ic_state c' = 1 \<and> ic_position c' = 1 \<and> ic_buffer c' ! 0 = last k2)"
proof -
  note r = assms(2) [unfolded ready_for_part_def]
  have ne: "B \<noteq> []" using assms(1) by (auto simp: boundary_ok_def)
  have b: "before_recv c = c" "asked c = 128" using r by (simp_all add: before_recv_def asked_def camera_consts)
  let ?buf = "k1 @ drop 128 (ic_buffer c)"
  let ?c = "c\<lparr>ic_buffer := ?buf, ic_first := False, ic_position := 128\<rparr>"
  have wr: "mem_write (ic_buffer c) 0 k1 = Some ?buf" using r assms(4) by (simp add: mem_write_def)
  have lb: "length ?buf = 524288" using r assms(4) by simp
  have "first_at B k1 = Some 0" using first_at_here [OF ne, of "drop (length B) k1"] assms(5) by (metis append_take_drop_id)
  then have f: "mem_find ?buf 0 B (nat 128) = Some (Some 0)"
    using mem_find_at [of "nat 128" 0 ?buf k1 B 0] ne lb assms(4) by simp
  let ?d = "?c\<lparr>ic_state := 2, ic_size := 128\<rparr>"
  have "jpeg_find_boundary ?c = Some ?d"
    using f ne r by (simp add: jpeg_find_boundary_def shift_down_def camera_consts)
  then have s1: "camera_step c (Receives (Bytes k1) t1) = Some (?d, [])"
    using r b wr assms(3,4) by (auto simp: camera_recv_def jpeg_bytes_def Let_def camera_consts)
  have b2: "before_recv ?d = ?d\<lparr>ic_position := 0\<rparr>" using r by (simp add: before_recv_def camera_consts)
  let ?buf2 = "k2 @ drop (length k2) ?buf"
  let ?e = "?d\<lparr>ic_buffer := ?buf2, ic_first := False, ic_position := int (length k2)\<rparr>"
  have wr2: "mem_write ?buf 0 k2 = Some ?buf2" using assms(7) lb by (simp add: mem_write_def)
  have lb2: "length ?buf2 = 524288" using lb assms(7) by simp
  obtain x k2' where k2: "k2 = x # k2'" "x \<noteq> 45" using assms(6,8) by (cases k2) auto
  have g: "mem_get ?buf2 0 = Some x" "mem_get ?buf2 1 = Some (?buf2 ! 1)" unfolding mem_get_def lb2 using k2 by simp_all
  let ?r = "length k2 - 1"
  have bl: "before_last (?e\<lparr>ic_state := 1, ic_size := 128\<rparr>) = ?r"
    using k2 assms(7) by (simp add: before_last_def conv_simps)
  have "\<exists>bf. shift_down (?e\<lparr>ic_state := 1, ic_size := 128\<rparr>) ?r =
      Some (?e\<lparr>ic_state := 1, ic_size := 128, ic_buffer := bf, ic_position := int (length k2) - int ?r\<rparr>) \<and> length bf = 524288 \<and>
      take (length k2 - ?r) bf = drop ?r (take (length k2) ?buf2)"
    using shift_down_ok [of "?e\<lparr>ic_state := 1, ic_size := 128\<rparr>" ?r] lb2 assms(7) by simp
  then obtain bf where bf: "shift_down (?e\<lparr>ic_state := 1, ic_size := 128\<rparr>) ?r =
      Some (?e\<lparr>ic_state := 1, ic_size := 128, ic_buffer := bf, ic_position := int (length k2) - int ?r\<rparr>)" "length bf = 524288"
      "take (length k2 - ?r) bf = drop ?r (take (length k2) ?buf2)" by blast
  let ?f = "?e\<lparr>ic_state := 1, ic_size := 128, ic_buffer := bf, ic_position := int (length k2) - int ?r\<rparr>"
  have one: "length k2 - ?r = 1" "int (length k2) - int ?r = 1" using k2 by simp_all
  have "take 1 bf = drop ?r k2" using bf(3) unfolding one(1) by simp
  also have "\<dots> = [last k2]" by (cases k2 rule: rev_cases) (use assms(6) in simp_all)
  finally have "take 1 bf = [last k2]" .
  then have l: "bf ! 0 = last k2" by (cases bf) simp_all
  have "jpeg_header ?e = Some ?f" using g k2(2) bl bf(1) by (simp add: jpeg_header_def camera_consts)
  then have s2: "camera_step ?d (Receives (Bytes k2) t2) = Some (?f, [])"
    using r b2 wr2 assms(3,6) by (auto simp: camera_recv_def jpeg_bytes_def Let_def camera_consts)
  have ok2: "camera_event_ok ?d (Receives (Bytes k2) t2)" using b2 assms(7) by (simp add: asked_def)
  have "run_ok camera_event_ok camera_step c [Receives (Bytes k1) t1, Receives (Bytes k2) t2]"
    using s1 s2 ok2 b assms(4) by (simp del: camera_step.simps)
  moreover have "run_steps camera_step c [Receives (Bytes k1) t1, Receives (Bytes k2) t2] = Some (?f, [[], []])"
    using s1 s2 by (simp del: camera_step.simps)
  ultimately show ?thesis using one(2) l by (intro conjI exI [of _ ?f]) simp_all
qed

text \<open>The length a part announces is not compared with the buffer: after a header with one of more
  than 524288 bytes, a camera that sends on makes the thread write past the end of its buffer.\<close>

theorem jpeg_picture_overflows:
  assumes "boundary_ok B" "label_ok label" "ic_type c = CT_JPEG_GST" "ic_looping c" "ic_boundary c = B" "length (ic_buffer c) = 524288"
    and "ic_state c = 2" "ic_size c = 128" "0 \<le> ic_position c" "ic_position c < 128" "take (nat (ic_position c)) (ic_buffer c) @ k = gst_header B label n"
    and "k \<noteq> []" "length (gst_header B label n) \<le> 128" "524288 < n" "n \<le> 2147483647"
    and "\<forall>bs \<in> set chunks. bs \<noteq> []" "length (concat chunks) \<le> n" "524288 < length (concat chunks)"
  shows "let evs = map (\<lambda>bs. Receives (Bytes bs) now) (k # chunks)
         in run_ok camera_event_ok camera_step c evs \<and> run_steps camera_step c evs = None"
proof -
  let ?p = "nat (ic_position c)" and ?h = "gst_header B label n"
  have b: "before_recv c = c" "asked c = 128 - ic_position c" using assms(3,8-10) by (auto simp: before_recv_def asked_def)
  have lk: "?p + length k = length ?h" using assms(6,9,10) unfolding assms(11) [symmetric] by simp
  let ?buf = "take ?p (ic_buffer c) @ k @ drop (?p + length k) (ic_buffer c)"
  let ?c = "c\<lparr>ic_buffer := ?buf, ic_first := False, ic_position := int (length ?h)\<rparr>"
  have wr: "mem_write (ic_buffer c) ?p k = Some ?buf" by (rule mem_write_in) (use lk assms(6,13) in simp)
  have lb: "length ?buf = 524288" using lk assms(6,9,10,13) by simp
  have tk: "take (length ?h) ?buf = ?h @ []"
  proof -
    have eq: "?buf = ?h @ drop (?p + length k) (ic_buffer c)" unfolding assms(11) [symmetric] by simp
    show ?thesis unfolding eq by simp
  qed
  obtain bf where bf: "jpeg_header ?c = Some (?c\<lparr>ic_buffer := bf, ic_position := 0, ic_size := int n, ic_state := 3\<rparr>)" "length bf = 524288"
    using jpeg_header_ok [of B ?c label n "[]"] assms(1,2,5,13-15) lb tk by auto
  let ?d = "?c\<lparr>ic_buffer := bf, ic_position := 0, ic_size := int n, ic_state := 3\<rparr>"
  have "ic_position c + int (length k) = int (length ?h)" using lk assms(9) by simp
  then have st: "camera_step c (Receives (Bytes k) now) = Some (?d, [])"
    using assms(3,4,7,12) b wr bf(1) by (simp add: camera_recv_def jpeg_bytes_def Let_def camera_consts)
  have ok: "camera_event_ok c (Receives (Bytes k) now)" using b lk assms(9,13) by simp
  have "too_large ?d n" using assms(3,4,14,15) bf(2) by (simp add: too_large_def)
  from too_large_overflows [OF this assms(16), of now]
  show ?thesis using st ok assms(17,18) unfolding Let_def by (simp del: camera_step.simps camera_event_ok.simps)
qed

text \<open>Packets cut suitably that come at once meet the theorem's guard.\<close>

definition keeps :: "ip_camera \<Rightarrow> ip_camera \<Rightarrow> bool" where
  "keeps c c' \<longleftrightarrow> ic_looping c' = ic_looping c \<and> ic_last_frame_time c' = ic_last_frame_time c"

lemma shift_down_keeps: "shift_down c r = Some c' \<Longrightarrow> keeps c c'"
  by (auto simp: shift_down_def keeps_def split: if_splits bind_splits)

lemma jpeg_boundary_keeps: "jpeg_boundary c = Some c' \<Longrightarrow> keeps c c'"
  by (auto simp: jpeg_boundary_def keeps_def split: if_splits bind_splits option.splits)

lemma jpeg_length_keeps: "jpeg_length c = Some (c', start) \<Longrightarrow> keeps c c'"
  by (auto simp: jpeg_length_def keeps_def Let_def split: if_splits bind_splits option.splits)

lemma keeps_trans: "keeps a b \<Longrightarrow> keeps b c \<Longrightarrow> keeps a c"
  by (simp add: keeps_def)

lemma keeps_fields: "keeps (c\<lparr>ic_state := st\<rparr>) c' = keeps c c'" "keeps (c\<lparr>ic_size := n\<rparr>) c' = keeps c c'"
  "keeps c (c'\<lparr>ic_state := st\<rparr>) = keeps c c'" "keeps c (c'\<lparr>ic_size := n\<rparr>) = keeps c c'" "keeps c c"
  by (simp_all add: keeps_def)

lemma jpeg_find_boundary_keeps: "jpeg_find_boundary c = Some c' \<Longrightarrow> keeps c c'"
  by (auto simp: jpeg_find_boundary_def keeps_fields dest!: shift_down_keeps split: if_splits bind_splits option.splits)

lemma jpeg_find_start_keeps: "jpeg_find_start c = Some c' \<Longrightarrow> keeps c c'"
  by (auto simp: jpeg_find_start_def keeps_fields dest!: shift_down_keeps split: if_splits bind_splits option.splits)

lemma jpeg_header_keeps: "jpeg_header c = Some c' \<Longrightarrow> keeps c c'"
  unfolding jpeg_header_def
  by (auto simp: Let_def keeps_fields split: if_splits bind_splits option.splits
      dest!: shift_down_keeps jpeg_length_keeps jpeg_boundary_keeps intro: keeps_trans)

lemma jpeg_picture_looping:
  "jpeg_picture c now = Some (c', out) \<Longrightarrow> ic_looping c' = ic_looping c \<and> ic_last_frame_time c' \<in> {ic_last_frame_time c, now}"
  by (auto simp: jpeg_picture_def split: if_splits bind_splits)

lemma jpeg_bytes_looping:
  assumes "jpeg_bytes c bs now = Some (c', out)"
  shows "ic_looping c' = ic_looping c \<and> ic_last_frame_time c' \<in> {ic_last_frame_time c, now}"
proof -
  obtain d where d: "keeps c d" "ic_state d = ic_state c" and r: "jpeg_find_start d = Some c' \<or> jpeg_find_boundary d = Some c' \<or> jpeg_header d = Some c' \<or> jpeg_picture d now = Some (c', out)"
  proof -
    obtain buf where "mem_write (ic_buffer c) (nat (ic_position c)) bs = Some buf"
      using assms(1) by (auto simp: jpeg_bytes_def split: bind_splits)
    then show ?thesis
      using assms that [of "c\<lparr>ic_buffer := buf, ic_first := False, ic_position := ic_position c + int (length bs)\<rparr>"]
      by (auto simp: jpeg_bytes_def Let_def keeps_def split: if_splits)
  qed
  from r show ?thesis
    using d(1) jpeg_find_start_keeps [of d c'] jpeg_find_boundary_keeps [of d c'] jpeg_header_keeps [of d c'] jpeg_picture_looping [of d now c' out]
    unfolding keeps_def by auto
qed

lemma due_timely:
  assumes "boundary_ok B" "label_ok label"
  shows "jpeg_due B label c ks ps \<Longrightarrow> [] \<notin> set ks \<Longrightarrow> ic_looping c \<Longrightarrow> ic_last_frame_time c \<in> {0, now} \<Longrightarrow>
    run_ok timely camera_step c (map (\<lambda>k. Receives (Bytes k) now) ks)"
proof (induction ks arbitrary: c ps)
  case Nil
  then show ?case by simp
next
  case (Cons k ks)
  note d = Cons.prems(1) [unfolded jpeg_due_def]
  have br: "before_recv c = c" "asked c = ic_size c - ic_position c" using d by (auto simp: before_recv_def asked_def)
  have ok: "timely c (Receives (Bytes k) now)"
    using jpeg_due_room(2) [OF Cons.prems(1)] br Cons.prems(2-4) by (auto simp: timely_def)
  have s: "camera_step c (Receives (Bytes k) now) = jpeg_bytes c k now"
    using d br(1) Cons.prems(2,3) by (cases k) (auto simp: camera_recv_def camera_consts)
  have "ic_last_frame_time c \<noteq> 0 \<longrightarrow> 0 \<le> now - ic_last_frame_time c \<and> now - ic_last_frame_time c \<le> 15000" using Cons.prems(4) by auto
  from jpeg_bytes_correct [OF assms Cons.prems(1) this]
  obtain c1 out ps1 where r: "jpeg_bytes c k now = Some (c1, out)" "jpeg_due B label c1 ks ps1" unfolding packet_ok_def by blast
  have "ic_looping c1" "ic_last_frame_time c1 \<in> {0, now}"
    using jpeg_bytes_looping [OF r(1)] Cons.prems(3,4) by auto
  with Cons.IH [OF r(2)] Cons.prems(2) have "run_ok timely camera_step c1 (map (\<lambda>k. Receives (Bytes k) now) ks)" by simp
  then show ?case using ok s r(1) by (simp del: camera_step.simps)
qed

lemma packets_of_map: "[] \<notin> set ks \<Longrightarrow> packets_of (map (\<lambda>k. Receives (Bytes k) now) ks) = ks"
  by (induction ks) (auto simp: packets_of_def)

text \<open>A camera with a first part and another, in three packets each.\<close>

definition demo_label :: "byte list" where "demo_label = ascii ''Content-Length''"
definition demo_boundary :: "byte list" where "demo_boundary = ascii ''--a''"
definition demo_picture :: "byte list" where "demo_picture = replicate 128 7"
definition demo_camera :: ip_camera where "demo_camera = new_ip_camera CT_JPEG_GST empty_buffer"
definition demo_part :: "byte list \<Rightarrow> byte list" where "demo_part P = P @ gst_header demo_boundary demo_label 128 @ demo_picture"
definition demo_packets :: "byte list \<Rightarrow> byte list list" where
  "demo_packets P = [take 98 (demo_part P), take (30 + length P) (drop 98 (demo_part P)), drop (128 + length P) (demo_part P)]"

lemma decimal_128: "decimal 128 = [49, 50, 56]"
  by (simp add: decimal.simps)

lemma demo_ok: "boundary_ok demo_boundary" "label_ok demo_label"
  by (simp_all add: boundary_ok_def demo_boundary_def ascii_eval label_ok_def demo_label_def is_space_def)

lemma demo_lengths: "length (gst_header demo_boundary demo_label 128) = 54" "length demo_picture = 128" "length (demo_part P) = 182 + length P"
  "length demo_boundary = 3"
  using gst_header_length [OF demo_ok(2), of demo_boundary 128]
  by (simp_all add: line_end_def demo_boundary_def decimal_128 demo_picture_def demo_part_def)

lemma demo_cut:
  assumes "length P \<le> 2"
  shows "part_cut P demo_boundary demo_label (demo_picture, demo_packets P)"
proof -
  let ?d = "demo_part P"
  have "take (30 + length P) (drop 98 ?d) @ drop (128 + length P) ?d = drop 98 ?d"
    using append_take_drop_id [of "30 + length P" "drop 98 ?d"] by simp
  then have j: "concat (demo_packets P) = P @ gst_header demo_boundary demo_label (length demo_picture) @ demo_picture"
    by (simp add: demo_packets_def demo_part_def [symmetric] demo_lengths)
  have l: "length (take 98 ?d) = 98" "length (take (30 + length P) (drop 98 ?d)) = 30 + length P" "length (drop (128 + length P) ?d) = 54"
    using demo_lengths by simp_all
  then have "[] \<notin> set (demo_packets P)" unfolding demo_packets_def by force
  then show ?thesis
    using j l(1,2) demo_lengths assms unfolding demo_packets_def by (simp del: length_take length_drop concat.simps add: demo_packets_def)
qed

lemma jpeg_camera_received_witness:
  "let evs = Polls 5 True # map (\<lambda>k. Receives (Bytes k) 5) (demo_packets [] @ demo_packets CRLF) in
   \<exists>c' outs. run_steps camera_step (camera_connect demo_camera True 5) evs = Some (c', outs) \<and>
     map seen (concat outs) = [(JPEG_TYPE, 0, 0, demo_picture), (JPEG_TYPE, 0, 0, demo_picture)]"
proof -
  let ?ks = "demo_packets [] @ demo_packets CRLF"
  let ?evs = "Polls 5 True # map (\<lambda>k. Receives (Bytes k) 5) ?ks"
  let ?c = "(camera_connect demo_camera True 5)\<lparr>ic_looping := True, ic_first := True\<rparr>"
  have cam: "ic_type demo_camera = CT_JPEG_GST" "length (ic_buffer demo_camera) = 524288" "\<not> ic_disconnect demo_camera" "counting (ic_counter demo_camera)"
    by (simp_all add: demo_camera_def new_ip_camera_def counting_def)
  have cut: "part_cut [] demo_boundary demo_label (demo_picture, demo_packets [])"
    "\<forall>p \<in> set [(demo_picture, demo_packets CRLF)]. part_cut CRLF demo_boundary demo_label p"
    using demo_cut by (simp_all add: CRLF_def)
  have due: "jpeg_due demo_boundary demo_label ?c ?ks [(JPEG_TYPE, 0, 0, demo_picture), (JPEG_TYPE, 0, 0, demo_picture)]"
    using first_part_due [OF cut(1) parts_due_all [OF cut(2)]] cam counting_reset
    by (simp add: jpeg_due_def camera_connect_def camera_consts)
  have ne: "[] \<notin> set ?ks" using cut by (auto simp: demo_packets_def)
  have loop: "ic_looping ?c" "ic_last_frame_time ?c \<in> {0, 5}" by (simp_all add: camera_connect_def)
  have st: "camera_step (camera_connect demo_camera True 5) (Polls 5 True) = Some (?c, [])"
    by (simp add: camera_connect_def camera_poll_def demo_camera_def new_ip_camera_def camera_consts)
  have ok: "run_ok timely camera_step (camera_connect demo_camera True 5) ?evs"
    using due_timely [OF demo_ok(1,2) due ne loop] st by (simp add: timely_def camera_connect_def demo_camera_def new_ip_camera_def del: camera_step.simps)
  have "packets_of ?evs = packets_of (map (\<lambda>k. Receives (Bytes k) 5) ?ks)" by (simp add: packets_of_def)
  then have "packets_of ?evs = ?ks" using packets_of_map [OF ne] by simp
  then have pk: "packets_of ?evs = concat (map snd ((demo_picture, demo_packets []) # [(demo_picture, demo_packets CRLF)]))" by simp
  have "jpeg_session demo_boundary demo_label demo_camera 5 ?evs (demo_picture, demo_packets []) [(demo_picture, demo_packets CRLF)]"
    unfolding jpeg_session_def using demo_ok cam cut ok pk by blast
  from jpeg_camera_received [OF this] show ?thesis unfolding Let_def by (elim exE conjE) (intro exI conjI, assumption, simp)
qed

definition demo_waiting :: ip_camera where
  "demo_waiting = demo_camera\<lparr>ic_client := True, ic_connected := True, ic_looping := True, ic_boundary := demo_boundary, ic_state := 1, ic_size := 128\<rparr>"

lemma demo_ready: "ready_for_part demo_boundary demo_waiting"
  by (simp add: ready_for_part_def demo_waiting_def demo_camera_def new_ip_camera_def counting_def camera_consts)

lemma jpeg_full_packet_lost_witness:
  "\<exists>c'. run_steps camera_step demo_waiting [Receives (Bytes (demo_boundary @ replicate 125 0)) 5, Receives (Bytes [1, 2]) 6] = Some (c', [[], []]) \<and>
     ic_state c' = 1 \<and> ic_buffer c' ! 0 = 2"
proof -
  have "length (demo_boundary @ replicate 125 0) = 128" "take (length demo_boundary) (demo_boundary @ replicate 125 0) = demo_boundary"
    using demo_lengths by simp_all
  moreover have "ic_looping demo_waiting" by (simp add: demo_waiting_def)
  ultimately show ?thesis
    using jpeg_full_packet_lost [OF demo_ok(1) demo_ready, of "demo_boundary @ replicate 125 0" "[1, 2]" 5 6] by auto
qed

lemma jpeg_picture_overflows_witness:
  "run_steps camera_step (demo_waiting\<lparr>ic_state := 2\<rparr>)
     (map (\<lambda>bs. Receives (Bytes bs) 9) [gst_header demo_boundary demo_label 600000, 1 # empty_buffer]) = None"
proof -
  let ?c = "demo_waiting\<lparr>ic_state := 2\<rparr>" and ?h = "gst_header demo_boundary demo_label 600000"
  have c: "ic_type ?c = CT_JPEG_GST" "ic_looping ?c" "ic_boundary ?c = demo_boundary" "length (ic_buffer ?c) = 524288" "ic_state ?c = 2" "ic_size ?c = 128"
    "0 \<le> ic_position ?c" "ic_position ?c < 128" "take (nat (ic_position ?c)) (ic_buffer ?c) @ ?h = ?h"
    by (simp_all add: demo_waiting_def demo_camera_def new_ip_camera_def)
  have h: "length ?h \<le> 128"
    using gst_header_length [OF demo_ok(2), of demo_boundary 600000] decimal_length [of 600000] by (simp add: line_end_def demo_boundary_def)
  have ne: "?h \<noteq> []" by (simp add: gst_header_def header_text_def)
  have "let evs = map (\<lambda>bs. Receives (Bytes bs) 9) (?h # [1 # empty_buffer])
     in run_ok camera_event_ok camera_step ?c evs \<and> run_steps camera_step ?c evs = None"
    by (rule jpeg_picture_overflows [OF demo_ok(1,2) c ne h]) simp_all
  then show ?thesis unfolding Let_def by blast
qed

end
