(* ===== verification/Spec2Isabelle.thy ===== *)
theory Spec2Isabelle
  imports Comm_Protocol Message_Queue Gain_Control Led_Script Fan Sha256 Http_Text Http_Server Call_Routing Script_Registry
    Voice_Response Arduino_Link Lua_Utils Audio_Monitor Master_Port Camera_Usage Camera_Jpeg
begin

text \<open>
  A verification development for the intercom repository: a door intercom whose host program
  (intercom/, C++) takes SIP calls, runs a Lua script per call, drives the sound card and talks to
  a microcontroller (Arduino/, ESP32/) with the buttons and lights; beside it a camera streamer
  (mjpg-streamer/, C) with an HTTP interface, a server of cameras' pictures and sound
  (wapa_httpd/, C++) and a client that listens to the intercom's sound (audio_client/).

  The parts and the theories that model them, each from the sources named in it:

  Between host and board. \<open>Comm_Protocol\<close> is the framing protocol both ends compile
  (comm_prot_parser.h): a parser fed byte by byte with chunks, its checksum, and the functions that
  build packets. \<open>Arduino_Link\<close> is the host's controller on top of it
  (intercom/pjs_arduino_controller.cpp): reading from the port, answering packets, sending the
  outputs again after a board restarts, with the writers of the outputs as concurrent steps.
  \<open>Led_Script\<close> and \<open>Fan\<close> are the board's interpreter of light scripts (Arduino/led_controller.h)
  and its fan regulation (Arduino/fan.h).

  Sound. \<open>Gain_Control\<close> is the gain control (intercom/pjs_gaincontrol.h), \<open>Echo_Canceller\<close> the echo
  canceller around Speex (intercom/echo_canceller.cpp), \<open>Circ_Buf\<close> the circular buffer between the
  sound card's threads, \<open>Master_Port\<close> the port that joins the three between the sound card and the
  conference bridge (intercom/pjs_intercom.cpp). \<open>Voice_Response\<close> plays and records files, tones and
  recognised digits for the scripts (intercom/pjs_vr.cpp). \<open>Audio_Monitor\<close> follows the sound from the
  bridge through the monitor port, its thread and the published messages to the client's standard
  output; \<open>Ulaw\<close> has the client's table.

  Calls and scripts. \<open>Script_Registry\<close> has the registry of scripts and calls, \<open>Call_Routing\<close> the
  connections of a call's ports (intercom/pjs_intercom.cpp, pjs_intercom_script_interface.h),
  \<open>Message_Queue\<close> the events, callbacks and queues by which threads wake each other
  (intercom/pjs_utils.h, pjs_messages_queue.h). \<open>Md32\<close> and \<open>Sha256\<close> are the digest
  (intercom/crypto/), \<open>Base64\<close> and \<open>Lua_Utils\<close> the coding functions a script calls
  (intercom/pjs_lua_libs.cpp, .h).

  The HTTP output of the streamer (mjpg-streamer/plugins/output_http/httpd.c): \<open>Http_Text\<close> has the
  text routines, \<open>Http_Read\<close> the buffered socket reader, \<open>Http_Json\<close> the generated documents,
  \<open>Http_Server\<close> the request parser, authentication, the opening of files, commands, the streams and
  the thread of a connection.

  The camera server (wapa_httpd/). \<open>Object_Store\<close> has the objects and blocks that C++ creates and
  deletes, \<open>Frame_Memory\<close> the allocator of frames and \<open>Frame_Holder\<close> the frames with their reference
  counts (wapa_http_server.h, .cpp), \<open>Frame_Server\<close> the requests, their queues and the loops that send
  to the clients, \<open>Camera_Usage\<close> when a camera runs. \<open>Byte_Search\<close>, \<open>Avr_Counter\<close> and \<open>Camera_Stream\<close>
  are the thread that reads from network cameras (wapa_camera.cpp); \<open>Camera_Mpeg4\<close> and \<open>Camera_Jpeg\<close>
  show what it makes of the two kinds of stream. At the end of this theory the thread and the server
  are put together.

  How state and operations correspond. A class or struct is a record with the fields the modelled
  operations use, an operation is a function from the state to the new state and its result, an
  operation another thread may interrupt is one step for each stretch between two points where it
  takes or gives up a lock, and several parties are a list of steps in any order (\<open>run_steps\<close> of
  \<open>Prelude\<close>, or an inductive step relation). The value None is undefined behaviour: an access
  outside a block of memory, signed overflow, division by zero, a null or unset pointer, or a loop
  that never ends; so a theorem that a run is Some says that none of these happens. Errors the code
  reports are values. Integers are words, or ints reduced where the code narrows them
  (\<open>to_s16\<close> and its like). \<open>Prelude\<close> also has the contract \<open>guarded_machine\<close>: steps that keep an
  invariant as long as their inputs meet a guard never fail; the components
  with such a claim interpret it. \<open>Circ_Buf\<close> has the contract of a sample queue, on which the
  threads of \<open>Master_Port\<close> and \<open>Audio_Monitor\<close> rely.

  What the lemmas show. Safety: for every input and interleaving allowed by the stated guard a
  component stays inside its memory and its numbers inside their types (protocol, HTTP connection,
  gain control, echo canceller, master port, voice response, link, camera server). Function: what goes in comes
  out as intended (packets, digests, Base64, the queue between threads, the routing of calls, the
  monitor's sound, the references of the echo canceller, the cameras' pictures up to the clients'
  sockets). Where the code departs from its own
  purpose or from its documentation a theorem shows the departure on all the inputs concerned.

  Bounds and fuel. A light script is run with fuel for the iterations of one round; the theorem on
  returning gives the bound, one on scripts that never yield shows that no fuel is enough for them.
  Reading a request's header lines has as fuel the bytes left on the connection, each line taking
  at least one. Other loops recurse on what they consume. In the camera
  server frames have at most 4294934095 bytes, so that their rounded sizes fit 32 bits, the pictures
  of JPEG cameras lie in buffers of at least 2051 bytes, which the scan for tables may read, and
  malloc succeeds; network cameras meet the first two with their buffer of 524288 bytes. Offering a
  frame to one request and one turn of a client's loop are single steps. Pictures of MJPEG cameras
  have at least 128 bytes, the length of the first read of a part.

  Not modelled. Third-party code compiled in or linked (Lua and its libraries, SQLite, libconfig,
  PJSIP, ZeroMQ, Speex, the serial port library, the sensor bus): where the modelled code relies on
  it, it is a parameter with its documented behaviour as a named hypothesis. Generated bindings.
  Start-up, configuration and sequences of library calls with no state of their own (the SIP and
  sound set-up in intercom/pjs_intercom.cpp, ESP32/Intercom/src/main.cpp). The cameras' kernel
  interface in both servers, the streamer's other plugins, and of wapa_httpd/ the start-up, the
  reading of the configuration, PTLib's HTTP and the sound source, whose conversion is that of
  audio_client/. SHA-384 and
  SHA-512, which nothing calls. The scheduling of threads and time itself: a step may come at any
  moment, so liveness beyond a step's own return is not claimed.
\<close>

section \<open>From the cameras to the clients\<close>

text \<open>A picture that the thread of a network camera hands over in some session.\<close>

inductive camera_hands :: "picture \<Rightarrow> bool" where
  mpeg4_hands: "mpeg4_session c start evs big_size small_size pics later \<Longrightarrow>
    run_steps camera_step (camera_connect c True start) evs = Some (c', outs) \<Longrightarrow> p \<in> set (concat outs) \<Longrightarrow> camera_hands p"
| jpeg_hands: "jpeg_session B label c start evs first others \<Longrightarrow>
    run_steps camera_step (camera_connect c True start) evs = Some (c', outs) \<Longrightarrow> p \<in> set (concat outs) \<Longrightarrow> camera_hands p"

lemma camera_hands_ok: "camera_hands p \<Longrightarrow> event_ok sv (hand_over camera p)"
proof (induction rule: camera_hands.induct)
  case (mpeg4_hands c start evs big_size small_size pics later c' outs p)
  obtain c1 outs1 ps' where "run_steps camera_step (camera_connect c True start) evs = Some (c1, outs1)" "list_all whole (concat outs1)"
    using mpeg4_session_run [OF mpeg4_hands(1)] by metis
  then show ?case using mpeg4_hands(2,3) by (auto simp: list_all_iff intro: whole_event_ok simp del: event_ok.simps)
next
  case (jpeg_hands B label c start evs first others c' outs p)
  obtain c1 outs1 where "run_steps camera_step (camera_connect c True start) evs = Some (c1, outs1)" "list_all fits (concat outs1)"
    using jpeg_session_run [OF jpeg_hands(1)] by metis
  then show ?case using jpeg_hands(2,3) by (auto simp: list_all_iff intro: fits_event_ok simp del: event_ok.simps)
qed

fun fed :: "event \<Rightarrow> bool" where
  "fed (Frame_Arrives camera buf n type width height interval) =
     (\<exists>p. camera_hands p \<and> hand_over camera p = Frame_Arrives camera buf n type width height interval)"
| "fed _ = True"

lemma fed_ok: "fed ev \<Longrightarrow> event_ok sv ev"
proof (cases ev)
  case (Frame_Arrives camera buf n type width height interval)
  assume "fed ev"
  then obtain p where "camera_hands p" "hand_over camera p = ev" unfolding Frame_Arrives by (simp only: fed.simps) blast
  then show ?thesis using camera_hands_ok [of p sv camera] by simp
qed simp_all

lemma fed_run_ok: "\<forall>ev \<in> set evs. fed ev \<Longrightarrow> run_ok event_ok server_step sv evs"
  by (induction evs arbitrary: sv) (auto simp: fed_ok simp del: event_ok.simps server_step.simps split: option.split)



end
